(* ===== verification/Prelude.thy ===== *)
theory Prelude
  imports Main "HOL-Library.Word"
begin

text \<open>
  Shared vocabulary of the development: the machine integers of the kernel as words, the
  checked and saturating operations of Rust's integer types, \<open>Iterator::position\<close>,
  little-endian byte strings, and the result type \<open>'e + 'a\<close> with its sequencing.
  The collection \<open>abi_simps\<close> holds the numeric constants of the shared ABI crate.
\<close>

unbundle bit_operations_syntax

named_theorems abi_simps \<open>numeric constants of the ABI and of the kernel tables\<close>

type_synonym u8 = "8 word"
type_synonym u16 = "16 word"
type_synonym u32 = "32 word"
type_synonym u64 = "64 word"

section \<open>Counters of type usize\<close>

text \<open>
  Indices and lengths are \<open>nat\<close>; a counter that saturates is clamped at \<open>usize::MAX\<close> of
  the 64-bit target.
\<close>

definition usize_max :: nat where
  "usize_max = 2 ^ 64 - 1"

definition saturating_add :: "nat \<Rightarrow> nat \<Rightarrow> nat" where
  "saturating_add a b = min (a + b) usize_max"

definition saturating_sub :: "nat \<Rightarrow> nat \<Rightarrow> nat" where
  "saturating_sub a b = a - b"

definition usize_add :: "nat \<Rightarrow> nat \<Rightarrow> nat option" where
  "usize_add a b = (if a + b \<le> usize_max then Some (a + b) else None)"

definition usize_mul :: "nat \<Rightarrow> nat \<Rightarrow> nat option" where
  "usize_mul a b = (if a * b \<le> usize_max then Some (a * b) else None)"

lemma usize_add_Some_iff: "usize_add a b = Some c \<longleftrightarrow> c = a + b \<and> a + b \<le> usize_max"
  by (auto simp: usize_add_def)

lemma saturating_add_exact: "a + b \<le> usize_max \<Longrightarrow> saturating_add a b = a + b"
  by (simp add: saturating_add_def)

lemma usize_max_ge [simp]: "65536 \<le> usize_max"
  by (simp add: usize_max_def)

section \<open>Checked word arithmetic\<close>

definition checked_add :: "'a::len word \<Rightarrow> 'a word \<Rightarrow> 'a word option" where
  "checked_add a b = (if unat a + unat b < 2 ^ LENGTH('a) then Some (a + b) else None)"

definition checked_sub :: "'a::len word \<Rightarrow> 'a word \<Rightarrow> 'a word option" where
  "checked_sub a b = (if b \<le> a then Some (a - b) else None)"

definition checked_mul :: "'a::len word \<Rightarrow> 'a word \<Rightarrow> 'a word option" where
  "checked_mul a b = (if unat a * unat b < 2 ^ LENGTH('a) then Some (a * b) else None)"

lemma unat_u64_less: "unat (a :: u64) < 18446744073709551616"
proof -
  have "unat a < 2 ^ LENGTH(64)" by (rule unsigned_less)
  then show ?thesis by simp
qed

lemma checked_add_SomeD:
  "checked_add a b = Some c \<Longrightarrow> c = a + b \<and> unat c = unat a + unat b"
  by (auto simp: checked_add_def unat_word_ariths split: if_splits)

lemma checked_add_unat: "checked_add a b = Some c \<Longrightarrow> unat c = unat a + unat b"
  by (blast dest: checked_add_SomeD)

lemma unat_u64_max: "unat (- 1 :: u64) = 18446744073709551615"
  by (simp add: unsigned_minus_1_eq_mask mask_eq_exp_minus_1)

lemma checked_sub_SomeD:
  "checked_sub a b = Some c \<Longrightarrow> c = a - b \<and> unat c = unat a - unat b \<and> unat b \<le> unat a"
  by (auto simp: checked_sub_def unat_sub word_le_nat_alt split: if_splits)

lemma checked_mul_SomeD:
  "checked_mul a b = Some c \<Longrightarrow> c = a * b \<and> unat c = unat a * unat b"
  by (auto simp: checked_mul_def unat_word_ariths split: if_splits)

section \<open>Iterator::position\<close>

fun position :: "('a \<Rightarrow> bool) \<Rightarrow> 'a list \<Rightarrow> nat option" where
  "position P [] = None"
| "position P (x # xs) = (if P x then Some 0 else map_option Suc (position P xs))"

lemma position_Some_iff:
  "position P xs = Some i \<longleftrightarrow> i < length xs \<and> P (xs ! i) \<and> (\<forall>j<i. \<not> P (xs ! j))"
proof (induction xs arbitrary: i)
  case Nil
  then show ?case by simp
next
  case (Cons x xs)
  show ?case
  proof (cases "P x")
    case True
    then show ?thesis by (cases i) auto
  next
    case False
    with Cons.IH show ?thesis
      by (cases i) (auto simp: less_Suc_eq_0_disj)
  qed
qed

lemma position_None_iff: "position P xs = None \<longleftrightarrow> (\<forall>x \<in> set xs. \<not> P x)"
  by (induction xs) auto

section \<open>Results\<close>

text \<open>Rust's \<open>?\<close> operator on \<open>Result\<close>: an error leaves the function at once.\<close>

definition rbind :: "'e + 'a \<Rightarrow> ('a \<Rightarrow> 'e + 'b) \<Rightarrow> 'e + 'b" where
  "rbind r f = (case r of Inl e \<Rightarrow> Inl e | Inr x \<Rightarrow> f x)"

definition ok_or :: "'e \<Rightarrow> 'a option \<Rightarrow> 'e + 'a" where
  "ok_or e v = (case v of None \<Rightarrow> Inl e | Some x \<Rightarrow> Inr x)"

definition map_err :: "('e \<Rightarrow> 'f) \<Rightarrow> 'e + 'a \<Rightarrow> 'f + 'a" where
  "map_err f r = (case r of Inl e \<Rightarrow> Inl (f e) | Inr x \<Rightarrow> Inr x)"

lemma rbind_simps [simp]:
  "rbind (Inl e) f = Inl e" "rbind (Inr x) f = f x"
  by (simp_all add: rbind_def)

lemma rbind_Inr_iff: "rbind r f = Inr y \<longleftrightarrow> (\<exists>x. r = Inr x \<and> f x = Inr y)"
  by (cases r) auto

lemma ok_or_simps [simp]: "ok_or e None = Inl e" "ok_or e (Some x) = Inr x"
  by (simp_all add: ok_or_def)

lemma ok_or_Inr_iff [simp]: "ok_or e v = Inr x \<longleftrightarrow> v = Some x"
  by (cases v) auto

lemma map_err_simps [simp]: "map_err f (Inl e) = Inl (f e)" "map_err f (Inr x) = Inr x"
  by (simp_all add: map_err_def)

lemma map_err_Inr_iff [simp]: "map_err f r = Inr x \<longleftrightarrow> r = Inr x"
  by (cases r) auto

lemma case_option_Inr_iff:
  "(case v of None \<Rightarrow> Inl e | Some x \<Rightarrow> f x) = Inr y \<longleftrightarrow> (\<exists>x. v = Some x \<and> f x = Inr y)"
  by (cases v) auto

section \<open>Little-endian byte strings\<close>

text \<open>\<open>to_le n w\<close> is \<open>w.to_le_bytes()\<close> for an \<open>n\<close>-byte integer, \<open>from_le\<close> its inverse.\<close>

fun to_le :: "nat \<Rightarrow> 'a::len word \<Rightarrow> u8 list" where
  "to_le 0 w = []"
| "to_le (Suc n) w = ucast w # to_le n (drop_bit 8 w)"

fun from_le :: "u8 list \<Rightarrow> 'a::len word" where
  "from_le [] = 0"
| "from_le (b # bs) = ucast b OR push_bit 8 (from_le bs)"

lemma length_to_le [simp]: "length (to_le n w) = n"
  by (induction n arbitrary: w) auto

lemma from_le_to_le_take_bit:
  fixes w :: "'a::len word"
  shows "from_le (to_le n w) = take_bit (8 * n) w"
proof (induction n arbitrary: w)
  case 0
  then show ?case by simp
next
  case (Suc n)
  have "from_le (to_le (Suc n) w) =
      (ucast (ucast w :: u8) :: 'a word) OR push_bit 8 (take_bit (8 * n) (drop_bit 8 w))"
    by (simp add: Suc.IH)
  also have "\<dots> = take_bit (8 * Suc n) w"
    by (rule bit_word_eqI)
      (auto simp: bit_simps not_less le_add_diff_inverse)
  finally show ?case .
qed

lemma from_le_to_le:
  fixes w :: "'a::len word"
  assumes "LENGTH('a) \<le> 8 * n"
  shows "from_le (to_le n w) = w"
  using assms by (simp add: from_le_to_le_take_bit take_bit_word_eq_self)

lemma from_le_to_le_u16 [simp]: "from_le (to_le 2 (w :: u16)) = w"
  by (simp add: from_le_to_le)

lemma from_le_to_le_u32 [simp]: "from_le (to_le 4 (w :: u32)) = w"
  by (simp add: from_le_to_le)

lemma from_le_to_le_u64 [simp]: "from_le (to_le 8 (w :: u64)) = w"
  by (simp add: from_le_to_le)

lemma bit_from_le:
  "bit (from_le bs :: 'a::len word) m \<longleftrightarrow>
     m < LENGTH('a) \<and> m div 8 < length bs \<and> bit (bs ! (m div 8)) (m mod 8)"
proof (induction bs arbitrary: m)
  case Nil
  then show ?case by simp
next
  case (Cons b bs)
  show ?case
  proof (cases "m < 8")
    case True
    then show ?thesis by (auto simp: bit_simps dest: bit_imp_le_length)
  next
    case False
    then have "m div 8 = Suc ((m - 8) div 8)" "m mod 8 = (m - 8) mod 8"
      by (simp_all add: div_if mod_if)
    with False show ?thesis
      using Cons.IH [of "m - 8"] by (auto simp: bit_simps dest: bit_imp_le_length)
  qed
qed

lemma from_le_inject:
  assumes "length xs = length ys" "8 * length xs \<le> LENGTH('a::len)"
    and eq: "(from_le xs :: 'a word) = from_le ys"
  shows "xs = ys"
proof (rule nth_equalityI)
  show "length xs = length ys" by fact
next
  fix i assume i: "i < length xs"
  show "xs ! i = ys ! i"
  proof (rule bit_word_eqI)
    fix j assume j: "j < LENGTH(8)"
    then have "(8 * i + j) div 8 = i" "(8 * i + j) mod 8 = j" "8 * i + j < LENGTH('a)"
      using i assms(2) by simp_all
    with bit_from_le [of xs "8 * i + j", where 'a = 'a] bit_from_le [of ys "8 * i + j", where 'a = 'a]
    show "bit (xs ! i) j \<longleftrightarrow> bit (ys ! i) j"
      using eq i assms(1) by simp
  qed
qed

section \<open>Slices of byte strings\<close>

text \<open>
  \<open>slice a b xs\<close> is \<open>&xs[a..b]\<close>, \<open>splice a bs xs\<close> is
  \<open>xs[a..a + bs.len()].copy_from_slice(bs)\<close>. Rust panics when the range leaves the slice;
  the definitions are used only where the range is inside it.
\<close>

definition slice :: "nat \<Rightarrow> nat \<Rightarrow> 'a list \<Rightarrow> 'a list" where
  "slice a b xs = take (b - a) (drop a xs)"

definition splice :: "nat \<Rightarrow> 'a list \<Rightarrow> 'a list \<Rightarrow> 'a list" where
  "splice a bs xs = take a xs @ bs @ drop (a + length bs) xs"

lemma length_slice [simp]: "length (slice a b xs) = min (b - a) (length xs - a)"
  by (simp add: slice_def)

lemma length_splice [simp]:
  "a + length bs \<le> length xs \<Longrightarrow> length (splice a bs xs) = length xs"
  by (simp add: splice_def)

lemma drop_splice [simp]:
  "a + length bs \<le> n \<Longrightarrow> a + length bs \<le> length xs \<Longrightarrow> drop n (splice a bs xs) = drop n xs"
  by (simp add: splice_def)

lemma take_splice: "a + length bs \<le> length xs \<Longrightarrow> take (a + length bs) (splice a bs xs) = take a xs @ bs"
  by (simp add: splice_def)

lemma slice_splice_same [simp]:
  "a + length bs \<le> length xs \<Longrightarrow> b = a + length bs \<Longrightarrow> slice a b (splice a bs xs) = bs"
  by (simp add: slice_def splice_def)

lemma slice_splice_before [simp]:
  assumes "b \<le> c" "c + length bs \<le> length xs"
  shows "slice a b (splice c bs xs) = slice a b xs"
  using assms by (intro nth_equalityI) (auto simp: slice_def splice_def nth_append)

lemma slice_splice_after [simp]:
  assumes "c + length bs \<le> a" "c + length bs \<le> length xs"
  shows "slice a b (splice c bs xs) = slice a b xs"
proof -
  have "drop a (splice c bs xs) = drop a xs"
    using assms by (simp add: splice_def)
  then show ?thesis by (simp add: slice_def)
qed

lemma nth_splice_before [simp]:
  "i < c \<Longrightarrow> c + length bs \<le> length xs \<Longrightarrow> splice c bs xs ! i = xs ! i"
  by (simp add: splice_def nth_append)

lemma nth_splice_after [simp]:
  "c + length bs \<le> i \<Longrightarrow> c + length bs \<le> length xs \<Longrightarrow> splice c bs xs ! i = xs ! i"
  by (auto simp: splice_def nth_append)

lemma slice_update_outside [simp]:
  "i < a \<or> b \<le> i \<Longrightarrow> slice a b (xs[i := x]) = slice a b xs"
  by (intro nth_equalityI) (auto simp: slice_def nth_list_update)

lemma slice_slice:
  "b \<le> d - c \<Longrightarrow> slice a b (slice c d xs) = slice (c + a) (c + b) xs"
  by (simp add: slice_def drop_take take_take min_def add.commute)

lemma slice_all [simp]: "length xs \<le> b \<Longrightarrow> slice 0 b xs = xs"
  by (simp add: slice_def)

text \<open>A range of word-valued indices, \<open>a..b\<close>.\<close>

definition word_range :: "'a::len word \<Rightarrow> 'a word \<Rightarrow> 'a word list" where
  "word_range a b = map word_of_nat [unat a..<unat b]"

lemma set_word_range: "set (word_range a b) = {x. a \<le> x \<and> x < b}"
proof -
  have "x \<in> set (word_range a b) \<longleftrightarrow> a \<le> x \<and> x < b" for x
  proof
    assume "x \<in> set (word_range a b)"
    then obtain n where n: "x = word_of_nat n" "unat a \<le> n" "n < unat b"
      by (auto simp: word_range_def)
    then have "unat x = n"
      using order.strict_trans [OF n(3) unsigned_less [of b]] by (simp add: unat_of_nat)
    with n show "a \<le> x \<and> x < b" by (simp add: word_le_nat_alt word_less_nat_alt)
  next
    assume "a \<le> x \<and> x < b"
    then have "x = word_of_nat (unat x) \<and> unat a \<le> unat x \<and> unat x < unat b"
      by (simp add: word_le_nat_alt word_less_nat_alt)
    then show "x \<in> set (word_range a b)"
      unfolding word_range_def by (metis (no_types, lifting) atLeastLessThan_iff imageI set_map set_upt)
  qed
  then show ?thesis by blast
qed

end
