(* ===== verification/Crypto.thy ===== *)
theory Crypto
  imports Prelude
begin

unbundle bit_operations_syntax

text \<open>
  Password hashing, \<open>kernel/src/crypto.rs\<close>: SHA-256 written as one pass that pads each block
  as it is reached, HMAC over fixed buffers and PBKDF2. Beside them are the same functions
  without buffers and offsets, over the same round and constants; theory
  \<open>Crypto_Standard\<close> compares these with the standards.
\<close>

section \<open>The compression function\<close>

definition sha256_initial :: "u32 list" where
  "sha256_initial =
    [0x6a09e667, 0xbb67ae85, 0x3c6ef372, 0xa54ff53a, 0x510e527f, 0x9b05688c, 0x1f83d9ab, 0x5be0cd19]"

text \<open>The constants in rows of four.\<close>

definition sha256_k :: "u32 list" where
  "sha256_k = concat
    [[0x428a2f98, 0x71374491, 0xb5c0fbcf, 0xe9b5dba5],
     [0x3956c25b, 0x59f111f1, 0x923f82a4, 0xab1c5ed5],
     [0xd807aa98, 0x12835b01, 0x243185be, 0x550c7dc3],
     [0x72be5d74, 0x80deb1fe, 0x9bdc06a7, 0xc19bf174],
     [0xe49b69c1, 0xefbe4786, 0x0fc19dc6, 0x240ca1cc],
     [0x2de92c6f, 0x4a7484aa, 0x5cb0a9dc, 0x76f988da],
     [0x983e5152, 0xa831c66d, 0xb00327c8, 0xbf597fc7],
     [0xc6e00bf3, 0xd5a79147, 0x06ca6351, 0x14292967],
     [0x27b70a85, 0x2e1b2138, 0x4d2c6dfc, 0x53380d13],
     [0x650a7354, 0x766a0abb, 0x81c2c92e, 0x92722c85],
     [0xa2bfe8a1, 0xa81a664b, 0xc24b8b70, 0xc76c51a3],
     [0xd192e819, 0xd6990624, 0xf40e3585, 0x106aa070],
     [0x19a4c116, 0x1e376c08, 0x2748774c, 0x34b0bcb5],
     [0x391c0cb3, 0x4ed8aa4a, 0x5b9cca4f, 0x682e6ff3],
     [0x748f82ee, 0x78a5636f, 0x84c87814, 0x8cc70208],
     [0x90befffa, 0xa4506ceb, 0xbef9a3f7, 0xc67178f2]]"

text \<open>Big-endian conversions: the byte-reversed little-endian ones.\<close>

definition to_be :: "nat \<Rightarrow> 'a::len word \<Rightarrow> u8 list" where
  "to_be n w = rev (to_le n w)"

definition from_be :: "u8 list \<Rightarrow> 'a::len word" where
  "from_be bs = from_le (rev bs)"

lemma length_to_be [simp]: "length (to_be n w) = n"
  by (simp add: to_be_def)

definition small_sigma0 :: "u32 \<Rightarrow> u32" where
  "small_sigma0 x = word_rotr 7 x XOR word_rotr 18 x XOR drop_bit 3 x"

definition small_sigma1 :: "u32 \<Rightarrow> u32" where
  "small_sigma1 y = word_rotr 17 y XOR word_rotr 19 y XOR drop_bit 10 y"

definition load_word :: "u8 list \<Rightarrow> nat \<Rightarrow> u32 list \<Rightarrow> u32 list" where
  "load_word block index words = words[index := from_be (slice (index * 4) (index * 4 + 4) block)]"

definition extend_word :: "nat \<Rightarrow> u32 list \<Rightarrow> u32 list" where
  "extend_word index words = words[index :=
     words ! (index - 16) + small_sigma0 (words ! (index - 15)) + words ! (index - 7)
       + small_sigma1 (words ! (index - 2))]"

definition message_words :: "u8 list \<Rightarrow> u32 list" where
  "message_words block =
     fold extend_word [16..<64] (fold (load_word block) [0..<16] (replicate 64 0))"

record working =
  wa :: u32
  wb :: u32
  wc :: u32
  wd :: u32
  we :: u32
  wf :: u32
  wg :: u32
  wh :: u32

definition sha_round :: "u32 list \<Rightarrow> nat \<Rightarrow> working \<Rightarrow> working" where
  "sha_round words index s =
     (let sum1 = word_rotr 6 (we s) XOR word_rotr 11 (we s) XOR word_rotr 25 (we s);
          choice = (we s AND wf s) XOR (NOT (we s) AND wg s);
          temp1 = wh s + sum1 + choice + sha256_k ! index + words ! index;
          sum0 = word_rotr 2 (wa s) XOR word_rotr 13 (wa s) XOR word_rotr 22 (wa s);
          majority = (wa s AND wb s) XOR (wa s AND wc s) XOR (wb s AND wc s);
          temp2 = sum0 + majority
      in \<lparr>wa = temp1 + temp2, wb = wa s, wc = wb s, wd = wc s, we = wd s + temp1, wf = we s,
          wg = wf s, wh = wg s\<rparr>)"

definition working_of :: "u32 list \<Rightarrow> working" where
  "working_of st = \<lparr>wa = st ! 0, wb = st ! 1, wc = st ! 2, wd = st ! 3, we = st ! 4, wf = st ! 5,
     wg = st ! 6, wh = st ! 7\<rparr>"

definition words_of :: "working \<Rightarrow> u32 list" where
  "words_of s = [wa s, wb s, wc s, wd s, we s, wf s, wg s, wh s]"

definition sha_compress :: "u8 list \<Rightarrow> u32 list \<Rightarrow> u32 list" where
  "sha_compress block st = map2 (+) st
     (words_of (fold (sha_round (message_words block)) [0..<64] (working_of st)))"

section \<open>The hash\<close>

definition padded_length :: "nat \<Rightarrow> nat" where
  "padded_length n = (n + 9 + 63) div 64 * 64"

text \<open>The block the loop builds at \<open>offset\<close>: bytes of the message, the marker, the bit length.\<close>

definition sha_block :: "u8 list \<Rightarrow> nat \<Rightarrow> u8 list" where
  "sha_block bytes offset =
     (let count' = min (saturating_sub (length bytes) offset) 64;
          block = splice 0 (slice offset (offset + count') bytes) (replicate 64 0);
          block = (if offset + count' = length bytes \<and> count' < length block
                   then block[count' := 0x80] else block)
      in if offset + 64 = padded_length (length bytes)
         then splice 56 (to_be 8 (word_of_nat (length bytes) * 8 :: u64)) block else block)"

function sha_loop :: "u8 list \<Rightarrow> nat \<Rightarrow> u32 list \<Rightarrow> u32 list" where
  "sha_loop bytes offset st =
     (if offset < padded_length (length bytes)
      then sha_loop bytes (offset + 64) (sha_compress (sha_block bytes offset) st) else st)"
  by pat_completeness auto
termination
  by (relation "measure (\<lambda>(bytes, offset, st). padded_length (length bytes) - offset)") auto

declare sha_loop.simps [simp del]

definition sha256 :: "u8 list \<Rightarrow> u8 list" where
  "sha256 bytes = concat (map (to_be 4) (sha_loop bytes 0 sha256_initial))"

section \<open>HMAC and PBKDF2\<close>

text \<open>
  The message goes into a buffer of 132 bytes after 64 bytes of key; \<open>None\<close> is the panic of
  a message that does not fit.
\<close>

definition normalized_key :: "u8 list \<Rightarrow> u8 list" where
  "normalized_key key =
     (if 64 < length key then splice 0 (sha256 key) (replicate 64 0)
      else splice 0 key (replicate 64 0))"

definition hmac_sha256 :: "u8 list \<Rightarrow> u8 list \<Rightarrow> u8 list option" where
  "hmac_sha256 key message =
     (let k = normalized_key key;
          inner = splice 0 (map (\<lambda>b. b XOR 0x36) k) (replicate 132 0);
          outer = splice 0 (map (\<lambda>b. b XOR 0x5c) k) (replicate 96 0)
      in if 132 < 64 + length message then None
         else
           let inner = splice 64 message inner;
               inner_hash = sha256 (take (64 + length message) inner)
           in Some (sha256 (splice 64 inner_hash outer)))"

definition pbkdf2_step :: "u8 list \<Rightarrow> nat \<Rightarrow> (u8 list \<times> u8 list) option \<Rightarrow> (u8 list \<times> u8 list) option" where
  "pbkdf2_step password index s = (case s of
     None \<Rightarrow> None
   | Some (u, result) \<Rightarrow>
       map_option (\<lambda>u. (u, map2 (XOR) result u)) (hmac_sha256 password u))"

text \<open>The outer \<open>None\<close> is a panic, the inner one the function's own \<open>None\<close>.\<close>

definition pbkdf2_sha256 :: "u8 list \<Rightarrow> u8 list \<Rightarrow> u32 \<Rightarrow> u8 list option option" where
  "pbkdf2_sha256 password salt iterations =
     (if 64 < length salt \<or> iterations = 0 then Some None
      else
        let block = (splice 0 salt (replicate 68 0))[length salt + 3 := 1] in
        (case hmac_sha256 password (take (length salt + 4) block) of
           None \<Rightarrow> None
         | Some u \<Rightarrow>
             map_option (\<lambda>(u, result). Some result)
               (fold (pbkdf2_step password) [1..<unat iterations] (Some (u, u)))))"

section \<open>The functions without buffers\<close>

text \<open>The message schedule as a recurrence, the padded message at once, the hash block by block.\<close>

function schedule_word :: "u8 list \<Rightarrow> nat \<Rightarrow> u32" where
  "schedule_word block t =
     (if t < 16 then from_be (slice (t * 4) (t * 4 + 4) block)
      else schedule_word block (t - 16) + small_sigma0 (schedule_word block (t - 15))
        + schedule_word block (t - 7) + small_sigma1 (schedule_word block (t - 2)))"
  by pat_completeness auto
termination
  by (relation "measure snd") auto

declare schedule_word.simps [simp del]

definition compress_spec :: "u32 list \<Rightarrow> u8 list \<Rightarrow> u32 list" where
  "compress_spec st block = map2 (+) st
     (words_of (fold (sha_round (map (schedule_word block) [0..<64])) [0..<64] (working_of st)))"

definition sha_padding :: "nat \<Rightarrow> u8 list" where
  "sha_padding n = 0x80 # replicate (padded_length n - n - 9) 0 @ to_be 8 (word_of_nat n * 8 :: u64)"

fun blocks64 :: "nat \<Rightarrow> u8 list \<Rightarrow> u8 list list" where
  "blocks64 0 bs = []"
| "blocks64 (Suc n) bs = take 64 bs # blocks64 n (drop 64 bs)"

definition sha256_spec :: "u8 list \<Rightarrow> u8 list" where
  "sha256_spec m = (let padded = m @ sha_padding (length m) in
     concat (map (to_be 4)
       (foldl compress_spec sha256_initial (blocks64 (length padded div 64) padded))))"

text \<open>HMAC and PBKDF2 over lists of any length.\<close>

definition hmac_spec :: "u8 list \<Rightarrow> u8 list \<Rightarrow> u8 list" where
  "hmac_spec key message =
     (let k = (if 64 < length key then sha256_spec key else key);
          k0 = k @ replicate (64 - length k) 0
      in sha256_spec (map (\<lambda>b. b XOR 0x5c) k0 @ sha256_spec (map (\<lambda>b. b XOR 0x36) k0 @ message)))"

definition xor_bytes :: "u8 list \<Rightarrow> u8 list \<Rightarrow> u8 list" where
  "xor_bytes = map2 (XOR)"

fun pbkdf2_block :: "u8 list \<Rightarrow> u8 list \<Rightarrow> nat \<Rightarrow> u8 list" where
  "pbkdf2_block password salt 0 = hmac_spec password (salt @ [0, 0, 0, 1])"
| "pbkdf2_block password salt (Suc i) = hmac_spec password (pbkdf2_block password salt i)"

definition pbkdf2_spec :: "u8 list \<Rightarrow> u8 list \<Rightarrow> nat \<Rightarrow> u8 list" where
  "pbkdf2_spec password salt c =
     foldl xor_bytes (pbkdf2_block password salt 0) (map (pbkdf2_block password salt) [1..<c])"

section \<open>The code computes them\<close>

lemma padded_length_bounds:
  "n + 9 \<le> padded_length n" "padded_length n < n + 73" "padded_length n mod 64 = 0"
  unfolding padded_length_def by presburger+

lemma loaded_words:
  "n \<le> 16 \<Longrightarrow> length (fold (load_word block) [0..<n] (replicate 64 0)) = 64 \<and>
     (\<forall>t < n. fold (load_word block) [0..<n] (replicate 64 0) ! t = schedule_word block t)"
  by (induction n) (auto simp: load_word_def nth_list_update less_Suc_eq schedule_word.simps)

lemma length_extend_word [simp]: "length (extend_word i ws) = length ws"
  by (simp add: extend_word_def)

lemma extended_words:
  "n \<le> 48 \<Longrightarrow> length ws = 64 \<Longrightarrow> \<forall>t < 16. ws ! t = schedule_word block t \<Longrightarrow>
     length (fold extend_word [16..<16 + n] ws) = 64 \<and>
     (\<forall>t < 16 + n. fold extend_word [16..<16 + n] ws ! t = schedule_word block t)"
proof (induction n)
  case (Suc n)
  let ?w = "fold extend_word [16..<16 + n] ws"
  have w: "length ?w = 64" "\<And>t. t < 16 + n \<Longrightarrow> ?w ! t = schedule_word block t"
    using Suc by auto
  have "fold extend_word [16..<16 + Suc n] ws = extend_word (16 + n) ?w"
    by (subst add_Suc_right, subst upt_Suc_append) simp_all
  moreover have "extend_word (16 + n) ?w ! t = schedule_word block t" if "t < 16 + Suc n" for t
  proof (cases "t = 16 + n")
    case True
    then show ?thesis
      using w Suc.prems by (simp add: extend_word_def schedule_word.simps [of block "16 + n"])
  next
    case False
    then show ?thesis using w that by (simp add: extend_word_def)
  qed
  ultimately show ?case using w by simp
qed simp

lemma message_words_spec: "message_words block = map (schedule_word block) [0..<64]"
proof -
  have "length (message_words block) = 64 \<and> (\<forall>t < 64. message_words block ! t = schedule_word block t)"
    unfolding message_words_def
    using extended_words [of 48 "fold (load_word block) [0..<16] (replicate 64 0)" block]
      loaded_words [of 16 block] by simp
  then show ?thesis by (auto intro: nth_equalityI)
qed

lemma sha_compress_spec: "sha_compress block st = compress_spec st block"
  by (simp add: sha_compress_def compress_spec_def message_words_spec)

lemma nth_splice:
  "a + length bs \<le> length xs \<Longrightarrow> i < length xs \<Longrightarrow>
   splice a bs xs ! i = (if i < a then xs ! i else if i < a + length bs then bs ! (i - a) else xs ! i)"
  by (auto simp: splice_def nth_append)

lemma nth_padded:
  assumes "j < padded_length (length m)"
  shows "(m @ sha_padding (length m)) ! j =
    (if j < length m then m ! j else if j = length m then 0x80
     else if j < padded_length (length m) - 8 then 0
     else to_be 8 (word_of_nat (length m) * 8 :: u64) ! (j - (padded_length (length m) - 8)))"
  using assms padded_length_bounds [of "length m"]
  by (auto simp: sha_padding_def nth_append nth_Cons' add.commute)

lemma length_padded: "length (m @ sha_padding (length m)) = padded_length (length m)"
  using padded_length_bounds [of "length m"] by (simp add: sha_padding_def)

lemma nth_slice: "i < length (slice a b xs) \<Longrightarrow> slice a b xs ! i = xs ! (a + i)"
  by (auto simp: slice_def)

lemma sha_block_spec:
  assumes off: "offset < padded_length (length m)" "offset mod 64 = 0"
  shows "sha_block m offset = take 64 (drop offset (m @ sha_padding (length m)))"
proof -
  define P where "P = padded_length (length m)"
  have P: "length m + 9 \<le> P" "P < length m + 73" "P mod 64 = 0" "offset < P"
    using off padded_length_bounds [of "length m"] by (simp_all add: P_def)
  have full: "offset + 64 \<le> P" using P(3,4) off(2) by presburger
  have next_block: "offset + 64 = P \<or> offset + 128 \<le> P" using full P(3) off(2) by presburger
  define c where "c = min (saturating_sub (length m) offset) 64"
  have c: "c = (if length m \<le> offset then 0 else min (length m - offset) 64)"
    by (simp add: c_def saturating_sub_def)
  define b0 where "b0 = splice 0 (slice offset (offset + c) m) (replicate 64 0)"
  have slice: "length (slice offset (offset + c) m) = c" by (auto simp: c)
  have b0: "length b0 = 64" "\<And>i. i < 64 \<Longrightarrow> b0 ! i = (if i < c then m ! (offset + i) else 0)"
    using slice by (auto simp: b0_def nth_splice nth_slice c)
  define b1 where "b1 = (if offset + c = length m \<and> c < length b0 then b0[c := 0x80] else b0)"
  have b1: "length b1 = 64"
    "\<And>i. i < 64 \<Longrightarrow> b1 ! i = (if i < c then m ! (offset + i)
       else if i = c \<and> offset + c = length m then 0x80 else 0)"
    using b0 by (auto simp: b1_def nth_list_update)
  have blk: "sha_block m offset = (if offset + 64 = P
      then splice 56 (to_be 8 (word_of_nat (length m) * 8 :: u64)) b1 else b1)"
    by (simp add: sha_block_def Let_def c_def b0_def b1_def P_def)
  show ?thesis
  proof (rule nth_equalityI)
    show "length (sha_block m offset) = length (take 64 (drop offset (m @ sha_padding (length m))))"
      using full by (simp only: blk length_take length_drop length_padded) (simp add: b1 P_def)
    fix i assume "i < length (sha_block m offset)"
    then have i: "i < 64" using b1 by (auto simp: blk split: if_splits)
    have rhs: "take 64 (drop offset (m @ sha_padding (length m))) ! i =
      (m @ sha_padding (length m)) ! (offset + i)"
      using i full by (simp only: nth_take) (subst nth_drop, simp_all add: length_padded P_def [symmetric] del: length_append)
    show "sha_block m offset ! i = take 64 (drop offset (m @ sha_padding (length m))) ! i"
      unfolding rhs using i full next_block P
      by (subst nth_padded) (auto simp: blk nth_splice b1 P_def [symmetric] c split: if_splits)
  qed
qed

lemma sha_loop_spec:
  "padded_length (length m) - offset = n * 64 \<Longrightarrow> offset mod 64 = 0 \<Longrightarrow> offset \<le> padded_length (length m) \<Longrightarrow>
   sha_loop m offset st = foldl compress_spec st (blocks64 n (drop offset (m @ sha_padding (length m))))"
proof (induction n arbitrary: offset st)
  case 0
  then show ?case by (simp add: sha_loop.simps [of m offset])
next
  case (Suc n)
  then have lt: "offset < padded_length (length m)" by simp
  then have "sha_loop m offset st = sha_loop m (offset + 64) (sha_compress (sha_block m offset) st)"
    by (subst sha_loop.simps) simp
  also have "\<dots> = foldl compress_spec (sha_compress (sha_block m offset) st)
      (blocks64 n (drop (offset + 64) (m @ sha_padding (length m))))"
    using Suc.prems by (intro Suc.IH) (auto simp: mod_add_eq [symmetric])
  finally show ?case
    using Suc.prems lt
    by (simp add: sha_compress_spec sha_block_spec add.commute del: drop_append take_append)
qed

lemma sha256_eq_spec: "sha256 m = sha256_spec m"
proof -
  have "sha_loop m 0 sha256_initial =
      foldl compress_spec sha256_initial (blocks64 (padded_length (length m) div 64) (m @ sha_padding (length m)))"
    using sha_loop_spec [of m 0 "padded_length (length m) div 64" sha256_initial]
      padded_length_bounds(3) [of "length m"]
    by (simp add: dvd_div_mult_self mod_eq_0_iff_dvd)
  then show ?thesis
    by (simp only: sha256_def sha256_spec_def Let_def length_padded)
qed

section \<open>HMAC and PBKDF2 without buffers\<close>

lemma length_xor_bytes [simp]: "length (xor_bytes a b) = min (length a) (length b)"
  by (simp add: xor_bytes_def)

lemma concat_to_be_length: "length (concat (map (to_be n) ws)) = n * length ws"
  by (induction ws) simp_all

lemma length_compress_spec [simp]: "length st = 8 \<Longrightarrow> length (compress_spec st b) = 8"
  by (simp add: compress_spec_def words_of_def)

lemma length_foldl_compress: "length st = 8 \<Longrightarrow> length (foldl compress_spec st bs) = 8"
  by (induction bs arbitrary: st) simp_all

lemma length_sha256_spec [simp]: "length (sha256_spec m) = 32"
  by (simp add: sha256_spec_def Let_def concat_to_be_length length_foldl_compress sha256_initial_def)

lemma normalized_key_spec:
  "normalized_key key = (let k = (if 64 < length key then sha256_spec key else key)
     in k @ replicate (64 - length k) 0)"
  by (simp add: normalized_key_def splice_def sha256_eq_spec Let_def)

lemma length_normalized_key [simp]: "length (normalized_key key) = 64"
  by (simp add: normalized_key_spec Let_def)

lemma hmac_sha256_eq:
  assumes "length message \<le> 68"
  shows "hmac_sha256 key message = Some (hmac_spec key message)"
proof -
  let ?k = "normalized_key key"
  have inner: "take (64 + length message) (splice 64 message
      (splice 0 (map (\<lambda>b. b XOR 0x36) ?k) (replicate 132 0))) = map (\<lambda>b. b XOR 0x36) ?k @ message"
    using assms by (simp add: take_splice) (simp add: splice_def)
  have outer: "splice 64 h (splice 0 (map (\<lambda>b. b XOR 0x5c) ?k) (replicate 96 0)) =
      map (\<lambda>b. b XOR 0x5c) ?k @ h" if "length h = 32" for h
    using that by (simp add: splice_def)
  show ?thesis
    using assms inner outer [of "sha256_spec (map (\<lambda>b. b XOR 0x36) ?k @ message)"]
    by (simp add: hmac_sha256_def hmac_spec_def Let_def sha256_eq_spec)
      (simp add: normalized_key_spec Let_def)
qed

lemma length_hmac_spec [simp]: "length (hmac_spec key m) = 32"
  by (simp add: hmac_spec_def Let_def)

lemma length_pbkdf2_block [simp]: "length (pbkdf2_block password salt i) = 32"
  by (cases i) simp_all

lemma pbkdf2_fold:
  "fold (pbkdf2_step password) [1..<Suc n] (Some (pbkdf2_block password salt 0, pbkdf2_block password salt 0)) =
     Some (pbkdf2_block password salt n,
       foldl xor_bytes (pbkdf2_block password salt 0) (map (pbkdf2_block password salt) [1..<Suc n]))"
proof (induction n)
  case (Suc n)
  have "hmac_sha256 password (pbkdf2_block password salt n) = Some (pbkdf2_block password salt (Suc n))"
    by (simp add: hmac_sha256_eq)
  then show ?case
    using Suc by (simp add: pbkdf2_step_def xor_bytes_def)
qed simp

lemma pbkdf2_sha256_eq:
  "pbkdf2_sha256 password salt iterations =
     Some (if 64 < length salt \<or> iterations = 0 then None
       else Some (pbkdf2_spec password salt (unat iterations)))"
proof (cases "64 < length salt \<or> iterations = 0")
  case False
  then obtain n where n: "unat iterations = Suc n"
    by (cases "unat iterations") (auto simp: unat_eq_0)
  have "take (length salt + 4) ((splice 0 salt (replicate 68 0))[length salt + 3 := 1]) = salt @ [0, 0, 0, 1 :: u8]"
  proof -
    have "length salt \<le> 64" using False by simp
    then have "68 - length salt = Suc (Suc (Suc (Suc (64 - length salt))))" by arith
    then show ?thesis by (simp add: splice_def list_update_append)
  qed
  then have first: "hmac_sha256 password (take (length salt + 4)
      ((splice 0 salt (replicate 68 0))[length salt + 3 := 1])) = Some (pbkdf2_block password salt 0)"
    using False by (simp add: hmac_sha256_eq)
  show ?thesis
    using False by (simp add: pbkdf2_sha256_def Let_def first n pbkdf2_fold pbkdf2_spec_def
        del: upt_Suc One_nat_def pbkdf2_block.simps)
qed (auto simp: pbkdf2_sha256_def)

end
