(* ===== verification/Crypto_Standard.thy ===== *)
theory Crypto_Standard
  imports Crypto Complex_Main
begin

unbundle bit_operations_syntax

text \<open>
  The standards password hashing follows, written from their texts and sharing no definition
  with the model of \<open>kernel/src/crypto.rs\<close>: SHA-256 of FIPS 180-4, whose constants are the
  fractional parts of square and cube roots of primes, HMAC of RFC 2104 and PBKDF2 of RFC 8018
  for one block. \<open>password_hash_correct\<close> states that the code computes them.
\<close>

section \<open>The constants\<close>

definition is_prime :: "nat \<Rightarrow> bool" where
  "is_prime p \<longleftrightarrow> 1 < p \<and> (\<forall>d. d dvd p \<longrightarrow> d = 1 \<or> d = p)"

text \<open>The primes below 312 are the first sixty-four.\<close>

definition first_primes :: "nat list" where
  "first_primes = filter is_prime [2..<312]"

definition fraction_bits :: "real \<Rightarrow> u32" where
  "fraction_bits x = word_of_int \<lfloor>frac x * 2 ^ 32\<rfloor>"

definition fips_h :: "u32 list" where
  "fips_h = map (\<lambda>p. fraction_bits (sqrt (real p))) (take 8 first_primes)"

definition fips_k :: "nat \<Rightarrow> u32" where
  "fips_k t = fraction_bits (root 3 (real (first_primes ! t)))"

lemma small_divisor:
  assumes "1 < p" "\<not> is_prime p" "p < 324"
  shows "\<exists>d \<in> {2, 3, 5, 7, 11, 13, 17}. d dvd p \<and> d < p"
proof -
  obtain a b where ab: "p = a * b" "a \<noteq> 1" "a \<noteq> p"
    using assms(1,2) by (auto simp: is_prime_def elim!: dvdE)
  define d where "d = min a b"
  have "b \<noteq> 1" "a \<noteq> 0" using ab assms(1) by auto
  moreover have "b \<noteq> 0" using ab assms(1) by (cases b) auto
  ultimately have d: "d dvd p" "1 < d" "d < p" "d * d \<le> p"
    using ab by (auto simp: d_def min_def intro: mult_le_mono)
  have "d < 18"
  proof (rule ccontr)
    assume "\<not> d < 18"
    then have "18 * 18 \<le> d * d" by (intro mult_le_mono) simp_all
    then show False using d(4) assms(3) by simp
  qed
  then have "d \<in> set [2..<18]" using d(2) by (simp only: set_upt atLeastLessThan_iff) arith
  then have "\<exists>e \<in> {2, 3, 5, 7, 11, 13, 17}. e dvd d" by auto
  then obtain e where e: "e \<in> {2, 3, 5, 7, 11, 13, 17}" "e dvd d" by blast
  have "e dvd p" "e \<le> d" using e(2) d dvd_trans by (auto intro: dvd_imp_le)
  then show ?thesis using e(1) d(3) le_less_trans by blast
qed

lemma is_prime_test:
  assumes "p < 324"
  shows "is_prime p \<longleftrightarrow> 1 < p \<and> (\<forall>d \<in> {2, 3, 5, 7, 11, 13, 17}. d dvd p \<longrightarrow> p \<le> d)"
proof
  assume "is_prime p"
  then show "1 < p \<and> (\<forall>d \<in> {2, 3, 5, 7, 11, 13, 17}. d dvd p \<longrightarrow> p \<le> d)"
    unfolding is_prime_def by (metis empty_iff insert_iff nat_le_linear numeral_eq_one_iff semiring_norm(85) semiring_norm(86))
next
  assume "1 < p \<and> (\<forall>d \<in> {2, 3, 5, 7, 11, 13, 17}. d dvd p \<longrightarrow> p \<le> d)"
  then show "is_prime p" using small_divisor [OF _ _ assms] not_less by blast
qed

lemma first_primes_eq: "first_primes =
  [2, 3, 5, 7, 11, 13, 17, 19, 23, 29, 31, 37, 41, 43, 47, 53, 59, 61, 67, 71, 73, 79, 83, 89, 97, 101, 103, 107, 109, 113,
   127, 131, 137, 139, 149, 151, 157, 163, 167, 173, 179, 181, 191, 193, 197, 199, 211, 223, 227, 229, 233, 239, 241, 251,
   257, 263, 269, 271, 277, 281, 283, 293, 307, 311]"
proof -
  have "first_primes = filter (\<lambda>p. 1 < p \<and> (\<forall>d \<in> {2, 3, 5, 7, 11, 13, 17}. d dvd p \<longrightarrow> p \<le> d)) [2..<312]"
    unfolding first_primes_def
  proof (rule filter_cong [OF refl])
    fix p :: nat assume "p \<in> set [2..<312]"
    then have "p < 312" by (simp only: set_upt atLeastLessThan_iff)
    then show "is_prime p = (1 < p \<and> (\<forall>d \<in> {2, 3, 5, 7, 11, 13, 17}. d dvd p \<longrightarrow> p \<le> d))"
      by (intro is_prime_test) arith
  qed
  then show ?thesis by (simp add: upt_rec_numeral)
qed

lemma length_first_primes [simp]: "length first_primes = 64"
  by (simp add: first_primes_eq)

text \<open>The first 32 bits of a fraction are the ones of a scaled root.\<close>

lemma fraction_bits_floor: "\<lfloor>x * 2 ^ 32\<rfloor> = c \<Longrightarrow> fraction_bits x = word_of_int c"
proof -
  assume c: "\<lfloor>x * 2 ^ 32\<rfloor> = c"
  have "frac x * 2 ^ 32 = x * 2 ^ 32 - of_int (\<lfloor>x\<rfloor> * 2 ^ 32)" by (simp add: frac_def algebra_simps)
  then have "\<lfloor>frac x * 2 ^ 32\<rfloor> = c - \<lfloor>x\<rfloor> * 2 ^ 32" using c by (simp only: floor_diff_of_int)
  moreover have "(word_of_int (c - \<lfloor>x\<rfloor> * 2 ^ 32) :: u32) = word_of_int c"
    by (simp add: word_of_int_eq_iff take_bit_eq_mod mod_diff_eq [symmetric] del: of_int_diff) 
  ultimately show ?thesis by (simp only: fraction_bits_def)
qed

lemma scaled_root:
  assumes "0 < n" "0 \<le> c" "c ^ n \<le> p * (2 ^ 32) ^ n" "p * (2 ^ 32) ^ n < (c + 1) ^ n" "0 \<le> p"
  shows "\<lfloor>root n (real_of_int p) * 2 ^ 32\<rfloor> = c"
proof -
  let ?x = "root n (real_of_int p) * 2 ^ 32"
  have pow: "?x ^ n = real_of_int (p * (2 ^ 32) ^ n)"
    using assms(1,5) by (simp add: power_mult_distrib)
  have "real_of_int c ^ n \<le> ?x ^ n"
    using assms(3) unfolding pow by (simp only: of_int_power [symmetric] of_int_le_iff)
  then have "real_of_int c \<le> ?x"
    using power_strict_mono [of ?x "real_of_int c" n] assms(1,5) by (force simp: not_less [symmetric] simp del: power_mult_distrib)
  moreover have "?x ^ n < real_of_int (c + 1) ^ n"
    using assms(4) unfolding pow by (simp only: of_int_power [symmetric] of_int_less_iff)
  then have "?x < real_of_int (c + 1)" using assms(2) by (intro power_less_imp_less_base [of ?x n]) simp_all
  ultimately show ?thesis by (simp add: floor_eq_iff)
qed

text \<open>One entry of a table: the prime, the integer part of its root, and the 32 bits after it.\<close>

definition root_entry :: "nat \<Rightarrow> nat \<times> int \<times> u32 \<Rightarrow> bool" where
  "root_entry n = (\<lambda>(p, a, w). 0 \<le> a \<and> (a * 2 ^ 32 + uint w) ^ n \<le> int p * (2 ^ 32) ^ n
     \<and> int p * (2 ^ 32) ^ n < (a * 2 ^ 32 + uint w + 1) ^ n)"

lemma root_fraction_bits:
  assumes "0 < n" "root_entry n (p, a, w)"
  shows "fraction_bits (root n (real p)) = w"
proof -
  have "\<lfloor>root n (real_of_int (int p)) * 2 ^ 32\<rfloor> = a * 2 ^ 32 + uint w"
    using assms by (intro scaled_root) (simp_all add: root_entry_def)
  from fraction_bits_floor [OF this]
  have "fraction_bits (root n (real p)) = word_of_int (a * 2 ^ 32 + uint w)" by simp
  also have "\<dots> = w"
    using uint_lt2p [of w]
    by (intro word_uint_eqI) (simp add: uint_word_of_int take_bit_eq_mod del: of_int_add of_int_mult)
  finally show ?thesis .
qed

lemma root_table:
  assumes "0 < n" "list_all (root_entry n) (zip ps (zip as ws))" "length ps = length ws" "length as = length ws"
  shows "map (\<lambda>p. fraction_bits (root n (real p))) ps = ws"
proof (rule nth_equalityI)
  fix i assume "i < length (map (\<lambda>p. fraction_bits (root n (real p))) ps)"
  then show "map (\<lambda>p. fraction_bits (root n (real p))) ps ! i = ws ! i"
    using assms root_fraction_bits [OF assms(1)] by (auto simp: list_all_length)
qed (use assms in simp)

text \<open>The code's constants, with the integer part of each root.\<close>

lemma fips_h_eq: "fips_h = sha256_initial"
proof -
  have "list_all (root_entry 2) (zip (take 8 first_primes) (zip [1, 1, 2, 2, 3, 3, 4, 4] sha256_initial))"
    unfolding first_primes_eq sha256_initial_def by (simp add: root_entry_def)
  from root_table [OF _ this] show ?thesis
    by (simp add: fips_h_def sqrt_def first_primes_eq sha256_initial_def)
qed

lemma fips_k_table: "map fips_k [0..<64] = sha256_k"
proof -
  define parts :: "int list" where "parts =
    [1, 1, 1, 1, 2, 2, 2, 2, 2, 3, 3, 3, 3, 3, 3, 3, 3, 3, 4, 4, 4, 4, 4, 4, 4, 4, 4, 4, 4, 4, 5, 5,
     5, 5, 5, 5, 5, 5, 5, 5, 5, 5, 5, 5, 5, 5, 5, 6, 6, 6, 6, 6, 6, 6, 6, 6, 6, 6, 6, 6, 6, 6, 6, 6]"
  have "list_all (root_entry 3) (zip first_primes (zip parts sha256_k))"
    unfolding first_primes_eq sha256_k_def parts_def by (simp add: root_entry_def)
  from root_table [OF _ this] have "map (\<lambda>p. fraction_bits (root 3 (real p))) first_primes = sha256_k"
    by (simp add: first_primes_eq sha256_k_def parts_def)
  moreover have "map fips_k [0..<64] = map (\<lambda>p. fraction_bits (root 3 (real p))) first_primes"
    by (rule nth_equalityI) (simp_all add: fips_k_def length_first_primes)
  ultimately show ?thesis by simp
qed

section \<open>Octets and words\<close>

text \<open>The big-endian octets of a number, and the number that octets denote.\<close>

definition be_octets :: "nat \<Rightarrow> nat \<Rightarrow> u8 list" where
  "be_octets n x = map (\<lambda>i. word_of_nat (x div 256 ^ (n - 1 - i))) [0..<n]"

definition octets_value :: "u8 list \<Rightarrow> nat" where
  "octets_value = foldl (\<lambda>v b. 256 * v + unat b) 0"

lemma to_le_map: "to_le n w = map (\<lambda>i. ucast (drop_bit (8 * i) w)) [0..<n]"
proof (induction n arbitrary: w)
  case (Suc n)
  have "map (\<lambda>i. ucast (drop_bit (8 * i) w)) [0..<Suc n] = ucast w # map (\<lambda>i. ucast (drop_bit (8 * Suc i) w) :: u8) [0..<n]"
    by (simp only: upt_conv_Cons zero_less_Suc map_Suc_upt [symmetric]) (simp add: comp_def)
  then show ?case by (simp add: Suc.IH add.commute)
qed simp

lemma octet_bits:
  assumes "8 * i + 8 \<le> LENGTH('a::len)"
  shows "(ucast (drop_bit (8 * i) (word_of_nat x :: 'a word)) :: u8) = word_of_nat (x div 256 ^ i)"
proof -
  have "x div 256 ^ i = drop_bit (8 * i) x" by (simp add: drop_bit_eq_div power_mult)
  then show ?thesis
    using assms by (intro bit_word_eqI) (auto simp: bit_simps)
qed

lemma to_be_octets:
  assumes "8 * n \<le> LENGTH('a::len)"
  shows "to_be n (word_of_nat x :: 'a word) = be_octets n x"
  unfolding to_be_def to_le_map be_octets_def
  by (rule nth_equalityI) (use assms in \<open>auto simp: rev_nth intro!: octet_bits\<close>)

lemma from_be_octets: "(from_be bs :: 'a::len word) = word_of_nat (octets_value bs)"
proof (induction bs rule: rev_induct)
  case Nil
  then show ?case by (simp add: from_be_def octets_value_def)
next
  case (snoc b bs)
  have "(from_be (bs @ [b]) :: 'a word) = push_bit 8 (from_be bs) OR ucast b"
    by (simp add: from_be_def or.commute)
  also have "\<dots> = push_bit 8 (from_be bs) + ucast b"
    by (rule disjunctive_add [symmetric]) (auto simp: bit_simps dest: bit_imp_le_length)
  also have "\<dots> = word_of_nat (256 * octets_value bs + unat b)"
    by (simp add: snoc push_bit_eq_mult mult.commute)
  finally show ?case by (simp add: octets_value_def)
qed

section \<open>SHA-256, FIPS 180-4\<close>

definition ROTR :: "nat \<Rightarrow> u32 \<Rightarrow> u32" where
  "ROTR n x = drop_bit n x OR push_bit (32 - n) x"

definition fips_Sigma0 :: "u32 \<Rightarrow> u32" where
  "fips_Sigma0 x = ROTR 2 x XOR ROTR 13 x XOR ROTR 22 x"

definition fips_Sigma1 :: "u32 \<Rightarrow> u32" where
  "fips_Sigma1 x = ROTR 6 x XOR ROTR 11 x XOR ROTR 25 x"

definition fips_sigma0 :: "u32 \<Rightarrow> u32" where
  "fips_sigma0 x = ROTR 7 x XOR ROTR 18 x XOR drop_bit 3 x"

definition fips_sigma1 :: "u32 \<Rightarrow> u32" where
  "fips_sigma1 x = ROTR 17 x XOR ROTR 19 x XOR drop_bit 10 x"

definition fips_Ch :: "u32 \<Rightarrow> u32 \<Rightarrow> u32 \<Rightarrow> u32" where
  "fips_Ch x y z = (x AND y) XOR (NOT x AND z)"

definition fips_Maj :: "u32 \<Rightarrow> u32 \<Rightarrow> u32 \<Rightarrow> u32" where
  "fips_Maj x y z = (x AND y) XOR (x AND z) XOR (y AND z)"

text \<open>The message schedule over the sixteen words \<open>M\<close> of a block.\<close>

function fips_W :: "(nat \<Rightarrow> u32) \<Rightarrow> nat \<Rightarrow> u32" where
  "fips_W M t = (if t < 16 then M t
     else fips_sigma1 (fips_W M (t - 2)) + fips_W M (t - 7) + fips_sigma0 (fips_W M (t - 15)) + fips_W M (t - 16))"
  by pat_completeness auto
termination
  by (relation "measure snd") auto

declare fips_W.simps [simp del]

type_synonym words8 = "u32 \<times> u32 \<times> u32 \<times> u32 \<times> u32 \<times> u32 \<times> u32 \<times> u32"

fun fips_step :: "u32 \<Rightarrow> u32 \<Rightarrow> words8 \<Rightarrow> words8" where
  "fips_step k w (a, b, c, d, e, f, g, h) =
     (let T1 = h + fips_Sigma1 e + fips_Ch e f g + k + w;
          T2 = fips_Sigma0 a + fips_Maj a b c
      in (T1 + T2, a, b, c, d + T1, e, f, g))"

fun fips_rounds :: "(nat \<Rightarrow> u32) \<Rightarrow> nat \<Rightarrow> words8 \<Rightarrow> words8" where
  "fips_rounds W 0 v = v"
| "fips_rounds W (Suc t) v = fips_step (fips_k t) (W t) (fips_rounds W t v)"

fun add8 :: "words8 \<Rightarrow> words8 \<Rightarrow> words8" where
  "add8 (a, b, c, d, e, f, g, h) (a', b', c', d', e', f', g', h') =
     (a + a', b + b', c + c', d + d', e + e', f + f', g + g', h + h')"

definition fips_block :: "(nat \<Rightarrow> u32) \<Rightarrow> words8 \<Rightarrow> words8" where
  "fips_block M H = add8 (fips_rounds (fips_W M) 64 H) H"

text \<open>
  The padding of a message of whole octets: the bit 1, the fewest zeros that leave eight
  octets of the last block, and the length in bits.
\<close>

definition fips_padding :: "nat \<Rightarrow> u8 list" where
  "fips_padding n = 0x80 # replicate (LEAST k. (n + 1 + k) mod 64 = 56) 0 @ be_octets 8 (8 * n)"

definition fips_word :: "u8 list \<Rightarrow> nat \<Rightarrow> nat \<Rightarrow> u32" where
  "fips_word p i t = word_of_nat (octets_value (take 4 (drop (64 * i + 4 * t) p)))"

definition tuple8 :: "u32 list \<Rightarrow> words8" where
  "tuple8 w = (w ! 0, w ! 1, w ! 2, w ! 3, w ! 4, w ! 5, w ! 6, w ! 7)"

fun octets8 :: "words8 \<Rightarrow> u8 list" where
  "octets8 (a, b, c, d, e, f, g, h) = concat (map (\<lambda>w. be_octets 4 (unat w)) [a, b, c, d, e, f, g, h])"

fun fips_H :: "u8 list \<Rightarrow> nat \<Rightarrow> words8" where
  "fips_H p 0 = tuple8 fips_h"
| "fips_H p (Suc i) = fips_block (fips_word p i) (fips_H p i)"

definition sha256_fips :: "u8 list \<Rightarrow> u8 list" where
  "sha256_fips m = (let p = m @ fips_padding (length m) in octets8 (fips_H p (length p div 64)))"

section \<open>HMAC, RFC 2104, and PBKDF2, RFC 8018\<close>

definition hmac_rfc2104 :: "u8 list \<Rightarrow> u8 list \<Rightarrow> u8 list" where
  "hmac_rfc2104 key t =
     (let k = (if 64 < length key then sha256_fips key else key);
          k0 = k @ replicate (64 - length k) 0;
          pad = (\<lambda>b. map2 (XOR) k0 (replicate 64 b))
      in sha256_fips (pad 0x5c @ sha256_fips (pad 0x36 @ t)))"

text \<open>\<open>rfc_U\<close> is the chain of the \<open>j\<close>-th iteration of block \<open>i\<close>, \<open>rfc_F\<close> the block, \<open>pbkdf2_rfc8018\<close> the key.\<close>

fun rfc_U :: "u8 list \<Rightarrow> u8 list \<Rightarrow> nat \<Rightarrow> nat \<Rightarrow> u8 list" where
  "rfc_U P S i 0 = hmac_rfc2104 P (S @ be_octets 4 i)"
| "rfc_U P S i (Suc j) = hmac_rfc2104 P (rfc_U P S i j)"

fun rfc_F :: "u8 list \<Rightarrow> u8 list \<Rightarrow> nat \<Rightarrow> nat \<Rightarrow> u8 list" where
  "rfc_F P S i 0 = rfc_U P S i 0"
| "rfc_F P S i (Suc j) = map2 (XOR) (rfc_F P S i j) (rfc_U P S i (Suc j))"

definition pbkdf2_rfc8018 :: "u8 list \<Rightarrow> u8 list \<Rightarrow> nat \<Rightarrow> nat \<Rightarrow> u8 list" where
  "pbkdf2_rfc8018 P S c dkLen =
     take dkLen (concat (map (\<lambda>i. rfc_F P S (Suc i) (c - 1)) [0..<(dkLen + 31) div 32]))"

section \<open>The code against them\<close>

lemma word_rotr_ROTR:
  assumes "0 < n" "n < 32"
  shows "word_rotr n x = ROTR n x"
proof (rule bit_word_eqI)
  fix m assume "m < LENGTH(32)"
  then have "(m + n) mod 32 = (if m + n < 32 then m + n else m + n - 32)"
    using assms by (simp add: mod_if)
  then show "bit (word_rotr n x) m = bit (ROTR n x) m"
    using assms \<open>m < LENGTH(32)\<close> bit_imp_le_length [of x "m + n"]
    by (auto simp: ROTR_def bit_word_rotr_iff bit_simps add.commute [of n m])
qed

lemma sigma_eq: "small_sigma0 = fips_sigma0" "small_sigma1 = fips_sigma1"
  by (simp_all add: fun_eq_iff small_sigma0_def small_sigma1_def fips_sigma0_def fips_sigma1_def word_rotr_ROTR)

lemma schedule_eq:
  assumes "\<And>t. t < 16 \<Longrightarrow> from_be (slice (t * 4) (t * 4 + 4) block) = M t"
  shows "schedule_word block t = fips_W M t"
proof (induction t rule: less_induct)
  case (less t)
  show ?case
    using less [of "t - 16"] less [of "t - 15"] less [of "t - 7"] less [of "t - 2"] assms [of t]
    by (subst schedule_word.simps, subst fips_W.simps) (simp add: sigma_eq ac_simps)
qed

lemma fips_k_nth: "t < 64 \<Longrightarrow> sha256_k ! t = fips_k t"
  by (simp add: fips_k_table [symmetric])

lemma round_eq:
  assumes "t < 64" "ws ! t = W t"
  shows "tuple8 (words_of (sha_round ws t s)) = fips_step (fips_k t) (W t) (tuple8 (words_of s))"
  by (simp add: sha_round_def words_of_def tuple8_def Let_def assms fips_k_nth fips_Sigma0_def fips_Sigma1_def
      fips_Ch_def fips_Maj_def word_rotr_ROTR ac_simps)

lemma rounds_eq:
  assumes "\<And>t. t < 64 \<Longrightarrow> ws ! t = W t" "n \<le> 64"
  shows "tuple8 (words_of (fold (sha_round ws) [0..<n] s)) = fips_rounds W n (tuple8 (words_of s))"
  using assms(2) by (induction n) (simp_all add: round_eq assms(1))

lemma compress_eq:
  assumes "length st = 8" "\<And>t. t < 16 \<Longrightarrow> from_be (slice (t * 4) (t * 4 + 4) block) = M t"
  shows "tuple8 (compress_spec st block) = fips_block M (tuple8 st)"
proof -
  let ?ws = "map (schedule_word block) [0..<64]"
  let ?s = "fold (sha_round ?ws) [0..<64] (working_of st)"
  have st: "words_of (working_of st) = st"
    by (rule nth_equalityI) (auto simp: assms(1) words_of_def working_of_def nth_Cons' less_Suc_eq numeral_eq_Suc)
  have "tuple8 (words_of ?s) = fips_rounds (fips_W M) 64 (tuple8 st)"
    using rounds_eq [of ?ws "fips_W M" 64 "working_of st"] schedule_eq [OF assms(2)] by (simp add: st)
  moreover have "tuple8 (map2 (+) st (words_of ?s)) = add8 (tuple8 (words_of ?s)) (tuple8 st)"
    using assms(1) by (simp add: tuple8_def words_of_def add.commute)
  ultimately show ?thesis by (simp only: compress_spec_def fips_block_def)
qed

lemma blocks64_map: "blocks64 n bs = map (\<lambda>i. take 64 (drop (64 * i) bs)) [0..<n]"
proof (induction n arbitrary: bs)
  case (Suc n)
  have "map (\<lambda>i. take 64 (drop (64 * i) bs)) [0..<Suc n] = take 64 bs # map (\<lambda>i. take 64 (drop (64 * Suc i) bs)) [0..<n]"
    by (simp only: upt_conv_Cons zero_less_Suc map_Suc_upt [symmetric]) (simp add: comp_def)
  then show ?case by (simp add: Suc.IH add.commute)
qed simp

lemma hash_eq: "tuple8 (foldl compress_spec sha256_initial (blocks64 n p)) = fips_H p n"
proof (induction n)
  case 0
  then show ?case by (simp add: fips_h_eq)
next
  case (Suc n)
  have "from_be (slice (t * 4) (t * 4 + 4) (take 64 (drop (64 * n) p))) = fips_word p n t" if "t < 16" for t
    using that by (simp add: from_be_octets fips_word_def slice_def drop_take min_def add.commute mult.commute)
  moreover have "length (foldl compress_spec sha256_initial (blocks64 n p)) = 8"
    by (simp add: length_foldl_compress sha256_initial_def)
  ultimately show ?case using Suc by (simp add: blocks64_map compress_eq)
qed

lemma padding_eq: "sha_padding n = fips_padding n"
proof -
  let ?P = "padded_length n"
  have P: "n + 9 \<le> ?P" "?P < n + 73" "?P mod 64 = 0" by (rule padded_length_bounds)+
  obtain r where r: "?P = 64 * r" using P(3) by auto
  have "(LEAST k. (n + 1 + k) mod 64 = 56) = ?P - n - 9"
  proof (rule Least_equality)
    have "n + 1 + (?P - n - 9) = 56 + 64 * (r - 1)" using P(1) r by simp
    then show "(n + 1 + (?P - n - 9)) mod 64 = 56" by simp
    fix y assume "(n + 1 + y) mod 64 = 56"
    then obtain q where q: "n + 1 + y = 64 * q + 56" by (metis mult_div_mod_eq)
    then have "n + 73 \<le> 64 * (q + 2)" by simp
    with P(2) have "64 * r < 64 * (q + 2)" unfolding r by (rule less_le_trans)
    then have "r \<le> q + 1" by simp
    then have "64 * r \<le> n + 9 + y" using q by simp
    then show "?P - n - 9 \<le> y" unfolding r by simp
  qed
  moreover have "to_be 8 (word_of_nat n * 8 :: u64) = be_octets 8 (8 * n)"
    using to_be_octets [of 8 "8 * n", where 'a = 64] by (simp add: mult.commute)
  ultimately show ?thesis by (simp add: sha_padding_def fips_padding_def)
qed

lemma octets8_tuple8:
  assumes "length w = 8"
  shows "concat (map (to_be 4) w) = octets8 (tuple8 w)"
proof -
  obtain a b c d e f g h where w: "w = [a, b, c, d, e, f, g, h]"
    using assms by (auto simp: numeral_eq_Suc length_Suc_conv)
  have "to_be 4 x = be_octets 4 (unat x)" for x :: u32
    using to_be_octets [of 4 "unat x", where 'a = 32] by simp
  then show ?thesis by (simp add: w tuple8_def)
qed

lemma sha256_fips_eq: "sha256_spec m = sha256_fips m"
  by (simp add: sha256_spec_def sha256_fips_def Let_def octets8_tuple8 length_foldl_compress sha256_initial_def
      hash_eq [unfolded sha256_initial_def] padding_eq)

lemma hmac_rfc2104_eq: "hmac_spec key t = hmac_rfc2104 key t"
proof -
  have "map2 (XOR) k0 (replicate 64 b) = map (\<lambda>x. x XOR b) k0" if "length k0 = 64" for k0 and b :: u8
    using that by (intro nth_equalityI) simp_all
  then show ?thesis
    by (simp add: hmac_spec_def hmac_rfc2104_def Let_def sha256_fips_eq [symmetric])
qed

lemma rfc_U_eq: "rfc_U P S (Suc 0) j = pbkdf2_block P S j"
proof (induction j)
  case 0
  have "[0..<4] = [0, 1, 2, 3 :: nat]" by (simp add: upt_rec)
  then show ?case by (simp add: hmac_rfc2104_eq be_octets_def)
qed (simp add: hmac_rfc2104_eq)

lemma rfc_F_eq: "rfc_F P S (Suc 0) j = foldl xor_bytes (pbkdf2_block P S 0) (map (pbkdf2_block P S) [1..<Suc j])"
proof (induction j)
  case (Suc j)
  have "[1..<Suc (Suc j)] = [1..<Suc j] @ [Suc j]" by simp
  then show ?case by (simp only: rfc_F.simps Suc rfc_U_eq map_append foldl_append list.map foldl.simps xor_bytes_def)
qed (simp add: rfc_U_eq del: pbkdf2_block.simps rfc_U.simps)

lemma length_rfc_F: "length (rfc_F P S (Suc 0) j) = 32"
  by (induction j) (simp_all add: rfc_U_eq del: rfc_U.simps)

lemma pbkdf2_rfc8018_eq:
  assumes "0 < c"
  shows "pbkdf2_spec P S c = pbkdf2_rfc8018 P S c 32"
proof -
  have "pbkdf2_rfc8018 P S c 32 = rfc_F P S (Suc 0) (c - 1)"
    using length_rfc_F [of P S "c - 1"] by (simp add: pbkdf2_rfc8018_def)
  moreover have "Suc (c - 1) = c" using assms by simp
  ultimately show ?thesis by (simp only: rfc_F_eq pbkdf2_spec_def)
qed

text \<open>
  C9. The one-pass SHA-256 of the kernel is the hash of FIPS 180-4 on every message: the
  constants are the fractional bits of the roots of the primes, the padding is the shortest
  one, and the round is the standard's. For a salt of at most 64 bytes and at least one
  iteration the derived key is the 32-octet key of RFC 8018 with HMAC (RFC 2104) over that
  hash; the buffers are always large enough, and other arguments are refused.
\<close>

theorem password_hash_correct:
  "sha256 m = sha256_fips m \<and>
   pbkdf2_sha256 password salt iterations =
     Some (if 64 < length salt \<or> iterations = 0 then None
       else Some (pbkdf2_rfc8018 password salt (unat iterations) 32))"
proof -
  have "0 < unat iterations" if "iterations \<noteq> 0" using that by (simp add: unat_gt_0)
  then show ?thesis
    by (auto simp: sha256_eq_spec sha256_fips_eq pbkdf2_sha256_eq pbkdf2_rfc8018_eq)
qed

end
