(* ===== verification/Ring_Buffer.thy ===== *)
theory Ring_Buffer
  imports Prelude
begin

text \<open>
  The kernel keeps its pipes, its log, its input events and its surface events in fixed
  arrays used as rings. This theory holds the view of such an array as a list, the two
  facts every ring operation rests on (a store at the tail appends, a step of the head
  removes the first element), and the two contracts the rings are used under: a lossless
  byte stream (pipes) and a bounded history that forgets its oldest element (log, events).
\<close>

section \<open>An array segment read as a list\<close>

definition ring_contents :: "'a list \<Rightarrow> nat \<Rightarrow> nat \<Rightarrow> 'a list" where
  "ring_contents buf head len = map (\<lambda>i. buf ! ((head + i) mod length buf)) [0..<len]"

lemma length_ring_contents [simp]: "length (ring_contents buf head len) = len"
  by (simp add: ring_contents_def)

lemma ring_contents_0 [simp]: "ring_contents buf head 0 = []"
  by (simp add: ring_contents_def)

lemma ring_contents_Nil_iff [simp]: "ring_contents buf head len = [] \<longleftrightarrow> len = 0"
  by (simp add: ring_contents_def)

lemma ring_contents_nth:
  "i < len \<Longrightarrow> ring_contents buf head len ! i = buf ! ((head + i) mod length buf)"
  by (simp add: ring_contents_def)

lemma ring_slots_distinct:
  fixes i j h n :: nat
  assumes "i < j" "j < n"
  shows "(h + i) mod n \<noteq> (h + j) mod n"
proof
  assume "(h + i) mod n = (h + j) mod n"
  then have "(i + h) mod n = (j + h) mod n" by (simp add: add.commute)
  then have "n dvd (j + h) - (i + h)"
    using mod_eq_dvd_iff_nat [of "i + h" "j + h" n] assms by (simp add: eq_commute)
  then have "n dvd j - i" by simp
  with assms show False by (auto dest: dvd_imp_le)
qed

lemma ring_contents_store:
  assumes "len < length buf" and "tail = (head + len) mod length buf"
  shows "ring_contents (buf[tail := x]) head (Suc len) = ring_contents buf head len @ [x]"
proof (rule nth_equalityI)
  fix i assume "i < length (ring_contents (buf[tail := x]) head (Suc len))"
  then have i: "i < Suc len" by simp
  from assms have tail: "tail < length buf" by (metis bot_nat_0.extremum le_less_trans mod_less_divisor)
  show "ring_contents (buf[tail := x]) head (Suc len) ! i =
      (ring_contents buf head len @ [x]) ! i"
  proof (cases "i = len")
    case True
    with assms tail show ?thesis by (simp add: ring_contents_nth nth_append)
  next
    case False
    with i assms(1) have "(head + i) mod length buf \<noteq> (head + len) mod length buf"
      by (intro ring_slots_distinct) auto
    with False i assms(2) show ?thesis by (simp add: ring_contents_nth nth_append)
  qed
qed simp

lemma ring_contents_pop:
  assumes "head < length buf"
  shows "ring_contents buf head (Suc len) =
    buf ! head # ring_contents buf ((head + 1) mod length buf) len"
  using assms by (simp add: ring_contents_def upt_conv_Cons_Cons map_upt_Suc mod_add_left_eq
      del: upt_Suc)

lemma ring_contents_drop_first:
  assumes "head < length buf" and "0 < len"
  shows "ring_contents buf ((head + 1) mod length buf) (len - 1) =
    tl (ring_contents buf head len)"
  using assms ring_contents_pop [of head buf "len - 1"] by simp

lemma ring_contents_push_full:
  assumes "head < length buf"
  shows "ring_contents (buf[head := x]) ((head + 1) mod length buf) (length buf) =
    tl (ring_contents buf head (length buf)) @ [x]"
proof -
  have len: "Suc (length buf - 1) = length buf" using assms by simp
  have "((head + 1) mod length buf + (length buf - 1)) mod length buf =
      ((head + 1) + (length buf - 1)) mod length buf"
    by (rule mod_add_left_eq)
  also have "(head + 1) + (length buf - 1) = head + length buf" using assms by simp
  finally have "head = ((head + 1) mod length buf + (length buf - 1)) mod length buf"
    using assms by simp
  then have "ring_contents (buf[head := x]) ((head + 1) mod length buf) (Suc (length buf - 1)) =
      ring_contents buf ((head + 1) mod length buf) (length buf - 1) @ [x]"
    using assms by (intro ring_contents_store) auto
  with len ring_contents_drop_first [OF assms, of "length buf"] assms show ?thesis
    by (metis le_less_trans zero_le)
qed

lemma ring_contents_drop:
  "drop k (ring_contents buf head len) =
    ring_contents buf ((head + k) mod length buf) (len - k)"
  by (rule nth_equalityI) (auto simp: ring_contents_nth mod_add_left_eq add.assoc)

lemma ring_contents_window:
  assumes "start < length buf" "n \<le> length buf"
  shows "ring_contents buf start n =
    take n (drop start buf) @ take (n - (length buf - start)) buf"
proof (rule nth_equalityI)
  show "length (ring_contents buf start n) =
      length (take n (drop start buf) @ take (n - (length buf - start)) buf)"
    using assms by auto
next
  fix i assume "i < length (ring_contents buf start n)"
  then have i: "i < n" by simp
  show "ring_contents buf start n ! i =
      (take n (drop start buf) @ take (n - (length buf - start)) buf) ! i"
  proof (cases "start + i < length buf")
    case True
    then have "i < length buf - start" by simp
    with i True show ?thesis by (simp add: ring_contents_nth nth_append)
  next
    case False
    then have "(start + i) mod length buf = (start + i - length buf) mod length buf"
      by (simp add: le_mod_geq)
    also have "\<dots> = start + i - length buf"
      using i assms by (intro mod_less) linarith
    also have "\<dots> = i - (length buf - start)" using assms False by linarith
    finally have idx: "(start + i) mod length buf = i - (length buf - start)" .
    have "ring_contents buf start n ! i = buf ! (i - (length buf - start))"
      using i idx by (simp add: ring_contents_nth)
    also have "\<dots> = (take n (drop start buf) @ take (n - (length buf - start)) buf) ! i"
      using False i assms by (subst nth_append) auto
    finally show ?thesis .
  qed
qed

lemma ring_tail_after_pop:
  fixes h l n c :: nat
  assumes "n \<le> l"
  shows "((h + n) mod c + (l - n)) mod c = (h + l) mod c"
proof -
  have "((h + n) mod c + (l - n)) mod c = ((h + n) + (l - n)) mod c"
    by (rule mod_add_left_eq)
  also have "(h + n) + (l - n) = h + l" using assms by simp
  finally show ?thesis .
qed

section \<open>Two contracts\<close>

definition last_n :: "nat \<Rightarrow> 'a list \<Rightarrow> 'a list" where
  "last_n n xs = drop (length xs - n) xs"

lemma length_last_n [simp]: "length (last_n n xs) = min n (length xs)"
  by (auto simp: last_n_def)

lemma last_n_all: "length xs \<le> n \<Longrightarrow> last_n n xs = xs"
  by (simp add: last_n_def)

lemma last_n_append_last_n: "last_n n (last_n n xs @ ys) = last_n n (xs @ ys)"
  by (cases "length xs \<le> n") (auto simp: last_n_def add.commute)

lemma last_n_append_last_n_right: "last_n n (xs @ last_n n ys) = last_n n (xs @ ys)"
  by (cases "length ys \<le> n") (auto simp: last_n_def)

lemma last_n_last_n: "m \<le> n \<Longrightarrow> last_n m (last_n n xs) = last_n m xs"
  by (cases "length xs \<le> n") (auto simp: last_n_def)

lemma last_n_snoc_full: "length xs = n \<Longrightarrow> 0 < n \<Longrightarrow> last_n n (xs @ [x]) = tl xs @ [x]"
  by (cases xs) (auto simp: last_n_def)

datatype 'a stream_op = Put "'a list" | Get nat

text \<open>
  A run of a stream: which elements its writers got accepted, which its readers were
  handed, and the final state.
\<close>

fun run_stream ::
  "('a list \<Rightarrow> 'q \<Rightarrow> nat \<times> 'q) \<Rightarrow> (nat \<Rightarrow> 'q \<Rightarrow> 'a list \<times> 'q) \<Rightarrow>
   'a stream_op list \<Rightarrow> 'q \<Rightarrow> 'a list \<times> 'a list \<times> 'q" where
  "run_stream put get [] q = ([], [], q)"
| "run_stream put get (Put xs # ops) q =
     (let (n, q1) = put xs q; (w, r, q2) = run_stream put get ops q1
      in (take n xs @ w, r, q2))"
| "run_stream put get (Get n # ops) q =
     (let (ys, q1) = get n q; (w, r, q2) = run_stream put get ops q1
      in (w, ys @ r, q2))"

locale stream_fifo =
  fixes contents :: "'q \<Rightarrow> 'a list"
    and invar :: "'q \<Rightarrow> bool"
    and cap :: nat
    and put :: "'a list \<Rightarrow> 'q \<Rightarrow> nat \<times> 'q"
    and get :: "nat \<Rightarrow> 'q \<Rightarrow> 'a list \<times> 'q"
  assumes bounded: "invar q \<Longrightarrow> length (contents q) \<le> cap"
    and put_spec: "invar q \<Longrightarrow> put xs q = (n, q') \<Longrightarrow>
      invar q' \<and> n = min (length xs) (cap - length (contents q)) \<and>
      contents q' = contents q @ take n xs"
    and get_spec: "invar q \<Longrightarrow> get n q = (ys, q') \<Longrightarrow>
      invar q' \<and> ys = take n (contents q) \<and> contents q' = drop n (contents q)"
begin

lemma run_integrity:
  "invar q \<Longrightarrow> run_stream put get ops q = (w, r, q') \<Longrightarrow>
    invar q' \<and> r @ contents q' = contents q @ w"
proof (induction ops arbitrary: q w r q')
  case Nil
  then show ?case by simp
next
  case (Cons op ops)
  show ?case
  proof (cases op)
    case (Put xs)
    obtain n q1 where put: "put xs q = (n, q1)" by (cases "put xs q")
    obtain w1 r1 q2 where run: "run_stream put get ops q1 = (w1, r1, q2)"
      by (cases "run_stream put get ops q1")
    have q1: "invar q1" "contents q1 = contents q @ take n xs"
      using put_spec [OF Cons.prems(1) put] by simp_all
    show ?thesis
      using Cons.IH [OF q1(1) run] Cons.prems(2) Put put run q1(2) by auto
  next
    case (Get n)
    obtain ys q1 where get: "get n q = (ys, q1)" by (cases "get n q")
    obtain w1 r1 q2 where run: "run_stream put get ops q1 = (w1, r1, q2)"
      by (cases "run_stream put get ops q1")
    have q1: "invar q1" "ys @ contents q1 = contents q"
      using get_spec [OF Cons.prems(1) get] by simp_all
    show ?thesis
      using Cons.IH [OF q1(1) run] Cons.prems(2) Get get run
      by (auto simp flip: q1(2))
  qed
qed

end

locale lossy_fifo =
  fixes contents :: "'q \<Rightarrow> 'a list"
    and invar :: "'q \<Rightarrow> bool"
    and cap :: nat
    and push :: "'a \<Rightarrow> 'q \<Rightarrow> 'q"
  assumes within_cap: "invar q \<Longrightarrow> length (contents q) \<le> cap"
    and invar_push: "invar q \<Longrightarrow> invar (push x q)"
    and contents_push: "invar q \<Longrightarrow> contents (push x q) = last_n cap (contents q @ [x])"
begin

lemma invar_fold: "invar q \<Longrightarrow> invar (fold push xs q)"
  by (induction xs arbitrary: q) (auto simp: invar_push)

lemma history: "invar q \<Longrightarrow> contents (fold push xs q) = last_n cap (contents q @ xs)"
proof (induction xs arbitrary: q)
  case Nil
  then show ?case by (simp add: last_n_all within_cap)
next
  case (Cons x xs)
  then show ?case
    by (simp add: invar_push contents_push last_n_append_last_n)
qed

end

section \<open>Event queues\<close>

text \<open>
  The event rings of the kernel drop their oldest element when they are full: one step of
  the head makes room, then the new element is stored at the tail.
\<close>

lemma ring_push_evicting:
  assumes n: "0 < length buf" "head < length buf" "len \<le> length buf"
    and tail: "tail = (head + len) mod length buf"
    and h: "(head', len') = (if len = length buf then ((head + 1) mod length buf, len - 1) else (head, len))"
  shows "ring_contents (buf[tail := x]) head' (len' + 1) =
      last_n (length buf) (ring_contents buf head len @ [x])"
    and "(tail + 1) mod length buf = (head' + (len' + 1)) mod length buf"
    and "head' < length buf" and "len' + 1 \<le> length buf"
proof -
  show "head' < length buf" "len' + 1 \<le> length buf" using n h by (auto split: if_splits)
  show "ring_contents (buf[tail := x]) head' (len' + 1) =
      last_n (length buf) (ring_contents buf head len @ [x])"
  proof (cases "len = length buf")
    case True
    then have "tail = head" "head' = (head + 1) mod length buf" "len' + 1 = length buf"
      using n tail h by simp_all
    then show ?thesis
      using ring_contents_push_full [OF n(2)] True n(1) by (simp add: last_n_snoc_full)
  next
    case False
    then have "len < length buf" "head' = head" "len' = len" using n h by simp_all
    then show ?thesis using ring_contents_store [OF _ tail] by (simp add: last_n_all)
  qed
  show "(tail + 1) mod length buf = (head' + (len' + 1)) mod length buf"
  proof (cases "len = length buf")
    case True
    then have eq: "tail = head" "head' = (head + 1) mod length buf" "len' + 1 = length buf"
      using n tail h by simp_all
    have "((head + 1) mod length buf + length buf) mod length buf = (head + 1) mod length buf" by simp
    then show ?thesis using eq by simp
  next
    case False
    then have "head' = head" "len' = len" using h by simp_all
    then have "(head' + (len' + 1)) mod length buf = ((head + len) + 1) mod length buf" by simp
    also have "\<dots> = ((head + len) mod length buf + 1) mod length buf" by (rule mod_add_left_eq [symmetric])
    finally show ?thesis using tail by simp
  qed
qed

datatype 'a queue_op = Push 'a | Pop

fun run_queue ::
  "('a \<Rightarrow> 'q \<Rightarrow> 'q) \<Rightarrow> ('q \<Rightarrow> 'a option \<times> 'q) \<Rightarrow> 'a queue_op list \<Rightarrow> 'q \<Rightarrow> 'a option list \<times> 'q"
where
  "run_queue push pop [] q = ([], q)"
| "run_queue push pop (Push x # ops) q = run_queue push pop ops (push x q)"
| "run_queue push pop (Pop # ops) q =
     (let (r, q1) = pop q; (rs, q2) = run_queue push pop ops q1 in (r # rs, q2))"

text \<open>The abstract queue: a list with a rule \<open>enq\<close> for what a new element does to it.\<close>

definition list_pop :: "'a list \<Rightarrow> 'a option \<times> 'a list" where
  "list_pop xs = (case xs of [] \<Rightarrow> (None, []) | x # xs \<Rightarrow> (Some x, xs))"

locale event_queue =
  fixes contents :: "'q \<Rightarrow> 'a list"
    and invar :: "'q \<Rightarrow> bool"
    and enq :: "'a \<Rightarrow> 'a list \<Rightarrow> 'a list"
    and push :: "'a \<Rightarrow> 'q \<Rightarrow> 'q"
    and pop :: "'q \<Rightarrow> 'a option \<times> 'q"
  assumes push_spec: "invar q \<Longrightarrow> invar (push x q) \<and> contents (push x q) = enq x (contents q)"
    and pop_spec: "invar q \<Longrightarrow> pop q = (r, q') \<Longrightarrow>
      invar q' \<and> (r, contents q') = list_pop (contents q)"
begin

lemma run_refines:
  "invar q \<Longrightarrow> run_queue push pop ops q = (rs, q') \<Longrightarrow>
   invar q' \<and> run_queue enq list_pop ops (contents q) = (rs, contents q')"
proof (induction ops arbitrary: q rs q')
  case Nil
  then show ?case by simp
next
  case (Cons op ops)
  show ?case
  proof (cases op)
    case (Push x)
    then show ?thesis
      using Cons.IH [of "push x q" rs q'] Cons.prems push_spec [OF Cons.prems(1), of x] by simp
  next
    case Pop
    obtain r q1 where r: "pop q = (r, q1)" by (cases "pop q")
    obtain rs1 q2 where run: "run_queue push pop ops q1 = (rs1, q2)"
      by (cases "run_queue push pop ops q1")
    have q1: "invar q1" "list_pop (contents q) = (r, contents q1)"
      using pop_spec [OF Cons.prems(1) r] by simp_all
    then show ?thesis using Cons.IH [OF q1(1) run] Cons.prems(2) Pop r run by simp
  qed
qed

end

locale evicting_queue =
  event_queue contents invar "\<lambda>x xs. last_n cap (xs @ [x])" push pop
  for contents :: "'q \<Rightarrow> 'a list" and invar cap push pop +
  assumes bounded: "invar q \<Longrightarrow> length (contents q) \<le> cap"

sublocale evicting_queue \<subseteq> lossy_fifo contents invar cap push
  by unfold_locales (simp_all add: bounded push_spec)

end
