(* ===== verification/Kernel_Log.thy ===== *)
theory Kernel_Log
  imports Ring_Buffer
begin

text \<open>
  The kernel log of \<open>kernel/src/kernel_log.rs\<close>: a ring of 4096 bytes that keeps the most
  recent output. \<open>log_append\<close> and \<open>log_read\<close> follow the two methods, the latter with its
  two \<open>copy_from_slice\<close> calls for a window that wraps. The log is an instance of the
  forgetting-ring contract, from which the history property of \<open>dmesg\<close> follows.
\<close>

definition log_capacity :: nat where
  "log_capacity = 4096"

declare log_capacity_def [abi_simps]

record log_buffer =
  log_bytes :: "u8 list"
  log_next :: nat
  log_length :: nat

definition new_log :: log_buffer where
  "new_log = \<lparr>log_bytes = replicate log_capacity 0, log_next = 0, log_length = 0\<rparr>"

text \<open>The body of the \<open>for &byte in bytes\<close> loop.\<close>

definition log_push :: "u8 \<Rightarrow> log_buffer \<Rightarrow> log_buffer" where
  "log_push byte l = l\<lparr>log_bytes := (log_bytes l)[log_next l := byte],
     log_next := (log_next l + 1) mod log_capacity,
     log_length := min (log_length l + 1) log_capacity\<rparr>"

definition log_append :: "u8 list \<Rightarrow> log_buffer \<Rightarrow> log_buffer" where
  "log_append bytes l =
     (let bytes = (if length bytes > log_capacity
                   then drop (length bytes - log_capacity) bytes else bytes)
      in fold log_push bytes l)"

definition log_read :: "log_buffer \<Rightarrow> u8 list \<Rightarrow> nat \<times> u8 list" where
  "log_read l out =
     (let len = min (log_length l) (length out);
          skipped = log_length l - len;
          start = (log_next l + log_capacity - log_length l + skipped) mod log_capacity;
          first = min len (log_capacity - start);
          out = take first (drop start (log_bytes l)) @ drop first out;
          out = (if first < len
                 then take first out @ take (len - first) (log_bytes l) @ drop len out
                 else out)
      in (len, out))"

section \<open>The log as a forgetting ring\<close>

definition log_ok :: "log_buffer \<Rightarrow> bool" where
  "log_ok l \<longleftrightarrow> length (log_bytes l) = log_capacity \<and> log_next l < log_capacity \<and>
     log_length l \<le> log_capacity"

definition log_head :: "log_buffer \<Rightarrow> nat" where
  "log_head l = (log_next l + log_capacity - log_length l) mod log_capacity"

definition log_contents :: "log_buffer \<Rightarrow> u8 list" where
  "log_contents l = ring_contents (log_bytes l) (log_head l) (log_length l)"

lemma log_capacity_pos [simp]: "0 < log_capacity"
  by (simp add: log_capacity_def)

lemma log_ok_new: "log_ok new_log"
  by (simp add: log_ok_def new_log_def)

lemma log_contents_new: "log_contents new_log = []"
  by (simp add: log_contents_def new_log_def)

lemma length_log_contents [simp]: "length (log_contents l) = log_length l"
  by (simp add: log_contents_def)

lemma log_head_less [simp]: "log_head l < log_capacity"
  by (simp add: log_head_def)

lemma log_next_head:
  assumes "log_ok l"
  shows "log_next l = (log_head l + log_length l) mod log_capacity"
  using assms by (simp add: log_ok_def log_head_def mod_add_left_eq)

lemma log_ok_push: "log_ok l \<Longrightarrow> log_ok (log_push x l)"
  by (simp add: log_ok_def log_push_def)

lemma log_contents_push:
  assumes "log_ok l"
  shows "log_contents (log_push x l) = last_n log_capacity (log_contents l @ [x])"
proof (cases "log_length l < log_capacity")
  case True
  have "log_head (log_push x l) = log_head l"
  proof -
    have "(log_next l + 1) mod log_capacity + log_capacity - (log_length l + 1) =
        (log_next l + 1) mod log_capacity + (log_capacity - (log_length l + 1))"
      using True by simp
    then have "log_head (log_push x l) =
        (log_next l + 1 + (log_capacity - (log_length l + 1))) mod log_capacity"
      using True by (simp add: log_head_def log_push_def mod_add_left_eq del: add_diff_assoc)
    also have "log_next l + 1 + (log_capacity - (log_length l + 1)) =
        log_next l + log_capacity - log_length l"
      using True by simp
    finally show ?thesis by (simp add: log_head_def)
  qed
  then show ?thesis
    using True assms log_next_head [OF assms]
    by (simp add: log_contents_def log_push_def log_ok_def last_n_all ring_contents_store)
next
  case False
  then have full: "log_length l = log_capacity" using assms by (simp add: log_ok_def)
  have head: "log_head l = log_next l"
    using full assms by (simp add: log_head_def log_ok_def)
  have "log_head (log_push x l) = (log_next l + 1) mod log_capacity"
    using full by (simp add: log_head_def log_push_def)
  moreover have "log_length (log_push x l) = log_capacity"
    using full by (simp add: log_push_def)
  ultimately show ?thesis
    using assms full head ring_contents_push_full [of "log_next l" "log_bytes l" x]
    by (simp add: log_contents_def log_push_def log_ok_def last_n_snoc_full)
qed

interpretation log_fifo: lossy_fifo log_contents log_ok log_capacity log_push
  by unfold_locales (simp_all add: log_ok_push log_contents_push, simp add: log_ok_def)

lemma log_append_ok: "log_ok l \<Longrightarrow> log_ok (log_append bs l)"
  by (simp add: log_append_def Let_def log_fifo.invar_fold)

lemma log_append_contents:
  assumes "log_ok l"
  shows "log_contents (log_append bs l) = last_n log_capacity (log_contents l @ bs)"
proof -
  have "log_append bs l = fold log_push (last_n log_capacity bs) l"
    by (simp add: log_append_def last_n_def)
  then have "log_contents (log_append bs l) =
      last_n log_capacity (log_contents l @ last_n log_capacity bs)"
    using assms by (simp add: log_fifo.history)
  also have "\<dots> = last_n log_capacity (log_contents l @ bs)"
    by (rule last_n_append_last_n_right)
  finally show ?thesis .
qed

section \<open>Reading the log\<close>

lemma log_read_result:
  assumes "log_ok l"
  shows "log_read l out =
    (min (log_length l) (length out),
     last_n (length out) (log_contents l) @ drop (min (log_length l) (length out)) out)"
proof -
  define n where "n = min (log_length l) (length out)"
  define start where
    "start = (log_next l + log_capacity - log_length l + (log_length l - n)) mod log_capacity"
  define first where "first = min n (log_capacity - start)"
  have len: "length (log_bytes l) = log_capacity" "log_length l \<le> log_capacity"
    using assms by (simp_all add: log_ok_def)
  have start: "start < log_capacity" by (simp add: start_def)
  have "last_n (length out) (log_contents l) = drop (log_length l - n) (log_contents l)"
    by (simp add: last_n_def n_def min_def)
  also have "\<dots> = ring_contents (log_bytes l) ((log_head l + (log_length l - n)) mod log_capacity)
      (log_length l - (log_length l - n))"
    using len(1) by (simp only: log_contents_def ring_contents_drop)
  also have "\<dots> = ring_contents (log_bytes l) start n"
  proof -
    have "(log_head l + (log_length l - n)) mod log_capacity = start"
      by (simp only: log_head_def start_def mod_add_left_eq)
    moreover have "log_length l - (log_length l - n) = n" by (simp add: n_def)
    ultimately show ?thesis by simp
  qed
  also have "\<dots> = take n (drop start (log_bytes l)) @ take (n - (log_capacity - start)) (log_bytes l)"
    using ring_contents_window [of start "log_bytes l" n] start len by (simp add: n_def)
  finally have window: "last_n (length out) (log_contents l) =
      take n (drop start (log_bytes l)) @ take (n - (log_capacity - start)) (log_bytes l)" .
  have take_first: "take n (drop start (log_bytes l)) = take first (drop start (log_bytes l))"
    using len start by (auto simp: first_def min_def)
  have rest: "n - (log_capacity - start) = n - first" by (auto simp: first_def)
  have "log_read l out = (n,
      if first < n
      then take first (take first (drop start (log_bytes l)) @ drop first out) @
        take (n - first) (log_bytes l) @ drop n (take first (drop start (log_bytes l)) @ drop first out)
      else take first (drop start (log_bytes l)) @ drop first out)"
    by (simp only: log_read_def Let_def n_def [symmetric] start_def [symmetric] first_def [symmetric])
  moreover have "length (take first (drop start (log_bytes l))) = first"
    using len start by (simp add: first_def)
  moreover have "first \<le> n" by (simp add: first_def)
  ultimately have "log_read l out =
      (n, take first (drop start (log_bytes l)) @ take (n - first) (log_bytes l) @ drop n out)"
    using \<open>first \<le> n\<close> by (cases "first < n") simp_all
  then show ?thesis
    using window take_first rest by (simp add: n_def)
qed

text \<open>
  C23. After any sequence of appends since boot, of any sizes, a read of the kernel log
  returns the most recent bytes of the whole output, in order: as many as the caller's
  buffer, the 4096-byte ring and the history allow; the rest of the buffer is untouched.
\<close>

theorem kernel_log_history:
  "log_read (fold log_append chunks new_log) out =
     (let n = min (min log_capacity (length (concat chunks))) (length out)
      in (n, last_n n (concat chunks) @ drop n out))"
proof -
  have "log_ok (fold log_append chunks l) \<and>
      log_contents (fold log_append chunks l) = last_n log_capacity (log_contents l @ concat chunks)"
    if "log_ok l" for l
    using that
  proof (induction chunks arbitrary: l)
    case Nil
    then show ?case by (simp add: last_n_all log_ok_def)
  next
    case (Cons c cs)
    then show ?case
      by (simp add: log_append_ok log_append_contents last_n_append_last_n)
  qed
  from this [OF log_ok_new] have "log_ok (fold log_append chunks new_log)"
    and c: "log_contents (fold log_append chunks new_log) = last_n log_capacity (concat chunks)"
    by (simp_all add: log_contents_new)
  moreover from c have "log_length (fold log_append chunks new_log) =
      min log_capacity (length (concat chunks))"
    using length_log_contents [of "fold log_append chunks new_log"] by simp
  moreover have "last_n (length out) (last_n log_capacity (concat chunks)) =
      last_n (min (min log_capacity (length (concat chunks))) (length out)) (concat chunks)"
    by (auto simp: last_n_def min_def)
  ultimately show ?thesis by (simp add: log_read_result Let_def)
qed

end
