(* ===== verification/Rust_Str.thy ===== *)
theory Rust_Str
  imports Prelude
begin

text \<open>
  Rust string slices as byte lists. A \<open>&str\<close> is a byte list that passes
  \<open>utf8_valid\<close>, the test of \<open>core::str::from_utf8\<close>; the searching and splitting methods
  the kernel uses with ASCII separators act on the bytes.
\<close>

type_synonym str = "u8 list"

text \<open>The bytes of an ASCII literal, \<open>b"..."\<close>.\<close>

definition ascii :: "string \<Rightarrow> str" where
  "ascii cs = map of_char cs"

lemma ascii_simps [simp]: "ascii [] = []" "ascii (c # cs) = of_char c # ascii cs"
  by (simp_all add: ascii_def)

lemma length_ascii [simp]: "length (ascii cs) = length cs"
  by (simp add: ascii_def)

definition slash :: u8 where
  "slash = 47"

section \<open>Validity of UTF-8\<close>

definition utf8_cont :: "u8 \<Rightarrow> bool" where
  "utf8_cont b \<longleftrightarrow> 0x80 \<le> b \<and> b \<le> 0xBF"

fun utf8_valid :: "u8 list \<Rightarrow> bool" where
  "utf8_valid [] = True"
| "utf8_valid (a # r) =
    (if a < 0x80 then utf8_valid r
     else case r of [] \<Rightarrow> False
     | b # r1 \<Rightarrow>
       if 0xC2 \<le> a \<and> a \<le> 0xDF then utf8_cont b \<and> utf8_valid r1
       else (case r1 of [] \<Rightarrow> False
       | c # r2 \<Rightarrow>
         if a = 0xE0 then 0xA0 \<le> b \<and> b \<le> 0xBF \<and> utf8_cont c \<and> utf8_valid r2
         else if a = 0xED then 0x80 \<le> b \<and> b \<le> 0x9F \<and> utf8_cont c \<and> utf8_valid r2
         else if 0xE1 \<le> a \<and> a \<le> 0xEF then utf8_cont b \<and> utf8_cont c \<and> utf8_valid r2
         else (case r2 of [] \<Rightarrow> False
         | e # r3 \<Rightarrow>
           if a = 0xF0
           then 0x90 \<le> b \<and> b \<le> 0xBF \<and> utf8_cont c \<and> utf8_cont e \<and> utf8_valid r3
           else if a = 0xF4
           then 0x80 \<le> b \<and> b \<le> 0x8F \<and> utf8_cont c \<and> utf8_cont e \<and> utf8_valid r3
           else 0xF1 \<le> a \<and> a \<le> 0xF3 \<and> utf8_cont b \<and> utf8_cont c \<and> utf8_cont e \<and>
             utf8_valid r3)))"

lemma utf8_valid_ascii: "(\<forall>b \<in> set bs. b < 0x80) \<Longrightarrow> utf8_valid bs"
  by (induction bs) auto

section \<open>Searching and splitting\<close>

definition strip_prefix :: "'a list \<Rightarrow> 'a list \<Rightarrow> 'a list option" where
  "strip_prefix p s = (if take (length p) s = p then Some (drop (length p) s) else None)"

lemma strip_prefix_Some_iff: "strip_prefix p s = Some r \<longleftrightarrow> s = p @ r"
  by (auto simp: strip_prefix_def) (metis append_take_drop_id)

lemma strip_prefix_append [simp]: "strip_prefix p (p @ r) = Some r"
  by (simp add: strip_prefix_def)

text \<open>\<open>split\<close>: the pieces between separators, empty ones included.\<close>

fun split_on :: "'a \<Rightarrow> 'a list \<Rightarrow> 'a list list" where
  "split_on c [] = [[]]"
| "split_on c (x # xs) =
    (if x = c then [] # split_on c xs
     else (case split_on c xs of [] \<Rightarrow> [[x]] | y # ys \<Rightarrow> (x # y) # ys))"

fun join :: "'a \<Rightarrow> 'a list list \<Rightarrow> 'a list" where
  "join c [] = []"
| "join c [x] = x"
| "join c (x # y # ys) = x @ c # join c (y # ys)"

lemma split_on_nonempty [simp]: "split_on c xs \<noteq> []"
  by (cases xs) (auto split: list.splits)

lemma join_split_on: "join c (split_on c xs) = xs"
proof (induction xs)
  case Nil
  then show ?case by simp
next
  case (Cons x xs)
  obtain y ys where y: "split_on c xs = y # ys"
    using split_on_nonempty [of c xs] by (cases "split_on c xs") auto
  have cons: "join c ((x # y) # ys) = x # join c (y # ys)"
    by (cases ys) auto
  show ?case using Cons y cons by auto
qed

lemma split_on_no_separator: "w \<in> set (split_on c xs) \<Longrightarrow> c \<notin> set w"
  by (induction xs arbitrary: w) (auto split: if_splits list.splits)

lemma split_on_no_sep: "c \<notin> set xs \<Longrightarrow> split_on c xs = [xs]"
  by (induction xs) auto

lemma split_on_append:
  "c \<notin> set xs \<Longrightarrow> split_on c (xs @ c # ys) = xs # split_on c ys"
  by (induction xs) auto

lemma split_on_subset: "w \<in> set (split_on c xs) \<Longrightarrow> set w \<subseteq> set xs"
  by (induction xs arbitrary: w) (fastforce split: if_splits list.splits)+

text \<open>\<open>rsplit_once\<close>: the parts before and after the last separator.\<close>

fun rsplit_once :: "'a \<Rightarrow> 'a list \<Rightarrow> ('a list \<times> 'a list) option" where
  "rsplit_once c [] = None"
| "rsplit_once c (x # xs) = (case rsplit_once c xs of
     Some (a, b) \<Rightarrow> Some (x # a, b)
   | None \<Rightarrow> if x = c then Some ([], xs) else None)"

lemma rsplit_once_None: "rsplit_once c xs = None \<longleftrightarrow> c \<notin> set xs"
  by (induction xs) (auto split: option.splits)

lemma rsplit_once_Some:
  "rsplit_once c xs = Some (a, b) \<Longrightarrow> xs = a @ c # b \<and> c \<notin> set b"
  by (induction xs arbitrary: a)
    (auto split: option.splits if_splits simp: rsplit_once_None)

lemma rsplit_once_append: "c \<notin> set b \<Longrightarrow> rsplit_once c (a @ c # b) = Some (a, b)"
  by (induction a) (auto simp: rsplit_once_None dest: rsplit_once_None [THEN iffD2]
      split: option.splits)

text \<open>\<open>trim_start_matches\<close>, \<open>trim_end_matches\<close> and \<open>trim_matches\<close> with one character.\<close>

definition trim_start :: "'a \<Rightarrow> 'a list \<Rightarrow> 'a list" where
  "trim_start c = dropWhile (\<lambda>x. x = c)"

definition trim_finish :: "'a \<Rightarrow> 'a list \<Rightarrow> 'a list" where
  "trim_finish c xs = rev (dropWhile (\<lambda>x. x = c) (rev xs))"

definition trim_matches :: "'a \<Rightarrow> 'a list \<Rightarrow> 'a list" where
  "trim_matches c xs = trim_finish c (trim_start c xs)"

end
