(* ===== verification/Console_Utf8.thy ===== *)
theory Console_Utf8
  imports Rust_Str
begin

text \<open>
  The incremental UTF-8 decoder of \<open>kernel/src/console/utf8.rs\<close> and the reader of the serial
  port in \<open>kernel/src/abi/syscall.rs\<close> that feeds it. The port is the list of the bytes it still
  has to deliver. A character is its code point; \<open>encode_utf8\<close> is the encoder of the standard
  library, with which a descriptor read turns a character into bytes.
\<close>

section \<open>The decoder\<close>

record utf8_decoder =
  codepoint :: u32
  minimum :: u32
  remaining :: u8
  pending_byte :: "u8 option"

definition new_utf8_decoder :: utf8_decoder where
  "new_utf8_decoder = \<lparr>codepoint = 0, minimum = 0, remaining = 0, pending_byte = None\<rparr>"

definition replacement_char :: u32 where
  "replacement_char = 0xfffd"

text \<open>\<open>char::from_u32\<close>: the Unicode scalar values.\<close>

definition scalar :: "u32 \<Rightarrow> bool" where
  "scalar c \<longleftrightarrow> c < 0xd800 \<or> 0xe000 \<le> c \<and> c \<le> 0x10ffff"

definition char_from_u32 :: "u32 \<Rightarrow> u32 option" where
  "char_from_u32 c = (if scalar c then Some c else None)"

definition push :: "u8 \<Rightarrow> utf8_decoder \<Rightarrow> u32 option \<times> utf8_decoder" where
  "push byte d =
     (if remaining d = 0 then
        (if byte \<le> 0x7f then (Some (ucast byte), d)
         else if 0xc2 \<le> byte \<and> byte \<le> 0xdf then
           (None, d\<lparr>codepoint := ucast (byte AND 0x1f), minimum := 0x80, remaining := 1\<rparr>)
         else if 0xe0 \<le> byte \<and> byte \<le> 0xef then
           (None, d\<lparr>codepoint := ucast (byte AND 0x0f), minimum := 0x800, remaining := 2\<rparr>)
         else if 0xf0 \<le> byte \<and> byte \<le> 0xf4 then
           (None, d\<lparr>codepoint := ucast (byte AND 0x07), minimum := 0x10000, remaining := 3\<rparr>)
         else (Some replacement_char, d))
      else if byte AND 0xc0 \<noteq> 0x80 then (Some replacement_char, new_utf8_decoder\<lparr>pending_byte := Some byte\<rparr>)
      else
        let d = d\<lparr>codepoint := push_bit 6 (codepoint d) OR ucast (byte AND 0x3f), remaining := remaining d - 1\<rparr> in
        if remaining d \<noteq> 0 then (None, d)
        else if codepoint d < minimum d then (Some replacement_char, d)
        else (case char_from_u32 (codepoint d) of Some c \<Rightarrow> (Some c, d) | None \<Rightarrow> (Some replacement_char, d)))"

definition push_pending :: "utf8_decoder \<Rightarrow> u32 option \<times> utf8_decoder" where
  "push_pending d = (case pending_byte d of
     None \<Rightarrow> (None, d)
   | Some byte \<Rightarrow> push byte (d\<lparr>pending_byte := None\<rparr>))"

section \<open>The serial port\<close>

definition serial_read_char :: "u8 list \<Rightarrow> utf8_decoder \<Rightarrow> u32 option \<times> u8 list \<times> utf8_decoder" where
  "serial_read_char port d = (case push_pending d of
     (Some character, d) \<Rightarrow> (Some character, port, d)
   | (None, d) \<Rightarrow> (case port of
       [] \<Rightarrow> (None, port, d)
     | byte # port \<Rightarrow> let (character, d) = push byte d in (character, port, d)))"

lemma push_pending_byte:
  assumes "push byte d = (c, d')"
  shows "remaining d = 0 \<Longrightarrow> pending_byte d' = pending_byte d"
    and "pending_byte d' = pending_byte d \<or> pending_byte d' = Some byte \<and> remaining d' = 0 \<and> c \<noteq> None"
proof -
  show "remaining d = 0 \<Longrightarrow> pending_byte d' = pending_byte d"
    using assms by (auto simp: push_def split: if_split_asm)
  then show "pending_byte d' = pending_byte d \<or> pending_byte d' = Some byte \<and> remaining d' = 0 \<and> c \<noteq> None"
    using assms by (cases "remaining d = 0")
      (auto simp: push_def Let_def new_utf8_decoder_def split: if_split_asm option.split_asm)
qed

definition serial_work :: "u8 list \<Rightarrow> utf8_decoder \<Rightarrow> nat" where
  "serial_work port d = 3 * length port +
     (if pending_byte d = None then 0 else if remaining d = 0 then 1 else 2)"

lemma serial_work_decreases:
  assumes "serial_read_char port d = (c, port', d')" "\<not> (port = [] \<and> pending_byte d = None)"
  shows "serial_work port' d' < serial_work port d"
proof -
  obtain c1 d1 where p: "push_pending d = (c1, d1)" by fastforce
  have none: "pending_byte d = None \<Longrightarrow> d1 = d \<and> c1 = None" using p by (simp add: push_pending_def)
  have some: "push b (d\<lparr>pending_byte := None\<rparr>) = (c1, d1)" if "pending_byte d = Some b" for b
    using p that by (simp add: push_pending_def)
  have d1: "pending_byte d \<noteq> None \<Longrightarrow> remaining d = 0 \<Longrightarrow> pending_byte d1 = None"
    "pending_byte d1 = None \<or> remaining d1 = 0 \<and> c1 \<noteq> None" "pending_byte d = None \<Longrightarrow> d1 = d"
    using push_pending_byte [OF some] none by fastforce+
  show ?thesis
  proof (cases c1)
    case (Some x)
    then have "pending_byte d \<noteq> None" "port' = port" "d' = d1"
      using assms(1) p by (auto simp: serial_read_char_def push_pending_def split: option.splits)
    then show ?thesis using d1 by (auto simp: serial_work_def)
  next
    case None
    show ?thesis
    proof (cases port)
      case Nil
      then have "d' = d1" "port' = []" using assms(1) p None by (auto simp: serial_read_char_def)
      then show ?thesis using assms(2) Nil d1 None by (auto simp: serial_work_def)
    next
      case (Cons b rest)
      then have "port' = rest" "push b d1 = (c, d')"
        using assms(1) p None by (auto simp: serial_read_char_def split: prod.splits)
      moreover have "serial_work rest d' \<le> 3 * length rest + 2" by (simp add: serial_work_def)
      ultimately show ?thesis by (simp add: serial_work_def Cons)
    qed
  qed
qed

text \<open>The characters read by calls of \<open>serial_read_char\<close> until the port has nothing left.\<close>

function serial_characters :: "u8 list \<Rightarrow> utf8_decoder \<Rightarrow> u32 list" where
  "serial_characters port d =
     (if port = [] \<and> pending_byte d = None then []
      else case serial_read_char port d of (c, port', d') \<Rightarrow>
        (case c of Some x \<Rightarrow> [x] | None \<Rightarrow> []) @ serial_characters port' d')"
  by pat_completeness auto
termination
  by (relation "measure (\<lambda>(port, d). serial_work port d)") (auto dest!: serial_work_decreases [OF sym])

declare serial_characters.simps [simp del]

text \<open>\<open>char::encode_utf8\<close>.\<close>

definition encode_utf8 :: "u32 \<Rightarrow> u8 list" where
  "encode_utf8 c = (let n = unat c in map word_of_nat
     (if n < 0x80 then [n]
      else if n < 0x800 then [0xc0 + n div 64, 0x80 + n mod 64]
      else if n < 0x10000 then [0xe0 + n div 4096, 0x80 + n div 64 mod 64, 0x80 + n mod 64]
      else [0xf0 + n div 262144, 0x80 + n div 4096 mod 64, 0x80 + n div 64 mod 64, 0x80 + n mod 64]))"

section \<open>Decoding a character\<close>

text \<open>Digits to base 64.\<close>

lemma digit_mod: "n < m \<Longrightarrow> (k * m + n) mod m = (n :: nat)"
  by simp

lemma digit_div: "n < m \<Longrightarrow> (k * m + n) div m = (k :: nat)"
  by simp

lemma digit_bounds:
  "m < a \<Longrightarrow> n < 64 \<Longrightarrow> m * 64 + n < a * (64 :: nat)" "a \<le> m \<Longrightarrow> a * 64 \<le> m * 64 + (n :: nat)"
  by simp_all

lemma digits:
  "n div 4096 = n div 64 div (64 :: nat)" "n div 262144 = n div 64 div 64 div (64 :: nat)"
  by (simp_all add: div_mult2_eq [symmetric])

lemma digit_less: "n < 64 * m \<Longrightarrow> n div 64 < (m :: nat)"
  by (simp add: less_mult_imp_div_less mult.commute)

lemma unat_low_bits:
  "unat (b AND 0x3f :: u8) = unat b mod 64" "unat (b AND 0x1f :: u8) = unat b mod 32"
  "unat (b AND 0x0f :: u8) = unat b mod 16" "unat (b AND 0x07 :: u8) = unat b mod 8"
proof -
  have m: "(0x3f :: u8) = mask 6" "(0x1f :: u8) = mask 5" "(0x0f :: u8) = mask 4" "(0x07 :: u8) = mask 3"
    by (simp_all add: mask_eq_exp_minus_1)
  show "unat (b AND 0x3f) = unat b mod 64" "unat (b AND 0x1f) = unat b mod 32"
    "unat (b AND 0x0f) = unat b mod 16" "unat (b AND 0x07) = unat b mod 8"
    unfolding m by (simp_all only: take_bit_eq_mask [symmetric] unsigned_take_bit_eq take_bit_eq_mod) (simp_all add: unat_mod)
qed

lemma unat_eq_word: "unat x = n \<Longrightarrow> x = word_of_nat n"
  by auto

lemma continuation_iff: "b AND 0xc0 = (0x80 :: u8) \<longleftrightarrow> 0x80 \<le> b \<and> b \<le> 0xbf"
proof -
  have m: "(0xc0 :: u8) = push_bit 6 (mask 2)" by (simp add: mask_eq_exp_minus_1)
  have "b AND 0xc0 = push_bit 6 (drop_bit 6 b)"
    unfolding m by (rule bit_word_eqI) (auto simp: bit_simps)
  have "unat b < 256" using unsigned_less [of b] by simp
  then have small: "unat b div 64 * 64 < 256" by simp
  have "unat (push_bit 6 (drop_bit 6 b)) = take_bit 8 (push_bit 6 (unat (drop_bit 6 b)))"
    by (simp only: unsigned_push_bit_eq) simp
  also have "\<dots> = unat b div 64 * 64 mod 256"
    by (simp only: push_bit_eq_mult take_bit_eq_mod unat_drop_bit_eq drop_bit_eq_div) (simp add: unat_div)
  also have "\<dots> = 64 * (unat b div 64)" using small by (simp only: mod_less mult.commute)
  finally have "unat (push_bit 6 (drop_bit 6 b)) = 64 * (unat b div 64)" .
  with \<open>b AND 0xc0 = push_bit 6 (drop_bit 6 b)\<close> have "unat (b AND 0xc0) = 64 * (unat b div 64)" by (simp only:)
  moreover have "b AND 0xc0 = 0x80 \<longleftrightarrow> unat (b AND 0xc0) = unat (0x80 :: u8)" by (rule word_unat_eq_iff)
  moreover have "unat (0x80 :: u8) = 128" by simp
  ultimately have "b AND 0xc0 = 0x80 \<longleftrightarrow> 64 * (unat b div 64) = 128" by (simp only:)
  also have "\<dots> \<longleftrightarrow> 128 \<le> unat b \<and> unat b \<le> 191"
  proof -
    have "r < 64 \<Longrightarrow> 64 * q = 128 \<longleftrightarrow> 128 \<le> 64 * q + r \<and> 64 * q + r \<le> 191" for q r :: nat by auto
    from this [of "unat b mod 64" "unat b div 64"] show ?thesis by simp
  qed
  finally show ?thesis by (simp add: word_le_nat_alt)
qed

lemma unat_add_bits:
  assumes "unat c < 2 ^ 26"
  shows "unat (push_bit 6 c OR ucast (b AND 0x3f :: u8) :: u32) = unat c * 64 + unat b mod 64"
proof -
  have m: "(0x3f :: u8) = mask 6" by (simp add: mask_eq_exp_minus_1)
  have "push_bit 6 c AND ucast (b AND 0x3f :: u8) = 0"
    unfolding m by (rule bit_word_eqI) (auto simp: bit_simps)
  then have "push_bit 6 c OR ucast (b AND 0x3f :: u8) = push_bit 6 c + ucast (b AND 0x3f :: u8)"
    by (rule disjunctive_add_eq_or [symmetric])
  moreover have "unat (ucast (b AND 0x3f :: u8) :: u32) = unat b mod 64"
    by (simp add: unat_low_bits unsigned_ucast_eq take_bit_eq_mod)
  moreover have "unat (push_bit 6 c) = unat c * 64"
    using assms by (simp add: push_bit_eq_mult unat_word_ariths)
  moreover have "unat b mod 64 < 64" by simp
  ultimately show ?thesis using assms by (simp add: unat_word_ariths)
qed

text \<open>A step on the bytes of a character, by the numbers the bytes stand for.\<close>

lemma push_first:
  assumes d: "remaining d = 0" and n: "unat b = n"
  shows "n < 128 \<Longrightarrow> push b d = (Some (word_of_nat n), d)"
    and "194 \<le> n \<Longrightarrow> n < 224 \<Longrightarrow> push b d = (None, d\<lparr>codepoint := word_of_nat (n mod 32), minimum := 0x80, remaining := 1\<rparr>)"
    and "224 \<le> n \<Longrightarrow> n < 240 \<Longrightarrow> push b d = (None, d\<lparr>codepoint := word_of_nat (n mod 16), minimum := 0x800, remaining := 2\<rparr>)"
    and "240 \<le> n \<Longrightarrow> n < 245 \<Longrightarrow> push b d = (None, d\<lparr>codepoint := word_of_nat (n mod 8), minimum := 0x10000, remaining := 3\<rparr>)"
proof -
  have u: "(ucast b :: u32) = word_of_nat n" "(ucast (b AND 0x1f) :: u32) = word_of_nat (n mod 32)"
    "(ucast (b AND 0x0f) :: u32) = word_of_nat (n mod 16)" "(ucast (b AND 0x07) :: u32) = word_of_nat (n mod 8)"
    unfolding n [symmetric] unat_low_bits [symmetric] by (simp_all only: of_nat_unat)
  show "n < 128 \<Longrightarrow> push b d = (Some (word_of_nat n), d)"
    "194 \<le> n \<Longrightarrow> n < 224 \<Longrightarrow> push b d = (None, d\<lparr>codepoint := word_of_nat (n mod 32), minimum := 0x80, remaining := 1\<rparr>)"
    "224 \<le> n \<Longrightarrow> n < 240 \<Longrightarrow> push b d = (None, d\<lparr>codepoint := word_of_nat (n mod 16), minimum := 0x800, remaining := 2\<rparr>)"
    "240 \<le> n \<Longrightarrow> n < 245 \<Longrightarrow> push b d = (None, d\<lparr>codepoint := word_of_nat (n mod 8), minimum := 0x10000, remaining := 3\<rparr>)"
    using n by (simp_all only: push_def d u word_le_nat_alt) simp_all
qed

lemma push_next:
  assumes "remaining d \<noteq> 0" "unat b = 128 + n" "n < 64" "codepoint d = word_of_nat c" "c < 2 ^ 26"
  shows "push b d = (let d = d\<lparr>codepoint := word_of_nat (c * 64 + n), remaining := remaining d - 1\<rparr>
    in if remaining d \<noteq> 0 then (None, d)
       else if codepoint d < minimum d then (Some replacement_char, d)
       else if scalar (codepoint d) then (Some (codepoint d), d) else (Some replacement_char, d))"
proof -
  have b: "b AND 0xc0 = 0x80" using assms(2,3) by (simp add: continuation_iff word_le_nat_alt)
  have "unat (word_of_nat c :: u32) = c" using assms(5) by (simp add: unat_of_nat take_bit_eq_mod)
  moreover have "(128 + n) mod 64 = n" using digit_mod [OF assms(3), of 2] by simp
  ultimately have "unat (push_bit 6 (codepoint d) OR ucast (b AND 0x3f)) = c * 64 + n"
    using unat_add_bits [of "codepoint d" b] assms(2,3,4,5) by simp
  then have "push_bit 6 (codepoint d) OR ucast (b AND 0x3f) = (word_of_nat (c * 64 + n) :: u32)"
    by (rule unat_eq_word)
  then show ?thesis
    using assms(1) b by (simp add: push_def char_from_u32_def Let_def split: option.splits)
qed

section \<open>Whole texts\<close>

text \<open>The bytes of a character leave the decoder ready for the next one.\<close>

definition ready :: "utf8_decoder \<Rightarrow> bool" where
  "ready d \<longleftrightarrow> remaining d = 0 \<and> pending_byte d = None"

lemma serial_push:
  assumes "pending_byte d = None" "push b d = (c, d')"
  shows "serial_characters (b # port) d = (case c of Some x \<Rightarrow> [x] | None \<Rightarrow> []) @ serial_characters port d'"
  using assms by (subst serial_characters.simps) (simp add: serial_read_char_def push_pending_def)

lemma unat_scalar: "scalar c \<longleftrightarrow> unat c < 55296 \<or> 57344 \<le> unat c \<and> unat c \<le> 1114111"
  by (simp add: scalar_def word_less_nat_alt word_le_nat_alt)

lemma unat_u32 [simp]: "n < 4294967296 \<Longrightarrow> unat (word_of_nat n :: u32) = n"
  by (simp add: unat_of_nat take_bit_eq_mod)

lemma unat_u8 [simp]: "n < 256 \<Longrightarrow> unat (word_of_nat n :: u8) = n"
  by (simp add: unat_of_nat take_bit_eq_mod)

lemma serial_char:
  assumes "ready d" "scalar c"
  shows "\<exists>d'. ready d' \<and> serial_characters (encode_utf8 c @ port) d = c # serial_characters port d'"
proof -
  let ?n = "unat c"
  have r: "remaining d = 0" "pending_byte d = None" using assms(1) by (simp_all add: ready_def)
  have n: "?n \<le> 1114111" using assms(2) by (auto simp: unat_scalar)
  have c: "word_of_nat ?n = c" by simp
  consider "?n < 0x80" | "0x80 \<le> ?n" "?n < 0x800" | "0x800 \<le> ?n" "?n < 0x10000" | "0x10000 \<le> ?n" by linarith
  then show ?thesis
  proof cases
    case 1
    then have e: "encode_utf8 c = [word_of_nat ?n]" by (simp add: encode_utf8_def Let_def del: of_nat_add)
    have u: "unat (word_of_nat ?n :: u8) = ?n" by (rule unat_u8) (use 1 in simp)
    have "push (word_of_nat ?n) d = (Some c, d)" using push_first(1) [OF r(1) u] 1 c by (simp del: of_nat_add)
    then have "serial_characters (encode_utf8 c @ port) d = c # serial_characters port d"
      using serial_push [OF r(2)] by (simp add: e)
    then show ?thesis using assms(1) by blast
  next
    case 2
    let ?b1 = "word_of_nat (192 + ?n div 64) :: u8" and ?b2 = "word_of_nat (128 + ?n mod 64) :: u8"
    have e: "encode_utf8 c = [?b1, ?b2]" using 2 by (simp add: encode_utf8_def Let_def del: of_nat_add)
    have h: "2 \<le> ?n div 64" "?n div 64 < 32" using 2 digit_less [of ?n 32] div_le_mono [of 128 ?n 64] by simp_all
    note h = h digit_mod [OF h(2), of 6, simplified]
    let ?d1 = "d\<lparr>codepoint := word_of_nat (?n div 64), minimum := 0x80, remaining := 1\<rparr>"
    have p1: "push ?b1 d = (None, ?d1)" using push_first(2) [OF r(1), of ?b1 "192 + ?n div 64"] h by (simp del: of_nat_add)
    let ?d2 = "?d1\<lparr>codepoint := c, remaining := 0\<rparr>"
    have "?n div 64 * 64 + ?n mod 64 = ?n" by simp
    then have p2: "push ?b2 ?d1 = (Some c, ?d2)"
      using push_next [of ?d1 ?b2 "?n mod 64" "?n div 64"] h 2 assms(2) by (simp add: word_less_nat_alt del: of_nat_add)
    have "serial_characters (encode_utf8 c @ port) d = c # serial_characters port ?d2"
      using serial_push [OF r(2) p1] serial_push [OF _ p2] by (simp add: e r del: of_nat_add)
    then show ?thesis using r by (intro exI [of _ ?d2]) (simp add: ready_def)
  next
    case 3
    let ?b1 = "word_of_nat (224 + ?n div 4096) :: u8" and ?b2 = "word_of_nat (128 + ?n div 64 mod 64) :: u8"
      and ?b3 = "word_of_nat (128 + ?n mod 64) :: u8"
    have e: "encode_utf8 c = [?b1, ?b2, ?b3]" using 3 by (simp add: encode_utf8_def Let_def del: of_nat_add)
    have "?n div 64 < 1024" using digit_less [of ?n 1024] 3 by simp
    then have "?n div 4096 < 16" unfolding digits by (intro digit_less) simp
    note h = \<open>?n div 64 < 1024\<close> this digit_mod [OF this, of 14, simplified]
    have e4: "?n div 4096 * 64 + ?n div 64 mod 64 = ?n div 64" "?n div 64 * 64 + ?n mod 64 = ?n"
      unfolding digits by (simp_all only: div_mult_mod_eq)
    note h = h this
    let ?d1 = "d\<lparr>codepoint := word_of_nat (?n div 4096), minimum := 0x800, remaining := 2\<rparr>"
    have p1: "push ?b1 d = (None, ?d1)" using push_first(3) [OF r(1), of ?b1 "224 + ?n div 4096"] h by (simp del: of_nat_add)
    let ?d2 = "?d1\<lparr>codepoint := word_of_nat (?n div 64), remaining := 1\<rparr>"
    have p2: "push ?b2 ?d1 = (None, ?d2)"
      using push_next [of ?d1 ?b2 "?n div 64 mod 64" "?n div 4096"] h by (simp del: of_nat_add)
    let ?d3 = "?d2\<lparr>codepoint := c, remaining := 0\<rparr>"
    have p3: "push ?b3 ?d2 = (Some c, ?d3)"
      using push_next [of ?d2 ?b3 "?n mod 64" "?n div 64"] h 3 assms(2) by (simp add: word_less_nat_alt del: of_nat_add)
    have "serial_characters (encode_utf8 c @ port) d = c # serial_characters port ?d3"
      using serial_push [OF r(2) p1] serial_push [OF _ p2] serial_push [OF _ p3] by (simp add: e r del: of_nat_add)
    then show ?thesis using r by (intro exI [of _ ?d3]) (simp add: ready_def)
  next
    case 4
    let ?b1 = "word_of_nat (240 + ?n div 262144) :: u8" and ?b2 = "word_of_nat (128 + ?n div 4096 mod 64) :: u8"
      and ?b3 = "word_of_nat (128 + ?n div 64 mod 64) :: u8" and ?b4 = "word_of_nat (128 + ?n mod 64) :: u8"
    have e: "encode_utf8 c = [?b1, ?b2, ?b3, ?b4]" using 4 by (simp add: encode_utf8_def Let_def del: of_nat_add)
    have b1: "?n div 64 < 17408" using digit_less [of ?n 17408] n by simp
    then have b2: "?n div 4096 < 272" unfolding digits by (intro digit_less) simp
    then have b3: "?n div 262144 < 5" unfolding digits by (intro digit_less) simp
    then have b4: "?n div 262144 < 8" by simp
    have e4: "?n div 262144 * 64 + ?n div 4096 mod 64 = ?n div 4096"
      "?n div 4096 * 64 + ?n div 64 mod 64 = ?n div 64" "?n div 64 * 64 + ?n mod 64 = ?n"
      unfolding digits by (simp_all only: div_mult_mod_eq)
    note h = b1 b2 b3 digit_mod [OF b4, of 30, simplified] e4
    let ?d1 = "d\<lparr>codepoint := word_of_nat (?n div 262144), minimum := 0x10000, remaining := 3\<rparr>"
    have p1: "push ?b1 d = (None, ?d1)" using push_first(4) [OF r(1), of ?b1 "240 + ?n div 262144"] h by (simp del: of_nat_add)
    let ?d2 = "?d1\<lparr>codepoint := word_of_nat (?n div 4096), remaining := 2\<rparr>"
    have p2: "push ?b2 ?d1 = (None, ?d2)"
      using push_next [of ?d1 ?b2 "?n div 4096 mod 64" "?n div 262144"] h by (simp del: of_nat_add)
    let ?d3 = "?d2\<lparr>codepoint := word_of_nat (?n div 64), remaining := 1\<rparr>"
    have p3: "push ?b3 ?d2 = (None, ?d3)"
      using push_next [of ?d2 ?b3 "?n div 64 mod 64" "?n div 4096"] h by (simp del: of_nat_add)
    let ?d4 = "?d3\<lparr>codepoint := c, remaining := 0\<rparr>"
    have p4: "push ?b4 ?d3 = (Some c, ?d4)"
      using push_next [of ?d3 ?b4 "?n mod 64" "?n div 64"] h 4 assms(2) by (simp add: word_less_nat_alt del: of_nat_add)
    have "serial_characters (encode_utf8 c @ port) d = c # serial_characters port ?d4"
      using serial_push [OF r(2) p1] serial_push [OF _ p2] serial_push [OF _ p3] serial_push [OF _ p4] by (simp add: e r del: of_nat_add)
    then show ?thesis using r by (intro exI [of _ ?d4]) (simp add: ready_def)
  qed
qed

lemma serial_text:
  "ready d \<Longrightarrow> list_all scalar cs \<Longrightarrow> serial_characters (concat (map encode_utf8 cs)) d = cs"
proof (induction cs arbitrary: d)
  case Nil
  then show ?case by (simp add: serial_characters.simps ready_def)
next
  case (Cons c cs)
  then obtain d' where "ready d'" "serial_characters (encode_utf8 c @ concat (map encode_utf8 cs)) d =
      c # serial_characters (concat (map encode_utf8 cs)) d'"
    using serial_char [of d c "concat (map encode_utf8 cs)"] by auto
  then show ?case using Cons by simp
qed

lemma unat_between: "word_of_nat a \<le> (b :: u8) \<Longrightarrow> a < 256 \<Longrightarrow> a \<le> unat b"
  by (simp add: word_le_nat_alt)

lemma encode_known:
  assumes "n \<le> 1114111"
  shows "n < 0x80 \<Longrightarrow> encode_utf8 (word_of_nat n) = [word_of_nat n]"
    and "0x80 \<le> n \<Longrightarrow> n < 0x800 \<Longrightarrow> encode_utf8 (word_of_nat n) = [word_of_nat (192 + n div 64), word_of_nat (128 + n mod 64)]"
    and "0x800 \<le> n \<Longrightarrow> n < 0x10000 \<Longrightarrow> encode_utf8 (word_of_nat n) =
      [word_of_nat (224 + n div 4096), word_of_nat (128 + n div 64 mod 64), word_of_nat (128 + n mod 64)]"
    and "0x10000 \<le> n \<Longrightarrow> encode_utf8 (word_of_nat n) =
      [word_of_nat (240 + n div 262144), word_of_nat (128 + n div 4096 mod 64), word_of_nat (128 + n div 64 mod 64), word_of_nat (128 + n mod 64)]"
  using assms by (simp_all add: encode_utf8_def Let_def)

lemma byte_is: "unat (b :: u8) = n \<Longrightarrow> word_of_nat n = b"
  by auto

lemma scalar_nat:
  assumes "n < 55296 \<or> 57344 \<le> n \<and> n \<le> 1114111" shows "scalar (word_of_nat n)"
proof -
  have "n < 4294967296" using assms by auto
  from unat_u32 [OF this] show ?thesis using assms unfolding unat_scalar by (simp only:)
qed

lemma encoded_two:
  assumes "194 \<le> unat a" "unat a < 224" "128 \<le> unat b" "unat b < 192"
  shows "\<exists>c. scalar c \<and> encode_utf8 c = [a, b]"
proof -
  define x y where "x = unat a - 192" and "y = unat b - 128"
  let ?n = "x * 64 + y"
  have h: "y < 64" "2 \<le> x" "x < 32" using assms by (simp_all add: x_def y_def)
  then have "?n div 64 = x" "?n mod 64 = y" "0x80 \<le> ?n" "?n < 0x800" by simp_all
  then have "encode_utf8 (word_of_nat ?n) = [a, b]"
    using encode_known(2) [of ?n] assms byte_is [of a "192 + x"] byte_is [of b "128 + y"]
    by (simp add: x_def y_def del: of_nat_add of_nat_mult)
  then show ?thesis using scalar_nat [of ?n] \<open>?n < 0x800\<close> by auto
qed

lemma encoded_three:
  assumes "224 \<le> unat a" "unat a < 240" "128 \<le> unat b" "unat b < 192" "128 \<le> unat c" "unat c < 192"
    and "unat a = 224 \<longrightarrow> 160 \<le> unat b" "unat a = 237 \<longrightarrow> unat b < 160"
  shows "\<exists>v. scalar v \<and> encode_utf8 v = [a, b, c]"
proof -
  define x y z where "x = unat a - 224" and "y = unat b - 128" and "z = unat c - 128"
  let ?m = "x * 64 + y"
  let ?n = "?m * 64 + z"
  have h: "x < 16" "y < 64" "z < 64" using assms by (simp_all add: x_def y_def z_def)
  then have d: "?n div 64 = ?m" "?n mod 64 = z" "?m div 64 = x" "?m mod 64 = y" by (simp_all only: digit_div digit_mod)
  have low: "32 \<le> ?m" "?m < 1024" using h assms(1,7) by (auto simp: x_def y_def)
  have "?m < 864 \<or> 896 \<le> ?m"
  proof -
    consider "x < 13" | "x = 13" | "14 \<le> x" by linarith
    then show ?thesis
    proof cases
      case 2
      then have "unat a = 237" using assms(1) by (simp add: x_def)
      then show ?thesis using 2 assms(8) by (auto simp: y_def)
    qed (use h in linarith)+
  qed
  then have "?n < 55296 \<or> 57344 \<le> ?n \<and> ?n \<le> 1114111"
  proof
    assume "?m < 864"
    then have "?n < 55296" using digit_bounds(1) [of ?m 864 z] h by simp
    then show ?thesis ..
  next
    assume "896 \<le> ?m"
    then have "57344 \<le> ?n" "?n \<le> 1114111"
      using digit_bounds(2) [of 896 ?m z] digit_bounds(1) [of ?m 1024 z] h low by simp_all
    then show ?thesis by simp
  qed
  then have "scalar (word_of_nat ?n)" by (rule scalar_nat)
  moreover have bytes: "word_of_nat (224 + x) = a" "word_of_nat (128 + y) = b" "word_of_nat (128 + z) = c"
    using assms by (intro byte_is; simp add: x_def y_def z_def)+
  moreover have "2048 \<le> ?n" "?n < 65536" "?n \<le> 1114111"
    using digit_bounds(2) [of 32 ?m z] digit_bounds(1) [of ?m 1024 z] h low by simp_all
  then have "encode_utf8 (word_of_nat ?n) = [a, b, c]"
    using encode_known(3) [of ?n] by (simp only: digits d bytes)
  ultimately show ?thesis by blast
qed

lemma encoded_four:
  assumes "240 \<le> unat a" "unat a < 245" "128 \<le> unat b" "unat b < 192" "128 \<le> unat c" "unat c < 192"
    "128 \<le> unat e" "unat e < 192" and "unat a = 240 \<longrightarrow> 144 \<le> unat b" "unat a = 244 \<longrightarrow> unat b < 144"
  shows "\<exists>v. scalar v \<and> encode_utf8 v = [a, b, c, e]"
proof -
  define x y z w where "x = unat a - 240" and "y = unat b - 128" and "z = unat c - 128" and "w = unat e - 128"
  let ?l = "x * 64 + y"
  let ?m = "?l * 64 + z"
  let ?n = "?m * 64 + w"
  have h: "x < 5" "y < 64" "z < 64" "w < 64" using assms by (simp_all add: x_def y_def z_def w_def)
  then have d: "?n div 64 = ?m" "?n mod 64 = w" "?m div 64 = ?l" "?m mod 64 = z" "?l div 64 = x" "?l mod 64 = y" by (simp_all only: digit_div digit_mod)
  have low: "16 \<le> ?l" using h assms(1,9) by (auto simp: x_def y_def)
  have high: "?l < 272"
  proof (cases "x = 4")
    case True
    then have "unat a = 244" using assms(1) by (simp add: x_def)
    then show ?thesis using True assms(10) by (auto simp: y_def)
  qed (use h in linarith)
  have "?m < 17408" "1024 \<le> ?m" using digit_bounds(1) [of ?l 272 z] digit_bounds(2) [of 16 ?l z] h low high by simp_all
  then have "57344 \<le> ?n" "?n \<le> 1114111"
    using digit_bounds(1) [of ?m 17408 w] digit_bounds(2) [of 1024 ?m w] h by simp_all
  then have "scalar (word_of_nat ?n)" by (intro scalar_nat) simp
  moreover have bytes: "word_of_nat (240 + x) = a" "word_of_nat (128 + y) = b" "word_of_nat (128 + z) = c" "word_of_nat (128 + w) = e"
    using assms by (intro byte_is; simp add: x_def y_def z_def w_def)+
  have "65536 \<le> ?n" "?n \<le> 1114111" using \<open>57344 \<le> ?n\<close> \<open>?n \<le> 1114111\<close> digit_bounds(2) [of 1024 ?m w] \<open>1024 \<le> ?m\<close> by simp_all
  then have "encode_utf8 (word_of_nat ?n) = [a, b, c, e]"
    using encode_known(4) [of ?n] by (simp only: digits d bytes)
  ultimately show ?thesis by blast
qed

lemma valid_head:
  assumes "utf8_valid (a # r)"
  shows "\<exists>c rest. scalar c \<and> a # r = encode_utf8 c @ rest \<and> utf8_valid rest \<and> length rest \<le> length r"
proof -
  have "unat a < 256" using unsigned_less [of a] by simp
  consider "unat a < 128" | "128 \<le> unat a" "unat a < 224" | "224 \<le> unat a" "unat a < 240" | "240 \<le> unat a" by linarith
  then show ?thesis
  proof cases
    case 1
    then have "utf8_valid r" using assms by (simp add: word_less_nat_alt)
    moreover have "encode_utf8 (word_of_nat (unat a)) = [a]" using encode_known(1) [of "unat a"] 1 byte_is [of a] by simp
    ultimately show ?thesis using scalar_nat [of "unat a"] 1 by (intro exI [of _ "word_of_nat (unat a)"] exI [of _ r]) simp
  next
    case 2
    then obtain b r1 where r: "r = b # r1" "194 \<le> unat a" "utf8_cont b" "utf8_valid r1"
      using assms by (auto simp: word_less_nat_alt word_le_nat_alt word_unat_eq_iff split: list.splits if_splits)
    then obtain v where "scalar v" "encode_utf8 v = [a, b]"
      using encoded_two [of a b] 2 by (auto simp: utf8_cont_def word_le_nat_alt)
    then show ?thesis using r by auto
  next
    case 3
    have a: "\<not> a < 0x80" "\<not> (0xC2 \<le> a \<and> a \<le> 0xDF)" "0xE1 \<le> a \<and> a \<le> 0xEF \<or> a = 0xE0"
      using 3 by (auto simp: word_less_nat_alt word_le_nat_alt word_unat_eq_iff)
    have u: "a = 0xE0 \<longleftrightarrow> unat a = 224" "a = 0xED \<longleftrightarrow> unat a = 237" by (simp_all add: word_unat_eq_iff)
    obtain b c r2 where r: "r = b # c # r2" using assms a(1,2) by (auto split: list.splits)
    have v: "if a = 0xE0 then 0xA0 \<le> b \<and> b \<le> 0xBF \<and> utf8_cont c \<and> utf8_valid r2
         else if a = 0xED then 0x80 \<le> b \<and> b \<le> 0x9F \<and> utf8_cont c \<and> utf8_valid r2
         else utf8_cont b \<and> utf8_cont c \<and> utf8_valid r2"
      using assms a unfolding r utf8_valid.simps(2) by (simp only: list.case if_False if_True refl split: if_splits) auto
    have r: "r = b # c # r2" "utf8_valid r2" "utf8_cont c" "utf8_cont b"
      "unat a = 224 \<longrightarrow> 160 \<le> unat b" "unat a = 237 \<longrightarrow> unat b < 160"
      using r v unfolding u by (auto simp: utf8_cont_def word_le_nat_alt split: if_splits)
    then obtain v where "scalar v" "encode_utf8 v = [a, b, c]"
      using encoded_three [of a b c] 3 by (auto simp: utf8_cont_def word_le_nat_alt)
    then show ?thesis using r by auto
  next
    case 4
    then have a: "\<not> a < 0x80" "\<not> (0xC2 \<le> a \<and> a \<le> 0xDF)" "\<not> (0xE1 \<le> a \<and> a \<le> 0xEF)" "a \<noteq> 0xE0" "a \<noteq> 0xED"
      by (auto simp: word_less_nat_alt word_le_nat_alt)
    have u: "a = 0xF0 \<longleftrightarrow> unat a = 240" "a = 0xF4 \<longleftrightarrow> unat a = 244" by (simp_all add: word_unat_eq_iff)
    obtain b c e r3 where r: "r = b # c # e # r3" using assms a by (auto split: list.splits)
    have v: "if a = 0xF0 then 0x90 \<le> b \<and> b \<le> 0xBF \<and> utf8_cont c \<and> utf8_cont e \<and> utf8_valid r3
         else if a = 0xF4 then 0x80 \<le> b \<and> b \<le> 0x8F \<and> utf8_cont c \<and> utf8_cont e \<and> utf8_valid r3
         else 0xF1 \<le> a \<and> a \<le> 0xF3 \<and> utf8_cont b \<and> utf8_cont c \<and> utf8_cont e \<and> utf8_valid r3"
      using assms a unfolding r utf8_valid.simps(2) by (simp only: list.case if_False)
    have r: "r = b # c # e # r3" "utf8_valid r3" "utf8_cont c" "utf8_cont b" "utf8_cont e" "unat a < 245"
      "unat a = 240 \<longrightarrow> 144 \<le> unat b" "unat a = 244 \<longrightarrow> unat b < 144"
      using r v unfolding u by (auto simp: utf8_cont_def word_le_nat_alt split: if_splits)
    then obtain v where "scalar v" "encode_utf8 v = [a, b, c, e]"
      using encoded_four [of a b c e] 4 r by (auto simp: utf8_cont_def word_le_nat_alt)
    then show ?thesis using r by auto
  qed
qed

lemma valid_text: "utf8_valid bs \<Longrightarrow> \<exists>cs. list_all scalar cs \<and> bs = concat (map encode_utf8 cs)"
proof (induction bs rule: length_induct)
  case (1 bs)
  show ?case
  proof (cases bs)
    case Nil
    then show ?thesis by (intro exI [of _ "[]"]) simp
  next
    case (Cons a r)
    then obtain c rest where c: "scalar c" "bs = encode_utf8 c @ rest" "utf8_valid rest" "length rest < length bs"
      using valid_head [of a r] 1 by fastforce
    then obtain cs where "list_all scalar cs" "rest = concat (map encode_utf8 cs)" using 1 by blast
    then show ?thesis using c by (intro exI [of _ "c # cs"]) simp
  qed
qed

lemma new_ready: "ready new_utf8_decoder"
  by (simp add: ready_def new_utf8_decoder_def)

text \<open>
  C19. The decoder of the serial console agrees with the standard library. A text of characters
  encoded by \<open>encode_utf8\<close> and sent to the port is read back character by character, and every
  byte string that \<open>from_utf8\<close> accepts is read as characters that encode to it.
\<close>

theorem console_decodes_utf8:
  "\<forall>cs bs. (list_all scalar cs \<longrightarrow> serial_characters (concat (map encode_utf8 cs)) new_utf8_decoder = cs) \<and>
     (utf8_valid bs \<longrightarrow> list_all scalar (serial_characters bs new_utf8_decoder) \<and>
        concat (map encode_utf8 (serial_characters bs new_utf8_decoder)) = bs)"
  using serial_text [OF new_ready] valid_text by metis

theorem console_decodes_utf8_witness:
  "serial_characters (encode_utf8 0xe7 @ encode_utf8 0x41) new_utf8_decoder = [0xe7, 0x41]"
proof -
  have "list_all scalar [0xe7, 0x41]" by (simp add: scalar_def)
  then show ?thesis using console_decodes_utf8 [rule_format, THEN conjunct1, of "[0xe7, 0x41]"] by simp
qed

lemma valid_two:
  "194 \<le> unat a \<Longrightarrow> unat a < 224 \<Longrightarrow> 128 \<le> unat b \<Longrightarrow> unat b < 192 \<Longrightarrow> utf8_valid rest \<Longrightarrow> utf8_valid (a # b # rest)"
  by (simp add: utf8_cont_def word_less_nat_alt word_le_nat_alt)

lemma valid_three:
  assumes "224 \<le> unat a" "unat a < 240" "128 \<le> unat b" "unat b < 192" "128 \<le> unat c" "unat c < 192"
    and "unat a = 224 \<longrightarrow> 160 \<le> unat b" "unat a = 237 \<longrightarrow> unat b < 160" "utf8_valid rest"
  shows "utf8_valid (a # b # c # rest)"
proof -
  have "\<not> a < 0x80" "\<not> (0xC2 \<le> a \<and> a \<le> 0xDF)" "a \<noteq> 0xE0 \<Longrightarrow> 0xE1 \<le> a \<and> a \<le> 0xEF"
    "a = 0xE0 \<longleftrightarrow> unat a = 224" "a = 0xED \<longleftrightarrow> unat a = 237"
    using assms by (auto simp: word_less_nat_alt word_le_nat_alt word_unat_eq_iff)
  then show ?thesis
    using assms unfolding utf8_valid.simps(2) [of a] by (simp only: list.case if_False) (auto simp: utf8_cont_def word_le_nat_alt)
qed

lemma valid_four:
  assumes "240 \<le> unat a" "unat a < 245" "128 \<le> unat b" "unat b < 192" "128 \<le> unat c" "unat c < 192"
    "128 \<le> unat e" "unat e < 192" and "unat a = 240 \<longrightarrow> 144 \<le> unat b" "unat a = 244 \<longrightarrow> unat b < 144" "utf8_valid rest"
  shows "utf8_valid (a # b # c # e # rest)"
proof -
  have "\<not> a < 0x80" "\<not> (0xC2 \<le> a \<and> a \<le> 0xDF)" "\<not> (0xE1 \<le> a \<and> a \<le> 0xEF)" "a \<noteq> 0xE0" "a \<noteq> 0xED"
    "a = 0xF0 \<longleftrightarrow> unat a = 240" "a = 0xF4 \<longleftrightarrow> unat a = 244"
    using assms by (auto simp: word_less_nat_alt word_le_nat_alt word_unat_eq_iff)
  then show ?thesis
    using assms unfolding utf8_valid.simps(2) [of a] by (simp only: list.case if_False) (auto simp: utf8_cont_def word_le_nat_alt)
qed

lemma unat_byte: "a + n < 256 \<Longrightarrow> unat (word_of_nat (a + n) :: u8) = a + n"
  by (rule unat_u8)

lemma encode_valid:
  assumes "scalar c" "utf8_valid rest" shows "utf8_valid (encode_utf8 c @ rest)"
proof -
  define n where "n = unat c"
  have n: "n < 55296 \<or> 57344 \<le> n \<and> n \<le> 1114111" using assms(1) by (simp add: unat_scalar n_def)
  define z m y l where "z = n mod 64" and "m = n div 64" and "y = m mod 64" and "l = m div 64"
  have n_digits: "n = m * 64 + z" "m = l * 64 + y" "z < 64" "y < 64" by (simp_all add: z_def m_def y_def l_def)
  consider "n < 0x80" | "0x80 \<le> n" "n < 0x800" | "0x800 \<le> n" "n < 0x10000" | "0x10000 \<le> n" by linarith
  then show ?thesis
  proof cases
    case 1
    have "word_of_nat n < (0x80 :: u8)" using 1 unat_u8 [of n] by (simp add: word_less_nat_alt del: unat_u8)
    then show ?thesis using 1 assms(2) by (simp add: encode_utf8_def Let_def n_def)
  next
    case 2
    then have "2 \<le> m" "m < 32" using n_digits by linarith+
    then have "utf8_valid (word_of_nat (192 + m) # word_of_nat (128 + z) # rest)"
      using n_digits(3) assms(2) by (intro valid_two) (simp_all only: unat_byte)
    then show ?thesis using 2 by (simp add: encode_utf8_def Let_def n_def m_def z_def)
  next
    case 3
    then have q: "32 \<le> m" "m < 1024" "l < 16" "l = 0 \<longrightarrow> 32 \<le> y" "l = 13 \<longrightarrow> y < 32" using n n_digits by linarith+
    then have "utf8_valid (word_of_nat (224 + l) # word_of_nat (128 + y) # word_of_nat (128 + z) # rest)"
      using n_digits(3,4) assms(2) by (intro valid_three) (simp_all add: unat_byte del: of_nat_add)
    then show ?thesis using 3 by (simp add: encode_utf8_def Let_def n_def m_def z_def y_def l_def digits)
  next
    case 4
    define x w where "x = l mod 64" and "w = l div 64"
    have l: "l = w * 64 + x" "x < 64" by (simp_all add: x_def w_def)
    have q: "1024 \<le> m" "m < 17408" "16 \<le> l" "l < 272" "w < 5" "w = 0 \<longrightarrow> 16 \<le> x" "w = 4 \<longrightarrow> x < 16"
      using 4 n n_digits l by linarith+
    then have "utf8_valid (word_of_nat (240 + w) # word_of_nat (128 + x) # word_of_nat (128 + y) # word_of_nat (128 + z) # rest)"
      using n_digits(3,4) l(2) assms(2) by (intro valid_four) (simp_all add: unat_byte del: of_nat_add)
    then show ?thesis using 4 by (simp add: encode_utf8_def Let_def n_def m_def z_def y_def l_def x_def w_def digits)
  qed
qed

section \<open>Any bytes\<close>

text \<open>
  What a character that is read may stand for: the bytes that encode it, or, for U+FFFD, bytes
  that are no text, the first of them possibly followed by continuation bytes only, so that no
  character is swallowed with them.
\<close>

definition malformed :: "u8 list \<Rightarrow> bool" where
  "malformed s \<longleftrightarrow> s \<noteq> [] \<and> length s \<le> 4 \<and> \<not> utf8_valid s \<and> list_all utf8_cont (tl s)"

definition read_as :: "u8 list \<Rightarrow> u32 \<Rightarrow> bool" where
  "read_as s c \<longleftrightarrow> scalar c \<and> s = encode_utf8 c \<or> c = replacement_char \<and> malformed s"

lemma cont_nat: "utf8_cont b \<longleftrightarrow> 128 \<le> unat b \<and> unat b < 192"
  by (auto simp: utf8_cont_def word_le_nat_alt)

text \<open>A continuation byte in the middle and at the end of a character, and a byte that breaks one off.\<close>

lemma next_middle:
  assumes "pending_byte d = None" "remaining d \<noteq> 0" "remaining d \<noteq> 1" "unat b = 128 + y" "y < 64"
    and "codepoint d = word_of_nat c" "c < 2 ^ 26" "n = c * 64 + y"
  shows "serial_characters (b # port) d =
    serial_characters port (d\<lparr>codepoint := word_of_nat n, remaining := remaining d - 1\<rparr>)"
proof -
  have "push b d = (None, d\<lparr>codepoint := word_of_nat n, remaining := remaining d - 1\<rparr>)"
    using push_next [OF assms(2,4-7), folded assms(8)] assms(3) by (simp add: Let_def)
  from serial_push [OF assms(1) this] show ?thesis by simp
qed

lemma next_last:
  assumes "pending_byte d = None" "remaining d = 1" "unat b = 128 + y" "y < 64"
    and "codepoint d = word_of_nat c" "c < 2 ^ 26" "n = c * 64 + y"
  shows "serial_characters (b # port) d =
    (if word_of_nat n < minimum d \<or> \<not> scalar (word_of_nat n) then replacement_char else word_of_nat n) #
    serial_characters port (d\<lparr>codepoint := word_of_nat n, remaining := 0\<rparr>)"
proof -
  let ?d = "d\<lparr>codepoint := word_of_nat n, remaining := 0\<rparr>"
  have "remaining d \<noteq> 0" using assms(2) by simp
  from push_next [OF this assms(3-6), folded assms(7)] assms(2)
  have "push b d = (Some (if word_of_nat n < minimum d \<or> \<not> scalar (word_of_nat n) then replacement_char else word_of_nat n), ?d)"
    by (simp add: Let_def)
  from serial_push [OF assms(1) this] show ?thesis by simp
qed

lemma pending_is_next:
  assumes "pending_byte d = None" "remaining d = 0"
  shows "serial_characters port (d\<lparr>pending_byte := Some b\<rparr>) = serial_characters (b # port) d"
proof -
  obtain c d' where p: "push b d = (c, d')" by fastforce
  have d': "pending_byte d' = None" using push_pending_byte(1) [OF p assms(2)] assms(1) by simp
  have same: "d\<lparr>pending_byte := None\<rparr> = d" using assms(1) by simp
  show ?thesis
  proof (cases c)
    case (Some x)
    then show ?thesis
      using serial_push [OF assms(1) p] p same
      by (subst serial_characters.simps) (simp add: serial_read_char_def push_pending_def)
  next
    case None
    show ?thesis
    proof (cases port)
      case Nil
      then show ?thesis
        using serial_push [OF assms(1) p] p same None d'
        by (subst serial_characters.simps) (simp add: serial_read_char_def push_pending_def)
    next
      case (Cons a rest)
      obtain c2 d2 where q: "push a d' = (c2, d2)" by fastforce
      show ?thesis
        using serial_push [OF assms(1) p] serial_push [OF d' q] p q same None Cons
        by (subst serial_characters.simps) (simp add: serial_read_char_def push_pending_def)
    qed
  qed
qed

lemma next_broken:
  assumes "pending_byte d = None" "remaining d \<noteq> 0" "\<not> utf8_cont b"
  shows "serial_characters (b # port) d = replacement_char # serial_characters (b # port) new_utf8_decoder"
proof -
  have "push b d = (Some replacement_char, new_utf8_decoder\<lparr>pending_byte := Some b\<rparr>)"
    using assms(2,3) by (simp add: push_def continuation_iff utf8_cont_def)
  from serial_push [OF assms(1) this] show ?thesis
    using pending_is_next [of new_utf8_decoder] by (simp add: new_utf8_decoder_def)
qed

text \<open>The reading of a whole sequence decides between its two meanings.\<close>

lemma decided:
  assumes "ready d" "\<And>port. serial_characters (s @ port) d = v # serial_characters port d'" "ready d'"
    and "s \<noteq> []" "length s \<le> 4" "list_all utf8_cont (tl s)"
    and "v \<noteq> replacement_char \<Longrightarrow> scalar v \<and> encode_utf8 v = s"
  shows "read_as s v"
proof (cases "utf8_valid s")
  case True
  then obtain cs where cs: "list_all scalar cs" "s = concat (map encode_utf8 cs)" using valid_text by blast
  then have "serial_characters s d = cs" using serial_text [OF assms(1)] by simp
  moreover have "serial_characters s d = [v]"
    using assms(2) [of "[]"] assms(3) by (simp add: ready_def serial_characters.simps [of "[]"])
  ultimately have "cs = [v]" by simp
  then show ?thesis using cs by (simp add: read_as_def)
next
  case False
  then show ?thesis using assms(4-7) encode_valid [of v "[]"] by (auto simp: read_as_def malformed_def)
qed

text \<open>A sequence that is still incomplete, and one that has been read.\<close>

definition partial :: "u8 list \<Rightarrow> utf8_decoder \<Rightarrow> bool" where
  "partial s d \<longleftrightarrow> (\<exists>d1. pending_byte d1 = None \<and> remaining d1 \<noteq> 0 \<and>
     (\<forall>port. serial_characters (s @ port) d = serial_characters port d1))"

definition whole :: "u8 list \<Rightarrow> utf8_decoder \<Rightarrow> bool" where
  "whole s d \<longleftrightarrow> (\<exists>v d'. ready d' \<and> read_as s v \<and>
     (\<forall>port. serial_characters (s @ port) d = v # serial_characters port d'))"

lemma cont_digit: "utf8_cont b \<Longrightarrow> \<exists>y < 64. unat b = 128 + y"
  unfolding cont_nat by presburger

lemma wholeI:
  assumes "ready d" "pending_byte d1 = None" "remaining d1 = 1"
    and "\<And>port. serial_characters (s @ port) d = serial_characters port d1"
    and "unat b = 128 + y" "y < 64" "codepoint d1 = word_of_nat c" "c < 2 ^ 26"
    and "encode_utf8 (word_of_nat (c * 64 + y)) = s @ [b] \<or> word_of_nat (c * 64 + y) < minimum d1 \<or> \<not> scalar (word_of_nat (c * 64 + y))"
    and "s \<noteq> []" "length s \<le> 3" "list_all utf8_cont (tl s)"
  shows "whole (s @ [b]) d"
proof -
  define n where "n = c * 64 + y"
  let ?v = "if word_of_nat n < minimum d1 \<or> \<not> scalar (word_of_nat n) then replacement_char else word_of_nat n"
  let ?d2 = "d1\<lparr>codepoint := word_of_nat n, remaining := 0\<rparr>"
  have s: "serial_characters ((s @ [b]) @ port) d = ?v # serial_characters port ?d2" for port
    using next_last [OF assms(2,3,5-8) n_def, of port] assms(4) by simp
  have "utf8_cont b" using assms(5,6) by (simp add: cont_nat)
  then have "read_as (s @ [b]) ?v"
    using assms(9-12) assms(2) unfolding n_def [symmetric]
    by (intro decided [OF assms(1) s]) (auto simp: ready_def split: if_splits)
  then show ?thesis
    unfolding whole_def using s assms(2) by (intro exI [of _ ?v] exI [of _ ?d2]) (simp add: ready_def)
qed

lemma read_two:
  assumes "ready d" "194 \<le> unat a" "unat a < 224"
  shows "partial [a] d" and "utf8_cont b \<Longrightarrow> whole [a, b] d"
proof -
  define x where "x = unat a - 192"
  have x: "unat a = 192 + x" "2 \<le> x" "x < 32" unfolding x_def using assms(2,3) by simp_all
  have xm: "unat a mod 32 = x" using x(1) digit_mod [OF x(3), of 6] by simp
  let ?d1 = "d\<lparr>codepoint := word_of_nat x, minimum := 0x80, remaining := 1\<rparr>"
  have r: "remaining d = 0" "pending_byte d = None" using assms(1) by (simp_all add: ready_def)
  have p: "serial_characters (a # port) d = serial_characters port ?d1" for port
    using serial_push [OF r(2) push_first(2) [OF r(1) refl assms(2,3)]] by (simp add: xm)
  then show "partial [a] d"
    unfolding partial_def using r by (intro exI [of _ ?d1]) simp
  assume "utf8_cont b"
  then obtain y where b: "unat b = 128 + y" "y < 64" using cont_digit by blast
  define n where "n = x * 64 + y"
  have n: "n div 64 = x" "n mod 64 = y" "0x80 \<le> n" "n < 0x800"
    using digit_div [OF b(2)] digit_mod [OF b(2)] digit_bounds(2) [OF x(2)] digit_bounds(1) [OF x(3) b(2)] by (simp_all add: n_def)
  have "encode_utf8 (word_of_nat n) = [a, b]"
    using encode_known(2) [of n] n(3,4) by (simp only: n(1,2) byte_is [OF x(1)] byte_is [OF b(1)])
  then have "whole ([a] @ [b]) d"
    using r p b x unfolding n_def by (intro wholeI [OF assms(1), of ?d1 _ _ y x]) simp_all
  then show "whole [a, b] d" by simp
qed

lemma read_three:
  assumes "ready d" "224 \<le> unat a" "unat a < 240"
  shows "partial [a] d" and "utf8_cont b \<Longrightarrow> partial [a, b] d" and "utf8_cont b \<Longrightarrow> utf8_cont c \<Longrightarrow> whole [a, b, c] d"
proof -
  define x where "x = unat a - 224"
  have x: "unat a = 224 + x" "x < 16" unfolding x_def using assms(2,3) by simp_all
  have xm: "unat a mod 16 = x" using x(1) digit_mod [OF x(2), of 14] by simp
  let ?d1 = "d\<lparr>codepoint := word_of_nat x, minimum := 0x800, remaining := 2\<rparr>"
  have r: "remaining d = 0" "pending_byte d = None" using assms(1) by (simp_all add: ready_def)
  have p: "serial_characters (a # port) d = serial_characters port ?d1" for port
    using serial_push [OF r(2) push_first(3) [OF r(1) refl assms(2,3)]] by (simp add: xm)
  then show "partial [a] d"
    unfolding partial_def using r by (intro exI [of _ ?d1]) simp
  assume b0: "utf8_cont b"
  then obtain y where b: "unat b = 128 + y" "y < 64" using cont_digit by blast
  define m where "m = x * 64 + y"
  have m: "m div 64 = x" "m mod 64 = y" "m < 1024"
    using digit_div [OF b(2)] digit_mod [OF b(2)] digit_bounds(1) [OF x(2) b(2)] by (simp_all add: m_def)
  let ?d2 = "?d1\<lparr>codepoint := word_of_nat m, remaining := 1\<rparr>"
  have q: "serial_characters ([a, b] @ port) d = serial_characters port ?d2" for port
    using next_middle [of ?d1 b y x m port] r b x p by (simp add: m_def)
  then show "partial [a, b] d"
    unfolding partial_def using r by (intro exI [of _ ?d2]) simp
  assume "utf8_cont c"
  then obtain z where c: "unat c = 128 + z" "z < 64" using cont_digit by blast
  define n where "n = m * 64 + z"
  have n: "n div 64 = m" "n mod 64 = z" "n < 0x10000"
    using digit_div [OF c(2)] digit_mod [OF c(2)] digit_bounds(1) [OF m(3) c(2)] by (simp_all add: n_def)
  have "encode_utf8 (word_of_nat n) = [a, b, c]" if "0x800 \<le> n"
    using that encode_known(3) [of n] n(3)
    by (simp only: digits n(1,2) m(1,2) byte_is [OF x(1)] byte_is [OF b(1)] byte_is [OF c(1)])
  moreover have "word_of_nat n < (0x800 :: u32)" if "n < 0x800" using that n(3) by (simp add: word_less_nat_alt)
  ultimately have "encode_utf8 (word_of_nat n) = [a, b, c] \<or> word_of_nat n < (0x800 :: u32)" by linarith
  then have "whole ([a, b] @ [c]) d"
    using r q c m b0 unfolding n_def by (intro wholeI [OF assms(1), of ?d2 _ _ z m]) auto
  then show "whole [a, b, c] d" by simp
qed

lemma read_four:
  assumes "ready d" "240 \<le> unat a" "unat a < 245"
  shows "partial [a] d" and "utf8_cont b \<Longrightarrow> partial [a, b] d" and "utf8_cont b \<Longrightarrow> utf8_cont c \<Longrightarrow> partial [a, b, c] d"
    and "utf8_cont b \<Longrightarrow> utf8_cont c \<Longrightarrow> utf8_cont e \<Longrightarrow> whole [a, b, c, e] d"
proof -
  define x where "x = unat a - 240"
  have x: "unat a = 240 + x" "x < 5" unfolding x_def using assms(2,3) by simp_all
  have "x < 8" using x(2) by simp
  then have xm: "unat a mod 8 = x" using x(1) digit_mod [of x 8 30] by simp
  let ?d1 = "d\<lparr>codepoint := word_of_nat x, minimum := 0x10000, remaining := 3\<rparr>"
  have r: "remaining d = 0" "pending_byte d = None" using assms(1) by (simp_all add: ready_def)
  have p: "serial_characters (a # port) d = serial_characters port ?d1" for port
    using serial_push [OF r(2) push_first(4) [OF r(1) refl assms(2,3)]] by (simp add: xm)
  then show "partial [a] d"
    unfolding partial_def using r by (intro exI [of _ ?d1]) simp
  assume b0: "utf8_cont b"
  then obtain y where b: "unat b = 128 + y" "y < 64" using cont_digit by blast
  define l where "l = x * 64 + y"
  have l: "l div 64 = x" "l mod 64 = y" "l < 320"
    using digit_div [OF b(2)] digit_mod [OF b(2)] digit_bounds(1) [OF x(2) b(2)] by (simp_all add: l_def)
  let ?d2 = "?d1\<lparr>codepoint := word_of_nat l, remaining := 2\<rparr>"
  have q: "serial_characters ([a, b] @ port) d = serial_characters port ?d2" for port
    using next_middle [of ?d1 b y x l port] r b x p by (simp add: l_def)
  then show "partial [a, b] d"
    unfolding partial_def using r by (intro exI [of _ ?d2]) simp
  assume c0: "utf8_cont c"
  then obtain z where c: "unat c = 128 + z" "z < 64" using cont_digit by blast
  define m where "m = l * 64 + z"
  have m: "m div 64 = l" "m mod 64 = z" "m < 20480"
    using digit_div [OF c(2)] digit_mod [OF c(2)] digit_bounds(1) [OF l(3) c(2)] by (simp_all add: m_def)
  let ?d3 = "?d2\<lparr>codepoint := word_of_nat m, remaining := 1\<rparr>"
  have t: "serial_characters ([a, b, c] @ port) d = serial_characters port ?d3" for port
    using next_middle [of ?d2 c z l m port] r c l q [of "c # port"] by (simp add: m_def)
  then show "partial [a, b, c] d"
    unfolding partial_def using r by (intro exI [of _ ?d3]) simp
  assume "utf8_cont e"
  then obtain w where e: "unat e = 128 + w" "w < 64" using cont_digit by blast
  define n where "n = m * 64 + w"
  have n: "n div 64 = m" "n mod 64 = w" "n < 1310720"
    using digit_div [OF e(2)] digit_mod [OF e(2)] digit_bounds(1) [OF m(3) e(2)] by (simp_all add: n_def)
  have "encode_utf8 (word_of_nat n) = [a, b, c, e]" if "0x10000 \<le> n" "n \<le> 1114111"
    using that encode_known(4) [of n]
    by (simp only: digits n(1,2) m(1,2) l(1,2) byte_is [OF x(1)] byte_is [OF b(1)] byte_is [OF c(1)] byte_is [OF e(1)])
  moreover have "word_of_nat n < (0x10000 :: u32)" if "n < 0x10000" using that n(3) by (simp add: word_less_nat_alt)
  moreover have "\<not> scalar (word_of_nat n)" if "1114111 < n" using that n(3) unfolding unat_scalar by simp
  ultimately have "encode_utf8 (word_of_nat n) = [a, b, c, e] \<or> word_of_nat n < (0x10000 :: u32) \<or> \<not> scalar (word_of_nat n)"
    by linarith
  then have "whole ([a, b, c] @ [e]) d"
    using r t e m b0 c0 unfolding n_def by (intro wholeI [OF assms(1), of ?d3 _ _ w m]) auto
  then show "whole [a, b, c, e] d" by simp
qed

text \<open>One turn of the reader on bytes that start a new sequence.\<close>

lemma invalid_first:
  assumes "ready d" "128 \<le> unat a" "unat a < 194 \<or> 245 \<le> unat a"
  shows "whole [a] d"
proof -
  have r: "remaining d = 0" "pending_byte d = None" using assms(1) by (simp_all add: ready_def)
  have p: "push a d = (Some replacement_char, d)"
    using assms(2,3) by (auto simp: push_def r word_le_nat_alt)
  have s: "serial_characters ([a] @ port) d = replacement_char # serial_characters port d" for port
    using serial_push [OF r(2) p] by simp
  have "read_as [a] replacement_char" by (rule decided [OF assms(1) s assms(1)]) simp_all
  then show ?thesis unfolding whole_def using s assms(1) by blast
qed

lemma ascii_first:
  assumes "ready d" "unat a < 128"
  shows "whole [a] d"
proof -
  have r: "remaining d = 0" "pending_byte d = None" using assms(1) by (simp_all add: ready_def)
  let ?v = "word_of_nat (unat a) :: u32"
  have s: "serial_characters ([a] @ port) d = ?v # serial_characters port d" for port
    using serial_push [OF r(2) push_first(1) [OF r(1) refl assms(2)]] by simp
  have "scalar ?v \<and> encode_utf8 ?v = [a]"
    using assms(2) scalar_nat [of "unat a"] encode_known(1) [of "unat a"] by (simp add: byte_is [OF refl])
  then have "read_as [a] ?v" by (simp add: read_as_def)
  then show ?thesis unfolding whole_def using s assms(1) by blast
qed

lemma partial_malformed:
  assumes "ready d" "partial s d" "s \<noteq> []" "length s \<le> 4" "list_all utf8_cont (tl s)"
  shows "malformed s"
proof -
  obtain d1 where d1: "pending_byte d1 = None" "serial_characters (s @ []) d = serial_characters [] d1"
    using assms(2) unfolding partial_def by blast
  then have none: "serial_characters s d = []" by (simp add: serial_characters.simps [of "[]"])
  have "\<not> utf8_valid s"
  proof
    assume "utf8_valid s"
    then obtain cs where cs: "list_all scalar cs" "s = concat (map encode_utf8 cs)" using valid_text by blast
    then have "cs = []" using serial_text [OF assms(1)] none by simp
    then show False using cs(2) assms(3) by simp
  qed
  then show ?thesis using assms(3-5) by (simp add: malformed_def)
qed

lemma partial_broken:
  assumes "ready d" "partial s d" "s \<noteq> []" "length s \<le> 4" "list_all utf8_cont (tl s)" "\<not> utf8_cont b"
  shows "read_as s replacement_char \<and>
    serial_characters (s @ b # port) d = replacement_char # serial_characters (b # port) new_utf8_decoder"
proof -
  obtain d1 where d1: "pending_byte d1 = None" "remaining d1 \<noteq> 0" "\<And>port. serial_characters (s @ port) d = serial_characters port d1"
    using assms(2) unfolding partial_def by blast
  show ?thesis
    using partial_malformed [OF assms(1-5)] next_broken [OF d1(1,2) assms(6)] d1(3) by (simp add: read_as_def)
qed

text \<open>
  A prefix of any bytes that are left is whole, or it is broken off by the byte behind it, or
  the bytes are used up in the middle of a sequence.
\<close>

definition turn :: "u8 list \<Rightarrow> utf8_decoder \<Rightarrow> bool" where
  "turn bs d \<longleftrightarrow> (\<exists>s rest. bs = s @ rest \<and> s \<noteq> [] \<and> whole s d) \<or>
     (\<exists>s b rest. bs = s @ b # rest \<and> s \<noteq> [] \<and> length s \<le> 4 \<and> list_all utf8_cont (tl s) \<and> partial s d \<and> \<not> utf8_cont b) \<or>
     (length bs \<le> 4 \<and> list_all utf8_cont (tl bs) \<and> partial bs d)"

lemma turn_whole: "whole s d \<Longrightarrow> s \<noteq> [] \<Longrightarrow> turn (s @ rest) d"
  unfolding turn_def by blast

lemma turn_more:
  assumes "partial s d" "s \<noteq> []" "length s \<le> 3" "list_all utf8_cont (tl s)"
    and "\<And>b rest. r = b # rest \<Longrightarrow> utf8_cont b \<Longrightarrow> turn (s @ r) d"
  shows "turn (s @ r) d"
proof (cases r)
  case Nil
  then show ?thesis using assms(1,3,4) unfolding turn_def by simp
next
  case (Cons b rest)
  show ?thesis
  proof (cases "utf8_cont b")
    case True
    then show ?thesis using assms(5) Cons by blast
  next
    case False
    then have "\<exists>s' b rest. s @ r = s' @ b # rest \<and> s' \<noteq> [] \<and> length s' \<le> 4 \<and> list_all utf8_cont (tl s') \<and> partial s' d \<and> \<not> utf8_cont b"
      using assms(1-4) Cons by (intro exI [of _ s] exI [of _ b] exI [of _ rest]) simp
    then show ?thesis unfolding turn_def by blast
  qed
qed

lemma turn_any:
  assumes "ready d"
  shows "turn (a # r) d"
proof -
  consider "unat a < 128" | "128 \<le> unat a" "unat a < 194 \<or> 245 \<le> unat a" | "194 \<le> unat a" "unat a < 224"
    | "224 \<le> unat a" "unat a < 240" | "240 \<le> unat a" "unat a < 245" by linarith
  then show ?thesis
  proof cases
    case 1
    then show ?thesis using turn_whole [OF ascii_first [OF assms]] by simp
  next
    case 2
    then show ?thesis using turn_whole [OF invalid_first [OF assms]] by simp
  next
    case 3
    note read = read_two [OF assms 3]
    have "turn ([a] @ r) d"
    proof (rule turn_more [OF read(1)])
      fix b r1 assume b: "r = b # r1" "utf8_cont b"
      show "turn ([a] @ r) d" using turn_whole [OF read(2) [OF b(2)], of r1] b(1) by simp
    qed simp_all
    then show ?thesis by simp
  next
    case 4
    note read = read_three [OF assms 4]
    have "turn ([a] @ r) d"
    proof (rule turn_more [OF read(1)])
      fix b r1 assume b: "r = b # r1" "utf8_cont b"
      have "turn ([a, b] @ r1) d"
      proof (rule turn_more [OF read(2) [OF b(2)]])
        fix c r2 assume c: "r1 = c # r2" "utf8_cont c"
        show "turn ([a, b] @ r1) d" using turn_whole [OF read(3) [OF b(2) c(2)], of r2] c(1) by simp
      qed (use b(2) in simp_all)
      then show "turn ([a] @ r) d" using b by simp
    qed simp_all
    then show ?thesis by simp
  next
    case 5
    note read = read_four [OF assms 5]
    have "turn ([a] @ r) d"
    proof (rule turn_more [OF read(1)])
      fix b r1 assume b: "r = b # r1" "utf8_cont b"
      have "turn ([a, b] @ r1) d"
      proof (rule turn_more [OF read(2) [OF b(2)]])
        fix c r2 assume c: "r1 = c # r2" "utf8_cont c"
        have "turn ([a, b, c] @ r2) d"
        proof (rule turn_more [OF read(3) [OF b(2) c(2)]])
          fix e r3 assume e: "r2 = e # r3" "utf8_cont e"
          show "turn ([a, b, c] @ r2) d" using turn_whole [OF read(4) [OF b(2) c(2) e(2)], of r3] e(1) by simp
        qed (use b(2) c(2) in simp_all)
        then show "turn ([a, b] @ r1) d" using c by simp
      qed (use b(2) in simp_all)
      then show "turn ([a] @ r) d" using b by simp
    qed simp_all
    then show ?thesis by simp
  qed
qed

text \<open>The whole stream, and the state of the decoder behind it.\<close>

lemma pieces_read:
  "ready d \<Longrightarrow> \<exists>segs rest cs d'. bs = concat segs @ rest \<and> list_all2 read_as segs cs \<and> (rest = [] \<or> malformed rest) \<and>
     pending_byte d' = None \<and> (\<forall>port. serial_characters (bs @ port) d = cs @ serial_characters port d')"
proof (induction "length bs" arbitrary: bs d rule: less_induct)
  case less
  show ?case
  proof (cases bs)
    case Nil
    then show ?thesis
      using less.prems by (intro exI [of _ "[]"] exI [of _ d]) (simp add: ready_def)
  next
    case (Cons a r)
    consider s tail where "bs = s @ tail" "s \<noteq> []" "whole s d"
      | s b tail where "bs = s @ b # tail" "s \<noteq> []" "length s \<le> 4" "list_all utf8_cont (tl s)" "partial s d" "\<not> utf8_cont b"
      | "length bs \<le> 4" "list_all utf8_cont (tl bs)" "partial bs d"
      using turn_any [OF less.prems, of a r, folded Cons] unfolding turn_def by (elim disjE exE conjE) blast+
    then show ?thesis
    proof cases
      case 1
      then obtain v d' where w: "ready d'" "read_as s v" "\<And>port. serial_characters (s @ port) d = v # serial_characters port d'"
        unfolding whole_def by blast
      have "length tail < length bs" using 1 by simp
      from less.hyps [OF this w(1)] obtain segs rest cs d2 where i: "tail = concat segs @ rest" "list_all2 read_as segs cs"
        "rest = [] \<or> malformed rest" "pending_byte d2 = None"
        "\<And>port. serial_characters (tail @ port) d' = cs @ serial_characters port d2" by blast
      show ?thesis
        using 1 w i by (intro exI [of _ "s # segs"] exI [of _ rest] exI [of _ "v # cs"] exI [of _ d2]) simp
    next
      case 2
      have "length (b # tail) < length bs" using 2 by (cases s) simp_all
      from less.hyps [OF this new_ready] obtain segs rest cs d2 where i: "b # tail = concat segs @ rest" "list_all2 read_as segs cs"
        "rest = [] \<or> malformed rest" "pending_byte d2 = None"
        "\<forall>port. serial_characters ((b # tail) @ port) new_utf8_decoder = cs @ serial_characters port d2" by blast
      have "serial_characters (bs @ port) d = (replacement_char # cs) @ serial_characters port d2" for port
        using partial_broken [OF less.prems 2(5,2-4,6), of "tail @ port"] i(5) [rule_format, of port] 2(1) by simp
      then show ?thesis
        using 2(1) i(1-4) partial_broken [OF less.prems 2(5,2-4,6), of tail]
        by (intro exI [of _ "s # segs"] exI [of _ rest] exI [of _ "replacement_char # cs"] exI [of _ d2]) simp
    next
      case 3
      then obtain d1 where d1: "pending_byte d1 = None" "\<forall>port. serial_characters (bs @ port) d = serial_characters port d1"
        unfolding partial_def by blast
      have "bs \<noteq> []" using Cons by simp
      from partial_malformed [OF less.prems 3(3) this 3(1,2)] d1 show ?thesis
        by (intro exI [of _ "[]"] exI [of _ bs] exI [of _ d1]) simp
    qed
  qed
qed

lemma cont_not_first:
  assumes "utf8_cont b" shows "\<not> utf8_valid (b # bs)"
proof -
  have "\<not> b < 0x80" "\<not> (0xC2 \<le> b \<and> b \<le> 0xDF)" "\<not> (0xE1 \<le> b \<and> b \<le> 0xEF)" "b \<noteq> 0xE0" "b \<noteq> 0xED"
    "b \<noteq> 0xF0" "b \<noteq> 0xF4" "\<not> (0xF1 \<le> b \<and> b \<le> 0xF3)"
    using assms unfolding cont_nat by (auto simp: word_less_nat_alt word_le_nat_alt)
  then show ?thesis unfolding utf8_valid.simps(2) [of b] by (simp only: if_False if_True split: list.split, simp, blast)
qed

text \<open>Text is read whatever the decoder was in the middle of.\<close>

lemma text_resumes:
  assumes "pending_byte d = None" "list_all scalar cs"
  shows "\<exists>cs'. serial_characters (concat (map encode_utf8 cs)) d = cs' @ cs"
proof (cases "remaining d = 0 \<or> cs = []")
  case True
  then show ?thesis using serial_text [of d cs] assms by (auto simp: ready_def)
next
  case False
  then obtain c cs2 where cs: "cs = c # cs2" by (cases cs) auto
  obtain b bs where b: "concat (map encode_utf8 cs) = b # bs"
    using cs by (cases "concat (map encode_utf8 cs)") (auto simp: encode_utf8_def Let_def split: if_splits)
  have "utf8_valid (concat (map encode_utf8 xs))" if "list_all scalar xs" for xs
    using that by (induction xs) (auto intro: encode_valid)
  then have "utf8_valid (b # bs)" using assms(2) b by metis
  then have "\<not> utf8_cont b" using cont_not_first by blast
  then show ?thesis
    using next_broken [OF assms(1), of b bs] False serial_text [OF new_ready assms(2)] b by auto
qed

text \<open>
  C20. The console reads any bytes. They fall into consecutive pieces, one for each character
  delivered and one that may be left over at the end: a character is delivered only for exactly
  the bytes that encode it, and U+FFFD only for a piece that is no text, of at most four bytes and
  with nothing but continuation bytes after the first, so overlong forms, surrogates and stray
  bytes never become characters and no byte of another character is lost with them. And whatever
  came before, a text that follows is read completely.
\<close>

theorem console_resynchronises:
  "\<forall>bs cs. (\<exists>segs rest. bs = concat segs @ rest \<and> (rest = [] \<or> malformed rest) \<and>
        list_all2 read_as segs (serial_characters bs new_utf8_decoder)) \<and>
     (list_all scalar cs \<longrightarrow> (\<exists>cs'. serial_characters (bs @ concat (map encode_utf8 cs)) new_utf8_decoder = cs' @ cs))"
proof (intro allI conjI impI)
  fix bs cs
  obtain segs rest cs1 d where i: "bs = concat segs @ rest" "list_all2 read_as segs cs1" "rest = [] \<or> malformed rest"
    "pending_byte d = None" "\<And>port. serial_characters (bs @ port) new_utf8_decoder = cs1 @ serial_characters port d"
    using pieces_read [OF new_ready, of bs] by blast
  have "serial_characters bs new_utf8_decoder = cs1"
    using i(5) [of "[]"] i(4) by (simp add: serial_characters.simps [of "[]"])
  then show "\<exists>segs rest. bs = concat segs @ rest \<and> (rest = [] \<or> malformed rest) \<and>
      list_all2 read_as segs (serial_characters bs new_utf8_decoder)"
    using i(1-3) by blast
  assume "list_all scalar cs"
  from text_resumes [OF i(4) this] obtain cs' where "serial_characters (concat (map encode_utf8 cs)) d = cs' @ cs" by blast
  then show "\<exists>cs'. serial_characters (bs @ concat (map encode_utf8 cs)) new_utf8_decoder = cs' @ cs"
    using i(5) by (intro exI [of _ "cs1 @ cs'"]) simp
qed

theorem console_resynchronises_witness:
  "list_all scalar [0x42] \<and> (\<exists>cs'. serial_characters ([0xc3] @ encode_utf8 0x42) new_utf8_decoder = cs' @ [0x42])"
proof -
  have t: "list_all scalar [0x42]" by (simp add: scalar_def)
  then show ?thesis using console_resynchronises [rule_format, THEN conjunct2, of "[0x42]" "[0xc3]"] by simp
qed

end
