(* ===== verification/Io.thy ===== *)
theory Io
  imports Prelude
begin

text \<open>
  Computations over a state that stop at the first error, as Rust code threads \<open>Result\<close>
  through calls that change memory or a disk, and the predicate \<open>outcome\<close> that states what
  such a computation ends in.
\<close>

section \<open>Computations that may fail\<close>

type_synonym ('d, 'e, 'a) io = "'d \<Rightarrow> ('e + 'a) \<times> 'd"

definition ok_io :: "'a \<Rightarrow> ('d, 'e, 'a) io" where
  "ok_io x = (\<lambda>d. (Inr x, d))"

definition fail_io :: "'e \<Rightarrow> ('d, 'e, 'a) io" where
  "fail_io e = (\<lambda>d. (Inl e, d))"

text \<open>\<open>let x = m?; f x\<close>, for an effectful \<open>m\<close> and for a plain \<open>Result\<close>.\<close>

definition try_io :: "('d, 'e, 'a) io \<Rightarrow> ('a \<Rightarrow> ('d, 'e, 'b) io) \<Rightarrow> ('d, 'e, 'b) io" where
  "try_io m f = (\<lambda>d. case m d of (Inl e, d') \<Rightarrow> (Inl e, d') | (Inr x, d') \<Rightarrow> f x d')"

definition lift_io :: "'e + 'a \<Rightarrow> ('d, 'e, 'a) io" where
  "lift_io r = (\<lambda>d. (r, d))"

definition map_err_io :: "('e \<Rightarrow> 'f) \<Rightarrow> ('d, 'e, 'a) io \<Rightarrow> ('d, 'f, 'a) io" where
  "map_err_io g m = (\<lambda>d. case m d of (r, d') \<Rightarrow> (map_err g r, d'))"

text \<open>\<open>match m { ... }\<close> on the result of an effectful expression.\<close>

definition match_io ::
  "('d, 'e, 'a) io \<Rightarrow> ('e + 'a \<Rightarrow> ('d, 'f, 'b) io) \<Rightarrow> ('d, 'f, 'b) io" where
  "match_io m f = (\<lambda>d. case m d of (r, d') \<Rightarrow> f r d')"

text \<open>\<open>for x in xs { body x }\<close> with a body that may return an error.\<close>

fun for_io :: "'x list \<Rightarrow> ('x \<Rightarrow> ('d, 'e, unit) io) \<Rightarrow> ('d, 'e, unit) io" where
  "for_io [] body = ok_io ()"
| "for_io (x # xs) body = try_io (body x) (\<lambda>_. for_io xs body)"

text \<open>
  Two functions equal on every result of \<open>m\<close> continue it alike; with this rule the
  termination of a loop may use what its body has just computed.
\<close>

lemma try_io_cong [fundef_cong]:
  "m = m' \<Longrightarrow> (\<And>x d d'. m' d = (Inr x, d') \<Longrightarrow> f x d' = g x d') \<Longrightarrow> try_io m f = try_io m' g"
  by (auto simp: try_io_def fun_eq_iff split: prod.split sum.split)

text \<open>
  The outcome of a computation: \<open>outcome m d E Q\<close> says that \<open>m\<close> from \<open>d\<close> ends in an error
  that satisfies \<open>E\<close> or in a result that satisfies \<open>Q\<close>, each with the state it leaves.
\<close>

definition outcome ::
  "('d, 'e, 'a) io \<Rightarrow> 'd \<Rightarrow> ('e \<Rightarrow> 'd \<Rightarrow> bool) \<Rightarrow> ('a \<Rightarrow> 'd \<Rightarrow> bool) \<Rightarrow> bool" where
  "outcome m d E Q = (case m d of (Inl e, d') \<Rightarrow> E e d' | (Inr x, d') \<Rightarrow> Q x d')"

lemma outcome_simps [simp]:
  "outcome (ok_io x) d E Q = Q x d"
  "outcome (fail_io e) d E Q = E e d"
  "outcome (lift_io (Inr x)) d E Q = Q x d"
  "outcome (lift_io (Inl e)) d E Q = E e d"
  by (simp_all add: outcome_def ok_io_def fail_io_def lift_io_def)

lemma outcome_try [simp]:
  "outcome (try_io m f) d E Q = outcome m d E (\<lambda>x d'. outcome (f x) d' E Q)"
  by (simp add: outcome_def try_io_def split: prod.split sum.split)

lemma outcome_map_err [simp]:
  "outcome (map_err_io g m) d E Q = outcome m d (\<lambda>e. E (g e)) Q"
  by (simp add: outcome_def map_err_io_def map_err_def split: prod.split sum.split)

lemma outcome_match [simp]:
  "outcome (match_io m f) d E Q =
     outcome m d (\<lambda>e d'. outcome (f (Inl e)) d' E Q) (\<lambda>x d'. outcome (f (Inr x)) d' E Q)"
  by (simp add: outcome_def match_io_def split: prod.split sum.split)

lemma outcome_lift:
  "outcome (lift_io r) d E Q = (case r of Inl e \<Rightarrow> E e d | Inr x \<Rightarrow> Q x d)"
  by (simp add: outcome_def lift_io_def)

lemma outcome_any: "(\<And>e d'. E e d') \<Longrightarrow> (\<And>x d'. Q x d') \<Longrightarrow> outcome m d E Q"
  by (simp add: outcome_def split: prod.split sum.split)

lemma outcome_mono:
  assumes "outcome m d E Q"
    and "\<And>e d'. E e d' \<Longrightarrow> E' e d'" and "\<And>x d'. Q x d' \<Longrightarrow> Q' x d'"
  shows "outcome m d E' Q'"
  using assms by (auto simp: outcome_def split: prod.splits sum.splits)

lemma outcome_conj:
  "outcome m d E Q \<Longrightarrow> outcome m d E' Q' \<Longrightarrow>
   outcome m d (\<lambda>e d'. E e d' \<and> E' e d') (\<lambda>x d'. Q x d' \<and> Q' x d')"
  by (auto simp: outcome_def split: prod.splits sum.splits)

lemma outcome_seq:
  "outcome m d E R \<Longrightarrow> (\<And>x d'. R x d' \<Longrightarrow> outcome (f x) d' E Q) \<Longrightarrow>
   outcome (try_io m f) d E Q"
  by (simp, rule outcome_mono)

lemma outcome_runD:
  "outcome m d E Q \<Longrightarrow> m d = (r, d') \<Longrightarrow> (case r of Inl e \<Rightarrow> E e d' | Inr x \<Rightarrow> Q x d')"
  by (simp add: outcome_def split: sum.splits)

lemma outcome_succeeds:
  "outcome m d (\<lambda>_ _. False) Q \<Longrightarrow> \<exists>x d'. m d = (Inr x, d') \<and> Q x d'"
  by (auto simp: outcome_def split: prod.splits sum.splits)

text \<open>A loop keeps an invariant that its body keeps.\<close>

lemma outcome_for:
  assumes "I [] d"
    and "\<And>done x rest d. xs = done @ x # rest \<Longrightarrow> I done d \<Longrightarrow>
      outcome (body x) d E (\<lambda>_ d'. I (done @ [x]) d')"
  shows "outcome (for_io xs body) d E (\<lambda>_ d'. I xs d')"
proof -
  have "outcome (for_io ys body) d E (\<lambda>_ d'. I xs d')"
    if "I zs d" "xs = zs @ ys" for ys zs d
    using that
  proof (induction ys arbitrary: zs d)
    case Nil
    then show ?case by simp
  next
    case (Cons y ys)
    have "outcome (body y) d E (\<lambda>_ d'. I (zs @ [y]) d')"
      using assms(2) [of zs y ys d] Cons.prems by simp
    then have "outcome (body y) d E (\<lambda>_ d'. outcome (for_io ys body) d' E (\<lambda>_ d'. I xs d'))"
      by (rule outcome_mono) (use Cons.IH [of "zs @ [y]"] Cons.prems in auto)
    then show ?case by simp
  qed
  from this [of "[]"] assms(1) show ?thesis by simp
qed

end
