(* ===== verification/Block_Device.thy ===== *)
theory Block_Device
  imports Io
begin

text \<open>
  The block layer of \<open>kernel/src/drivers/block.rs\<close>: the trait \<open>BlockDevice\<close> as a record of
  its four methods over a device state, whose calls are computations of \<open>Io\<close>. The locale \<open>working_device\<close> states what the trait's comments promise of a device
  that works: it is a list of 512-byte sectors. It is interpreted on two devices: the
  \<open>MemoryDisk\<close> of the repository's own tests, and a disk with a write cache whose power
  may be cut, on which the crash properties of the file system are stated.
\<close>

definition sector_size :: nat where
  "sector_size = 512"

declare sector_size_def [abi_simps]

type_synonym sector = "u8 list"

definition zero_sector :: sector where
  "zero_sector = replicate sector_size 0"

datatype block_error = NotReady | OutOfBounds | DeviceError | Timeout

section \<open>Devices\<close>

record 'd block_device =
  sector_count :: "'d \<Rightarrow> u64"
  read_sector :: "u64 \<Rightarrow> ('d, block_error, sector) io"
  write_sector :: "u64 \<Rightarrow> sector \<Rightarrow> ('d, block_error, unit) io"
  flush_device :: "('d, block_error, unit) io"

locale working_device =
  fixes dev :: "'d block_device"
    and disk :: "'d \<Rightarrow> sector list"
    and working :: "'d \<Rightarrow> bool"
  assumes sectors_full: "working d \<Longrightarrow> s \<in> set (disk d) \<Longrightarrow> length s = sector_size"
    and reads: "working d \<Longrightarrow> unat lba < length (disk d) \<Longrightarrow>
      outcome (read_sector dev lba) d (\<lambda>_ _. False)
        (\<lambda>s d'. s = disk d ! unat lba \<and> disk d' = disk d \<and> working d')"
    and writes: "working d \<Longrightarrow> unat lba < length (disk d) \<Longrightarrow> length s = sector_size \<Longrightarrow>
      outcome (write_sector dev lba s) d (\<lambda>_ _. False)
        (\<lambda>_ d'. disk d' = (disk d)[unat lba := s] \<and> working d')"
    and flushes: "working d \<Longrightarrow>
      outcome (flush_device dev) d (\<lambda>_ _. False) (\<lambda>_ d'. disk d' = disk d \<and> working d')"
begin

lemma read_outcome:
  assumes "working d" "unat lba < length (disk d)"
    and "\<And>d'. disk d' = disk d \<Longrightarrow> working d' \<Longrightarrow> Q (disk d ! unat lba) d'"
  shows "outcome (read_sector dev lba) d E Q"
  using reads [OF assms(1,2)] by (rule outcome_mono) (use assms(3) in auto)

lemma write_outcome:
  assumes "working d" "unat lba < length (disk d)" "length s = sector_size"
    and "\<And>d'. disk d' = (disk d)[unat lba := s] \<Longrightarrow> working d' \<Longrightarrow> Q () d'"
  shows "outcome (write_sector dev lba s) d E Q"
  using writes [OF assms(1-3)] by (rule outcome_mono) (use assms(4) in auto)

lemma flush_outcome:
  assumes "working d" and "\<And>d'. disk d' = disk d \<Longrightarrow> working d' \<Longrightarrow> Q () d'"
  shows "outcome (flush_device dev) d E Q"
  using flushes [OF assms(1)] by (rule outcome_mono) (use assms(2) in auto)

end

subsection \<open>The memory disk\<close>

text \<open>
  \<open>MemoryDisk\<close> of the tests: a vector of sectors. A write outside the vector is undefined
  in the test double (it goes through a raw pointer) and is the error its text intends here.
\<close>

definition memory_disk :: "sector list block_device" where
  "memory_disk = \<lparr>
     sector_count = (\<lambda>d. word_of_nat (length d)),
     read_sector = (\<lambda>lba d.
       if unat lba < length d then (Inr (d ! unat lba), d) else (Inl OutOfBounds, d)),
     write_sector = (\<lambda>lba s d.
       if unat lba < length d then (Inr (), d[unat lba := s]) else (Inl OutOfBounds, d)),
     flush_device = (\<lambda>d. (Inr (), d))\<rparr>"

definition full_sectors :: "sector list \<Rightarrow> bool" where
  "full_sectors d \<longleftrightarrow> (\<forall>s \<in> set d. length s = sector_size)"

lemma full_sectors_update:
  "full_sectors d \<Longrightarrow> length s = sector_size \<Longrightarrow> full_sectors (d[i := s])"
  by (auto simp: full_sectors_def dest!: set_update_subset_insert [THEN subsetD])

lemma full_sectors_nth: "full_sectors d \<Longrightarrow> i < length d \<Longrightarrow> length (d ! i) = sector_size"
  by (simp add: full_sectors_def)

lemma length_zero_sector [simp]: "length zero_sector = 512"
  by (simp add: zero_sector_def sector_size_def)

lemma memory_disk_ops:
  "read_sector memory_disk lba d =
     (if unat lba < length d then (Inr (d ! unat lba), d) else (Inl OutOfBounds, d))"
  "write_sector memory_disk lba s d =
     (if unat lba < length d then (Inr (), d[unat lba := s]) else (Inl OutOfBounds, d))"
  "flush_device memory_disk d = (Inr (), d)"
  by (simp_all add: memory_disk_def)

interpretation mem: working_device memory_disk "\<lambda>d. d" full_sectors
  by unfold_locales
    (auto simp: full_sectors_update memory_disk_ops outcome_def full_sectors_def
      dest!: set_update_subset_insert [THEN subsetD])

subsection \<open>A disk whose power may be cut\<close>

text \<open>
  Writes enter a cache that is emptied to the media by \<open>flush\<close> only. \<open>power\<close> counts the
  writes and flushes that still complete (\<open>None\<close>: no power cut); the operation at which it
  runs out, and every later one, fails without effect. After the cut the media may have
  received any selection of the cached writes, in their order.
\<close>

record cached_disk =
  media :: "sector list"
  cache :: "(u64 \<times> sector) list"
  power :: "nat option"

fun apply_writes :: "(u64 \<times> sector) list \<Rightarrow> sector list \<Rightarrow> sector list" where
  "apply_writes [] d = d"
| "apply_writes ((lba, s) # ws) d = apply_writes ws (d[unat lba := s])"

definition use_power :: "cached_disk \<Rightarrow> cached_disk option" where
  "use_power d = (case power d of
     None \<Rightarrow> Some d
   | Some n \<Rightarrow> if n = 0 then None else Some (d\<lparr>power := Some (n - 1)\<rparr>))"

definition seen :: "cached_disk \<Rightarrow> sector list" where
  "seen d = apply_writes (cache d) (media d)"

definition cached_device :: "cached_disk block_device" where
  "cached_device = \<lparr>
     sector_count = (\<lambda>d. word_of_nat (length (media d))),
     read_sector = (\<lambda>lba d.
       if power d = Some 0 then (Inl NotReady, d)
       else if unat lba < length (media d) then (Inr (seen d ! unat lba), d)
       else (Inl OutOfBounds, d)),
     write_sector = (\<lambda>lba s d. case use_power d of
       None \<Rightarrow> (Inl NotReady, d)
     | Some d \<Rightarrow>
         if unat lba < length (media d) then (Inr (), d\<lparr>cache := cache d @ [(lba, s)]\<rparr>)
         else (Inl OutOfBounds, d)),
     flush_device = (\<lambda>d. case use_power d of
       None \<Rightarrow> (Inl NotReady, d)
     | Some d \<Rightarrow> (Inr (), d\<lparr>media := seen d, cache := []\<rparr>))\<rparr>"

definition crash_images :: "cached_disk \<Rightarrow> sector list set" where
  "crash_images d = (\<lambda>ws. apply_writes ws (media d)) ` set (subseqs (cache d))"

lemma apply_writes_append [simp]:
  "apply_writes (ws @ vs) d = apply_writes vs (apply_writes ws d)"
  by (induction ws d rule: apply_writes.induct) auto

lemma length_apply_writes [simp]: "length (apply_writes ws d) = length d"
  by (induction ws d rule: apply_writes.induct) auto

lemma apply_writes_other:
  "\<forall>(lba, s) \<in> set ws. unat lba \<noteq> i \<Longrightarrow> apply_writes ws d ! i = d ! i"
  by (induction ws d rule: apply_writes.induct) auto

lemma full_sectors_apply_writes:
  "full_sectors d \<Longrightarrow> \<forall>(lba, s) \<in> set ws. length s = sector_size \<Longrightarrow>
   full_sectors (apply_writes ws d)"
  by (induction ws d rule: apply_writes.induct) (auto simp: full_sectors_update)

lemma crash_image_clean: "cache d = [] \<Longrightarrow> crash_images d = {media d}"
  by (simp add: crash_images_def)

lemma crash_image_length: "m \<in> crash_images d \<Longrightarrow> length m = length (media d)"
  by (auto simp: crash_images_def)

definition powered :: "cached_disk \<Rightarrow> bool" where
  "powered d \<longleftrightarrow> power d = None \<and> full_sectors (media d) \<and>
     (\<forall>(lba, s) \<in> set (cache d). length s = sector_size)"

interpretation cached: working_device cached_device seen powered
proof unfold_locales
  show "length s = sector_size" if "powered d" "s \<in> set (seen d)" for d s
    using that full_sectors_apply_writes [of "media d" "cache d"]
    by (auto simp: powered_def seen_def full_sectors_def)
qed (auto simp: powered_def cached_device_def outcome_def use_power_def seen_def
    full_sectors_apply_writes)

end
