(* ===== verification/Dfs_Format.thy ===== *)
theory Dfs_Format
  imports Block_Device Rust_Str
begin

text \<open>
  The on-disk format of DFS, the journaled file system of \<open>kernel/src/fs/dfs.rs\<close>: its
  layout, its superblock and its inode sectors, each with the CRC that guards it. The
  lemmas are the arithmetic of the layout, the round trips of both formats, and what the
  checksum detects.
\<close>

section \<open>Constants and data\<close>

definition dfs_magic :: "u8 list" where
  "dfs_magic = ascii ''DREAMDFS''"

definition dfs_version :: u32 where
  "dfs_version = 1"

definition journal_magic :: "u8 list" where
  "journal_magic = ascii ''DFSTXN01''"

definition journal_sectors :: u64 where
  "journal_sectors = 17"

definition inode_count :: nat where
  "inode_count = 256"

definition max_extents :: nat where
  "max_extents = 14"

definition max_path :: nat where
  "max_path = 255"

definition transaction_sectors :: nat where
  "transaction_sectors = unat (journal_sectors - 1)"

definition node_path_end :: nat where
  "node_path_end = max_path"

definition node_kind_offset :: nat where
  "node_kind_offset = 256"

definition node_extents_offset :: nat where
  "node_extents_offset = 280"

definition node_checksum_offset :: nat where
  "node_checksum_offset = 508"

definition node_file :: u8 where
  "node_file = 1"

definition node_directory :: u8 where
  "node_directory = 2"

lemma transaction_sectors_eq [abi_simps]: "transaction_sectors = 16"
  by (simp add: transaction_sectors_def journal_sectors_def)

declare dfs_version_def [abi_simps] journal_sectors_def [abi_simps] inode_count_def [abi_simps]
  max_extents_def [abi_simps] max_path_def [abi_simps] node_path_end_def [abi_simps]
  node_kind_offset_def [abi_simps] node_extents_offset_def [abi_simps]
  node_checksum_offset_def [abi_simps] node_file_def [abi_simps] node_directory_def [abi_simps]

datatype dfs_error = Block block_error | InvalidFilesystem | CorruptMetadata | InvalidPath
  | NotFound | NotDirectory | IsDirectory | AlreadyExists | DirectoryNotEmpty | NoSpace
  | JournalFull

record dfs_metadata =
  meta_size :: u64
  meta_mode :: u16
  meta_uid :: u32
  meta_gid :: u32
  meta_is_directory :: bool

record extent =
  ext_start :: u64
  ext_logical :: u32
  ext_count :: u32

definition empty_extent :: extent where
  "empty_extent = \<lparr>ext_start = 0, ext_logical = 0, ext_count = 0\<rparr>"

record node =
  path_bytes :: "u8 list"
  path_length :: nat
  kind :: u8
  file_size :: u64
  mode :: u16
  uid :: u32
  gid :: u32
  extent_count :: nat
  extents :: "extent list"

definition empty_node :: node where
  "empty_node = \<lparr>path_bytes = replicate (max_path + 1) 0, path_length = 0, kind = 0,
     file_size = 0, mode = 0, uid = 0, gid = 0, extent_count = 0,
     extents = replicate max_extents empty_extent\<rparr>"

definition node_metadata :: "node \<Rightarrow> dfs_metadata" where
  "node_metadata n = \<lparr>meta_size = file_size n, meta_mode = mode n, meta_uid = uid n,
     meta_gid = gid n, meta_is_directory = (kind n = node_directory)\<rparr>"

definition node_path :: "node \<Rightarrow> str" where
  "node_path n = (let p = take (path_length n) (path_bytes n)
     in if utf8_valid p then p else [])"

record dfs_layout =
  start_lba :: u64
  sectors :: u64
  journal_lba :: u64
  inode_lba :: u64
  bitmap_lba :: u64
  bitmap_sectors :: u64
  data_lba :: u64

section \<open>The checksum\<close>

definition crc_bit :: "u32 \<Rightarrow> u32" where
  "crc_bit crc = drop_bit 1 crc XOR (0xedb88320 AND (0 - (crc AND 1)))"

definition crc_byte :: "u8 \<Rightarrow> u32 \<Rightarrow> u32" where
  "crc_byte byte crc = (crc_bit ^^ 8) (crc XOR ucast byte)"

definition crc32_update :: "u32 \<Rightarrow> u8 list \<Rightarrow> u32" where
  "crc32_update crc bytes = fold crc_byte bytes crc"

definition crc32 :: "u8 list \<Rightarrow> u32" where
  "crc32 bytes = NOT (crc32_update (NOT 0) bytes)"

section \<open>Layout and superblock\<close>

definition make_layout :: "u64 \<Rightarrow> u64 \<Rightarrow> dfs_error + dfs_layout" where
  "make_layout start count =
     rbind (ok_or InvalidFilesystem (checked_add count (word_of_nat (sector_size * 8 - 1))))
       (\<lambda>rounded. let bitmap_count = rounded div word_of_nat (sector_size * 8) in
     rbind (ok_or InvalidFilesystem (checked_add start 1)) (\<lambda>journal.
     rbind (ok_or InvalidFilesystem (checked_add journal journal_sectors)) (\<lambda>inode.
     rbind (ok_or InvalidFilesystem (checked_add inode (word_of_nat inode_count))) (\<lambda>bitmap.
     rbind (ok_or InvalidFilesystem (checked_add bitmap bitmap_count)) (\<lambda>data.
       if count \<le> data - start \<or> checked_add start count = None then Inl InvalidFilesystem
       else Inr \<lparr>start_lba = start, sectors = count, journal_lba = journal, inode_lba = inode,
         bitmap_lba = bitmap, bitmap_sectors = bitmap_count, data_lba = data\<rparr>)))))"

definition superblock_fields :: "dfs_layout \<Rightarrow> sector" where
  "superblock_fields l =
     (let s = zero_sector;
          s = splice 0 dfs_magic s;
          s = splice 8 (to_le 4 dfs_version) s;
          s = splice 16 (to_le 8 (sectors l)) s;
          s = splice 24 (to_le 8 journal_sectors) s;
          s = splice 32 (to_le 8 (journal_lba l)) s;
          s = splice 40 (to_le 8 (inode_lba l)) s;
          s = splice 48 (to_le 4 (word_of_nat inode_count :: u32)) s;
          s = splice 52 (to_le 8 (bitmap_lba l)) s;
          s = splice 60 (to_le 8 (bitmap_sectors l)) s
      in splice 68 (to_le 8 (data_lba l)) s)"

definition encode_superblock :: "dfs_layout \<Rightarrow> sector" where
  "encode_superblock l = (let s = superblock_fields l
     in splice 508 (to_le 4 (crc32 (slice 0 508 s))) s)"

definition write_superblock ::
  "'d block_device \<Rightarrow> dfs_layout \<Rightarrow> ('d, dfs_error, unit) io" where
  "write_superblock dev l =
     map_err_io Block (write_sector dev (start_lba l) (encode_superblock l))"

definition decode_superblock :: "u64 \<Rightarrow> u64 \<Rightarrow> sector \<Rightarrow> dfs_error + dfs_layout" where
  "decode_superblock start count s =
     (if slice 0 8 s \<noteq> dfs_magic \<or> from_le (slice 8 12 s) \<noteq> dfs_version \<or>
         crc32 (slice 0 508 s) \<noteq> from_le (slice 508 512 s)
      then Inl InvalidFilesystem
      else rbind (make_layout start count) (\<lambda>l.
        if from_le (slice 16 24 s) \<noteq> sectors l \<or> from_le (slice 24 32 s) \<noteq> journal_sectors \<or>
           from_le (slice 32 40 s) \<noteq> journal_lba l \<or> from_le (slice 40 48 s) \<noteq> inode_lba l \<or>
           from_le (slice 48 52 s) \<noteq> (word_of_nat inode_count :: u32) \<or>
           from_le (slice 52 60 s) \<noteq> bitmap_lba l \<or>
           from_le (slice 60 68 s) \<noteq> bitmap_sectors l \<or>
           from_le (slice 68 76 s) \<noteq> data_lba l
        then Inl InvalidFilesystem
        else Inr l))"

definition read_superblock ::
  "'d block_device \<Rightarrow> u64 \<Rightarrow> u64 \<Rightarrow> ('d, dfs_error, dfs_layout) io" where
  "read_superblock dev start count =
     try_io (map_err_io Block (read_sector dev start))
       (\<lambda>s. lift_io (decode_superblock start count s))"

section \<open>Inode sectors\<close>

fun encode_extents :: "nat \<Rightarrow> extent list \<Rightarrow> sector \<Rightarrow> sector" where
  "encode_extents index [] s = s"
| "encode_extents index (e # es) s =
     (let offset = node_extents_offset + index * 16;
          s = splice offset (to_le 8 (ext_start e)) s;
          s = splice (offset + 8) (to_le 4 (ext_logical e)) s;
          s = splice (offset + 12) (to_le 4 (ext_count e)) s
      in encode_extents (Suc index) es s)"

definition encode_node :: "node \<Rightarrow> dfs_error + sector" where
  "encode_node n =
     (let s = zero_sector in
      if kind n = 0 then Inr s
      else if path_length n > max_path \<or> extent_count n > max_extents then Inl CorruptMetadata
      else
        let s = splice 0 (take (path_length n) (path_bytes n)) s;
            s = s[node_kind_offset := kind n];
            s = s[node_kind_offset + 1 := word_of_nat (extent_count n)];
            s = splice 258 (to_le 2 (mode n)) s;
            s = splice 260 (to_le 4 (uid n)) s;
            s = splice 264 (to_le 4 (gid n)) s;
            s = splice 268 (to_le 8 (file_size n)) s;
            s = encode_extents 0 (take (extent_count n) (extents n)) s
        in Inr (splice node_checksum_offset (to_le 4 (crc32 (slice 0 node_checksum_offset s))) s))"

fun decode_extents :: "nat \<Rightarrow> nat \<Rightarrow> sector \<Rightarrow> extent list \<Rightarrow> dfs_error + extent list" where
  "decode_extents 0 index s es = Inr es"
| "decode_extents (Suc k) index s es =
     (let offset = node_extents_offset + index * 16;
          e = \<lparr>ext_start = from_le (slice offset (offset + 8) s),
               ext_logical = from_le (slice (offset + 8) (offset + 12) s),
               ext_count = from_le (slice (offset + 12) (offset + 16) s)\<rparr>;
          es = es[index := e]
      in if ext_count e = 0 then Inl CorruptMetadata else decode_extents k (Suc index) s es)"

definition decode_node :: "sector \<Rightarrow> dfs_error + node" where
  "decode_node s =
     (let k = s ! node_kind_offset in
      if k = 0 then Inr empty_node
      else if crc32 (slice 0 node_checksum_offset s)
            \<noteq> from_le (slice node_checksum_offset sector_size s) then Inl CorruptMetadata
      else
        let len = (case position (\<lambda>b. b = 0) (slice 0 node_path_end s) of
                     None \<Rightarrow> node_path_end | Some i \<Rightarrow> i) in
        if \<not> (k = node_file \<or> k = node_directory) \<or> len > max_path then Inl CorruptMetadata
        else
          let n = empty_node\<lparr>path_bytes := splice 0 (slice 0 len s) (path_bytes empty_node),
                path_length := len, kind := k,
                extent_count := unat (s ! (node_kind_offset + 1))\<rparr> in
          if extent_count n > max_extents \<or> (k = node_directory \<and> extent_count n \<noteq> 0)
          then Inl CorruptMetadata
          else
            let n = n\<lparr>mode := from_le (slice 258 260 s), uid := from_le (slice 260 264 s),
                  gid := from_le (slice 264 268 s), file_size := from_le (slice 268 276 s)\<rparr>
            in rbind (decode_extents (extent_count n) 0 s (extents n))
                 (\<lambda>es. Inr (n\<lparr>extents := es\<rparr>)))"

section \<open>Arithmetic of the layout\<close>

lemma make_layout_InrD:
  assumes "make_layout start count = Inr l"
  shows "start_lba l = start \<and> sectors l = count \<and>
    unat (journal_lba l) = unat start + 1 \<and>
    unat (inode_lba l) = unat start + 18 \<and>
    unat (bitmap_lba l) = unat start + 274 \<and>
    unat (bitmap_sectors l) = (unat count + 4095) div 4096 \<and>
    unat (data_lba l) = unat start + 274 + unat (bitmap_sectors l) \<and>
    274 + unat (bitmap_sectors l) < unat count \<and>
    unat start + unat count < 2 ^ 64"
proof -
  let ?r = "count + 4095"
  obtain j i b d where
    r: "checked_add count 4095 = Some ?r" and
    j: "checked_add start 1 = Some j" and i: "checked_add j 17 = Some i" and
    b: "checked_add i 256 = Some b" and d: "checked_add b (?r div 4096) = Some d" and
    big: "\<not> count \<le> d - start" and fits: "checked_add start count \<noteq> None" and
    l: "l = \<lparr>start_lba = start, sectors = count, journal_lba = j, inode_lba = i, bitmap_lba = b,
      bitmap_sectors = ?r div 4096, data_lba = d\<rparr>"
    using assms
    by (auto simp: make_layout_def rbind_Inr_iff abi_simps Let_def split: if_splits
        dest: checked_add_SomeD)
  have r': "unat ?r = unat count + 4095" using checked_add_SomeD [OF r] by simp
  have bm: "unat (?r div 4096) = (unat count + 4095) div 4096"
    using r' by (simp add: unat_div)
  have u: "unat j = unat start + 1" "unat i = unat start + 18" "unat b = unat start + 274"
    "unat d = unat start + 274 + (unat count + 4095) div 4096"
  proof -
    have "unat j = unat start + 1" "unat i = unat j + 17" "unat b = unat i + 256"
      "unat d = unat b + (unat count + 4095) div 4096"
      using checked_add_SomeD [OF j, THEN conjunct2] checked_add_SomeD [OF i, THEN conjunct2]
        checked_add_SomeD [OF b, THEN conjunct2] checked_add_SomeD [OF d, THEN conjunct2]
      by (simp_all add: bm)
    then show "unat j = unat start + 1" "unat i = unat start + 18" "unat b = unat start + 274"
      "unat d = unat start + 274 + (unat count + 4095) div 4096" by simp_all
  qed
  have "start \<le> d" using u(4) by (simp add: word_le_nat_alt)
  then have "unat (d - start) = 274 + (unat count + 4095) div 4096"
    using u(4) by (simp add: unat_sub)
  with big have "274 + (unat count + 4095) div 4096 < unat count"
    by (simp add: word_le_nat_alt)
  moreover from fits have "unat start + unat count < 2 ^ 64"
    by (auto simp: checked_add_def split: if_splits)
  ultimately show ?thesis using l u bm by simp
qed

lemma make_layout_rounds:
  assumes "make_layout start count = Inr l"
  shows "unat count + 4095 < 2 ^ 64"
proof -
  have "checked_add count 4095 \<noteq> None"
    using assms by (auto simp: make_layout_def rbind_Inr_iff abi_simps)
  then show ?thesis by (auto simp: checked_add_def split: if_splits)
qed

lemma layout_bounds:
  assumes "make_layout start count = Inr l"
  shows "start_lba l < journal_lba l" "journal_lba l < inode_lba l" "inode_lba l < bitmap_lba l"
    "bitmap_lba l \<le> data_lba l" "data_lba l < start_lba l + sectors l"
    "unat (start_lba l + sectors l) = unat (start_lba l) + unat (sectors l)"
    "unat (journal_lba l + journal_sectors) = unat (inode_lba l)"
proof -
  note D = make_layout_InrD [OF assms]
  show sum: "unat (start_lba l + sectors l) = unat (start_lba l) + unat (sectors l)"
    using D by (simp add: unat_word_ariths)
  show "unat (journal_lba l + journal_sectors) = unat (inode_lba l)"
    using D by (simp add: unat_word_ariths abi_simps)
  show "start_lba l < journal_lba l" "journal_lba l < inode_lba l" "inode_lba l < bitmap_lba l"
    "bitmap_lba l \<le> data_lba l" "data_lba l < start_lba l + sectors l"
    using D sum by (simp_all add: word_less_nat_alt word_le_nat_alt)
qed

section \<open>Round trips\<close>

lemma length_dfs_magic [simp]: "length dfs_magic = 8"
  by (simp add: dfs_magic_def)

lemma length_journal_magic [simp]: "length journal_magic = 8"
  by (simp add: journal_magic_def)

lemma length_encode_superblock: "length (encode_superblock l) = 512"
  by (simp add: encode_superblock_def superblock_fields_def Let_def)

lemma decode_encode_superblock:
  assumes "make_layout start count = Inr l"
  shows "decode_superblock start count (encode_superblock l) = Inr l"
  using assms
  by (simp add: decode_superblock_def encode_superblock_def superblock_fields_def Let_def)

lemma length_encode_extents [simp]:
  "node_extents_offset + (index + length es) * 16 \<le> length s \<Longrightarrow>
   length (encode_extents index es s) = length s"
  by (induction index es s rule: encode_extents.induct)
    (simp_all add: Let_def node_extents_offset_def)

lemma slice_encode_extents_before:
  "b \<le> node_extents_offset + index * 16 \<Longrightarrow>
   node_extents_offset + (index + length es) * 16 \<le> length s \<Longrightarrow>
   slice a b (encode_extents index es s) = slice a b s"
  by (induction index es s rule: encode_extents.induct)
    (simp_all add: Let_def node_extents_offset_def)

lemma nth_encode_extents_before:
  "i < node_extents_offset + index * 16 \<Longrightarrow>
   node_extents_offset + (index + length es) * 16 \<le> length s \<Longrightarrow>
   encode_extents index es s ! i = s ! i"
  by (induction index es s rule: encode_extents.induct)
    (simp_all add: Let_def node_extents_offset_def)

lemma extent_eta: "\<lparr>ext_start = ext_start e, ext_logical = ext_logical e, ext_count = ext_count e\<rparr> = e"
  by (cases e) simp

lemma decode_encode_extents:
  assumes "node_extents_offset + (index + length es) * 16 \<le> length s"
    and "node_extents_offset + (index + length es) * 16 \<le> length s'"
    and "slice (node_extents_offset + index * 16) (node_extents_offset + (index + length es) * 16) s'
       = slice (node_extents_offset + index * 16) (node_extents_offset + (index + length es) * 16)
           (encode_extents index es s)"
    and "\<forall>e \<in> set es. ext_count e \<noteq> 0"
    and "index + length es \<le> length base"
  shows "decode_extents (length es) index s' base =
    Inr (take index base @ es @ drop (index + length es) base)"
  using assms
proof (induction es arbitrary: index s base)
  case Nil
  then show ?case by simp
next
  case (Cons e es)
  let ?o = "node_extents_offset + index * 16"
  let ?fin = "node_extents_offset + (index + length (e # es)) * 16"
  define s3 where "s3 = splice (?o + 12) (to_le 4 (ext_count e))
    (splice (?o + 8) (to_le 4 (ext_logical e)) (splice ?o (to_le 8 (ext_start e)) s))"
  have enc: "encode_extents index (e # es) s = encode_extents (Suc index) es s3"
    by (simp add: Let_def s3_def)
  have len3: "length s3 = length s"
    using Cons.prems(1) by (simp add: s3_def)
  have at: "slice (?o + i) (?o + j) s' = slice (?o + i) (?o + j) s3"
    if "i \<le> j" "j \<le> 16" for i j
  proof -
    have "slice (?o + i) (?o + j) xs = slice i j (slice ?o ?fin xs)" for xs :: sector
      using that by (subst slice_slice) (simp_all add: add.assoc)
    then have "slice (?o + i) (?o + j) s' =
        slice (?o + i) (?o + j) (encode_extents (Suc index) es s3)"
      using Cons.prems(3) enc by metis
    also have "\<dots> = slice (?o + i) (?o + j) s3"
      by (rule slice_encode_extents_before)
        (use that Cons.prems(1) len3 in \<open>simp_all add: node_extents_offset_def\<close>)
    finally show ?thesis .
  qed
  have fields: "slice ?o (?o + 8) s' = to_le 8 (ext_start e)"
    "slice (?o + 8) (?o + 12) s' = to_le 4 (ext_logical e)"
    "slice (?o + 12) (?o + 16) s' = to_le 4 (ext_count e)"
    using at [of 0 8] at [of 8 12] at [of 12 16] Cons.prems(1) by (simp_all add: s3_def)
  have rest: "slice (node_extents_offset + Suc index * 16) ?fin s' =
      slice (node_extents_offset + Suc index * 16) ?fin (encode_extents (Suc index) es s3)"
  proof -
    have "slice (node_extents_offset + Suc index * 16) ?fin xs = slice 16 (?fin - ?o) (slice ?o ?fin xs)"
      for xs :: sector
      by (subst slice_slice) (simp_all add: node_extents_offset_def)
    then show ?thesis using Cons.prems(3) enc by metis
  qed
  have "decode_extents (length (e # es)) index s' base =
      decode_extents (length es) (Suc index) s' (base[index := \<lparr>ext_start = ext_start e,
        ext_logical = ext_logical e, ext_count = ext_count e\<rparr>])"
    using fields Cons.prems(4) by (simp add: Let_def)
  also have "\<dots> = decode_extents (length es) (Suc index) s' (base[index := e])"
    by (subst extent_eta) (rule refl)
  also have "\<dots> = Inr (take (Suc index) (base[index := e]) @ es @
      drop (Suc index + length es) (base[index := e]))"
    by (rule Cons.IH) (use Cons.prems rest len3 in simp_all)
  also have "take (Suc index) (base[index := e]) = take index base @ [e]"
    using Cons.prems(5) by (simp add: take_Suc_conv_app_nth)
  finally show ?case using Cons.prems(5) by simp
qed

text \<open>
  What an inode in use satisfies in memory: the arrays at their lengths, a path without
  NUL bytes, zeroes after it, no empty extent, nothing after the last extent.
\<close>

definition node_wf :: "node \<Rightarrow> bool" where
  "node_wf n \<longleftrightarrow> (kind n = node_file \<or> kind n = node_directory) \<and>
     path_length n \<le> max_path \<and>
     path_bytes n = splice 0 (take (path_length n) (path_bytes n)) (replicate (max_path + 1) 0) \<and>
     length (path_bytes n) = max_path + 1 \<and>
     0 \<notin> set (take (path_length n) (path_bytes n)) \<and>
     extent_count n \<le> max_extents \<and> length (extents n) = max_extents \<and>
     (kind n = node_directory \<longrightarrow> extent_count n = 0) \<and>
     (\<forall>e \<in> set (take (extent_count n) (extents n)). ext_count e \<noteq> 0) \<and>
     drop (extent_count n) (extents n) = replicate (max_extents - extent_count n) empty_extent"

lemma node_wfD:
  assumes "node_wf n"
  shows "kind n \<noteq> 0" "path_length n \<le> max_path" "extent_count n \<le> max_extents"
    "length (path_bytes n) = max_path + 1" "length (extents n) = max_extents"
  using assms by (auto simp: node_wf_def node_file_def node_directory_def)

definition encode_fields :: "node \<Rightarrow> sector" where
  "encode_fields n =
     splice 268 (to_le 8 (file_size n)) (splice 264 (to_le 4 (gid n))
       (splice 260 (to_le 4 (uid n)) (splice 258 (to_le 2 (mode n))
         ((splice 0 (take (path_length n) (path_bytes n)) zero_sector)
            [node_kind_offset := kind n, node_kind_offset + 1 := word_of_nat (extent_count n)]))))"

definition encode_body :: "node \<Rightarrow> sector" where
  "encode_body n = encode_extents 0 (take (extent_count n) (extents n)) (encode_fields n)"

lemma encode_node_wf:
  assumes "node_wf n"
  shows "encode_node n = Inr (splice node_checksum_offset
    (to_le 4 (crc32 (slice 0 node_checksum_offset (encode_body n)))) (encode_body n))"
  using node_wfD [OF assms]
  by (simp add: encode_node_def encode_body_def encode_fields_def Let_def)

lemma length_encode_fields [simp]: "node_wf n \<Longrightarrow> length (encode_fields n) = 512"
  using node_wfD [of n] by (simp add: encode_fields_def abi_simps)

lemma length_encode_body [simp]: "node_wf n \<Longrightarrow> length (encode_body n) = 512"
  using node_wfD [of n] by (simp add: encode_body_def abi_simps)

lemma length_encode_node: "node_wf n \<Longrightarrow> encode_node n = Inr s \<Longrightarrow> length s = 512"
  by (auto simp: encode_node_wf abi_simps)

lemma encode_body_slice:
  "node_wf n \<Longrightarrow> b \<le> 280 \<Longrightarrow> slice a b (encode_body n) = slice a b (encode_fields n)"
  using node_wfD [of n] by (simp add: encode_body_def slice_encode_extents_before abi_simps)

lemma encode_body_nth:
  "node_wf n \<Longrightarrow> i < 280 \<Longrightarrow> encode_body n ! i = encode_fields n ! i"
  using node_wfD [of n] by (simp add: encode_body_def nth_encode_extents_before abi_simps)

lemma encode_body_fields:
  assumes "node_wf n"
  shows "slice 258 260 (encode_body n) = to_le 2 (mode n)"
    "slice 260 264 (encode_body n) = to_le 4 (uid n)"
    "slice 264 268 (encode_body n) = to_le 4 (gid n)"
    "slice 268 276 (encode_body n) = to_le 8 (file_size n)"
    "encode_body n ! 256 = kind n"
    "encode_body n ! 257 = word_of_nat (extent_count n)"
  using node_wfD [OF assms] assms
  by (simp_all add: encode_body_slice encode_body_nth encode_fields_def abi_simps)

lemma position_append_zero:
  "0 \<notin> set xs \<Longrightarrow> position (\<lambda>b. b = 0) (xs @ replicate k (0 :: 'a :: zero)) =
     (if k = 0 then None else Some (length xs))"
  by (induction xs) (auto simp: position_None_iff, cases k, auto)

lemma encode_body_path:
  assumes "node_wf n"
  shows "slice 0 node_path_end (encode_body n) =
    take (path_length n) (path_bytes n) @ replicate (255 - path_length n) 0"
  using node_wfD [OF assms] assms
  by (simp add: encode_body_slice abi_simps encode_fields_def)
    (simp add: slice_def splice_def zero_sector_def sector_size_def)

lemma unat_extent_count:
  "node_wf n \<Longrightarrow> unat (word_of_nat (extent_count n) :: u8) = extent_count n"
  using node_wfD [of n] by (simp add: unat_of_nat abi_simps)

lemma decode_encode_node:
  assumes wf: "node_wf n" and enc: "encode_node n = Inr s"
  shows "decode_node s = Inr n"
proof -
  let ?b = "encode_body n" and ?es = "take (extent_count n) (extents n)"
  let ?crc = "to_le 4 (crc32 (slice 0 508 ?b))"
  note D = node_wfD [OF wf]
  have s: "s = splice 508 ?crc ?b"
    using enc wf by (simp add: encode_node_wf abi_simps)
  have low: "slice a b s = slice a b ?b" if "b \<le> 508" for a b
    using that wf s by simp
  have nth: "s ! i = ?b ! i" if "i < 508" for i
    using that wf s by simp
  have pos: "(case position (\<lambda>b. b = 0) (slice 0 node_path_end s) of
      None \<Rightarrow> node_path_end | Some i \<Rightarrow> i) = path_length n"
    using encode_body_path [OF wf] D wf low [of 255 0]
    by (simp add: position_append_zero node_wf_def abi_simps)
  have path: "splice 0 (slice 0 (path_length n) s) (path_bytes empty_node) = path_bytes n"
  proof -
    have "slice 0 (path_length n) s = slice 0 (path_length n) (slice 0 255 s)"
      using D by (simp add: slice_slice abi_simps)
    also have "\<dots> = take (path_length n) (path_bytes n)"
      using encode_body_path [OF wf] low [of 255 0] D by (simp add: slice_def abi_simps)
    finally show ?thesis
      using wf by (simp add: node_wf_def empty_node_def)
  qed
  have es: "decode_extents (extent_count n) 0 s (extents empty_node) = Inr (extents n)"
  proof -
    have len: "length ?es = extent_count n" using D by simp
    have "decode_extents (length ?es) 0 s (extents empty_node) =
        Inr (take 0 (extents empty_node) @ ?es @ drop (0 + length ?es) (extents empty_node))"
      by (rule decode_encode_extents [where s = "encode_fields n"])
        (use wf D len s in \<open>simp_all add: abi_simps node_wf_def empty_node_def encode_body_def\<close>)
    also have "take 0 (extents empty_node) @ ?es @ drop (0 + length ?es) (extents empty_node) =
        ?es @ drop (extent_count n) (extents n)"
      using wf len by (simp add: node_wf_def empty_node_def)
    finally show ?thesis using len by simp
  qed
  have crc: "crc32 (slice 0 508 s) = from_le (slice 508 512 s)"
    using s wf low by simp
  have kinds: "kind n = node_file \<or> kind n = node_directory"
    "kind n = node_directory \<longrightarrow> extent_count n = 0" using wf by (simp_all add: node_wf_def)
  show ?thesis
    using D kinds pos path es crc encode_body_fields [OF wf] unat_extent_count [OF wf]
    by (simp add: decode_node_def Let_def low nth abi_simps)
qed

section \<open>What the checksum detects\<close>

lemma crc_bit_inject: "crc_bit x = crc_bit y \<longleftrightarrow> x = y"
proof
  assume eq: "crc_bit x = crc_bit y"
  have mask: "bit (0xedb88320 AND (0 - (z AND 1)) :: u32) 31 \<longleftrightarrow> bit z 0" for z :: u32
  proof -
    have "z AND 1 = (if bit z 0 then 1 else 0)"
      by (simp add: and_one_eq mod_2_eq_odd bit_0)
    moreover have "bit (0xedb88320 :: u32) 31" by simp
    ultimately show ?thesis by (simp add: bit_and_iff)
  qed
  have top: "bit (crc_bit z) 31 \<longleftrightarrow> bit z 0" for z
  proof -
    have "\<not> bit (drop_bit 1 z) 31"
      using bit_imp_le_length [of z 32] by (auto simp: bit_drop_bit_eq)
    then show ?thesis by (simp only: crc_bit_def bit_xor_iff mask) simp
  qed
  have low: "bit x 0 = bit y 0" using top [of x] top [of y] eq by simp
  then have "x AND 1 = y AND 1" by (simp add: and_one_eq mod_2_eq_odd bit_0)
  moreover have "drop_bit 1 z = crc_bit z XOR (0xedb88320 AND (0 - (z AND 1)))" for z
    by (simp add: crc_bit_def xor.assoc)
  ultimately have high: "drop_bit 1 x = drop_bit 1 y" using eq by metis
  show "x = y"
  proof (rule bit_word_eqI)
    fix n
    show "bit x n = bit y n"
    proof (cases n)
      case 0
      then show ?thesis using low by simp
    next
      case (Suc m)
      have "bit (drop_bit 1 x) m = bit (drop_bit 1 y) m" using high by simp
      then show ?thesis using Suc by (simp add: bit_drop_bit_eq)
    qed
  qed
qed simp

lemma crc_bits_inject: "(crc_bit ^^ n) x = (crc_bit ^^ n) y \<longleftrightarrow> x = y"
  by (induction n) (simp_all add: crc_bit_inject)

lemma xor_cancel_right: "x XOR c = y XOR c \<longleftrightarrow> x = (y :: 'a::len word)"
  by (auto simp: bit_eq_iff bit_xor_iff)

lemma ucast_u8_u32_inject: "(ucast (b :: u8) :: u32) = ucast b' \<longleftrightarrow> b = b'"
proof
  assume eq: "(ucast b :: u32) = ucast b'"
  show "b = b'"
  proof (rule bit_word_eqI)
    fix n assume "n < LENGTH(8)"
    then show "bit b n \<longleftrightarrow> bit b' n"
      using arg_cong [OF eq, of "\<lambda>w. bit w n"] by (simp add: bit_ucast_iff)
  qed
qed simp

lemma crc_byte_inject: "crc_byte b x = crc_byte b y \<longleftrightarrow> x = y"
  by (simp only: crc_byte_def crc_bits_inject xor_cancel_right)

lemma crc_byte_differ: "crc_byte b x = crc_byte b' x \<longleftrightarrow> b = b'"
  by (simp only: crc_byte_def crc_bits_inject xor.commute [of x] xor_cancel_right
      ucast_u8_u32_inject)

lemma crc32_update_inject: "crc32_update x bs = crc32_update y bs \<longleftrightarrow> x = y"
  by (induction bs arbitrary: x y) (simp_all add: crc32_update_def crc_byte_inject)

lemma crc32_one_byte:
  assumes "i < length bs" "b \<noteq> bs ! i"
  shows "crc32 (bs[i := b]) \<noteq> crc32 bs"
proof -
  have "bs = take i bs @ bs ! i # drop (Suc i) bs"
    using assms(1) by (rule id_take_nth_drop)
  moreover have "bs[i := b] = take i bs @ b # drop (Suc i) bs"
    using assms(1) by (rule upd_conv_take_nth_drop)
  moreover have "crc32 (xs @ b # ys) = crc32 (xs @ b' # ys) \<longleftrightarrow> b = b'" for xs ys b'
    using crc32_update_inject [of "crc_byte b (fold crc_byte xs (NOT 0))" ys
        "crc_byte b' (fold crc_byte xs (NOT 0))"]
    by (simp add: crc32_def crc32_update_def crc_byte_differ)
  ultimately show ?thesis using assms(2) by metis
qed

lemma slice_update_inside:
  "a \<le> i \<Longrightarrow> i < b \<Longrightarrow> i < length xs \<Longrightarrow> slice a b (xs[i := x]) = (slice a b xs)[i - a := x]"
  by (intro nth_equalityI) (auto simp: slice_def nth_list_update)

text \<open>
  C24. An inode survives its encoding: every well-formed node is written as one full sector
  that reads back as the same node, path, owner, mode, size and extents included.
\<close>

theorem inode_roundtrip:
  assumes "node_wf n"
  shows "\<exists>s. encode_node n = Inr s \<and> length s = sector_size \<and> decode_node s = Inr n"
proof -
  obtain s where s: "encode_node n = Inr s" using encode_node_wf [OF assms] by blast
  then show ?thesis
    using length_encode_node [OF assms s] decode_encode_node [OF assms s] by (simp add: abi_simps)
qed

definition sample_node :: node where
  "sample_node = empty_node\<lparr>path_bytes := splice 0 (ascii ''etc/motd'') (replicate 256 0),
     path_length := 8, kind := node_file, file_size := 600, mode := 420, uid := 1000,
     gid := 1000, extent_count := 1,
     extents := \<lparr>ext_start = 900, ext_logical = 0, ext_count = 2\<rparr> # replicate 13 empty_extent\<rparr>"

lemma sample_node_wf: "node_wf sample_node"
  by (simp add: node_wf_def sample_node_def empty_node_def abi_simps splice_def)

theorem inode_roundtrip_witness:
  "\<exists>s. encode_node sample_node = Inr s \<and> length s = sector_size \<and>
     decode_node s = Inr sample_node"
  by (rule inode_roundtrip [OF sample_node_wf])

text \<open>
  C25. The inode checksum catches every single-byte corruption: changing any one byte of an
  encoded inode, at any of the 512 offsets, makes the sector undecodable, except that
  clearing the kind byte makes it read as a free inode.
\<close>

theorem inode_corruption_detected:
  assumes wf: "node_wf n" and enc: "encode_node n = Inr s" and i: "i < sector_size"
    and b: "b \<noteq> s ! i"
  shows "decode_node (s[i := b]) =
    (if i = node_kind_offset \<and> b = 0 then Inr empty_node else Inl CorruptMetadata)"
proof -
  have len: "length s = 512" by (rule length_encode_node [OF wf enc])
  have kind: "s ! 256 \<noteq> 0" and stored: "from_le (slice 508 512 s) = crc32 (slice 0 508 s)"
    using enc wf node_wfD [OF wf] encode_body_fields [OF wf]
    by (auto simp: encode_node_wf abi_simps)
  have crc: "crc32 (slice 0 508 (s[i := b])) \<noteq> from_le (slice 508 512 (s[i := b]))"
  proof (cases "i < 508")
    case True
    then have "crc32 (slice 0 508 (s[i := b])) \<noteq> crc32 (slice 0 508 s)"
      using len b crc32_one_byte [of i "slice 0 508 s" b]
      by (simp add: slice_update_inside) (simp add: slice_def)
    then show ?thesis using True stored by simp
  next
    case False
    have "slice 508 512 (s[i := b]) \<noteq> slice 508 512 s"
    proof
      assume "slice 508 512 (s[i := b]) = slice 508 512 s"
      then have "slice 508 512 (s[i := b]) ! (i - 508) = slice 508 512 s ! (i - 508)" by simp
      then show False using False i len b by (simp add: slice_def abi_simps)
    qed
    then have "(from_le (slice 508 512 (s[i := b])) :: u32) \<noteq> from_le (slice 508 512 s)"
      using from_le_inject [of "slice 508 512 (s[i := b])" "slice 508 512 s", where 'a = 32] len
      by auto
    then show ?thesis using False stored by simp
  qed
  show ?thesis
  proof (cases "i = 256")
    case True
    then show ?thesis using len crc by (simp add: decode_node_def Let_def abi_simps)
  next
    case False
    then show ?thesis using len crc kind by (simp add: decode_node_def Let_def abi_simps)
  qed
qed

theorem inode_corruption_detected_witness:
  "\<exists>s. encode_node sample_node = Inr s \<and>
     decode_node (s[3 := s ! 3 + 1]) = Inl CorruptMetadata \<and>
     decode_node (s[256 := 0]) = Inr empty_node"
proof -
  obtain s where s: "encode_node sample_node = Inr s"
    using encode_node_wf [OF sample_node_wf] by blast
  have "s ! 256 \<noteq> 0"
    using s encode_body_fields(5) [OF sample_node_wf] sample_node_wf
    by (auto simp: encode_node_wf abi_simps sample_node_def)
  then show ?thesis
    using s inode_corruption_detected [OF sample_node_wf s, of 3 "s ! 3 + 1"]
      inode_corruption_detected [OF sample_node_wf s, of 256 0]
    by (simp add: abi_simps)
qed

end
