(* ===== verification/Dfs_Journal.thy ===== *)
theory Dfs_Journal
  imports Dfs_Format "HOL-Library.Sublist"
begin

text \<open>
  The metadata journal of \<open>kernel/src/fs/dfs.rs\<close>: \<open>Transaction\<close>, \<open>commit\<close>,
  \<open>commit_transaction\<close> and \<open>replay_journal\<close>. The main result is crash atomicity on the
  disk whose power may be cut: whatever operation the cut hits and whichever cached writes
  reach the media, replaying the journal yields the old or the new contents, even when the
  replay itself is cut short and repeated.
\<close>

record dfs =
  layout :: dfs_layout

definition dev_read :: "'d block_device \<Rightarrow> u64 \<Rightarrow> ('d, dfs_error, sector) io" where
  "dev_read dev lba = map_err_io Block (read_sector dev lba)"

definition dev_write :: "'d block_device \<Rightarrow> u64 \<Rightarrow> sector \<Rightarrow> ('d, dfs_error, unit) io" where
  "dev_write dev lba s = map_err_io Block (write_sector dev lba s)"

definition dev_flush :: "'d block_device \<Rightarrow> ('d, dfs_error, unit) io" where
  "dev_flush dev = map_err_io Block (flush_device dev)"

section \<open>Transactions\<close>

record transaction =
  tx_count :: nat
  tx_targets :: "u64 list"
  tx_data :: "sector list"

definition new_transaction :: transaction where
  "new_transaction = \<lparr>tx_count = 0, tx_targets = replicate transaction_sectors 0,
     tx_data = replicate transaction_sectors zero_sector\<rparr>"

definition tx_add :: "u64 \<Rightarrow> sector \<Rightarrow> transaction \<Rightarrow> dfs_error + transaction" where
  "tx_add lba s tx = (case position (\<lambda>t. t = lba) (take (tx_count tx) (tx_targets tx)) of
     Some index \<Rightarrow> Inr (tx\<lparr>tx_data := (tx_data tx)[index := s]\<rparr>)
   | None \<Rightarrow>
       if tx_count tx = transaction_sectors then Inl JournalFull
       else Inr (tx\<lparr>tx_targets := (tx_targets tx)[tx_count tx := lba],
              tx_data := (tx_data tx)[tx_count tx := s], tx_count := tx_count tx + 1\<rparr>))"

definition transaction_checksum :: "transaction \<Rightarrow> u32" where
  "transaction_checksum tx = NOT (fold (\<lambda>index crc.
     crc32_update (crc32_update crc (to_le 8 (tx_targets tx ! index))) (tx_data tx ! index))
     [0..<tx_count tx] (NOT 0))"

section \<open>Committing and replaying\<close>

text \<open>The first loop of \<open>commit_transaction\<close>, over the remaining indices.\<close>

fun write_payload ::
  "'d block_device \<Rightarrow> dfs \<Rightarrow> transaction \<Rightarrow> nat list \<Rightarrow> sector \<Rightarrow> ('d, dfs_error, sector) io" where
  "write_payload dev fs tx [] header = ok_io header"
| "write_payload dev fs tx (index # rest) header =
     (let header = splice (16 + index * 8) (to_le 8 (tx_targets tx ! index)) header in
      try_io (dev_write dev (journal_lba (layout fs) + 1 + word_of_nat index) (tx_data tx ! index))
        (\<lambda>_. write_payload dev fs tx rest header))"

definition write_targets :: "'d block_device \<Rightarrow> transaction \<Rightarrow> ('d, dfs_error, unit) io" where
  "write_targets dev tx = for_io [0..<tx_count tx]
     (\<lambda>index. dev_write dev (tx_targets tx ! index) (tx_data tx ! index))"

definition clear_journal :: "'d block_device \<Rightarrow> dfs \<Rightarrow> ('d, dfs_error, unit) io" where
  "clear_journal dev fs =
     try_io (dev_write dev (journal_lba (layout fs)) zero_sector) (\<lambda>_. dev_flush dev)"

definition commit_transaction ::
  "'d block_device \<Rightarrow> dfs \<Rightarrow> transaction \<Rightarrow> ('d, dfs_error, unit) io" where
  "commit_transaction dev fs tx =
     (let header = splice 0 journal_magic zero_sector;
          header = header[8 := 1];
          header = header[9 := word_of_nat (tx_count tx)]
      in try_io (write_payload dev fs tx [0..<tx_count tx] header) (\<lambda>header.
         let header = splice 10 (to_le 4 (transaction_checksum tx)) header in
         try_io (dev_flush dev) (\<lambda>_.
         try_io (dev_write dev (journal_lba (layout fs)) header) (\<lambda>_.
         try_io (dev_flush dev) (\<lambda>_.
         try_io (write_targets dev tx) (\<lambda>_.
         try_io (dev_flush dev) (\<lambda>_.
         clear_journal dev fs)))))))"

fun commit_updates ::
  "dfs \<Rightarrow> (u64 \<times> sector) list \<Rightarrow> transaction \<Rightarrow> dfs_error + transaction" where
  "commit_updates fs [] tx = Inr tx"
| "commit_updates fs ((lba, s) # updates) tx =
     (let l = layout fs; journal_end = journal_lba l + journal_sectors in
      if lba < start_lba l \<or> lba \<ge> start_lba l + sectors l \<or>
         (lba \<ge> journal_lba l \<and> lba < journal_end)
      then Inl InvalidFilesystem
      else rbind (tx_add lba s tx) (commit_updates fs updates))"

definition commit ::
  "'d block_device \<Rightarrow> dfs \<Rightarrow> (u64 \<times> sector) list \<Rightarrow> ('d, dfs_error, unit) io" where
  "commit dev fs updates =
     (if updates = [] then ok_io ()
      else if length updates > transaction_sectors then fail_io JournalFull
      else try_io (lift_io (commit_updates fs updates new_transaction))
             (commit_transaction dev fs))"

fun load_journal ::
  "'d block_device \<Rightarrow> dfs \<Rightarrow> sector \<Rightarrow> nat list \<Rightarrow> transaction \<Rightarrow> ('d, dfs_error, transaction) io"
where
  "load_journal dev fs header [] tx = ok_io tx"
| "load_journal dev fs header (index # rest) tx =
     (let l = layout fs; journal_end = journal_lba l + journal_sectors;
          target = from_le (slice (16 + index * 8) (24 + index * 8) header) in
      if target < start_lba l \<or> target \<ge> start_lba l + sectors l \<or>
         (target \<ge> journal_lba l \<and> target < journal_end)
      then fail_io CorruptMetadata
      else
        let tx = tx\<lparr>tx_targets := (tx_targets tx)[index := target]\<rparr> in
        try_io (dev_read dev (journal_lba l + 1 + word_of_nat index)) (\<lambda>s.
          load_journal dev fs header rest (tx\<lparr>tx_data := (tx_data tx)[index := s]\<rparr>)))"

definition replay_journal :: "'d block_device \<Rightarrow> dfs \<Rightarrow> ('d, dfs_error, unit) io" where
  "replay_journal dev fs =
     try_io (dev_read dev (journal_lba (layout fs))) (\<lambda>header.
       if \<forall>b \<in> set header. b = 0 then ok_io ()
       else if slice 0 8 header \<noteq> journal_magic then fail_io CorruptMetadata
       else if header ! 8 = 0 then clear_journal dev fs
       else
         let count = unat (header ! 9) in
         if header ! 8 \<noteq> 1 \<or> count = 0 \<or> count > transaction_sectors
         then fail_io CorruptMetadata
         else try_io (load_journal dev fs header [0..<count] (new_transaction\<lparr>tx_count := count\<rparr>))
           (\<lambda>tx.
             if transaction_checksum tx \<noteq> from_le (slice 10 14 header)
             then fail_io CorruptMetadata
             else
               try_io (write_targets dev tx) (\<lambda>_.
               try_io (dev_flush dev) (\<lambda>_.
               clear_journal dev fs))))"

section \<open>Transactions as lists of writes\<close>

definition tx_ok :: "transaction \<Rightarrow> bool" where
  "tx_ok tx \<longleftrightarrow> tx_count tx \<le> transaction_sectors \<and>
     length (tx_targets tx) = transaction_sectors \<and> length (tx_data tx) = transaction_sectors \<and>
     (\<forall>s \<in> set (tx_data tx). length s = sector_size) \<and>
     distinct (take (tx_count tx) (tx_targets tx))"

definition tx_writes :: "transaction \<Rightarrow> (u64 \<times> sector) list" where
  "tx_writes tx = map (\<lambda>i. (tx_targets tx ! i, tx_data tx ! i)) [0..<tx_count tx]"

lemma tx_okD:
  assumes "tx_ok tx"
  shows "tx_count tx \<le> 16" "length (tx_targets tx) = 16" "length (tx_data tx) = 16"
    "i < 16 \<Longrightarrow> length (tx_data tx ! i) = 512"
  using assms by (auto simp: tx_ok_def abi_simps)

lemma tx_ok_new [simp]: "tx_ok new_transaction"
  by (simp add: tx_ok_def new_transaction_def abi_simps)

lemma tx_writes_new [simp]: "tx_writes new_transaction = []"
  by (simp add: tx_writes_def new_transaction_def)

lemma tx_add_ok:
  assumes "tx_ok tx" "tx_add lba s tx = Inr tx'" "length s = sector_size"
  shows "tx_ok tx'"
  using assms
  by (auto simp: tx_add_def tx_ok_def position_None_iff take_Suc_conv_app_nth abi_simps
      split: option.splits if_splits dest!: set_update_subset_insert [THEN subsetD])

lemma distinct_targets:
  assumes "tx_ok tx"
  shows "distinct (map fst (tx_writes tx))"
proof -
  have "map fst (tx_writes tx) = take (tx_count tx) (tx_targets tx)"
    using tx_okD [OF assms] by (intro nth_equalityI) (simp_all add: tx_writes_def)
  then show ?thesis using assms by (simp add: tx_ok_def)
qed

lemma apply_writes_swap:
  "\<forall>(lba, s) \<in> set ws. unat lba \<noteq> i \<Longrightarrow>
   apply_writes ws (d[i := x]) = (apply_writes ws d)[i := x]"
  by (induction ws d rule: apply_writes.induct) (auto simp: list_update_swap)

text \<open>Adding to a transaction adds one write after the others.\<close>

lemma tx_add_writes:
  assumes ok: "tx_ok tx" and add: "tx_add lba s tx = Inr tx'"
  shows "apply_writes (tx_writes tx') d = (apply_writes (tx_writes tx) d)[unat lba := s]"
proof (cases "position (\<lambda>t. t = lba) (take (tx_count tx) (tx_targets tx))")
  case None
  then have "tx_count tx < 16" and tx': "tx' = tx\<lparr>tx_targets := (tx_targets tx)[tx_count tx := lba],
      tx_data := (tx_data tx)[tx_count tx := s], tx_count := tx_count tx + 1\<rparr>"
    using add tx_okD(1) [OF ok] by (auto simp: tx_add_def abi_simps split: if_splits)
  then have "tx_writes tx' = tx_writes tx @ [(lba, s)]"
    using tx_okD [OF ok] by (simp add: tx_writes_def)
  then show ?thesis by simp
next
  case (Some index)
  let ?n = "tx_count tx"
  have i: "index < ?n" "tx_targets tx ! index = lba"
    using Some tx_okD [OF ok] by (auto simp: position_Some_iff)
  have tx': "tx' = tx\<lparr>tx_data := (tx_data tx)[index := s]\<rparr>"
    using add Some by (simp add: tx_add_def)
  define f where "f = (\<lambda>j. (tx_targets tx ! j, tx_data tx ! j))"
  have split: "[0..<?n] = [0..<index] @ index # [Suc index..<?n]"
    using i(1) upt_add_eq_append [of 0 index "?n - index"] by (simp add: upt_conv_Cons)
  have old: "tx_writes tx = map f [0..<index] @ (lba, tx_data tx ! index) # map f [Suc index..<?n]"
    using i(2) by (simp add: tx_writes_def split f_def)
  have new: "tx_writes tx' = map f [0..<index] @ (lba, s) # map f [Suc index..<?n]"
    using i tx_okD [OF ok] by (simp add: tx_writes_def tx' split f_def)
  have "\<forall>(t, x) \<in> set (map f [Suc index..<?n]). unat t \<noteq> unat lba"
  proof -
    have "tx_targets tx ! j \<noteq> lba" if "Suc index \<le> j" "j < ?n" for j
    proof
      assume "tx_targets tx ! j = lba"
      then have "take ?n (tx_targets tx) ! j = take ?n (tx_targets tx) ! index"
        using that i by simp
      moreover have "distinct (take ?n (tx_targets tx))" using ok by (simp add: tx_ok_def)
      moreover have "length (take ?n (tx_targets tx)) = ?n" using tx_okD [OF ok] by simp
      ultimately show False
        using that i(1) nth_eq_iff_index_eq [of "take ?n (tx_targets tx)" j index] by simp
    qed
    then show ?thesis by (auto simp: f_def word_unat_eq_iff)
  qed
  note swap = apply_writes_swap [OF this]
  show ?thesis
    unfolding old new by (simp add: swap)
qed

section \<open>Selections of cached writes\<close>

lemma apply_writes_untouched:
  "i \<notin> unat ` fst ` set ws \<Longrightarrow> apply_writes ws d ! i = d ! i"
  by (rule apply_writes_other) (auto simp: image_image split_beta image_iff)

lemma apply_writes_determined:
  "i \<in> unat ` fst ` set ws \<Longrightarrow> length d = length d' \<Longrightarrow> i < length d \<Longrightarrow>
   apply_writes ws d ! i = apply_writes ws d' ! i"
proof (induction ws arbitrary: d d')
  case Nil
  then show ?case by simp
next
  case (Cons w ws)
  obtain lba s where w: "w = (lba, s)" by (cases w)
  show ?case
  proof (cases "i \<in> unat ` fst ` set ws")
    case True
    then show ?thesis
      using Cons.IH [of "d[unat lba := s]" "d'[unat lba := s]"] Cons.prems(2,3) w by simp
  next
    case False
    moreover have "i = unat lba" using Cons.prems(1) False w by simp
    ultimately show ?thesis using Cons.prems(2,3) w by (simp add: apply_writes_untouched)
  qed
qed

text \<open>
  When no sector is written twice, a selection of the writes leaves each sector either as
  it was or as all the writes leave it.
\<close>

lemma apply_some_writes:
  assumes "distinct (map (unat \<circ> fst) ws)" "sel \<in> set (subseqs ws)" "i < length d"
  shows "apply_writes sel d ! i = d ! i \<or> apply_writes sel d ! i = apply_writes ws d ! i"
  using assms
proof (induction ws arbitrary: sel d)
  case Nil
  then show ?case by simp
next
  case (Cons w ws)
  obtain lba s where w: "w = (lba, s)" by (cases w)
  have sub: "unat ` fst ` set sel' \<subseteq> unat ` fst ` set ws" if "sel' \<in> set (subseqs ws)" for sel'
  proof -
    have "set sel' \<in> Pow (set ws)" using that subseqs_powset [of ws] by blast
    then show ?thesis by (intro image_mono) simp
  qed
  have fresh: "unat lba \<notin> unat ` fst ` set ws"
    using Cons.prems(1) w by (auto simp: image_image)
  from Cons.prems(2) consider
    (taken) sel' where "sel = w # sel'" "sel' \<in> set (subseqs ws)"
    | (left) "sel \<in> set (subseqs ws)"
    by (auto simp: Let_def)
  then show ?case
  proof cases
    case taken
    have IH: "apply_writes sel' (d[unat lba := s]) ! i = d[unat lba := s] ! i \<or>
        apply_writes sel' (d[unat lba := s]) ! i = apply_writes ws (d[unat lba := s]) ! i"
      using Cons.IH [OF _ taken(2), of "d[unat lba := s]"] Cons.prems(1,3) by simp
    show ?thesis
    proof (cases "i = unat lba")
      case True
      have "i \<notin> unat ` fst ` set sel'" using fresh True subsetD [OF sub [OF taken(2)]] by metis
      moreover have "i \<notin> unat ` fst ` set ws" using fresh True by simp
      ultimately have "apply_writes sel d ! i = apply_writes (w # ws) d ! i"
        unfolding taken(1) w by (simp only: apply_writes.simps apply_writes_untouched not_False_eq_True)
      then show ?thesis ..
    next
      case False
      then show ?thesis using IH taken(1) w by simp
    qed
  next
    case left
    have IH: "apply_writes sel d ! i = d ! i \<or> apply_writes sel d ! i = apply_writes ws d ! i"
      using Cons.IH [OF _ left] Cons.prems(1,3) by simp
    show ?thesis
    proof (cases "i \<in> unat ` fst ` set ws")
      case True
      then have "i \<noteq> unat lba" using fresh by metis
      have "apply_writes ws (d[unat lba := s]) ! i = apply_writes ws d ! i"
        by (intro apply_writes_determined) (use True Cons.prems(3) in simp_all)
      then show ?thesis using IH w by simp
    next
      case False
      then have "i \<notin> unat ` fst ` set sel" using subsetD [OF sub [OF left]] by metis
      then show ?thesis by (simp add: apply_writes_untouched)
    qed
  qed
qed

section \<open>The committed header\<close>

definition put_target :: "transaction \<Rightarrow> nat \<Rightarrow> sector \<Rightarrow> sector" where
  "put_target tx index h = splice (16 + index * 8) (to_le 8 (tx_targets tx ! index)) h"

definition header_base :: "transaction \<Rightarrow> sector" where
  "header_base tx = (splice 0 journal_magic zero_sector)[8 := 1, 9 := word_of_nat (tx_count tx)]"

definition commit_header :: "transaction \<Rightarrow> sector" where
  "commit_header tx = splice 10 (to_le 4 (transaction_checksum tx))
     (fold (put_target tx) [0..<tx_count tx] (header_base tx))"

lemma length_header_base [simp]: "length (header_base tx) = 512"
  by (simp add: header_base_def)

lemma fold_put_target:
  assumes "\<forall>i \<in> set is. i < 16" "length h = 512"
  shows "length (fold (put_target tx) is h) = 512 \<and>
    (\<forall>i < 16. fold (put_target tx) is h ! i = h ! i) \<and>
    (\<forall>a b. b \<le> 16 \<longrightarrow> slice a b (fold (put_target tx) is h) = slice a b h) \<and>
    (\<forall>j < 16. slice (16 + j * 8) (24 + j * 8) (fold (put_target tx) is h) =
       (if j \<in> set is then to_le 8 (tx_targets tx ! j) else slice (16 + j * 8) (24 + j * 8) h))"
  using assms
proof (induction "is" arbitrary: h)
  case Nil
  then show ?case by simp
next
  case (Cons i "is")
  let ?h = "put_target tx i h"
  have h: "length ?h = 512" using Cons.prems by (simp add: put_target_def)
  have at: "slice (16 + j * 8) (24 + j * 8) ?h =
      (if j = i then to_le 8 (tx_targets tx ! j) else slice (16 + j * 8) (24 + j * 8) h)"
    if "j < 16" for j
  proof (cases i j rule: linorder_cases)
    case less
    then show ?thesis using that Cons.prems by (simp add: put_target_def)
  next
    case equal
    then show ?thesis using that Cons.prems by (simp add: put_target_def)
  next
    case greater
    then show ?thesis using that Cons.prems by (simp add: put_target_def)
  qed
  have low: "slice a b ?h = slice a b h" if "b \<le> 16" for a b
    using that Cons.prems by (simp add: put_target_def)
  have nth: "?h ! k = h ! k" if "k < 16" for k
    using that Cons.prems by (simp add: put_target_def)
  have IH: "length (fold (put_target tx) is ?h) = 512 \<and>
    (\<forall>i < 16. fold (put_target tx) is ?h ! i = ?h ! i) \<and>
    (\<forall>a b. b \<le> 16 \<longrightarrow> slice a b (fold (put_target tx) is ?h) = slice a b ?h) \<and>
    (\<forall>j < 16. slice (16 + j * 8) (24 + j * 8) (fold (put_target tx) is ?h) =
       (if j \<in> set is then to_le 8 (tx_targets tx ! j) else slice (16 + j * 8) (24 + j * 8) ?h))"
    using Cons.IH [OF _ h] Cons.prems(1) by simp
  then show ?case using at low nth by simp
qed

lemma commit_header_facts:
  assumes "tx_ok tx"
  shows "length (commit_header tx) = 512"
    "slice 0 8 (commit_header tx) = journal_magic"
    "commit_header tx ! 8 = 1"
    "commit_header tx ! 9 = word_of_nat (tx_count tx)"
    "slice 10 14 (commit_header tx) = to_le 4 (transaction_checksum tx)"
    "k < tx_count tx \<Longrightarrow>
       slice (16 + k * 8) (24 + k * 8) (commit_header tx) = to_le 8 (tx_targets tx ! k)"
  using fold_put_target [of "[0..<tx_count tx]" "header_base tx" tx] tx_okD(1) [OF assms]
  by (simp_all add: commit_header_def) (simp_all add: header_base_def)

lemma commit_header_not_zero: "tx_ok tx \<Longrightarrow> \<not> (\<forall>b \<in> set (commit_header tx). b = 0)"
  using commit_header_facts(1,3) [of tx] by (metis nth_mem numeral_less_iff one_neq_zero
      semiring_norm(68,76,78) semiring_norm(77))

text \<open>A transaction acts, and is summed, through its list of writes.\<close>

lemma for_io_map: "for_io (map f xs) body = for_io xs (\<lambda>x. body (f x))"
  by (induction xs) simp_all

lemma write_targets_writes:
  "write_targets dev tx = for_io (tx_writes tx) (\<lambda>w. dev_write dev (fst w) (snd w))"
  by (simp add: write_targets_def tx_writes_def for_io_map)

lemma transaction_checksum_writes:
  "transaction_checksum tx = NOT (fold (\<lambda>w crc.
     crc32_update (crc32_update crc (to_le 8 (fst w))) (snd w)) (tx_writes tx) (NOT 0))"
  by (simp add: transaction_checksum_def tx_writes_def fold_map comp_def)

section \<open>The cached disk step by step\<close>

definition keeps_power :: "cached_disk \<Rightarrow> cached_disk \<Rightarrow> bool" where
  "keeps_power d d' \<longleftrightarrow> (power d = None \<longrightarrow> power d' = None)"

lemma keeps_power_refl [simp]: "keeps_power d d"
  by (simp add: keeps_power_def)

lemma keeps_power_trans: "keeps_power d d' \<Longrightarrow> keeps_power d' d'' \<Longrightarrow> keeps_power d d''"
  by (simp add: keeps_power_def)

lemma cached_read_outcome:
  assumes "unat lba < length (media d)"
    and "power d \<noteq> None \<Longrightarrow> E (Block NotReady) d" and "Q (seen d ! unat lba) d"
  shows "outcome (dev_read cached_device lba) d E Q"
  using assms by (simp add: dev_read_def) (simp add: outcome_def cached_device_def)

lemma cached_write_outcome:
  assumes "unat lba < length (media d)"
    and "power d \<noteq> None \<Longrightarrow> E (Block NotReady) d"
    and "\<And>d'. media d' = media d \<Longrightarrow> cache d' = cache d @ [(lba, s)] \<Longrightarrow> keeps_power d d' \<Longrightarrow>
      Q () d'"
  shows "outcome (dev_write cached_device lba s) d E Q"
  using assms
  by (simp add: dev_write_def)
    (auto simp: outcome_def cached_device_def use_power_def keeps_power_def split: option.split)

lemma cached_flush_outcome:
  assumes "power d \<noteq> None \<Longrightarrow> E (Block NotReady) d"
    and "\<And>d'. media d' = seen d \<Longrightarrow> cache d' = [] \<Longrightarrow> keeps_power d d' \<Longrightarrow> Q () d'"
  shows "outcome (dev_flush cached_device) d E Q"
  using assms
  by (simp add: dev_flush_def)
    (auto simp: outcome_def cached_device_def use_power_def keeps_power_def seen_def
      split: option.split)

section \<open>Crash atomicity\<close>

definition fs_on :: "dfs \<Rightarrow> sector list \<Rightarrow> bool" where
  "fs_on fs m \<longleftrightarrow> make_layout (start_lba (layout fs)) (sectors (layout fs)) = Inr (layout fs) \<and>
     unat (start_lba (layout fs)) + unat (sectors (layout fs)) \<le> length m \<and> full_sectors m"

definition in_journal :: "dfs \<Rightarrow> nat \<Rightarrow> bool" where
  "in_journal fs i \<longleftrightarrow> unat (journal_lba (layout fs)) \<le> i \<and> i < unat (inode_lba (layout fs))"

definition tx_fits :: "dfs \<Rightarrow> transaction \<Rightarrow> bool" where
  "tx_fits fs tx \<longleftrightarrow> tx_ok tx \<and> 0 < tx_count tx \<and>
     (\<forall>k < tx_count tx.
        start_lba (layout fs) \<le> tx_targets tx ! k \<and>
        tx_targets tx ! k < start_lba (layout fs) + sectors (layout fs) \<and>
        \<not> in_journal fs (unat (tx_targets tx ! k)))"

definition after :: "transaction \<Rightarrow> sector list \<Rightarrow> sector list" where
  "after tx old = apply_writes (tx_writes tx) old"

text \<open>Two disks that agree outside the journal hold the same file system.\<close>

definition same_files :: "dfs \<Rightarrow> sector list \<Rightarrow> sector list \<Rightarrow> bool" where
  "same_files fs m m' \<longleftrightarrow> length m = length m' \<and> full_sectors m \<and>
     (\<forall>i < length m. \<not> in_journal fs i \<longrightarrow> m ! i = m' ! i)"

definition idle :: "dfs \<Rightarrow> sector list \<Rightarrow> bool" where
  "idle fs m \<longleftrightarrow> m ! unat (journal_lba (layout fs)) = zero_sector"

definition committed :: "dfs \<Rightarrow> transaction \<Rightarrow> sector list \<Rightarrow> sector list \<Rightarrow> bool" where
  "committed fs tx old m \<longleftrightarrow> length m = length old \<and> full_sectors m \<and>
     m ! unat (journal_lba (layout fs)) = commit_header tx \<and>
     (\<forall>k < tx_count tx. m ! (unat (journal_lba (layout fs)) + 1 + k) = tx_data tx ! k) \<and>
     (\<forall>i < length m. \<not> in_journal fs i \<longrightarrow> m ! i = old ! i \<or> m ! i = after tx old ! i)"

definition recoverable :: "dfs \<Rightarrow> transaction \<Rightarrow> sector list \<Rightarrow> sector list \<Rightarrow> bool" where
  "recoverable fs tx old m \<longleftrightarrow>
     (idle fs m \<and> (same_files fs m old \<or> same_files fs m (after tx old))) \<or>
     committed fs tx old m"

lemma journal_addresses:
  assumes "fs_on fs m"
  shows "unat (inode_lba (layout fs)) = unat (journal_lba (layout fs)) + 17"
    "unat (journal_lba (layout fs)) + 17 < length m"
    "k < 16 \<Longrightarrow> unat (journal_lba (layout fs) + 1 + word_of_nat k) =
       unat (journal_lba (layout fs)) + 1 + k"
    "unat (start_lba (layout fs) + sectors (layout fs)) =
       unat (start_lba (layout fs)) + unat (sectors (layout fs))"
    "unat (journal_lba (layout fs) + journal_sectors) = unat (inode_lba (layout fs))"
proof -
  have L: "make_layout (start_lba (layout fs)) (sectors (layout fs)) = Inr (layout fs)"
    and m: "unat (start_lba (layout fs)) + unat (sectors (layout fs)) \<le> length m"
    using assms by (simp_all add: fs_on_def)
  note D = make_layout_InrD [OF L]
  show a: "unat (inode_lba (layout fs)) = unat (journal_lba (layout fs)) + 17" using D by simp
  show "unat (journal_lba (layout fs)) + 17 < length m" using D m by simp
  show "k < 16 \<Longrightarrow> unat (journal_lba (layout fs) + 1 + word_of_nat k) =
      unat (journal_lba (layout fs)) + 1 + k"
    using D by (simp add: unat_word_ariths unat_of_nat)
  show "unat (start_lba (layout fs) + sectors (layout fs)) =
      unat (start_lba (layout fs)) + unat (sectors (layout fs))"
    "unat (journal_lba (layout fs) + journal_sectors) = unat (inode_lba (layout fs))"
    by (rule layout_bounds [OF L])+
qed

lemma tx_fits_write:
  assumes fits: "tx_fits fs tx" and on: "fs_on fs m" and w: "w \<in> set (tx_writes tx)"
  shows "unat (fst w) < length m" "\<not> in_journal fs (unat (fst w))" "length (snd w) = sector_size"
proof -
  obtain k where k: "k < tx_count tx" "w = (tx_targets tx ! k, tx_data tx ! k)"
    using w by (auto simp: tx_writes_def)
  have ok: "tx_ok tx" using fits by (simp add: tx_fits_def)
  have "unat (tx_targets tx ! k) < unat (start_lba (layout fs) + sectors (layout fs))"
    using fits k(1) by (simp add: tx_fits_def word_less_nat_alt)
  also have "\<dots> \<le> length m"
    using journal_addresses(4) [OF on] on by (simp add: fs_on_def)
  finally show "unat (fst w) < length m" using k by simp
  show "\<not> in_journal fs (unat (fst w))" using fits k by (simp add: tx_fits_def)
  show "length (snd w) = sector_size"
    using tx_okD(1) [OF ok] tx_okD(4) [OF ok, of k] k by (simp add: abi_simps)
qed

lemma distinct_addresses:
  assumes "tx_ok tx"
  shows "distinct (map (unat \<circ> fst) (tx_writes tx))"
proof -
  have "distinct (map unat (map fst (tx_writes tx)))"
    using distinct_targets [OF assms] by (simp add: distinct_map inj_on_def word_unat_eq_iff)
  then show ?thesis by simp
qed

lemma full_sectors_writes:
  assumes "tx_fits fs tx" "fs_on fs m" "full_sectors d" "set ws \<subseteq> set (tx_writes tx)"
  shows "full_sectors (apply_writes ws d)"
proof (rule full_sectors_apply_writes [OF assms(3)])
  show "\<forall>(lba, s) \<in> set ws. length s = sector_size"
    using tx_fits_write(3) [OF assms(1,2)] assms(4) by fastforce
qed

text \<open>A committed disk stays committed under any selection of the transaction's writes.\<close>

lemma committed_selection:
  assumes fits: "tx_fits fs tx" and on: "fs_on fs old" and c: "committed fs tx old m"
    and sel: "subseq sel (tx_writes tx)"
  shows "committed fs tx old (apply_writes sel m)"
proof -
  have ok: "tx_ok tx" using fits by (simp add: tx_fits_def)
  have sub: "set sel \<subseteq> set (tx_writes tx)"
    using subseqs_powset [of "tx_writes tx"] sel set_subseqs_eq [of "tx_writes tx"] by auto
  have len: "length m = length old" and full: "full_sectors m" using c by (simp_all add: committed_def)
  have outside: "apply_writes sel m ! i = m ! i" if "in_journal fs i" for i
  proof (rule apply_writes_other)
    show "\<forall>(lba, s) \<in> set sel. unat lba \<noteq> i"
      using tx_fits_write(2) [OF fits on] sub that by fastforce
  qed
  have J: "in_journal fs (unat (journal_lba (layout fs)))"
    "\<And>k. k < tx_count tx \<Longrightarrow> in_journal fs (unat (journal_lba (layout fs)) + 1 + k)"
    using journal_addresses(1) [OF on] tx_okD(1) [OF ok] by (simp_all add: in_journal_def)
  have mixed: "apply_writes sel m ! i = old ! i \<or> apply_writes sel m ! i = after tx old ! i"
    if i: "i < length m" "\<not> in_journal fs i" for i
  proof -
    have now: "m ! i = old ! i \<or> m ! i = after tx old ! i"
      using c i by (simp add: committed_def)
    have "apply_writes sel m ! i = m ! i \<or> apply_writes sel m ! i = apply_writes (tx_writes tx) m ! i"
      using apply_some_writes [OF distinct_addresses [OF ok], of sel i m] sel i
      by (simp add: set_subseqs_eq)
    moreover have "apply_writes (tx_writes tx) m ! i = after tx old ! i
        \<or> apply_writes (tx_writes tx) m ! i = m ! i"
      unfolding after_def using apply_writes_determined [of i "tx_writes tx" m old] i len
      by (cases "i \<in> unat ` fst ` set (tx_writes tx)") (simp_all add: apply_writes_untouched)
    ultimately show ?thesis using now by metis
  qed
  have "full_sectors (apply_writes sel m)"
    by (rule full_sectors_writes [OF fits on full sub])
  then show ?thesis using c outside J mixed by (simp add: committed_def)
qed

text \<open>With all the writes applied, a committed disk holds the new contents.\<close>

lemma committed_complete:
  assumes fits: "tx_fits fs tx" and on: "fs_on fs old" and c: "committed fs tx old m"
  shows "same_files fs (apply_writes (tx_writes tx) m) (after tx old)"
proof -
  have len: "length m = length old" and full: "full_sectors m" using c by (simp_all add: committed_def)
  have "apply_writes (tx_writes tx) m ! i = after tx old ! i"
    if i: "i < length m" "\<not> in_journal fs i" for i
  proof (cases "i \<in> unat ` fst ` set (tx_writes tx)")
    case True
    then show ?thesis unfolding after_def using i len by (intro apply_writes_determined) simp_all
  next
    case False
    have "m ! i = old ! i \<or> m ! i = after tx old ! i" using c i by (simp add: committed_def)
    then show ?thesis using False by (auto simp: after_def apply_writes_untouched)
  qed
  then show ?thesis
    using len full_sectors_writes [OF fits on full order.refl] by (simp add: same_files_def after_def)
qed

lemma idle_image_recoverable:
  assumes "idle fs m" "same_files fs m old \<or> same_files fs m (after tx old)"
  shows "recoverable fs tx old m"
  using assms by (simp add: recoverable_def)

lemma journal_write_same_files:
  assumes "in_journal fs i" "same_files fs m x" "length s = sector_size"
  shows "same_files fs (m[i := s]) x"
proof -
  have "m[i := s] ! j = x ! j" if "j < length m" "\<not> in_journal fs j" for j
    using that assms by (cases "j = i") (simp_all add: same_files_def)
  then show ?thesis using assms by (simp add: same_files_def full_sectors_update)
qed

lemma in_journal_header: "fs_on fs m \<Longrightarrow> in_journal fs (unat (journal_lba (layout fs)))"
  by (simp add: in_journal_def journal_addresses)

lemma same_files_refl: "full_sectors m \<Longrightarrow> same_files fs m m"
  by (simp add: same_files_def)

text \<open>The tail shared by commit and replay, from a committed disk.\<close>

lemma install_outcome:
  assumes fits: "tx_fits fs tx" and on: "fs_on fs old" and c: "committed fs tx old (media d)"
    and clean: "cache d = []" and same: "tx_writes tx' = tx_writes tx"
  shows "outcome (try_io (write_targets cached_device tx') (\<lambda>_.
      try_io (dev_flush cached_device) (\<lambda>_. clear_journal cached_device fs))) d
    (\<lambda>_ d'. power d \<noteq> None \<and> (\<forall>m \<in> crash_images d'. recoverable fs tx old m))
    (\<lambda>_ d'. keeps_power d d' \<and> cache d' = [] \<and> idle fs (media d') \<and>
       same_files fs (media d') (after tx old))"
    (is "outcome _ d ?E ?Q")
proof -
  let ?J = "journal_lba (layout fs)" and ?ws = "tx_writes tx"
  have len: "length (media d) = length old" using c by (simp add: committed_def)
  have images: "recoverable fs tx old m"
    if "media e = media d" "prefix (cache e) ?ws" "m \<in> crash_images e" for e m
  proof -
    have "m \<in> (\<lambda>ws. apply_writes ws (media d)) ` {ws. subseq ws (cache e)}"
      using that(1,3) unfolding crash_images_def set_subseqs_eq by simp
    then obtain sel where "subseq sel (cache e)" "m = apply_writes sel (media d)" by blast
    moreover have "subseq sel ?ws"
      using \<open>subseq sel (cache e)\<close> that(2) by (auto elim!: prefixE intro: subseq_order.trans)
    ultimately show ?thesis
      using committed_selection [OF fits on c] by (simp add: recoverable_def)
  qed
  define m1 where "m1 = apply_writes ?ws (media d)"
  have c1: "committed fs tx old m1"
    unfolding m1_def by (rule committed_selection [OF fits on c]) simp
  have new1: "same_files fs m1 (after tx old)"
    unfolding m1_def by (rule committed_complete [OF fits on c])
  have J: "unat ?J < length m1" "in_journal fs (unat ?J)"
    using journal_addresses(2) [OF on] in_journal_header [OF on] len by (simp_all add: m1_def)
  have writes: "outcome (write_targets cached_device tx') d ?E
      (\<lambda>_ d'. media d' = media d \<and> cache d' = ?ws \<and> keeps_power d d')"
    unfolding write_targets_writes same
  proof (rule outcome_for [where I = "\<lambda>ws d'. media d' = media d \<and> cache d' = ws \<and> keeps_power d d'"])
    show "media d = media d \<and> cache d = [] \<and> keeps_power d d" using clean by simp
  next
    fix ws w rest e
    assume ws: "?ws = ws @ w # rest" and I: "media e = media d \<and> cache e = ws \<and> keeps_power d e"
    show "outcome (dev_write cached_device (fst w) (snd w)) e ?E
        (\<lambda>_ d'. media d' = media d \<and> cache d' = ws @ [w] \<and> keeps_power d d')"
    proof (rule cached_write_outcome)
      show "unat (fst w) < length (media e)"
        using tx_fits_write(1) [OF fits on, of w] ws I len by simp
      show "?E (Block NotReady) e" if "power e \<noteq> None"
        using that I ws images [of e] by (auto simp: keeps_power_def)
    qed (use I in \<open>auto intro: keeps_power_trans\<close>)
  qed
  show ?thesis
  proof (rule outcome_seq [OF writes], rule outcome_seq)
    fix d1 :: cached_disk
    assume d1: "media d1 = media d \<and> cache d1 = ?ws \<and> keeps_power d d1"
    show "outcome (dev_flush cached_device) d1 ?E
        (\<lambda>_ d2. media d2 = m1 \<and> cache d2 = [] \<and> keeps_power d d2)"
    proof (rule cached_flush_outcome)
      show "?E (Block NotReady) d1" if "power d1 \<noteq> None"
        using that d1 images [of d1] by (auto simp: keeps_power_def)
    qed (use d1 in \<open>auto simp: seen_def m1_def intro: keeps_power_trans\<close>)
  next
    fix d1 d2 :: cached_disk
    assume d2: "media d2 = m1 \<and> cache d2 = [] \<and> keeps_power d d2"
    let ?m2 = "m1[unat ?J := zero_sector]"
    have fin: "idle fs ?m2" "same_files fs ?m2 (after tx old)"
      using J new1 journal_write_same_files by (simp_all add: idle_def abi_simps)
    have rec: "recoverable fs tx old m1" "recoverable fs tx old ?m2"
      using c1 fin by (simp_all add: recoverable_def)
    show "outcome (clear_journal cached_device fs) d2 ?E ?Q"
      unfolding clear_journal_def
    proof (rule outcome_seq [where R = "\<lambda>_ e. media e = m1 \<and> cache e = [(?J, zero_sector)] \<and>
        keeps_power d e"])
      show "outcome (dev_write cached_device ?J zero_sector) d2 ?E
          (\<lambda>_ e. media e = m1 \<and> cache e = [(?J, zero_sector)] \<and> keeps_power d e)"
        by (rule cached_write_outcome)
          (use d2 J rec in \<open>auto simp: crash_image_clean keeps_power_def\<close>)
    next
      fix e
      assume e: "media e = m1 \<and> cache e = [(?J, zero_sector)] \<and> keeps_power d e"
      show "outcome (dev_flush cached_device) e ?E ?Q"
        by (rule cached_flush_outcome)
          (use e rec fin in \<open>auto simp: crash_images_def seen_def keeps_power_def\<close>)
    qed
  qed
qed

definition payload_write :: "dfs \<Rightarrow> transaction \<Rightarrow> nat \<Rightarrow> u64 \<times> sector" where
  "payload_write fs tx i = (journal_lba (layout fs) + 1 + word_of_nat i, tx_data tx ! i)"

lemma write_payload_outcome:
  assumes "\<forall>i \<in> set is. unat (fst (payload_write fs tx i)) < length (media d)"
    and "\<And>e ws. power d \<noteq> None \<Longrightarrow> media e = media d \<Longrightarrow>
      prefix ws (map (payload_write fs tx) is) \<Longrightarrow> cache e = cache d @ ws \<Longrightarrow> E e"
  shows "outcome (write_payload cached_device fs tx is h) d (\<lambda>_. E)
    (\<lambda>h' d'. h' = fold (put_target tx) is h \<and> media d' = media d \<and>
       cache d' = cache d @ map (payload_write fs tx) is \<and> keeps_power d d')"
  using assms
proof (induction "is" arbitrary: h d)
  case Nil
  then show ?case by simp
next
  case (Cons i "is")
  have "outcome (dev_write cached_device (fst (payload_write fs tx i)) (snd (payload_write fs tx i)))
      d (\<lambda>_. E) (\<lambda>_ d'. media d' = media d \<and> cache d' = cache d @ [payload_write fs tx i] \<and>
        keeps_power d d')"
    by (rule cached_write_outcome) (use Cons.prems(1) Cons.prems(2) [of d "[]"] in auto)
  moreover have "outcome (write_payload cached_device fs tx is (put_target tx i h)) d1 (\<lambda>_. E)
      (\<lambda>h' d'. h' = fold (put_target tx) (i # is) h \<and> media d' = media d \<and>
        cache d' = cache d @ map (payload_write fs tx) (i # is) \<and> keeps_power d d')"
    if d1: "media d1 = media d \<and> cache d1 = cache d @ [payload_write fs tx i] \<and> keeps_power d d1"
    for d1
  proof -
    have "outcome (write_payload cached_device fs tx is (put_target tx i h)) d1 (\<lambda>_. E)
      (\<lambda>h' d'. h' = fold (put_target tx) is (put_target tx i h) \<and> media d' = media d1 \<and>
        cache d' = cache d1 @ map (payload_write fs tx) is \<and> keeps_power d1 d')"
    proof (rule Cons.IH)
      show "\<forall>j \<in> set is. unat (fst (payload_write fs tx j)) < length (media d1)"
        using Cons.prems(1) d1 by simp
      show "E e" if "power d1 \<noteq> None" "media e = media d1"
        "prefix ws (map (payload_write fs tx) is)" "cache e = cache d1 @ ws" for e ws
        using that d1 by (intro Cons.prems(2) [of e "payload_write fs tx i # ws"])
          (auto simp: keeps_power_def)
    qed
    then show ?thesis
      by (rule outcome_mono) (use d1 in \<open>auto intro: keeps_power_trans\<close>)
  qed
  moreover have "write_payload cached_device fs tx (i # is) h =
      try_io (dev_write cached_device (fst (payload_write fs tx i)) (snd (payload_write fs tx i)))
        (\<lambda>_. write_payload cached_device fs tx is (put_target tx i h))"
    by (simp add: Let_def put_target_def payload_write_def)
  ultimately show ?case by (simp only: outcome_seq)
qed

lemma apply_map_writes_nth:
  assumes "inj_on g (set is)" "i \<in> set is" "\<forall>i \<in> set is. unat (fst (f i)) = g i \<and> g i < length m"
  shows "apply_writes (map f is) m ! g i = snd (f i)"
  using assms
proof (induction "is" arbitrary: m)
  case Nil
  then show ?case by simp
next
  case (Cons j "is")
  obtain a s where f: "f j = (a, s)" by (cases "f j")
  then have a: "unat a = g j" "g j < length m" using Cons.prems(3) by auto
  show ?case
  proof (cases "i \<in> set is")
    case True
    then show ?thesis using Cons.IH [of "m[unat a := s]"] Cons.prems f by simp
  next
    case False
    then have "i = j" using Cons.prems(2) by simp
    have "\<forall>(lba, x) \<in> set (map f is). unat lba \<noteq> g j"
    proof (clarify)
      fix lba x
      assume "(lba, x) \<in> set (map f is)" "unat lba = g j"
      then obtain k where "k \<in> set is" "f k = (lba, x)" by auto
      then have "g k = g j" using Cons.prems(3) \<open>unat lba = g j\<close> by force
      then have "k = j" using Cons.prems(1) \<open>k \<in> set is\<close> by (simp add: inj_on_def)
      then show False using False \<open>i = j\<close> \<open>k \<in> set is\<close> by simp
    qed
    then have "apply_writes (map f is) (m[unat a := s]) ! g j = s"
      using a by (simp add: apply_writes_other)
    then show ?thesis using f \<open>i = j\<close> by simp
  qed
qed

lemma commit_transaction_outcome:
  assumes fits: "tx_fits fs tx" and on: "fs_on fs (media d)" and clean: "cache d = []"
    and idle: "idle fs (media d)"
  shows "outcome (commit_transaction cached_device fs tx) d
    (\<lambda>_ d'. power d \<noteq> None \<and> (\<forall>m \<in> crash_images d'. recoverable fs tx (media d) m))
    (\<lambda>_ d'. keeps_power d d' \<and> cache d' = [] \<and> idle fs (media d') \<and>
       same_files fs (media d') (after tx (media d)))"
    (is "outcome _ d ?E ?Q")
proof -
  let ?J = "journal_lba (layout fs)" and ?pw = "payload_write fs tx"
  let ?is = "[0..<tx_count tx]" and ?old = "media d"
  have ok: "tx_ok tx" using fits by (simp add: tx_fits_def)
  have full: "full_sectors ?old" using on by (simp add: fs_on_def)
  note A = journal_addresses [OF on]
  have n: "tx_count tx \<le> 16" using tx_okD(1) [OF ok] .
  have pw: "unat (fst (?pw i)) = unat ?J + 1 + i" "length (snd (?pw i)) = sector_size"
    if "i < tx_count tx" for i
    using that n A(3) [of i] tx_okD(4) [OF ok, of i] by (simp_all add: payload_write_def abi_simps)
  have payload: "idle fs m \<and> same_files fs m ?old" if "m = apply_writes ws ?old" "set ws \<subseteq> ?pw ` set ?is" for m ws
  proof -
    have from_ws: "\<exists>k < tx_count tx. unat lba = unat ?J + 1 + k \<and> length x = sector_size"
      if "(lba, x) \<in> set ws" for lba x
    proof -
      have "(lba, x) \<in> ?pw ` set ?is" using that \<open>set ws \<subseteq> _\<close> by blast
      then obtain k where "k < tx_count tx" "?pw k = (lba, x)" by auto
      then show ?thesis using pw [of k] by auto
    qed
    have fulls: "full_sectors m"
      unfolding that(1) by (rule full_sectors_apply_writes [OF full]) (auto dest: from_ws)
    have "m ! unat ?J = ?old ! unat ?J"
      unfolding that(1) by (rule apply_writes_other) (auto dest: from_ws)
    moreover have "m ! i = ?old ! i" if "\<not> in_journal fs i" for i
    proof -
      have "unat lba \<noteq> i" if w: "(lba, x) \<in> set ws" for lba x
        using from_ws [OF w] \<open>\<not> in_journal fs i\<close> A(1) n by (auto simp: in_journal_def)
      then show ?thesis unfolding \<open>m = _\<close> by (intro apply_writes_other) auto
    qed
    ultimately show ?thesis
      using idle fulls that(1) by (simp add: idle_def same_files_def)
  qed
  have images: "recoverable fs tx ?old m"
    if "media e = ?old" "set (cache e) \<subseteq> ?pw ` set ?is" "m \<in> crash_images e" for e m
  proof -
    have "m \<in> (\<lambda>ws. apply_writes ws ?old) ` {ws. subseq ws (cache e)}"
      using that unfolding crash_images_def set_subseqs_eq by simp
    then obtain sel where sel: "subseq sel (cache e)" "m = apply_writes sel ?old" by blast
    have "set sel \<subseteq> set (cache e)"
      using subseqs_powset [of "cache e"] sel(1) set_subseqs_eq [of "cache e"] by auto
    then show ?thesis using payload [OF sel(2)] that(2) by (simp add: recoverable_def)
  qed
  define m1 where "m1 = apply_writes (map ?pw ?is) ?old"
  have m1: "idle fs m1" "same_files fs m1 ?old"
    using payload [OF m1_def] by simp_all
  have pay1: "m1 ! (unat ?J + 1 + k) = tx_data tx ! k" if "k < tx_count tx" for k
    using apply_map_writes_nth [of "\<lambda>i. unat ?J + 1 + i" ?is k ?pw ?old] that pw(1) A(1,2) n
    by (simp add: m1_def inj_on_def) (simp add: payload_write_def)
  define m2 where "m2 = m1[unat ?J := commit_header tx]"
  have J: "unat ?J < length m1" "in_journal fs (unat ?J)"
    using A(2) in_journal_header [OF on] m1(2) by (simp_all add: same_files_def)
  have c2: "committed fs tx ?old m2"
  proof -
    have "same_files fs m2 ?old" unfolding m2_def
      by (rule journal_write_same_files [OF J(2) m1(2)])
        (simp add: commit_header_facts(1) [OF ok] abi_simps)
    then show ?thesis
      using J(1) pay1 by (simp add: committed_def same_files_def m2_def)
  qed
  have rec: "recoverable fs tx ?old m1" "recoverable fs tx ?old m2"
    using m1 c2 by (simp_all add: recoverable_def)
  have hdr: "splice 10 (to_le 4 (transaction_checksum tx)) (fold (put_target tx) ?is
      ((splice 0 journal_magic zero_sector)[8 := 1, 9 := word_of_nat (tx_count tx)])) = commit_header tx"
    by (simp add: commit_header_def header_base_def)
  show ?thesis
    unfolding commit_transaction_def Let_def
  proof (rule outcome_seq [OF write_payload_outcome], goal_cases)
    case 1
    show ?case using pw(1) A(1,2) n by auto
  next
    case (2 e ws)
    moreover have "set ws \<subseteq> ?pw ` set ?is" using set_mono_prefix [OF 2(3)] by simp
    ultimately show ?case using images [of e] clean by auto
  next
    case (3 h d1)
    show ?case unfolding 3 [THEN conjunct1] hdr
    proof (rule outcome_seq [where R = "\<lambda>_ e. media e = m1 \<and> cache e = [] \<and> keeps_power d e"], goal_cases)
      case 1
      show ?case
        by (rule cached_flush_outcome)
          (use 3 images [of d1] clean in \<open>auto simp: seen_def m1_def keeps_power_def\<close>)
    next
      case (2 _ d2)
      show ?case
      proof (rule outcome_seq [where R = "\<lambda>_ e. media e = m1 \<and> cache e = [(?J, commit_header tx)] \<and>
          keeps_power d e"], goal_cases)
        case 1
        show ?case
          by (rule cached_write_outcome)
            (use 2 J rec in \<open>auto simp: crash_image_clean keeps_power_def\<close>)
      next
        case (2 _ d3)
        show ?case
        proof (rule outcome_seq [where R = "\<lambda>_ e. media e = m2 \<and> cache e = [] \<and> keeps_power d e"], goal_cases)
          case 1
          show ?case
            by (rule cached_flush_outcome)
              (use 2 rec in \<open>auto simp: crash_images_def seen_def m2_def keeps_power_def\<close>)
        next
          case (2 _ d4)
          then show ?case
            by (intro outcome_mono [OF install_outcome [OF fits on]])
              (use c2 in \<open>auto simp: keeps_power_def\<close>)
        qed
      qed
    qed
  qed
qed

section \<open>Replay\<close>

lemma load_journal_outcome:
  assumes fits: "tx_fits fs tx" and on: "fs_on fs old" and c: "committed fs tx old (media d)"
    and clean: "cache d = []" and "is": "distinct is" "\<forall>i \<in> set is. i < tx_count tx"
    and dims: "length (tx_targets t) = 16" "length (tx_data t) = 16"
    and E: "power d \<noteq> None \<Longrightarrow> E (Block NotReady) d"
    and Q: "\<And>t'. tx_count t' = tx_count t \<Longrightarrow>
      \<forall>i < 16. (tx_targets t' ! i, tx_data t' ! i) =
        (if i \<in> set is then (tx_targets tx ! i, tx_data tx ! i)
         else (tx_targets t ! i, tx_data t ! i)) \<Longrightarrow> Q t' d"
  shows "outcome (load_journal cached_device fs (commit_header tx) is t) d E Q"
  using "is" dims Q
proof (induction "is" arbitrary: t)
  case Nil
  then show ?case by simp
next
  case (Cons i "is")
  let ?l = "layout fs"
  have ok: "tx_ok tx" using fits by (simp add: tx_fits_def)
  have i: "i < tx_count tx" "i < 16" using Cons.prems(2) tx_okD(1) [OF ok] by auto
  note A = journal_addresses [OF on]
  have len: "length (media d) = length old" using c by (simp add: committed_def)
  have target: "from_le (slice (16 + i * 8) (24 + i * 8) (commit_header tx)) = tx_targets tx ! i"
    by (simp add: commit_header_facts(6) [OF ok i(1)])
  have good: "start_lba ?l \<le> tx_targets tx ! i" "tx_targets tx ! i < start_lba ?l + sectors ?l"
    "\<not> (journal_lba ?l \<le> tx_targets tx ! i \<and> tx_targets tx ! i < journal_lba ?l + journal_sectors)"
    using fits i A(5) by (auto simp: tx_fits_def in_journal_def word_le_nat_alt word_less_nat_alt)
  have sector: "seen d ! unat (journal_lba ?l + 1 + word_of_nat i) = tx_data tx ! i"
    using c clean i A(3) [of i] by (simp add: committed_def seen_def)
  let ?t = "t\<lparr>tx_targets := (tx_targets t)[i := tx_targets tx ! i],
    tx_data := (tx_data t)[i := tx_data tx ! i]\<rparr>"
  have rest: "outcome (load_journal cached_device fs (commit_header tx) is ?t) d E Q"
  proof (rule Cons.IH)
    show "Q t' d" if "tx_count t' = tx_count ?t"
      "\<forall>j < 16. (tx_targets t' ! j, tx_data t' ! j) =
        (if j \<in> set is then (tx_targets tx ! j, tx_data tx ! j)
         else (tx_targets ?t ! j, tx_data ?t ! j))" for t'
    proof (rule Cons.prems(5))
      show "\<forall>j < 16. (tx_targets t' ! j, tx_data t' ! j) =
        (if j \<in> set (i # is) then (tx_targets tx ! j, tx_data tx ! j)
         else (tx_targets t ! j, tx_data t ! j))"
        using that(2) i(2) Cons.prems(3,4) by (auto simp: nth_list_update)
    qed (use that(1) in simp)
  qed (use Cons.prems in auto)
  have "outcome (dev_read cached_device (journal_lba ?l + 1 + word_of_nat i)) d E
      (\<lambda>s e. outcome (load_journal cached_device fs (commit_header tx) is
        (t\<lparr>tx_targets := (tx_targets t)[i := tx_targets tx ! i], tx_data := (tx_data t)[i := s]\<rparr>)) e E Q)"
  proof (rule cached_read_outcome)
    show "unat (journal_lba ?l + 1 + word_of_nat i) < length (media d)"
      using A(2) A(3) [OF i(2)] i(2) len by simp
  qed (use E rest sector in simp_all)
  then show ?case using target good by (auto simp: Let_def not_less)
qed

lemma replay_journal_outcome:
  assumes fits: "tx_fits fs tx" and on: "fs_on fs old" and r: "recoverable fs tx old (media d)"
    and clean: "cache d = []"
  shows "outcome (replay_journal cached_device fs) d
    (\<lambda>_ d'. power d \<noteq> None \<and> (\<forall>m \<in> crash_images d'. recoverable fs tx old m))
    (\<lambda>_ d'. keeps_power d d' \<and> cache d' = [] \<and> idle fs (media d') \<and>
       (same_files fs (media d') old \<or> same_files fs (media d') (after tx old)))"
    (is "outcome _ d ?E ?Q")
proof -
  let ?J = "journal_lba (layout fs)"
  have ok: "tx_ok tx" and n: "0 < tx_count tx" using fits by (simp_all add: tx_fits_def)
  have len: "length (media d) = length old"
    using r by (auto simp: recoverable_def committed_def same_files_def after_def)
  have J: "unat ?J < length (media d)" using journal_addresses(2) [OF on] len by simp
  have stay: "?E e d" if "power d \<noteq> None" for e
    using that r clean by (simp add: crash_image_clean)
  have seen: "seen d = media d" using clean by (simp add: seen_def)
  show ?thesis
  proof (cases "committed fs tx old (media d)")
    case False
    then have "media d ! unat ?J = zero_sector" "?Q () d"
      using r clean by (simp_all add: recoverable_def idle_def)
    then show ?thesis
      unfolding replay_journal_def outcome_try
      by (intro cached_read_outcome) (use J stay seen in \<open>auto simp: zero_sector_def\<close>)
  next
    case True
    have count: "unat (word_of_nat (tx_count tx) :: u8) = tx_count tx"
      using tx_okD(1) [OF ok] by (simp add: unat_of_nat)
    have hdr: "seen d ! unat ?J = commit_header tx"
      using True seen by (simp add: committed_def)
    have load: "outcome (load_journal cached_device fs (commit_header tx) [0..<tx_count tx]
        (new_transaction\<lparr>tx_count := tx_count tx\<rparr>)) d ?E
        (\<lambda>t e. e = d \<and> tx_writes t = tx_writes tx)"
      by (rule load_journal_outcome [OF fits on True clean])
        (use tx_okD(1) [OF ok] stay in
          \<open>auto simp: new_transaction_def transaction_sectors_eq tx_writes_def\<close>)
    have small: "tx_count tx \<le> transaction_sectors" using tx_okD(1) [OF ok] by (simp add: abi_simps)
    show ?thesis
      unfolding replay_journal_def
    proof (rule outcome_seq [where R = "\<lambda>h e. h = commit_header tx \<and> e = d"], goal_cases)
      case 1
      show ?case by (rule cached_read_outcome) (use J stay hdr in simp_all)
    next
      case (2 h e)
      then have [simp]: "h = commit_header tx" "e = d" by simp_all
      have "outcome (try_io (load_journal cached_device fs (commit_header tx) [0..<tx_count tx]
          (new_transaction\<lparr>tx_count := tx_count tx\<rparr>)) (\<lambda>t.
            if transaction_checksum t \<noteq> from_le (slice 10 14 (commit_header tx))
            then fail_io CorruptMetadata
            else try_io (write_targets cached_device t) (\<lambda>_.
              try_io (dev_flush cached_device) (\<lambda>_. clear_journal cached_device fs)))) d ?E ?Q"
      proof (rule outcome_seq [OF load], goal_cases)
        case (1 t e)
        then have "transaction_checksum t = transaction_checksum tx"
          by (simp add: transaction_checksum_writes)
        then show ?case
          using outcome_mono [OF install_outcome [OF fits on True clean 1 [THEN conjunct2]], of ?E ?Q] 1
          by (simp add: commit_header_facts(5) [OF ok] del: outcome_try)
      qed
      then show ?case
        using commit_header_not_zero [OF ok] commit_header_facts [OF ok] n small count
        by (auto simp: Let_def simp del: outcome_try)
    qed
  qed
qed

section \<open>Power cuts during commit and recovery\<close>

definition rebooted :: "sector list \<Rightarrow> nat option \<Rightarrow> cached_disk" where
  "rebooted m p = \<lparr>media = m, cache = [], power = p\<rparr>"

lemma rebooted_simps [simp]:
  "media (rebooted m p) = m" "cache (rebooted m p) = []" "power (rebooted m p) = p"
  by (simp_all add: rebooted_def)

text \<open>The media after any number of boots whose replay was itself cut short.\<close>

inductive power_cycles :: "dfs \<Rightarrow> sector list \<Rightarrow> sector list \<Rightarrow> bool" for fs m where
  none: "power_cycles fs m m"
| cycle: "power_cycles fs m m1 \<Longrightarrow> replay_journal cached_device fs (rebooted m1 p) = (r, d') \<Longrightarrow>
    m2 \<in> crash_images d' \<Longrightarrow> power_cycles fs m m2"

lemma replay_idle:
  assumes "idle fs (media d)" "cache d = []" "unat (journal_lba (layout fs)) < length (media d)"
  shows "outcome (replay_journal cached_device fs) d (\<lambda>_ d'. power d \<noteq> None \<and> d' = d) (\<lambda>_ d'. d' = d)"
  unfolding replay_journal_def outcome_try
  by (intro cached_read_outcome)
    (use assms in \<open>auto simp: idle_def seen_def zero_sector_def\<close>)

lemma power_cycles_idle:
  assumes "power_cycles fs m m'" "idle fs m" "unat (journal_lba (layout fs)) < length m"
  shows "m' = m"
  using assms(1)
proof induction
  case none
  show ?case ..
next
  case (cycle m1 p r d' m2)
  then have "d' = rebooted m p"
    using outcome_runD [OF replay_idle [of fs "rebooted m p"]] assms(2,3)
    by (auto split: sum.splits)
  then show ?case using cycle by (simp add: crash_image_clean)
qed

lemma power_cycles_recoverable:
  assumes "power_cycles fs m m'" "recoverable fs tx old m" "tx_fits fs tx" "fs_on fs old"
  shows "recoverable fs tx old m'"
  using assms(1)
proof induction
  case none
  show ?case by fact
next
  case (cycle m1 p r d' m2)
  then show ?case
    using outcome_runD [OF replay_journal_outcome [OF assms(3,4), of "rebooted m1 p"]]
    by (auto split: sum.splits simp: crash_image_clean recoverable_def)
qed

text \<open>
  C1. Journal commits are atomic across power cuts. Start from an idle journal and commit a
  transaction on a caching disk whose power may fail at any operation. Whatever selection of
  the cached writes reached the media, and after any number of recoveries that were cut
  short themselves, an undisturbed replay succeeds, leaves the journal idle, and leaves every
  sector outside the journal as before the commit or every one as the transaction wrote it;
  the latter for certain once the commit has returned success.
\<close>

theorem journal_crash_atomicity:
  assumes fits: "tx_fits fs tx" and on: "fs_on fs (media d)" and "cache d = []"
    and "idle fs (media d)"
    and run: "commit_transaction cached_device fs tx d = (r, d')"
    and image: "m \<in> crash_images d'" and cycles: "power_cycles fs m m'"
  shows "\<exists>e. replay_journal cached_device fs (rebooted m' None) = (Inr (), e) \<and>
    idle fs (media e) \<and> cache e = [] \<and>
    (if r = Inr () then same_files fs (media e) (after tx (media d))
     else same_files fs (media e) (media d) \<or> same_files fs (media e) (after tx (media d)))"
proof -
  note C = outcome_runD [OF commit_transaction_outcome [OF fits on assms(3,4)] run]
  have rec: "recoverable fs tx (media d) m"
    using C image by (cases r) (auto simp: recoverable_def crash_image_clean)
  have rec': "recoverable fs tx (media d) m'"
    by (rule power_cycles_recoverable [OF cycles rec fits on])
  obtain e where e: "replay_journal cached_device fs (rebooted m' None) = (Inr (), e)"
    "cache e = []" "idle fs (media e)"
    "same_files fs (media e) (media d) \<or> same_files fs (media e) (after tx (media d))"
    using replay_journal_outcome [OF fits on, of "rebooted m' None"] rec'
    by (auto simp: outcome_def split: prod.splits sum.splits)
  have "same_files fs (media e) (after tx (media d))" if "r = Inr ()"
  proof -
    have m: "m = media d'" "idle fs m" "same_files fs m (after tx (media d))"
      using C that image by (auto simp: crash_image_clean)
    have J: "unat (journal_lba (layout fs)) < length m"
      using journal_addresses(2) [OF on] m(3) by (simp add: same_files_def after_def)
    have "m' = m" by (rule power_cycles_idle [OF cycles m(2) J])
    then have "e = rebooted m None"
      using outcome_runD [OF replay_idle e(1)] m(2) J by simp
    then show ?thesis using m(3) by simp
  qed
  then show ?thesis using e by simp
qed

definition sample_fs :: dfs where
  "sample_fs = \<lparr>layout = \<lparr>start_lba = 1, sectors = 300, journal_lba = 2, inode_lba = 19,
     bitmap_lba = 275, bitmap_sectors = 1, data_lba = 276\<rparr>\<rparr>"

definition sample_transaction :: transaction where
  "sample_transaction = new_transaction\<lparr>tx_count := 2,
     tx_targets := [20, 275] @ replicate 14 0,
     tx_data := [replicate 512 7, replicate 512 9] @ replicate 14 zero_sector\<rparr>"

definition blank_disk :: "sector list" where
  "blank_disk = replicate 301 zero_sector"

lemma sample_fs_on: "fs_on sample_fs blank_disk"
  by (simp add: fs_on_def sample_fs_def make_layout_def checked_add_def abi_simps
      full_sectors_def blank_disk_def)

lemma sample_fs_idle: "idle sample_fs blank_disk"
  by (simp add: idle_def sample_fs_def blank_disk_def)

lemma all_less_two: "(\<forall>k < 2. P k) \<longleftrightarrow> P 0 \<and> P (Suc 0)" for P :: "nat \<Rightarrow> bool"
  by (auto simp: less_2_cases_iff)

lemma sample_transaction_fits: "tx_fits sample_fs sample_transaction"
  by (simp add: tx_fits_def tx_ok_def sample_transaction_def sample_fs_def new_transaction_def
      in_journal_def abi_simps all_less_two)

theorem journal_crash_atomicity_witness:
  "\<exists>e. replay_journal cached_device sample_fs (rebooted (media (snd (commit_transaction
       cached_device sample_fs sample_transaction (rebooted blank_disk (Some 4))))) None) =
       (Inr (), e) \<and> idle sample_fs (media e)"
proof -
  let ?d = "rebooted blank_disk (Some 4)"
  obtain r d' where run: "commit_transaction cached_device sample_fs sample_transaction ?d = (r, d')"
    by (cases "commit_transaction cached_device sample_fs sample_transaction ?d")
  have "media d' \<in> crash_images d'"
    by (simp add: crash_images_def set_subseqs_eq image_iff) (rule exI [of _ "[]"], simp)
  then show ?thesis
    using journal_crash_atomicity [of sample_fs sample_transaction ?d r d' "media d'" "media d'"]
      sample_transaction_fits sample_fs_on sample_fs_idle run
    by (auto intro: power_cycles.none)
qed

end
