(* ===== verification/Dfs_Files.thy ===== *)
theory Dfs_Files
  imports Dfs_Journal
begin

text \<open>
  Files and directories of DFS (\<open>kernel/src/fs/dfs.rs\<close>): paths, the inode table, the
  allocation bitmap, and the operations of \<open>Dfs\<close> from \<open>format\<close> and \<open>mount\<close> to
  \<open>remove\<close>, together with the USTAR seeding loop. Every operation takes the device it
  runs on; a caller's output buffer is returned with the byte count.
\<close>

section \<open>Paths\<close>

definition canonical_path :: "str \<Rightarrow> dfs_error + str" where
  "canonical_path path =
     (let path = (case strip_prefix [slash] path of Some rest \<Rightarrow> rest | None \<Rightarrow> path) in
      if length path > max_path \<or>
         (\<exists>component \<in> set (split_on slash path).
            component = [] \<or> component = ascii ''.'' \<or> component = ascii ''..'')
      then (if path = [] then Inr path else Inl InvalidPath)
      else Inr path)"

definition parent_path :: "str \<Rightarrow> str" where
  "parent_path path = (case rsplit_once slash path of None \<Rightarrow> [] | Some (parent, _) \<Rightarrow> parent)"

definition immediate_child :: "str \<Rightarrow> str \<Rightarrow> str option" where
  "immediate_child path parent =
     (case (if parent = [] then Some path
            else Option.bind (strip_prefix parent path) (strip_prefix [slash])) of
        None \<Rightarrow> None
      | Some remainder \<Rightarrow>
          if remainder = [] \<or> slash \<in> set remainder then None else Some remainder)"

section \<open>The inode table\<close>

definition read_node :: "'d block_device \<Rightarrow> dfs \<Rightarrow> nat \<Rightarrow> ('d, dfs_error, node) io" where
  "read_node dev fs index =
     (if index \<ge> inode_count then fail_io CorruptMetadata
      else try_io (dev_read dev (inode_lba (layout fs) + word_of_nat index))
             (\<lambda>bytes. lift_io (decode_node bytes)))"

definition store_node ::
  "'d block_device \<Rightarrow> dfs \<Rightarrow> nat \<Rightarrow> node \<Rightarrow> ('d, dfs_error, unit) io" where
  "store_node dev fs index n =
     try_io (lift_io (encode_node n)) (\<lambda>bytes.
       commit dev fs [(inode_lba (layout fs) + word_of_nat index, bytes)])"

fun find_index_loop ::
  "'d block_device \<Rightarrow> dfs \<Rightarrow> str \<Rightarrow> nat list \<Rightarrow> ('d, dfs_error, nat option) io" where
  "find_index_loop dev fs path [] = ok_io None"
| "find_index_loop dev fs path (index # rest) =
     try_io (read_node dev fs index) (\<lambda>n.
       if kind n \<noteq> 0 \<and> node_path n = path then ok_io (Some index)
       else find_index_loop dev fs path rest)"

definition find_index ::
  "'d block_device \<Rightarrow> dfs \<Rightarrow> str \<Rightarrow> ('d, dfs_error, nat option) io" where
  "find_index dev fs path = find_index_loop dev fs path [0..<inode_count]"

definition find_node ::
  "'d block_device \<Rightarrow> dfs \<Rightarrow> str \<Rightarrow> ('d, dfs_error, node option) io" where
  "find_node dev fs path = try_io (find_index dev fs path) (\<lambda>index. case index of
     None \<Rightarrow> ok_io None
   | Some index \<Rightarrow> try_io (read_node dev fs index) (\<lambda>n. ok_io (Some n)))"

fun find_unused ::
  "'d block_device \<Rightarrow> dfs \<Rightarrow> nat list \<Rightarrow> ('d, dfs_error, nat option) io" where
  "find_unused dev fs [] = ok_io None"
| "find_unused dev fs (index # rest) =
     match_io (read_node dev fs index) (\<lambda>r. case r of
       Inr n \<Rightarrow> if kind n = 0 then ok_io (Some index) else find_unused dev fs rest
     | Inl _ \<Rightarrow> find_unused dev fs rest)"

definition create_node ::
  "'d block_device \<Rightarrow> dfs \<Rightarrow> str \<Rightarrow> u8 \<Rightarrow> u16 \<Rightarrow> u32 \<Rightarrow> u32 \<Rightarrow> ('d, dfs_error, nat) io" where
  "create_node dev fs path k m u g =
     try_io (find_node dev fs path) (\<lambda>existing.
       if existing \<noteq> None then fail_io AlreadyExists
       else try_io (find_node dev fs (parent_path path)) (\<lambda>parent.
         if (case parent of None \<Rightarrow> True | Some n \<Rightarrow> kind n \<noteq> node_directory)
         then fail_io NotDirectory
         else try_io (find_unused dev fs [1..<inode_count]) (\<lambda>index.
           try_io (lift_io (ok_or NoSpace index)) (\<lambda>index.
             let n = empty_node\<lparr>path_bytes := splice 0 path (path_bytes empty_node),
                   path_length := length path, kind := k, mode := m, uid := u, gid := g\<rparr>
             in try_io (store_node dev fs index n) (\<lambda>_. ok_io index)))))"

section \<open>The allocation bitmap\<close>

definition set_bitmap_bit :: "sector \<Rightarrow> nat \<Rightarrow> bool \<Rightarrow> sector" where
  "set_bitmap_bit bitmap pos value =
     (if value then bitmap[pos div 8 := bitmap ! (pos div 8) OR push_bit (pos mod 8) 1]
      else bitmap[pos div 8 := bitmap ! (pos div 8) AND NOT (push_bit (pos mod 8) 1)])"

definition bitmap_location :: "dfs \<Rightarrow> u64 \<Rightarrow> dfs_error + u64 \<times> nat" where
  "bitmap_location fs lba =
     (case checked_sub lba (start_lba (layout fs)) of
        None \<Rightarrow> Inl InvalidFilesystem
      | Some relative \<Rightarrow>
          if \<not> relative < sectors (layout fs) then Inl InvalidFilesystem
          else
            let pos = unat relative; sector = pos div (sector_size * 8) in
            if word_of_nat sector \<ge> bitmap_sectors (layout fs) then Inl CorruptMetadata
            else Inr (bitmap_lba (layout fs) + word_of_nat sector, pos mod (sector_size * 8)))"

text \<open>The loop of \<open>find_free_run\<close>; the arguments after the range are its local variables.\<close>

fun free_run_loop ::
  "'d block_device \<Rightarrow> dfs \<Rightarrow> u64 \<Rightarrow> u64 list \<Rightarrow> u64 \<Rightarrow> u64 \<Rightarrow> u64 \<Rightarrow> u64 \<Rightarrow> sector \<Rightarrow>
   ('d, dfs_error, u64 \<times> u64) io" where
  "free_run_loop dev fs requested [] run_start run_length cached first_bitmap bitmap =
     (if run_length \<noteq> 0 then ok_io (run_start, run_length) else fail_io NoSpace)"
| "free_run_loop dev fs requested (lba # rest) run_start run_length cached first_bitmap bitmap =
     try_io (lift_io (bitmap_location fs lba)) (\<lambda>(bm, pos).
     try_io (if bm \<noteq> cached then dev_read dev bm else ok_io bitmap) (\<lambda>bitmap.
       if bitmap ! (pos div 8) AND push_bit (pos mod 8) 1 = 0 then
         if run_length = 0 then
           (if 1 = requested then ok_io (lba, 1)
            else free_run_loop dev fs requested rest lba 1 bm bm bitmap)
         else if bm - first_bitmap \<ge> word_of_nat (transaction_sectors - 1)
         then ok_io (run_start, run_length)
         else if run_length + 1 = requested then ok_io (run_start, run_length + 1)
         else free_run_loop dev fs requested rest run_start (run_length + 1) bm first_bitmap bitmap
       else if run_length \<noteq> 0 then ok_io (run_start, run_length)
       else free_run_loop dev fs requested rest run_start run_length bm first_bitmap bitmap))"

definition find_free_run ::
  "'d block_device \<Rightarrow> dfs \<Rightarrow> u64 \<Rightarrow> ('d, dfs_error, u64 \<times> u64) io" where
  "find_free_run dev fs requested =
     free_run_loop dev fs requested
       (word_range (data_lba (layout fs)) (start_lba (layout fs) + sectors (layout fs)))
       0 0 (- 1) (- 1) zero_sector"

definition add_extent :: "node \<Rightarrow> u64 \<Rightarrow> u32 \<Rightarrow> u32 \<Rightarrow> dfs_error + node" where
  "add_extent n start logical count =
     (let fresh =
        (if extent_count n = max_extents then Inl NoSpace
         else Inr (n\<lparr>extents := (extents n)[extent_count n :=
                \<lparr>ext_start = start, ext_logical = logical, ext_count = count\<rparr>],
                extent_count := extent_count n + 1\<rparr>)) in
      if extent_count n \<noteq> 0 then
        let i = extent_count n - 1; last = extents n ! i in
        if ext_start last + ucast (ext_count last) = start \<and>
           ext_logical last + ext_count last = logical
        then (case checked_add (ext_count last) count of
                None \<Rightarrow> Inl NoSpace
              | Some grown \<Rightarrow> Inr (n\<lparr>extents := (extents n)[i := last\<lparr>ext_count := grown\<rparr>]\<rparr>))
        else fresh
      else fresh)"

fun reserve_loop ::
  "'d block_device \<Rightarrow> dfs \<Rightarrow> u64 list \<Rightarrow> transaction \<Rightarrow> u64 \<Rightarrow> sector \<Rightarrow>
   ('d, dfs_error, transaction \<times> u64 \<times> sector) io" where
  "reserve_loop dev fs [] tx current bitmap = ok_io (tx, current, bitmap)"
| "reserve_loop dev fs (lba # rest) tx current bitmap =
     try_io (lift_io (bitmap_location fs lba)) (\<lambda>(bm, pos).
       if bm \<noteq> current then
         try_io (lift_io (if current \<noteq> - 1 then tx_add current bitmap tx else Inr tx)) (\<lambda>tx.
         try_io (dev_read dev bm) (\<lambda>bitmap.
           reserve_loop dev fs rest tx bm (set_bitmap_bit bitmap pos True)))
       else reserve_loop dev fs rest tx current (set_bitmap_bit bitmap pos True))"

definition reserve_run ::
  "'d block_device \<Rightarrow> dfs \<Rightarrow> u64 \<Rightarrow> u64 \<Rightarrow> nat \<Rightarrow> node \<Rightarrow> ('d, dfs_error, unit) io" where
  "reserve_run dev fs start count index n =
     try_io (reserve_loop dev fs (word_range start (start + count)) new_transaction (- 1)
         zero_sector) (\<lambda>(tx, current, bitmap).
     try_io (lift_io (tx_add current bitmap tx)) (\<lambda>tx.
     try_io (lift_io (encode_node n)) (\<lambda>inode.
     try_io (lift_io (tx_add (inode_lba (layout fs) + word_of_nat index) inode tx)) (\<lambda>tx.
       commit_transaction dev fs tx))))"

fun release_loop ::
  "'d block_device \<Rightarrow> dfs \<Rightarrow> u64 list \<Rightarrow> transaction \<Rightarrow> u64 \<Rightarrow> sector \<Rightarrow>
   ('d, dfs_error, transaction \<times> u64 \<times> sector) io" where
  "release_loop dev fs [] tx current bitmap = ok_io (tx, current, bitmap)"
| "release_loop dev fs (lba # rest) tx current bitmap =
     try_io (lift_io (bitmap_location fs lba)) (\<lambda>(bm, pos).
       if bm \<noteq> current then
         try_io (lift_io (if current \<noteq> - 1 then tx_add current bitmap tx else Inr tx)) (\<lambda>tx.
         try_io (if tx_count tx = transaction_sectors
                 then try_io (commit_transaction dev fs tx) (\<lambda>_. ok_io new_transaction)
                 else ok_io tx) (\<lambda>tx.
         try_io (dev_read dev bm) (\<lambda>bitmap.
           release_loop dev fs rest tx bm (set_bitmap_bit bitmap pos False))))
       else release_loop dev fs rest tx current (set_bitmap_bit bitmap pos False))"

definition release_run ::
  "'d block_device \<Rightarrow> dfs \<Rightarrow> u64 \<Rightarrow> u64 \<Rightarrow> ('d, dfs_error, unit) io" where
  "release_run dev fs start count =
     try_io (release_loop dev fs (word_range start (start + count)) new_transaction (- 1)
         zero_sector) (\<lambda>(tx, current, bitmap).
     try_io (lift_io (if current \<noteq> - 1 then tx_add current bitmap tx else Inr tx)) (\<lambda>tx.
       commit_transaction dev fs tx))"

section \<open>Reading\<close>

definition extent_for :: "node \<Rightarrow> u32 \<Rightarrow> u64 option" where
  "extent_for n logical =
     map_option (\<lambda>e. ext_start e + ucast (logical - ext_logical e))
       (List.find (\<lambda>e. case checked_add (ext_logical e) (ext_count e) of
            None \<Rightarrow> False
          | Some finish \<Rightarrow> logical \<ge> ext_logical e \<and> logical < finish)
          (take (extent_count n) (extents n)))"

lemma within_sector: "unat ((pos :: u64) mod word_of_nat sector_size) < sector_size"
  by (simp add: sector_size_def unat_mod)

text \<open>
  The \<open>while copied < length\<close> loop of \<open>read_file\<close>. Its sector search adds without a
  check (release arithmetic), unlike \<open>extent_for\<close>.
\<close>

function (sequential) read_file_loop ::
  "'d block_device \<Rightarrow> node \<Rightarrow> u64 \<Rightarrow> nat \<Rightarrow> nat \<Rightarrow> u8 list \<Rightarrow> ('d, dfs_error, u8 list) io" where
  "read_file_loop dev n offset len copied out =
     (if \<not> copied < len then ok_io out
      else
        let pos = offset + word_of_nat copied;
            logical = (ucast (pos div word_of_nat sector_size) :: u32);
            within = unat (pos mod word_of_nat sector_size)
        in case List.find (\<lambda>e. logical \<ge> ext_logical e \<and> logical < ext_logical e + ext_count e)
                  (take (extent_count n) (extents n)) of
             None \<Rightarrow> fail_io CorruptMetadata
           | Some e \<Rightarrow>
               let physical = ext_start e + ucast (logical - ext_logical e) in
               try_io (dev_read dev physical) (\<lambda>sector.
                 let count = min (sector_size - within) (len - copied) in
                 read_file_loop dev n offset len (copied + count)
                   (splice copied (slice within (within + count) sector) out)))"
  by pat_completeness auto

termination
proof (relation "measure (\<lambda>(dev, n, offset, len, copied, out). len - copied)", goal_cases)
  case 1
  show ?case by simp
next
  case 2
  then show ?case using within_sector by (simp add: diff_less_mono2)
qed

definition read_file ::
  "'d block_device \<Rightarrow> dfs \<Rightarrow> str \<Rightarrow> u64 \<Rightarrow> u8 list \<Rightarrow> ('d, dfs_error, nat \<times> u8 list) io" where
  "read_file dev fs path offset out =
     try_io (lift_io (canonical_path path)) (\<lambda>path.
     try_io (find_node dev fs path) (\<lambda>found.
     try_io (lift_io (ok_or NotFound found)) (\<lambda>n.
       if kind n \<noteq> node_file then fail_io IsDirectory
       else if offset \<ge> file_size n then ok_io (0, out)
       else
         let len = min (length out) (unat (file_size n - offset)) in
         try_io (read_file_loop dev n offset len 0 out) (\<lambda>out. ok_io (len, out)))))"

definition stat_file :: "'d block_device \<Rightarrow> dfs \<Rightarrow> str \<Rightarrow> ('d, dfs_error, dfs_metadata) io" where
  "stat_file dev fs path =
     try_io (lift_io (canonical_path path)) (\<lambda>path.
     try_io (find_node dev fs path) (\<lambda>found.
     try_io (lift_io (ok_or NotFound found)) (\<lambda>n. ok_io (node_metadata n))))"

fun list_loop ::
  "'d block_device \<Rightarrow> dfs \<Rightarrow> str \<Rightarrow> bool \<Rightarrow> nat list \<Rightarrow> nat \<Rightarrow> u8 list \<Rightarrow>
   ('d, dfs_error, nat \<times> u8 list) io" where
  "list_loop dev fs path hidden [] count out = ok_io (count, out)"
| "list_loop dev fs path hidden (index # rest) count out =
     try_io (read_node dev fs index) (\<lambda>n.
       if kind n = 0 \<or> path_length n = 0 then list_loop dev fs path hidden rest count out
       else case immediate_child (node_path n) path of
         None \<Rightarrow> list_loop dev fs path hidden rest count out
       | Some name \<Rightarrow>
           if \<not> hidden \<and> strip_prefix (ascii ''.'') name \<noteq> None
           then list_loop dev fs path hidden rest count out
           else
             try_io (lift_io (ok_or NoSpace
               (Option.bind (usize_add count (length name)) (\<lambda>k. usize_add k 1)))) (\<lambda>required.
               if required > length out then fail_io NoSpace
               else list_loop dev fs path hidden rest required
                      ((splice count name out)[count + length name := 10])))"

definition read_directory ::
  "'d block_device \<Rightarrow> dfs \<Rightarrow> str \<Rightarrow> bool \<Rightarrow> u8 list \<Rightarrow> ('d, dfs_error, nat \<times> u8 list) io" where
  "read_directory dev fs path hidden out =
     try_io (lift_io (canonical_path path)) (\<lambda>path.
     try_io (find_node dev fs path) (\<lambda>found.
     try_io (lift_io (ok_or NotFound found)) (\<lambda>directory.
       if kind directory \<noteq> node_directory then fail_io NotDirectory
       else list_loop dev fs path hidden [0..<inode_count] 0 out)))"

section \<open>Formatting and mounting\<close>

definition format_bitmap :: "dfs_layout \<Rightarrow> u64 \<Rightarrow> sector" where
  "format_bitmap l bitmap_index =
     (let reserved = data_lba l - start_lba l;
          first = bitmap_index * word_of_nat (sector_size * 8);
          last = min (first + word_of_nat (sector_size * 8)) reserved
      in fold (\<lambda>b bitmap. set_bitmap_bit bitmap (unat (b - first)) True) (word_range first last)
           zero_sector)"

definition format_dfs :: "'d block_device \<Rightarrow> u64 \<Rightarrow> u64 \<Rightarrow> ('d, dfs_error, dfs) io" where
  "format_dfs dev start count =
     try_io (lift_io (make_layout start count)) (\<lambda>l.
     try_io (for_io (word_range start (data_lba l)) (\<lambda>lba. dev_write dev lba zero_sector)) (\<lambda>_.
     try_io (for_io (word_range 0 (bitmap_sectors l)) (\<lambda>bitmap_index.
       dev_write dev (bitmap_lba l + bitmap_index) (format_bitmap l bitmap_index))) (\<lambda>_.
     try_io (write_superblock dev l) (\<lambda>_.
     try_io (dev_flush dev) (\<lambda>_.
       let fs = \<lparr>layout = l\<rparr>;
           root = empty_node\<lparr>kind := node_directory, mode := 493\<rparr>
       in try_io (store_node dev fs 0 root) (\<lambda>_. ok_io fs))))))"

definition mount_dfs :: "'d block_device \<Rightarrow> u64 \<Rightarrow> u64 \<Rightarrow> ('d, dfs_error, dfs) io" where
  "mount_dfs dev start count =
     try_io (read_superblock dev start count) (\<lambda>l.
       let fs = \<lparr>layout = l\<rparr> in
       try_io (replay_journal dev fs) (\<lambda>_.
       try_io (read_node dev fs 0) (\<lambda>root.
         if kind root \<noteq> node_directory \<or> path_length root \<noteq> 0 then fail_io CorruptMetadata
         else ok_io fs)))"

section \<open>Writing\<close>

text \<open>
  A run that \<open>find_free_run\<close> returns has at least one and at most the requested number
  of sectors, on any device; the allocation loop below ends for this reason.
\<close>

lemma free_run_loop_size:
  "run_length < requested \<Longrightarrow>
   outcome (free_run_loop dev fs requested lbas run_start run_length cached first_bitmap bitmap) d
     (\<lambda>_ _. True) (\<lambda>(_, count) _. count \<noteq> 0 \<and> count \<le> requested)"
proof (induction lbas arbitrary: run_start run_length cached first_bitmap bitmap d)
  case Nil
  then show ?case by (simp add: word_gt_0 less_imp_le)
next
  case (Cons lba lbas)
  have positive: "0 < requested" using Cons.prems by (rule le_less_trans [rotated]) simp
  have one: "(1 :: u64) < requested" if "1 \<noteq> requested"
    using inc_le [OF positive] that by (simp add: order_less_le)
  have next_length: "run_length + 1 < requested" if "run_length + 1 \<noteq> requested"
    using inc_le [OF Cons.prems] that by (simp add: order_less_le)
  have zero: "run_length = 0" if "requested = 1"
    using Cons.prems that by (simp add: word_less_nat_alt unat_eq_0)
  let ?Q = "\<lambda>(_, count) _. count \<noteq> 0 \<and> count \<le> requested"
  have body: "outcome
      (if bitmap ! (pos div 8) AND push_bit (pos mod 8) 1 = 0 then
         if run_length = 0 then
           (if 1 = requested then ok_io (lba, 1)
            else free_run_loop dev fs requested lbas lba 1 bm bm bitmap)
         else if bm - first_bitmap \<ge> word_of_nat (transaction_sectors - 1)
         then ok_io (run_start, run_length)
         else if run_length + 1 = requested then ok_io (run_start, run_length + 1)
         else free_run_loop dev fs requested lbas run_start (run_length + 1) bm first_bitmap bitmap
       else if run_length \<noteq> 0 then ok_io (run_start, run_length)
       else free_run_loop dev fs requested lbas run_start run_length bm first_bitmap bitmap) d
      (\<lambda>_ _. True) ?Q" for bitmap pos bm d
    using Cons.prems one next_length positive zero less_imp_le [OF Cons.prems] Cons.IH
    by (cases "requested = 1") auto
  show ?case
  proof (cases "bitmap_location fs lba")
    case (Inl e)
    then show ?thesis by simp
  next
    case (Inr r)
    obtain bm pos where r: "r = (bm, pos)" by (cases r)
    show ?thesis
      unfolding free_run_loop.simps Inr r
      by (rule outcome_seq [where R = "\<lambda>r _. r = (bm, pos)"], simp, clarify,
          rule outcome_seq [OF outcome_any [where Q = "\<lambda>_ _. True"]]) (rule TrueI body)+
  qed
qed

lemma find_free_run_size:
  assumes "0 < requested" "find_free_run dev fs requested d = (Inr (start, count), d')"
  shows "count \<noteq> 0 \<and> count \<le> requested"
  using outcome_runD [OF free_run_loop_size [OF assms(1)] assms(2) [unfolded find_free_run_def]]
  by simp

lemma allocation_progress:
  fixes allocated required count :: u64
  assumes "allocated < required" "count \<noteq> 0" "count \<le> required - allocated"
  shows "unat (required - (allocated + count)) < unat (required - allocated)"
proof -
  have "unat (required - (allocated + count)) = unat (required - allocated) - unat count"
    using unat_sub [OF assms(3)] by (simp only: diff_diff_eq)
  moreover have "0 < unat count" using assms(2) by (simp add: unat_gt_0)
  moreover have "unat count \<le> unat (required - allocated)"
    using assms(3) by (simp add: word_le_nat_alt)
  ultimately show ?thesis by simp
qed

text \<open>The \<open>while allocated_sectors < required_sectors\<close> loop of \<open>write_file\<close>.\<close>

function (sequential) allocate_loop ::
  "'d block_device \<Rightarrow> dfs \<Rightarrow> nat \<Rightarrow> u64 \<Rightarrow> u64 \<Rightarrow> node \<Rightarrow> ('d, dfs_error, node) io" where
  "allocate_loop dev fs index required allocated n =
     (if \<not> allocated < required then ok_io n
      else
        try_io (find_free_run dev fs (required - allocated)) (\<lambda>run.
        try_io (lift_io (add_extent n (fst run) (ucast allocated) (ucast (snd run)))) (\<lambda>n.
        try_io (reserve_run dev fs (fst run) (snd run) index n) (\<lambda>_.
          allocate_loop dev fs index required (allocated + snd run) n))))"
  by pat_completeness auto

termination
proof (relation "measure (\<lambda>(dev, fs, index, required, allocated, n). unat (required - allocated))",
    goal_cases)
  case 1
  show ?case by simp
next
  case (2 dev fs index required allocated n run d d')
  then have less: "allocated < required" by simp
  then have "0 < required - allocated" by (auto simp: word_gt_0)
  then have "snd run \<noteq> 0 \<and> snd run \<le> required - allocated"
    using find_free_run_size [of "required - allocated" dev fs d "fst run" "snd run" d'] 2(2) by simp
  then show ?case using allocation_progress [OF less] by simp
qed

text \<open>
  The \<open>while consumed < input.len()\<close> loop. The sector buffer keeps its last contents
  across iterations, as the single \<open>sector\<close> array of the code does.
\<close>

function (sequential) write_data_loop ::
  "'d block_device \<Rightarrow> node \<Rightarrow> u64 \<Rightarrow> u8 list \<Rightarrow> nat \<Rightarrow> ('d, dfs_error, nat) io" where
  "write_data_loop dev n offset input consumed =
     (if \<not> consumed < length input then ok_io consumed
      else
        let pos = offset + word_of_nat consumed;
            logical = (ucast (pos div word_of_nat sector_size) :: u32);
            within = unat (pos mod word_of_nat sector_size);
            count = min (sector_size - within) (length input - consumed)
        in case extent_for n logical of
             None \<Rightarrow> fail_io CorruptMetadata
           | Some physical \<Rightarrow>
               try_io (if within = 0 \<and> count = sector_size
                       then ok_io (slice consumed (consumed + count) input)
                       else try_io (dev_read dev physical) (\<lambda>sector.
                         ok_io (splice within (slice consumed (consumed + count) input) sector)))
                 (\<lambda>sector.
               try_io (dev_write dev physical sector) (\<lambda>_.
                 write_data_loop dev n offset input (consumed + count))))"
  by pat_completeness auto

termination
proof (relation "measure (\<lambda>(dev, n, offset, input, consumed). length input - consumed)", goal_cases)
  case 1
  show ?case by simp
next
  case 2
  then show ?case using within_sector by (simp add: diff_less_mono2)
qed

definition div_ceil_sector :: "u64 \<Rightarrow> u64" where
  "div_ceil_sector x = (let q = x div word_of_nat sector_size in
     if x mod word_of_nat sector_size = 0 then q else q + 1)"

definition write_file ::
  "'d block_device \<Rightarrow> dfs \<Rightarrow> str \<Rightarrow> u64 \<Rightarrow> u8 list \<Rightarrow> bool \<Rightarrow> u16 \<Rightarrow> u32 \<Rightarrow> u32 \<Rightarrow>
   ('d, dfs_error, nat) io" where
  "write_file dev fs path offset input create m u g =
     try_io (lift_io (canonical_path path)) (\<lambda>path.
       if path = [] then fail_io IsDirectory
       else try_io (try_io (find_node dev fs path) (\<lambda>found. case found of
           Some n \<Rightarrow>
             if kind n = node_directory then fail_io IsDirectory
             else try_io (find_index dev fs path) (\<lambda>index. lift_io (ok_or CorruptMetadata index))
         | None \<Rightarrow>
             if create then create_node dev fs path node_file m u g else fail_io NotFound))
       (\<lambda>index.
       try_io (read_node dev fs index) (\<lambda>n.
         if offset > file_size n then fail_io InvalidPath
         else try_io (lift_io (ok_or NoSpace (checked_add offset (word_of_nat (length input)))))
           (\<lambda>finish.
         let required = div_ceil_sector finish;
             allocated = sum_list (map (\<lambda>e. ucast (ext_count e)) (take (extent_count n) (extents n)))
         in try_io (allocate_loop dev fs index required allocated n) (\<lambda>n.
            try_io (write_data_loop dev n offset input 0) (\<lambda>consumed.
            let n = n\<lparr>file_size := max (file_size n) finish\<rparr> in
            try_io (dev_flush dev) (\<lambda>_.
            try_io (store_node dev fs index n) (\<lambda>_. ok_io consumed))))))))"

definition create_directory ::
  "'d block_device \<Rightarrow> dfs \<Rightarrow> str \<Rightarrow> u16 \<Rightarrow> u32 \<Rightarrow> u32 \<Rightarrow> ('d, dfs_error, unit) io" where
  "create_directory dev fs path m u g =
     try_io (lift_io (canonical_path path)) (\<lambda>path.
       if path = [] then fail_io AlreadyExists
       else try_io (create_node dev fs path node_directory m u g) (\<lambda>_. ok_io ()))"

definition release_extents ::
  "'d block_device \<Rightarrow> dfs \<Rightarrow> extent list \<Rightarrow> ('d, dfs_error, unit) io" where
  "release_extents dev fs es =
     for_io es (\<lambda>e. release_run dev fs (ext_start e) (ucast (ext_count e)))"

definition truncate_file :: "'d block_device \<Rightarrow> dfs \<Rightarrow> str \<Rightarrow> ('d, dfs_error, unit) io" where
  "truncate_file dev fs path =
     try_io (lift_io (canonical_path path)) (\<lambda>path.
     try_io (find_index dev fs path) (\<lambda>found.
     try_io (lift_io (ok_or NotFound found)) (\<lambda>index.
     try_io (read_node dev fs index) (\<lambda>n.
       if kind n \<noteq> node_file then fail_io IsDirectory
       else
         let es = take (extent_count n) (extents n);
             n = n\<lparr>file_size := 0, extents := replicate max_extents empty_extent,
                   extent_count := 0\<rparr>
         in try_io (store_node dev fs index n) (\<lambda>_. release_extents dev fs es)))))"

section \<open>Removal\<close>

text \<open>
  The search of \<open>remove_at_depth\<close> for an immediate child: its stored path bytes, or the
  refusal when the removal is not recursive.
\<close>

fun find_child ::
  "'d block_device \<Rightarrow> dfs \<Rightarrow> str \<Rightarrow> bool \<Rightarrow> nat list \<Rightarrow> ('d, dfs_error, u8 list option) io" where
  "find_child dev fs path recursive [] = ok_io None"
| "find_child dev fs path recursive (index # rest) =
     try_io (read_node dev fs index) (\<lambda>child.
       if kind child = 0 then find_child dev fs path recursive rest
       else if immediate_child (node_path child) path \<noteq> None then
         (if \<not> recursive then fail_io DirectoryNotEmpty
          else ok_io (Some (take (path_length child) (path_bytes child))))
       else find_child dev fs path recursive rest)"

text \<open>
  \<open>remove_at_depth\<close> recurses at most 32 levels, and its inner loop removes one child per
  round; \<open>fuel\<close> bounds the two together and \<open>None\<close> says it did not suffice.
\<close>

fun remove_at_depth ::
  "nat \<Rightarrow> 'd block_device \<Rightarrow> dfs \<Rightarrow> str \<Rightarrow> bool \<Rightarrow> nat \<Rightarrow> 'd \<Rightarrow> ((dfs_error + unit) \<times> 'd) option"
and remove_children ::
  "nat \<Rightarrow> 'd block_device \<Rightarrow> dfs \<Rightarrow> str \<Rightarrow> bool \<Rightarrow> nat \<Rightarrow> 'd \<Rightarrow> ((dfs_error + unit) \<times> 'd) option"
where
  "remove_at_depth 0 dev fs path recursive depth d = None"
| "remove_at_depth (Suc fuel) dev fs path recursive depth d =
     (if depth > 32 then Some (Inl InvalidPath, d)
      else case canonical_path path of
        Inl e \<Rightarrow> Some (Inl e, d)
      | Inr path \<Rightarrow>
          if path = [] then Some (Inl InvalidPath, d)
          else (case try_io (find_index dev fs path) (\<lambda>found.
                  try_io (lift_io (ok_or NotFound found)) (\<lambda>index.
                  try_io (read_node dev fs index) (\<lambda>n. ok_io (index, n)))) d of
              (Inl e, d) \<Rightarrow> Some (Inl e, d)
            | (Inr (index, n), d) \<Rightarrow>
                (case (if kind n = node_directory
                       then remove_children fuel dev fs path recursive depth d
                       else Some (Inr (), d)) of
                   None \<Rightarrow> None
                 | Some (Inl e, d) \<Rightarrow> Some (Inl e, d)
                 | Some (Inr _, d) \<Rightarrow>
                     Some (try_io (store_node dev fs index empty_node) (\<lambda>_.
                       release_extents dev fs (take (extent_count n) (extents n))) d))))"
| "remove_children 0 dev fs path recursive depth d = None"
| "remove_children (Suc fuel) dev fs path recursive depth d =
     (case find_child dev fs path recursive [0..<inode_count] d of
        (Inl e, d) \<Rightarrow> Some (Inl e, d)
      | (Inr None, d) \<Rightarrow> Some (Inr (), d)
      | (Inr (Some child), d) \<Rightarrow>
          if \<not> utf8_valid child then Some (Inl CorruptMetadata, d)
          else (case remove_at_depth fuel dev fs child True (depth + 1) d of
              None \<Rightarrow> None
            | Some (Inl e, d) \<Rightarrow> Some (Inl e, d)
            | Some (Inr _, d) \<Rightarrow> remove_children fuel dev fs path recursive depth d))"

definition remove_path ::
  "nat \<Rightarrow> 'd block_device \<Rightarrow> dfs \<Rightarrow> str \<Rightarrow> bool \<Rightarrow> 'd \<Rightarrow> ((dfs_error + unit) \<times> 'd) option" where
  "remove_path fuel dev fs path recursive = remove_at_depth fuel dev fs path recursive 0"

section \<open>Seeding from a USTAR archive\<close>

definition tar_field :: "u8 list \<Rightarrow> u8 list" where
  "tar_field bytes = take (case position (\<lambda>b. b = 0) bytes of
     None \<Rightarrow> length bytes | Some finish \<Rightarrow> finish) bytes"

fun tar_octal_loop :: "u8 list \<Rightarrow> nat \<Rightarrow> bool \<Rightarrow> nat option" where
  "tar_octal_loop [] value found_digit = Some value"
| "tar_octal_loop (b # bs) value found_digit =
     (if 48 \<le> b \<and> b \<le> 55 then
        Option.bind (Option.bind (usize_mul value 8) (\<lambda>v. usize_add v (unat (b - 48))))
          (\<lambda>value. tar_octal_loop bs value True)
      else if (b = 0 \<or> b = 32) \<and> (found_digit \<or> value = 0) then tar_octal_loop bs value found_digit
      else None)"

definition tar_octal :: "u8 list \<Rightarrow> nat option" where
  "tar_octal bytes = tar_octal_loop bytes 0 False"

fun strip_trailing_slashes :: "u8 list \<Rightarrow> u8 list" where
  "strip_trailing_slashes bs =
     (if bs \<noteq> [] \<and> last bs = slash then strip_trailing_slashes (butlast bs) else bs)"

declare strip_trailing_slashes.simps [simp del]

definition tar_path :: "u8 list \<Rightarrow> u8 list \<Rightarrow> dfs_error + str" where
  "tar_path pre name =
     (case Option.bind (usize_add (length pre) (if pre \<noteq> [] then 1 else 0))
             (\<lambda>k. usize_add k (length name)) of
        None \<Rightarrow> Inl InvalidPath
      | Some path_len \<Rightarrow>
          if path_len > max_path then Inl InvalidPath
          else
            let path = strip_trailing_slashes ((if pre \<noteq> [] then pre @ [slash] else []) @ name)
            in if utf8_valid path then Inr path else Inl InvalidPath)"

definition seed_entry ::
  "'d block_device \<Rightarrow> dfs \<Rightarrow> u8 list \<Rightarrow> u8 list \<Rightarrow> str \<Rightarrow> ('d, dfs_error, unit) io" where
  "seed_entry dev fs header data path =
     (if path \<noteq> [] \<and> path \<noteq> ascii ''.'' then
        let m = word_of_nat (case tar_octal (slice 100 108 header) of None \<Rightarrow> 420 | Some v \<Rightarrow> v);
            u = word_of_nat (case tar_octal (slice 108 116 header) of None \<Rightarrow> 0 | Some v \<Rightarrow> v);
            g = word_of_nat (case tar_octal (slice 116 124 header) of None \<Rightarrow> 0 | Some v \<Rightarrow> v);
            t = header ! 156
        in if t = 53 then match_io (create_directory dev fs path m u g) (\<lambda>r. case r of
               Inr _ \<Rightarrow> ok_io ()
             | Inl e \<Rightarrow> if e = AlreadyExists then ok_io () else fail_io e)
           else if t = 0 \<or> t = 48
           then try_io (write_file dev fs path 0 data True m u g) (\<lambda>_. ok_io ())
           else ok_io ()
      else ok_io ())"

function (sequential) seed_loop ::
  "'d block_device \<Rightarrow> dfs \<Rightarrow> u8 list \<Rightarrow> nat \<Rightarrow> ('d, dfs_error, unit) io" where
  "seed_loop dev fs archive offset =
     (case usize_add offset sector_size of
        None \<Rightarrow> fail_io InvalidFilesystem
      | Some finish \<Rightarrow>
          if \<not> finish \<le> length archive then fail_io InvalidFilesystem
          else
            let header = slice offset finish archive in
            if \<forall>b \<in> set header. b = 0 then ok_io ()
            else
              let name = tar_field (slice 0 100 header); pre = tar_field (slice 345 500 header)
              in case tar_octal (slice 124 136 header) of
                   None \<Rightarrow> fail_io InvalidFilesystem
                 | Some len \<Rightarrow>
                   (case usize_add finish len of
                      None \<Rightarrow> fail_io InvalidFilesystem
                    | Some data_end \<Rightarrow>
                      if \<not> data_end \<le> length archive then fail_io InvalidFilesystem
                      else
                        try_io (lift_io (tar_path pre name)) (\<lambda>path.
                        try_io (seed_entry dev fs header (slice finish data_end archive) path) (\<lambda>_.
                          case Option.bind (usize_add len (sector_size - 1)) (\<lambda>padded.
                                 usize_add finish (padded div sector_size * sector_size)) of
                            None \<Rightarrow> fail_io InvalidFilesystem
                          | Some offset \<Rightarrow> seed_loop dev fs archive offset))))"
  by pat_completeness auto

termination
  by (relation "measure (\<lambda>(dev, fs, archive, offset). length archive - offset)")
    (auto simp: usize_add_Some_iff bind_eq_Some_conv sector_size_def)

definition seed_from_ustar :: "'d block_device \<Rightarrow> dfs \<Rightarrow> u8 list \<Rightarrow> ('d, dfs_error, unit) io" where
  "seed_from_ustar dev fs archive = seed_loop dev fs archive 0"

end
