(* ===== verification/Dfs_Mount.thy ===== *)
theory Dfs_Mount
  imports Dfs_Files
begin

text \<open>
  Formatting and mounting DFS on a device that works. The lemmas are proved once for every
  device that keeps the contract \<open>working_device\<close>: what a commit leaves on the disk, storing
  and reading an inode, the state that \<open>format\<close> creates.
\<close>

section \<open>Writes and commits on a working device\<close>

definition writes_fit :: "(u64 \<times> sector) list \<Rightarrow> sector list \<Rightarrow> bool" where
  "writes_fit ws d \<longleftrightarrow>
     (\<forall>w \<in> set ws. unat (fst w) < length d \<and> length (snd w) = sector_size)"

lemma tx_writes_fit: "tx_fits fs tx \<Longrightarrow> fs_on fs d \<Longrightarrow> writes_fit (tx_writes tx) d"
  using tx_fits_write [of fs tx d] by (simp add: writes_fit_def)

lemma payload_writes_fit:
  assumes "tx_ok tx" "fs_on fs d"
  shows "writes_fit (map (payload_write fs tx) [0..<tx_count tx]) d"
  using tx_okD [OF assms(1)] journal_addresses [OF assms(2)]
  by (auto simp: writes_fit_def payload_write_def abi_simps)

context working_device
begin

lemma write_works:
  assumes "working d" "unat lba < length (disk d)" "length s = sector_size"
  shows "outcome (dev_write dev lba s) d E
    (\<lambda>_ d'. disk d' = (disk d)[unat lba := s] \<and> working d')"
  unfolding dev_write_def outcome_map_err by (rule write_outcome) (use assms in simp_all)

lemma flush_works:
  assumes "working d"
  shows "outcome (dev_flush dev) d E (\<lambda>_ d'. disk d' = disk d \<and> working d')"
  unfolding dev_flush_def outcome_map_err by (rule flush_outcome) (use assms in simp_all)

lemma read_works:
  assumes "working d" "unat lba < length (disk d)"
  shows "outcome (dev_read dev lba) d E
    (\<lambda>s d'. s = disk d ! unat lba \<and> disk d' = disk d \<and> working d')"
  unfolding dev_read_def outcome_map_err by (rule read_outcome) (use assms in simp_all)

lemma write_all_works:
  assumes "working d" "writes_fit ws (disk d)"
  shows "outcome (for_io ws (\<lambda>w. dev_write dev (fst w) (snd w))) d E
    (\<lambda>_ d'. disk d' = apply_writes ws (disk d) \<and> working d')"
proof (rule outcome_for [where I = "\<lambda>ws d'. disk d' = apply_writes ws (disk d) \<and> working d'"])
  fix vs w rest d1
  assume "ws = vs @ w # rest" "disk d1 = apply_writes vs (disk d) \<and> working d1"
  then show "outcome (dev_write dev (fst w) (snd w)) d1 E
      (\<lambda>_ d'. disk d' = apply_writes (vs @ [w]) (disk d) \<and> working d')"
    using assms(2)
    by (intro outcome_mono [OF write_works]) (cases w, auto simp: writes_fit_def)+
qed (use assms in simp)

lemma write_payload_works:
  assumes "working d" "writes_fit (map (payload_write fs tx) is) (disk d)"
  shows "outcome (write_payload dev fs tx is h) d E
    (\<lambda>h' d'. h' = fold (put_target tx) is h \<and>
       disk d' = apply_writes (map (payload_write fs tx) is) (disk d) \<and> working d')"
  using assms
proof (induction "is" arbitrary: h d)
  case Nil
  then show ?case by simp
next
  case (Cons i "is")
  have step: "write_payload dev fs tx (i # is) h =
      try_io (dev_write dev (fst (payload_write fs tx i)) (snd (payload_write fs tx i)))
        (\<lambda>_. write_payload dev fs tx is (put_target tx i h))"
    by (simp add: Let_def put_target_def payload_write_def)
  show ?case
    unfolding step
  proof (rule outcome_seq [OF write_works], goal_cases)
    case (4 _ d1)
    then show ?case
      using Cons.prems(2)
      by (intro outcome_mono [OF Cons.IH [of d1 "put_target tx i h"]])
        (auto simp: writes_fit_def payload_write_def)
  qed (use Cons.prems in \<open>auto simp: writes_fit_def\<close>)
qed

lemma clear_works:
  assumes "working d" "fs_on fs (disk d)"
  shows "outcome (clear_journal dev fs) d E
    (\<lambda>_ d'. disk d' = (disk d)[unat (journal_lba (layout fs)) := zero_sector] \<and> working d')"
  unfolding clear_journal_def
  by (rule outcome_seq [OF write_works], use assms journal_addresses(2) [OF assms(2)] in
      \<open>simp_all add: abi_simps\<close>) (auto intro: outcome_mono [OF flush_works])

end

lemma same_files_committed:
  assumes fits: "tx_fits fs tx" and on: "fs_on fs d"
  defines "J \<equiv> unat (journal_lba (layout fs))"
  shows "same_files fs ((apply_writes (tx_writes tx)
      ((apply_writes (map (payload_write fs tx) [0..<tx_count tx]) d)[J := commit_header tx]))
        [J := zero_sector]) (after tx d)"
    (is "same_files fs ?fin _")
proof -
  have ok: "tx_ok tx" using fits by (simp add: tx_fits_def)
  let ?ps = "map (payload_write fs tx) [0..<tx_count tx]"
  note A = journal_addresses [OF on]
  have full: "full_sectors ?fin"
    using writes_fit_def tx_writes_fit [OF fits on] payload_writes_fit [OF ok on] on
      commit_header_facts(1) [OF ok]
    by (intro full_sectors_update full_sectors_apply_writes)
      (auto simp: writes_fit_def fs_on_def abi_simps)
  have "?fin ! i = after tx d ! i" if i: "i < length d" "\<not> in_journal fs i" for i
  proof -
    let ?d1 = "(apply_writes ?ps d)[J := commit_header tx]"
    have neq: "i \<noteq> J" using i(2) in_journal_header [OF on] J_def by metis
    have "unat (fst (payload_write fs tx k)) \<noteq> i" if "k < tx_count tx" for k
      using that i(2) A(1) A(3) [of k] tx_okD(1) [OF ok]
      by (auto simp: payload_write_def in_journal_def)
    then have away: "unat (fst (payload_write fs tx k)) \<noteq> i" if "k < tx_count tx" for k
      using that .
    have "i \<noteq> unat (fst w)" if w: "w \<in> set ?ps" for w
    proof -
      obtain k where "k < tx_count tx" "w = payload_write fs tx k" using w by auto
      then show ?thesis using away [of k] by metis
    qed
    then have "i \<notin> unat ` fst ` set ?ps" by blast
    then have d1: "?d1 ! i = d ! i"
      using neq by (simp add: apply_writes_untouched)
    have "apply_writes (tx_writes tx) ?d1 ! i = after tx d ! i"
    proof (cases "i \<in> unat ` fst ` set (tx_writes tx)")
      case True
      then show ?thesis unfolding after_def using i(1) by (intro apply_writes_determined) simp_all
    next
      case False
      then show ?thesis using d1 by (simp add: after_def apply_writes_untouched)
    qed
    then show ?thesis using neq by simp
  qed
  then show ?thesis using full by (simp add: same_files_def after_def)
qed

context working_device
begin

lemma commit_transaction_works:
  assumes fits: "tx_fits fs tx" and on: "fs_on fs (disk d)" and d: "working d"
  shows "outcome (commit_transaction dev fs tx) d E
    (\<lambda>_ d'. working d' \<and> idle fs (disk d') \<and> same_files fs (disk d') (after tx (disk d)))"
proof -
  let ?J = "journal_lba (layout fs)" and ?is = "[0..<tx_count tx]"
  have ok: "tx_ok tx" using fits by (simp add: tx_fits_def)
  let ?d1 = "apply_writes (map (payload_write fs tx) ?is) (disk d)"
  let ?d2 = "?d1[unat ?J := commit_header tx]"
  have J: "unat ?J < length (disk d)" using journal_addresses(2) [OF on] by simp
  have fit: "writes_fit (tx_writes tx) ?d2"
    using tx_writes_fit [OF fits on] by (simp add: writes_fit_def)
  have on3: "fs_on fs (apply_writes (tx_writes tx) ?d2)"
  proof -
    have "full_sectors (apply_writes (tx_writes tx) ?d2)"
      using tx_writes_fit [OF fits on] payload_writes_fit [OF ok on] on commit_header_facts(1) [OF ok]
      by (intro full_sectors_update full_sectors_apply_writes)
        (auto simp: writes_fit_def fs_on_def abi_simps)
    then show ?thesis using on by (simp add: fs_on_def)
  qed
  have hdr: "splice 10 (to_le 4 (transaction_checksum tx)) (fold (put_target tx) ?is
      ((splice 0 journal_magic zero_sector)[8 := 1, 9 := word_of_nat (tx_count tx)])) = commit_header tx"
    by (simp add: commit_header_def header_base_def)
  have fin: "idle fs ((apply_writes (tx_writes tx) ?d2)[unat ?J := zero_sector])"
    using J by (simp add: idle_def)
  show ?thesis
    unfolding commit_transaction_def Let_def
    apply (rule outcome_seq [OF write_payload_works [OF d payload_writes_fit [OF ok on]]])
    apply (elim conjE, simp only: hdr)
    apply (rule outcome_seq [OF flush_works], simp, elim conjE)
    apply (rule outcome_seq [OF write_works], simp,
        simp add: J, simp add: commit_header_facts(1) [OF ok] abi_simps, elim conjE)
    apply (rule outcome_seq [OF flush_works], simp, elim conjE)
    apply (rule outcome_seq, subst write_targets_writes, rule write_all_works, simp,
        simp add: fit, elim conjE)
    apply (rule outcome_seq [OF flush_works], simp, elim conjE)
    apply (rule outcome_mono [OF clear_works], simp, simp add: on3, simp)
    apply (use fin same_files_committed [OF fits on] in simp)
    done
qed

end

section \<open>Inodes on disk\<close>

lemma single_update_fits:
  assumes on: "fs_on fs d" and range: "start_lba (layout fs) \<le> lba"
    "lba < start_lba (layout fs) + sectors (layout fs)" "\<not> in_journal fs (unat lba)"
    and s: "length s = sector_size"
  shows "\<exists>tx. commit_updates fs [(lba, s)] new_transaction = Inr tx \<and> tx_fits fs tx \<and>
    after tx d = d[unat lba := s]"
proof -
  let ?tx = "new_transaction\<lparr>tx_targets := (tx_targets new_transaction)[0 := lba],
    tx_data := (tx_data new_transaction)[0 := s], tx_count := 1\<rparr>"
  have add: "tx_add lba s new_transaction = Inr ?tx"
    by (simp add: tx_add_def new_transaction_def abi_simps)
  have "\<not> (journal_lba (layout fs) \<le> lba \<and> lba < journal_lba (layout fs) + journal_sectors)"
    using range(3) journal_addresses(5) [OF on]
    by (auto simp: in_journal_def word_le_nat_alt word_less_nat_alt)
  then have "commit_updates fs [(lba, s)] new_transaction = Inr ?tx"
    using add range(1,2) by (auto simp: Let_def not_less)
  moreover have "tx_ok ?tx" by (rule tx_add_ok [OF tx_ok_new add s])
  moreover have "tx_targets ?tx ! 0 = lba" by (simp add: new_transaction_def abi_simps)
  moreover have "after ?tx d = d[unat lba := s]"
    using tx_add_writes [OF tx_ok_new add] by (simp add: after_def)
  ultimately show ?thesis using range by (intro exI [of _ ?tx]) (simp add: tx_fits_def)
qed

lemma inode_address:
  assumes "fs_on fs d" "index < inode_count"
  defines "lba \<equiv> inode_lba (layout fs) + word_of_nat index"
  shows "unat lba = unat (inode_lba (layout fs)) + index" "unat lba < length d"
    "start_lba (layout fs) \<le> lba" "lba < start_lba (layout fs) + sectors (layout fs)"
    "\<not> in_journal fs (unat lba)"
proof -
  have L: "make_layout (start_lba (layout fs)) (sectors (layout fs)) = Inr (layout fs)"
    and m: "unat (start_lba (layout fs)) + unat (sectors (layout fs)) \<le> length d"
    using assms(1) by (simp_all add: fs_on_def)
  note D = make_layout_InrD [OF L]
  show a: "unat lba = unat (inode_lba (layout fs)) + index"
    using D assms(2) by (simp add: lba_def unat_word_ariths unat_of_nat abi_simps)
  show "unat lba < length d" using a D m assms(2) by (simp add: abi_simps)
  show "start_lba (layout fs) \<le> lba" using a D by (simp add: word_le_nat_alt)
  show "lba < start_lba (layout fs) + sectors (layout fs)"
    using a D assms(2) layout_bounds(6) [OF L] by (simp add: word_less_nat_alt abi_simps)
  show "\<not> in_journal fs (unat lba)" using a D by (simp add: in_journal_def)
qed

definition node_at :: "dfs \<Rightarrow> sector list \<Rightarrow> nat \<Rightarrow> dfs_error + node" where
  "node_at fs d index = decode_node (d ! (unat (inode_lba (layout fs)) + index))"

lemma empty_node_encodes: "encode_node empty_node = Inr zero_sector"
  by (simp add: encode_node_def empty_node_def)

lemma zero_sector_decodes: "decode_node zero_sector = Inr empty_node"
  by (simp add: decode_node_def zero_sector_def abi_simps)

lemma fs_on_same_files: "same_files fs d' d \<Longrightarrow> fs_on fs d \<Longrightarrow> fs_on fs d'"
  by (simp add: same_files_def fs_on_def)

lemma same_files_node_at:
  assumes "same_files fs d' d" "fs_on fs d" "index < inode_count"
  shows "node_at fs d' index = node_at fs d index"
  using inode_address [OF assms(2,3)] assms(1) by (simp add: node_at_def same_files_def)

context working_device
begin

lemma store_node_works:
  assumes on: "fs_on fs (disk d)" and d: "working d" and i: "index < inode_count"
    and enc: "encode_node n = Inr s" "length s = sector_size"
  shows "outcome (store_node dev fs index n) d E
    (\<lambda>_ d'. working d' \<and> idle fs (disk d') \<and>
       same_files fs (disk d') ((disk d)[unat (inode_lba (layout fs)) + index := s]))"
proof -
  let ?lba = "inode_lba (layout fs) + word_of_nat index"
  note A = inode_address [OF on i]
  obtain tx where tx: "commit_updates fs [(?lba, s)] new_transaction = Inr tx" "tx_fits fs tx"
    "after tx (disk d) = (disk d)[unat ?lba := s]"
    using single_update_fits [OF on A(3-5) enc(2)] by blast
  then show ?thesis
    using commit_transaction_works [OF tx(2) on d] A(1)
    by (simp add: store_node_def enc commit_def abi_simps del: commit_updates.simps)
qed

lemma read_node_works:
  assumes on: "fs_on fs (disk d)" and d: "working d" and i: "index < inode_count"
    and n: "node_at fs (disk d) index = Inr n"
  shows "outcome (read_node dev fs index) d E
    (\<lambda>n' d'. n' = n \<and> disk d' = disk d \<and> working d')"
proof -
  note A = inode_address [OF on i]
  show ?thesis
    unfolding read_node_def using i
    by simp (rule outcome_mono [OF read_works [OF d A(2)]],
        use n A(1) in \<open>auto simp: node_at_def\<close>)
qed

lemma find_index_loop_works:
  assumes on: "fs_on fs (disk d)" and d: "working d"
    and nodes: "\<forall>i \<in> set is. i < inode_count \<and> node_at fs (disk d) i = Inr (nodes i)"
  shows "outcome (find_index_loop dev fs path is) d E
    (\<lambda>r d'. r = List.find (\<lambda>i. kind (nodes i) \<noteq> 0 \<and> node_path (nodes i) = path) is \<and>
       disk d' = disk d \<and> working d')"
  using on d nodes
proof (induction "is" arbitrary: d)
  case Nil
  then show ?case by simp
next
  case (Cons i "is")
  have i: "i < inode_count" "node_at fs (disk d) i = Inr (nodes i)" using Cons.prems(3) by simp_all
  show ?case
    unfolding find_index_loop.simps
  proof (rule outcome_seq [OF read_node_works [OF Cons.prems(1,2) i]], goal_cases)
    case (1 n d1)
    then show ?case using Cons.IH [of d1] Cons.prems by auto
  qed
qed

end

section \<open>Bitmap sectors\<close>

definition bit_at :: "sector \<Rightarrow> nat \<Rightarrow> bool" where
  "bit_at s b \<longleftrightarrow> bit (s ! (b div 8)) (b mod 8)"

lemma bitmap_test: "s ! (b div 8) AND push_bit (b mod 8) (1 :: u8) = 0 \<longleftrightarrow> \<not> bit_at s b"
proof
  assume zero: "s ! (b div 8) AND push_bit (b mod 8) (1 :: u8) = 0"
  have "bit (s ! (b div 8) AND push_bit (b mod 8) (1 :: u8)) (b mod 8) \<longleftrightarrow> bit_at s b"
    by (simp add: bit_at_def bit_and_iff bit_push_bit_iff bit_1_iff bit_exp_iff)
  then show "\<not> bit_at s b" using zero by simp
next
  assume "\<not> bit_at s b"
  then show "s ! (b div 8) AND push_bit (b mod 8) (1 :: u8) = 0"
    by (intro bit_word_eqI) (auto simp: bit_at_def bit_and_iff bit_exp_iff)
qed

lemma length_set_bitmap_bit [simp]: "length (set_bitmap_bit s b v) = length s"
  by (simp add: set_bitmap_bit_def)

lemma bit_at_set:
  assumes "length s = 512" "b < 4096" "c < 4096"
  shows "bit_at (set_bitmap_bit s b v) c = (if c = b then v else bit_at s c)"
proof (cases "c div 8 = b div 8")
  case True
  have "b div 8 < 512" using assms by simp
  have "c mod 8 = b mod 8 \<longleftrightarrow> c = b"
    using True by (metis div_mult_mod_eq)
  moreover have "c mod 8 < 8" "b mod 8 < 8" by simp_all
  ultimately show ?thesis
    using True assms \<open>b div 8 < 512\<close>
    by (cases v) (auto simp: bit_at_def set_bitmap_bit_def bit_simps)
next
  case False
  then show ?thesis by (auto simp: bit_at_def set_bitmap_bit_def)
qed

lemma bit_at_zero [simp]: "b < 4096 \<Longrightarrow> \<not> bit_at zero_sector b"
  by (simp add: bit_at_def zero_sector_def sector_size_def)

lemma fold_set_bits:
  assumes "length s = 512" "\<forall>x \<in> set xs. f x < 4096" "c < 4096"
  shows "bit_at (fold (\<lambda>x s. set_bitmap_bit s (f x) True) xs s) c \<longleftrightarrow>
    c \<in> f ` set xs \<or> bit_at s c"
  using assms by (induction xs arbitrary: s) (auto simp: bit_at_set)

lemma length_fold_set_bits [simp]:
  "length (fold (\<lambda>x s. set_bitmap_bit s (f x) v) xs s) = length s"
  by (induction xs arbitrary: s) simp_all

lemma length_format_bitmap [simp]: "length (format_bitmap l k) = 512"
  by (simp add: format_bitmap_def Let_def)

lemma unat_word_range: "i \<in> unat ` set (word_range a b) \<longleftrightarrow> unat a \<le> i \<and> i < unat b"
proof
  assume "i \<in> unat ` set (word_range a b)"
  then show "unat a \<le> i \<and> i < unat b"
    by (auto simp: set_word_range word_le_nat_alt word_less_nat_alt)
next
  assume i: "unat a \<le> i \<and> i < unat b"
  then have "unat (word_of_nat i :: 'a word) = i"
    using order.strict_trans [OF _ unsigned_less [of b], of i] by (simp add: unat_of_nat)
  moreover from this i have "word_of_nat i \<in> set (word_range a b)"
    by (simp add: set_word_range word_le_nat_alt word_less_nat_alt)
  ultimately show "i \<in> unat ` set (word_range a b)" by (metis image_eqI)
qed

lemma word_range_elem: "unat a \<le> i \<Longrightarrow> i < unat b \<Longrightarrow> \<exists>x \<in> set (word_range a b). i = unat x"
  using unat_word_range [of i a b] by blast

lemma format_bitmap_bit:
  assumes L: "make_layout start count = Inr l" and k: "k < bitmap_sectors l" and c: "c < 4096"
  shows "bit_at (format_bitmap l k) c \<longleftrightarrow>
    unat k * 4096 + c < unat (data_lba l) - unat (start_lba l)"
proof -
  note D = make_layout_InrD [OF L]
  let ?first = "k * 4096" and ?reserved = "data_lba l - start_lba l"
  let ?last = "min (?first + 4096) ?reserved"
  have "unat k + 1 \<le> (unat count + 4095) div 4096" using k D by (simp add: word_less_nat_alt)
  then have "(unat k + 1) * 4096 \<le> (unat count + 4095) div 4096 * 4096" by (rule mult_le_mono1)
  also have "\<dots> \<le> unat count + 4095" by (rule div_times_less_eq_dividend)
  finally have fits: "unat k * 4096 + 4096 < 2 ^ 64" using make_layout_rounds [OF L] by simp
  have first: "unat ?first = unat k * 4096" "unat (?first + 4096) = unat k * 4096 + 4096"
    using fits by (simp_all add: unat_word_ariths)
  have reserved: "unat ?reserved = unat (data_lba l) - unat (start_lba l)"
    using D by (intro unat_sub) (simp add: word_le_nat_alt)
  have "bit_at (format_bitmap l k) c \<longleftrightarrow> c \<in> (\<lambda>b. unat (b - ?first)) ` set (word_range ?first ?last)"
  proof -
    have "\<forall>x \<in> set (word_range ?first ?last). unat (x - ?first) < 4096"
    proof
      fix x assume "x \<in> set (word_range ?first ?last)"
      then have "?first \<le> x" "x < ?first + 4096" by (simp_all add: set_word_range)
      then have "unat (x - ?first) = unat x - unat ?first" "unat x < unat k * 4096 + 4096"
        using first by (simp_all add: unat_sub word_less_nat_alt)
      then show "unat (x - ?first) < 4096" using first by simp
    qed
    then show ?thesis
      using fold_set_bits [of zero_sector "word_range ?first ?last" "\<lambda>b. unat (b - ?first)" c] c
      by (simp add: format_bitmap_def Let_def sector_size_def)
  qed
  also have "\<dots> \<longleftrightarrow> unat k * 4096 + c < unat ?reserved"
  proof
    assume "c \<in> (\<lambda>b. unat (b - ?first)) ` set (word_range ?first ?last)"
    then obtain x where x: "c = unat (x - ?first)" "?first \<le> x" "x < ?reserved"
      by (auto simp: set_word_range)
    then have "unat x = unat k * 4096 + c"
      using first unat_sub [OF x(2)] by (simp add: word_le_nat_alt)
    then show "unat k * 4096 + c < unat ?reserved" using x(3) by (simp add: word_less_nat_alt)
  next
    assume less: "unat k * 4096 + c < unat ?reserved"
    define x where "x = ?first + word_of_nat c"
    have "unat x = unat k * 4096 + c"
      using first fits c by (simp add: x_def unat_word_ariths unat_of_nat)
    then have "?first \<le> x" "x < ?first + 4096" "x < ?reserved"
      using first c less by (simp_all add: word_le_nat_alt word_less_nat_alt)
    then have "x \<in> set (word_range ?first ?last)" by (simp add: set_word_range)
    moreover have "unat (x - ?first) = c"
      using c by (simp add: x_def unat_of_nat)
    ultimately show "c \<in> (\<lambda>b. unat (b - ?first)) ` set (word_range ?first ?last)" by blast
  qed
  finally show ?thesis using reserved by simp
qed

section \<open>Format and mount\<close>

text \<open>The root directory and the state of a freshly formatted disk.\<close>

definition root_node :: node where
  "root_node = empty_node\<lparr>kind := node_directory, mode := 493\<rparr>"

definition in_use :: "dfs \<Rightarrow> sector list \<Rightarrow> u64 \<Rightarrow> bool" where
  "in_use fs d lba = (case bitmap_location fs lba of
     Inl _ \<Rightarrow> True | Inr (sector, b) \<Rightarrow> bit_at (d ! unat sector) b)"

definition fresh_fs :: "dfs \<Rightarrow> sector list \<Rightarrow> bool" where
  "fresh_fs fs d \<longleftrightarrow> fs_on fs d \<and> idle fs d \<and>
     d ! unat (start_lba (layout fs)) = encode_superblock (layout fs) \<and>
     (\<forall>i < inode_count. node_at fs d i = Inr (if i = 0 then root_node else empty_node)) \<and>
     (\<forall>k < unat (bitmap_sectors (layout fs)).
        d ! (unat (bitmap_lba (layout fs)) + k) = format_bitmap (layout fs) (word_of_nat k))"

lemma root_node_wf: "node_wf root_node"
  by (simp add: node_wf_def root_node_def empty_node_def abi_simps splice_def)

lemma superblock_outside_journal:
  "fs_on fs d \<Longrightarrow> \<not> in_journal fs (unat (start_lba (layout fs))) \<and>
     unat (start_lba (layout fs)) < length d"
  using make_layout_InrD [of "start_lba (layout fs)" "sectors (layout fs)" "layout fs"]
  by (auto simp: fs_on_def in_journal_def)

lemma apply_fill_hit:
  assumes "\<forall>i \<in> set xs. unat (a i) < length d" "inj_on (\<lambda>i. unat (a i)) (set xs)" "i \<in> set xs"
  shows "apply_writes (map (\<lambda>i. (a i, f i)) xs) d ! unat (a i) = f i"
  using apply_map_writes_nth [OF assms(2,3), of "\<lambda>i. (a i, f i)" d] assms(1) by simp

definition formatted :: "dfs_layout \<Rightarrow> sector list \<Rightarrow> sector list" where
  "formatted l d =
     (apply_writes (map (\<lambda>k. (bitmap_lba l + k, format_bitmap l k)) (word_range 0 (bitmap_sectors l)))
       (apply_writes (map (\<lambda>lba. (lba, zero_sector)) (word_range (start_lba l) (data_lba l))) d))
         [unat (start_lba l) := encode_superblock l]"

lemma formatted_sectors:
  assumes L: "make_layout (start_lba l) (sectors l) = Inr l"
    and len: "unat (start_lba l) + unat (sectors l) \<le> length d"
  shows "formatted l d ! unat (start_lba l) = encode_superblock l"
    "unat (start_lba l) < i \<Longrightarrow> i < unat (bitmap_lba l) \<Longrightarrow> formatted l d ! i = zero_sector"
    "k < unat (bitmap_sectors l) \<Longrightarrow>
       formatted l d ! (unat (bitmap_lba l) + k) = format_bitmap l (word_of_nat k)"
    "i < unat (start_lba l) \<or> unat (data_lba l) \<le> i \<Longrightarrow> formatted l d ! i = d ! i"
proof -
  note D = make_layout_InrD [OF L]
  let ?zs = "word_range (start_lba l) (data_lba l)" and ?bs = "word_range 0 (bitmap_sectors l)"
  let ?d1 = "apply_writes (map (\<lambda>lba. (lba, zero_sector)) ?zs) d"
  let ?d2 = "apply_writes (map (\<lambda>k. (bitmap_lba l + k, format_bitmap l k)) ?bs) ?d1"
  have addr: "unat (bitmap_lba l + k) = unat (bitmap_lba l) + unat k" if "k \<in> set ?bs" for k
    using that D by (auto simp: set_word_range word_less_nat_alt unat_word_ariths)
  have inj: "inj_on (\<lambda>k. unat (bitmap_lba l + k)) (set ?bs)"
    by (simp add: inj_on_def addr word_unat_eq_iff)
  have in_bs: "\<forall>k \<in> set ?bs. unat (bitmap_lba l + k) < length ?d1"
    using addr D len by (auto simp: set_word_range word_less_nat_alt)
  show "formatted l d ! unat (start_lba l) = encode_superblock l"
    using D len by (simp add: formatted_def)
  show "formatted l d ! i = zero_sector" if i: "unat (start_lba l) < i" "i < unat (bitmap_lba l)"
  proof -
    have "unat (start_lba l) \<le> i" "i < unat (data_lba l)" using i D by simp_all
    then obtain x where x: "x \<in> set ?zs" "i = unat x" using word_range_elem by blast
    have "?d1 ! unat x = zero_sector"
      using len D x by (intro apply_fill_hit)
        (auto simp: set_word_range word_less_nat_alt inj_on_def word_unat_eq_iff)
    moreover have "?d2 ! i = ?d1 ! i"
      by (rule apply_writes_other) (use addr i in auto)
    ultimately show ?thesis using i x by (simp add: formatted_def)
  qed
  show "formatted l d ! (unat (bitmap_lba l) + k) = format_bitmap l (word_of_nat k)"
    if k: "k < unat (bitmap_sectors l)"
  proof -
    have "unat (0 :: u64) \<le> k" by simp
    then obtain x where x: "x \<in> set ?bs" "k = unat x" using k word_range_elem by blast
    have "?d2 ! unat (bitmap_lba l + x) = format_bitmap l x"
      by (rule apply_fill_hit [OF in_bs inj x(1)])
    then show ?thesis using addr [OF x(1)] x D by (simp add: formatted_def)
  qed
  show "formatted l d ! i = d ! i" if out: "i < unat (start_lba l) \<or> unat (data_lba l) \<le> i"
  proof -
    have "unat x \<noteq> i" if "x \<in> set ?zs" for x
      using that out by (auto simp: set_word_range word_less_nat_alt word_le_nat_alt)
    then have "?d1 ! i = d ! i" by (intro apply_writes_other) auto
    moreover have "unat (bitmap_lba l + x) \<noteq> i" if "x \<in> set ?bs" for x
      using addr [OF that] that out D by (auto simp: set_word_range word_less_nat_alt)
    then have "?d2 ! i = ?d1 ! i" by (intro apply_writes_other) auto
    ultimately show ?thesis using out D by (auto simp: formatted_def)
  qed
qed

lemma full_sectors_formatted: "full_sectors d \<Longrightarrow> full_sectors (formatted l d)"
  unfolding formatted_def
  by (intro full_sectors_update full_sectors_apply_writes)
    (auto simp: length_encode_superblock sector_size_def)

lemma fresh_formatted:
  assumes L: "make_layout (start_lba l) (sectors l) = Inr l" and full: "full_sectors d"
    and len: "unat (start_lba l) + unat (sectors l) \<le> length d"
    and root: "encode_node root_node = Inr r"
    and same: "same_files \<lparr>layout = l\<rparr> d' ((formatted l d)[unat (inode_lba l) := r])"
    and idle: "idle \<lparr>layout = l\<rparr> d'"
  shows "fresh_fs \<lparr>layout = l\<rparr> d'"
proof -
  let ?fs = "\<lparr>layout = l\<rparr>" and ?d = "(formatted l d)[unat (inode_lba l) := r]"
  note D = make_layout_InrD [OF L] and F = formatted_sectors [OF L len]
  have dec: "decode_node r = Inr root_node" by (rule decode_encode_node [OF root_node_wf root])
  have lens: "length d' = length d" and out: "\<And>i. i < length d \<Longrightarrow> \<not> in_journal ?fs i \<Longrightarrow> d' ! i = ?d ! i"
    using same by (simp_all add: same_files_def formatted_def)
  have on: "fs_on ?fs d'" using L len lens same by (simp add: fs_on_def same_files_def)
  have J: "in_journal ?fs i \<longleftrightarrow> unat (journal_lba l) \<le> i \<and> i < unat (inode_lba l)" for i
    by (simp add: in_journal_def)
  have "d' ! unat (start_lba l) = encode_superblock l"
    using out [of "unat (start_lba l)"] F(1) D len J by simp
  moreover have "node_at ?fs d' i = Inr (if i = 0 then root_node else empty_node)"
    if i: "i < inode_count" for i
  proof -
    have ij: "unat (inode_lba l) + i < length d" "\<not> in_journal ?fs (unat (inode_lba l) + i)"
      using D len i by (simp_all add: J abi_simps)
    show ?thesis
    proof (cases i)
      case 0
      then show ?thesis using out [OF ij] dec ij(1) by (simp add: node_at_def formatted_def)
    next
      case (Suc j)
      then have "?d ! (unat (inode_lba l) + i) = zero_sector"
        using F(2) [of "unat (inode_lba l) + i"] D i by (simp add: abi_simps)
      then show ?thesis using out [OF ij] Suc by (simp add: node_at_def zero_sector_decodes)
    qed
  qed
  moreover have "d' ! (unat (bitmap_lba l) + k) = format_bitmap l (word_of_nat k)"
    if "k < unat (bitmap_sectors l)" for k
    using out [of "unat (bitmap_lba l) + k"] F(3) [OF that] D len J that by simp
  ultimately show ?thesis using on idle by (simp add: fresh_fs_def)
qed

context working_device
begin

lemma format_works:
  assumes L: "make_layout (start_lba l) (sectors l) = Inr l" and d: "working d"
    and len: "unat (start_lba l) + unat (sectors l) \<le> length (disk d)"
  shows "outcome (format_dfs dev (start_lba l) (sectors l)) d E
    (\<lambda>fs d'. fs = \<lparr>layout = l\<rparr> \<and> working d' \<and> fresh_fs fs (disk d') \<and>
       (\<forall>i < length (disk d). i < unat (start_lba l) \<or> unat (data_lba l) \<le> i \<longrightarrow> disk d' ! i = disk d ! i))"
proof -
  note D = make_layout_InrD [OF L]
  have full: "full_sectors (disk d)" using sectors_full [OF d] by (simp add: full_sectors_def)
  let ?fs = "\<lparr>layout = l\<rparr>"
  let ?z = "map (\<lambda>lba. (lba, zero_sector)) (word_range (start_lba l) (data_lba l))"
  let ?b = "map (\<lambda>k. (bitmap_lba l + k, format_bitmap l k)) (word_range 0 (bitmap_sectors l))"
  have fz: "writes_fit ?z (disk d)"
    using D len by (auto simp: writes_fit_def set_word_range word_less_nat_alt abi_simps)
  have "unat (bitmap_lba l + k) = unat (bitmap_lba l) + unat k" if "k < bitmap_sectors l" for k
    using that D by (simp add: word_less_nat_alt unat_word_ariths)
  then have fb: "writes_fit ?b (apply_writes ?z (disk d))"
    using D len by (auto simp: writes_fit_def set_word_range word_less_nat_alt abi_simps)
  have z: "outcome (for_io (word_range (start_lba l) (data_lba l)) (\<lambda>lba. dev_write dev lba zero_sector)) d E
      (\<lambda>_ d'. disk d' = apply_writes ?z (disk d) \<and> working d')"
    using write_all_works [OF d fz] by (simp only: for_io_map fst_conv snd_conv)
  have b: "outcome (for_io (word_range 0 (bitmap_sectors l))
        (\<lambda>k. dev_write dev (bitmap_lba l + k) (format_bitmap l k))) d1 E
      (\<lambda>_ d'. disk d' = apply_writes ?b (apply_writes ?z (disk d)) \<and> working d')"
    if "disk d1 = apply_writes ?z (disk d) \<and> working d1" for d1
    using write_all_works [of d1 ?b] that fb by (simp only: for_io_map fst_conv snd_conv)
  have on: "fs_on ?fs (formatted l (disk d))"
    using L len full_sectors_formatted [OF full] by (simp add: fs_on_def formatted_def)
  obtain r where r: "encode_node root_node = Inr r" "length r = sector_size"
    using inode_roundtrip [OF root_node_wf] by blast
  have outside: "d' ! i = disk d ! i"
    if "same_files ?fs d' ((formatted l (disk d))[unat (inode_lba l) := r])" "i < length (disk d)"
      "i < unat (start_lba l) \<or> unat (data_lba l) \<le> i" for d' i
  proof -
    have "\<not> in_journal ?fs i" "i \<noteq> unat (inode_lba l)" using that(3) D by (auto simp: in_journal_def)
    then show ?thesis
      using that formatted_sectors(4) [OF L len that(3)] by (simp add: same_files_def formatted_def)
  qed
  show ?thesis
    unfolding format_dfs_def Let_def L
    apply (rule outcome_seq [where R = "\<lambda>x d'. x = l \<and> d' = d"], simp, clarify)
    apply (rule outcome_seq [OF z])
    apply (rule outcome_seq [OF b], assumption)
    apply (rule outcome_seq [where R = "\<lambda>_ d'. disk d' = formatted l (disk d) \<and> working d'"])
    apply (unfold write_superblock_def dev_write_def [symmetric])
    apply (rule outcome_mono [OF write_works], simp, use D len in simp,
        simp add: length_encode_superblock abi_simps, simp, simp add: formatted_def)
    apply (rule outcome_seq [OF flush_works], simp)
    apply (rule outcome_seq [OF store_node_works [where s = r]])
    apply (use on in simp, simp, simp add: abi_simps, use r in \<open>simp add: root_node_def\<close>, rule r(2))
    apply (use fresh_formatted [OF L full len r(1)] outside in simp)
    done
qed


lemma mount_works:
  assumes on: "fs_on fs (disk d)" and idle: "idle fs (disk d)" and d: "working d"
    and super: "disk d ! unat (start_lba (layout fs)) = encode_superblock (layout fs)"
    and root: "node_at fs (disk d) 0 = Inr n" "kind n = node_directory" "path_length n = 0"
  shows "outcome (mount_dfs dev (start_lba (layout fs)) (sectors (layout fs))) d E
    (\<lambda>fs' d'. fs' = fs \<and> working d' \<and> disk d' = disk d)"
proof -
  let ?l = "layout fs"
  have L: "make_layout (start_lba ?l) (sectors ?l) = Inr ?l" using on by (simp add: fs_on_def)
  have S: "unat (start_lba ?l) < length (disk d)" using superblock_outside_journal [OF on] by simp
  have J: "unat (journal_lba ?l) < length (disk d)" using journal_addresses(2) [OF on] by simp
  have super_io: "outcome (read_superblock dev (start_lba ?l) (sectors ?l)) d E
      (\<lambda>l d'. l = ?l \<and> disk d' = disk d \<and> working d')"
    unfolding read_superblock_def dev_read_def [symmetric]
    by (rule outcome_seq [OF read_works [OF d S]])
      (auto simp: super decode_encode_superblock [OF L])
  have replay: "outcome (replay_journal dev fs) d1 E (\<lambda>_ d'. disk d' = disk d \<and> working d')"
    if "disk d1 = disk d \<and> working d1" for d1
    unfolding replay_journal_def
    by (rule outcome_seq [OF read_works]) (use that J idle in \<open>auto simp: idle_def zero_sector_def\<close>)
  have eta: "\<lparr>layout = ?l\<rparr> = fs" by (cases fs) simp
  show ?thesis
    unfolding mount_dfs_def Let_def
    apply (rule outcome_seq [OF super_io], elim conjE, hypsubst, simp only: eta)
    apply (rule outcome_seq [OF replay], simp)
    apply (rule outcome_seq [OF read_node_works [where n = n]])
    apply (use on root in \<open>simp_all add: abi_simps\<close>)
    done
qed

lemma find_index_works:
  assumes on: "fs_on fs (disk d)" and d: "working d"
    and nodes: "\<forall>i < inode_count. node_at fs (disk d) i = Inr (nodes i)"
  shows "outcome (find_index dev fs path) d E
    (\<lambda>r d'. r = List.find (\<lambda>i. kind (nodes i) \<noteq> 0 \<and> node_path (nodes i) = path) [0..<inode_count] \<and>
       disk d' = disk d \<and> working d')"
  unfolding find_index_def by (rule find_index_loop_works [OF on d]) (use nodes in simp)

end

lemma bitmap_location_inside:
  assumes L: "make_layout (start_lba (layout fs)) (sectors (layout fs)) = Inr (layout fs)"
    and lba: "start_lba (layout fs) \<le> lba" "lba < start_lba (layout fs) + sectors (layout fs)"
  defines "rel \<equiv> unat lba - unat (start_lba (layout fs))"
  shows "bitmap_location fs lba =
      Inr (bitmap_lba (layout fs) + word_of_nat (rel div 4096), rel mod 4096) \<and>
    rel div 4096 < unat (bitmap_sectors (layout fs)) \<and>
    unat (bitmap_lba (layout fs) + word_of_nat (rel div 4096)) =
      unat (bitmap_lba (layout fs)) + rel div 4096"
proof -
  let ?l = "layout fs"
  note D = make_layout_InrD [OF L]
  have sub: "unat (lba - start_lba ?l) = rel"
    using lba(1) by (simp add: rel_def unat_sub)
  have less: "rel < unat (sectors ?l)"
    using lba layout_bounds(6) [OF L] by (auto simp: rel_def word_less_nat_alt word_le_nat_alt)
  have sector: "rel div 4096 < unat (bitmap_sectors ?l)"
  proof -
    have "rel div 4096 \<le> (unat (sectors ?l) - 1) div 4096" by (rule div_le_mono) (use less in simp)
    also have "\<dots> < (unat (sectors ?l) + 4095) div 4096"
    proof -
      have "unat (sectors ?l) + 4095 = (unat (sectors ?l) - 1) + 4096" using less by simp
      then show ?thesis by (metis div_add_self2 less_add_one zero_neq_numeral)
    qed
    finally show ?thesis using D by simp
  qed
  have small: "unat (word_of_nat (rel div 4096) :: u64) = rel div 4096"
    using sector order.strict_trans [OF sector unsigned_less] by (simp add: unat_of_nat)
  have "lba - start_lba ?l < sectors ?l" using sub less by (simp add: word_less_nat_alt)
  moreover have "\<not> bitmap_sectors ?l \<le> word_of_nat (rel div 4096)"
    using small sector by (simp add: word_le_nat_alt)
  ultimately have "bitmap_location fs lba =
      Inr (bitmap_lba ?l + word_of_nat (rel div 4096), rel mod 4096)"
    using lba(1) sub by (simp add: bitmap_location_def checked_sub_def Let_def sector_size_def)
  moreover have "unat (bitmap_lba ?l + word_of_nat (rel div 4096)) =
      unat (bitmap_lba ?l) + rel div 4096"
    using D sector small by (simp add: unat_word_ariths)
  ultimately show ?thesis using sector by simp
qed

lemma fresh_in_use:
  assumes fresh: "fresh_fs fs d"
    and lba: "start_lba (layout fs) \<le> lba" "lba < start_lba (layout fs) + sectors (layout fs)"
  shows "in_use fs d lba \<longleftrightarrow> lba < data_lba (layout fs)"
proof -
  let ?l = "layout fs" and ?rel = "unat lba - unat (start_lba (layout fs))"
  have L: "make_layout (start_lba ?l) (sectors ?l) = Inr ?l"
    using fresh by (simp add: fresh_fs_def fs_on_def)
  note D = make_layout_InrD [OF L] and B = bitmap_location_inside [OF L lba]
  have k: "unat (word_of_nat (?rel div 4096) :: u64) = ?rel div 4096"
    using order.strict_trans [OF B [THEN conjunct2, THEN conjunct1] unsigned_less]
    by (simp add: unat_of_nat)
  have "in_use fs d lba \<longleftrightarrow> bit_at (format_bitmap ?l (word_of_nat (?rel div 4096))) (?rel mod 4096)"
    using B fresh by (simp add: in_use_def fresh_fs_def)
  also have "\<dots> \<longleftrightarrow> ?rel < unat (data_lba ?l) - unat (start_lba ?l)"
    using format_bitmap_bit [OF L, of "word_of_nat (?rel div 4096)" "?rel mod 4096"] B k
    by (simp add: word_less_nat_alt)
  also have "\<dots> \<longleftrightarrow> lba < data_lba ?l"
    using D lba(1) by (auto simp: word_less_nat_alt word_le_nat_alt)
  finally show ?thesis .
qed

text \<open>
  C11. On every disk large enough, \<open>format\<close> succeeds and its result mounts, with the layout
  computed for the partition. The mounted file system holds the root directory and nothing
  else, and its bitmap marks exactly the metadata sectors as allocated.
\<close>

theorem format_then_mount:
  assumes L: "make_layout start count = Inr l" and d: "powered d"
    and len: "unat start + unat count \<le> length (media d)"
  shows "\<exists>d1 d2. format_dfs cached_device start count d = (Inr \<lparr>layout = l\<rparr>, d1) \<and>
    mount_dfs cached_device start count d1 = (Inr \<lparr>layout = l\<rparr>, d2) \<and>
    (\<forall>path. \<exists>d3. find_index cached_device \<lparr>layout = l\<rparr> path d2 =
       (Inr (if path = [] then Some 0 else None), d3)) \<and>
    (\<forall>lba. start \<le> lba \<and> lba < start + count \<longrightarrow>
       (in_use \<lparr>layout = l\<rparr> (seen d2) lba \<longleftrightarrow> lba < data_lba l))"
proof -
  let ?fs = "\<lparr>layout = l\<rparr>" and ?nodes = "\<lambda>i. if i = 0 then root_node else empty_node"
  have sc: "start_lba l = start" "sectors l = count" using make_layout_InrD [OF L] by simp_all
  obtain d1 where d1: "format_dfs cached_device start count d = (Inr ?fs, d1)"
    "powered d1" "fresh_fs ?fs (seen d1)"
    using outcome_succeeds [OF cached.format_works [of l d]] L d len sc by (auto simp: seen_def)
  have F: "fs_on ?fs (seen d1)" "idle ?fs (seen d1)" "seen d1 ! unat (start_lba l) = encode_superblock l"
    "\<forall>i < inode_count. node_at ?fs (seen d1) i = Inr (?nodes i)"
    using d1(3) by (simp_all add: fresh_fs_def)
  have root: "node_at ?fs (seen d1) 0 = Inr root_node" using F(4) by (simp add: abi_simps)
  obtain d2 where d2: "mount_dfs cached_device start count d1 = (Inr ?fs, d2)"
    "powered d2" "seen d2 = seen d1"
    using outcome_succeeds [OF cached.mount_works [OF F(1,2) d1(2) _ root]] F(3) sc
    by (auto simp: root_node_def empty_node_def)
  have found: "List.find (\<lambda>i. kind (?nodes i) \<noteq> 0 \<and> node_path (?nodes i) = path) [0..<inode_count] =
      (if path = [] then Some 0 else None)" for path
  proof -
    have "[0..<inode_count] = 0 # [1..<256]" by (simp add: abi_simps upt_rec)
    then show ?thesis
      by (auto simp: root_node_def empty_node_def node_path_def abi_simps find_None_iff)
  qed
  have "\<exists>d3. find_index cached_device ?fs path d2 = (Inr (if path = [] then Some 0 else None), d3)" for path
    using outcome_succeeds [OF cached.find_index_works [where nodes = ?nodes, of ?fs d2 path]]
      F d2 found by auto
  moreover have "in_use ?fs (seen d2) lba \<longleftrightarrow> lba < data_lba l"
    if "start \<le> lba" "lba < start + count" for lba
    using fresh_in_use [OF d1(3), of lba] that sc d2(3) by simp
  ultimately show ?thesis using d1(1) d2(1) by blast
qed

theorem format_then_mount_witness:
  "\<exists>d1 d2. format_dfs cached_device 1 300 (rebooted blank_disk None) = (Inr sample_fs, d1) \<and>
     mount_dfs cached_device 1 300 d1 = (Inr sample_fs, d2)"
proof -
  have "make_layout 1 300 = Inr (layout sample_fs)"
    using sample_fs_on by (simp add: fs_on_def sample_fs_def)
  moreover have "powered (rebooted blank_disk None)"
    using sample_fs_on by (simp add: powered_def fs_on_def)
  moreover have "\<lparr>layout = layout sample_fs\<rparr> = sample_fs" by (cases sample_fs) simp
  ultimately show ?thesis
    using format_then_mount [of 1 300 "layout sample_fs" "rebooted blank_disk None"]
    by (auto simp: blank_disk_def)
qed

end
