(* ===== verification/Frame_Allocator.thy ===== *)
theory Frame_Allocator
  imports Prelude
begin

text \<open>
  Physical memory at the page level: the frame allocator of \<open>kernel/src/mm/memory.rs\<close>. Its
  regions are built from the boot loader's memory map (a list of \<open>memory_entry\<close>, the
  \<open>Entry\<close> of the Limine crate reduced to the three fields the code reads) minus the ranges
  the bootstrap reserved; frames are handed out from them in order and never returned. The
  locale \<open>frame_source\<close> is what the paging code relies on.
\<close>

section \<open>Pages\<close>

definition page_size :: u64 where
  "page_size = 4096"

definition align_down :: "u64 \<Rightarrow> u64" where
  "align_down a = a AND NOT (page_size - 1)"

lemma unat_page_size [simp]: "unat page_size = 4096"
  by (simp add: page_size_def)

lemma align_down_eq: "align_down a = push_bit 12 (drop_bit 12 a)"
proof -
  have "page_size - 1 = mask 12" by (simp add: page_size_def mask_eq_exp_minus_1)
  then show ?thesis
    by (simp add: align_down_def) (rule bit_word_eqI, auto simp: bit_simps)
qed

lemma unat_align_down: "unat (align_down a) = unat a div 4096 * 4096"
proof -
  have "unat a div 4096 * 4096 < 2 ^ 64"
    using unat_u64_less [of a] by (simp add: less_mult_imp_div_less)
  then show ?thesis
    by (simp add: align_down_eq push_bit_eq_mult drop_bit_eq_div unat_word_ariths unat_div mult.commute)
qed

lemma align_down_le: "align_down a \<le> a"
  by (simp add: word_le_nat_alt unat_align_down)

lemma align_down_mono: "a \<le> b \<Longrightarrow> align_down a \<le> align_down b"
  by (simp add: word_le_nat_alt unat_align_down div_le_mono)

definition page_aligned :: "u64 \<Rightarrow> bool" where
  "page_aligned a \<longleftrightarrow> align_down a = a"

lemma page_aligned_iff: "page_aligned a \<longleftrightarrow> 4096 dvd unat a"
proof -
  have "page_aligned a \<longleftrightarrow> unat (align_down a) = unat a"
    unfolding page_aligned_def by (rule word_unat_eq_iff)
  also have "\<dots> \<longleftrightarrow> 4096 dvd unat a"
    by (auto simp: unat_align_down dvd_eq_mod_eq_0)
      (metis mod_div_mult_eq add_cancel_right_left add.commute)
  finally show ?thesis .
qed

lemma page_aligned_align_down [simp]: "page_aligned (align_down a)"
  by (simp add: page_aligned_iff unat_align_down)

lemma page_aligned_step:
  assumes "page_aligned a" "page_aligned b" "a < b"
  shows "unat a + 4096 \<le> unat b"
  using assms by (auto simp: page_aligned_iff word_less_nat_alt elim!: dvdE)

lemma page_aligned_max: "page_aligned a \<Longrightarrow> a \<le> - page_size"
proof -
  assume "page_aligned a"
  then obtain k where k: "unat a = 4096 * k" by (auto simp: page_aligned_iff elim: dvdE)
  with unat_u64_less [of a] have "unat a \<le> 18446744073709547520" by simp
  then show ?thesis by (simp add: word_le_nat_alt page_size_def)
qed

section \<open>State\<close>

definition max_regions :: nat where
  "max_regions = 128"

record region =
  region_next :: u64
  region_end :: u64

definition empty_region :: region where
  "empty_region = \<lparr>region_next = 0, region_end = 0\<rparr>"

record frame_allocator =
  regions :: "region list"
  region_count :: nat
  current_region :: nat
  hhdm_offset :: u64

record frame =
  physical_address :: u64
  virtual_address :: u64

record memory_entry =
  entry_base :: u64
  entry_length :: u64
  entry_usable :: bool

record physical_range =
  range_start :: u64
  range_length :: u64

section \<open>Operations\<close>

definition push_region :: "u64 \<Rightarrow> u64 \<Rightarrow> frame_allocator \<Rightarrow> frame_allocator" where
  "push_region a b al = al\<lparr>regions := (regions al)[region_count al := \<lparr>region_next = a, region_end = b\<rparr>],
     region_count := region_count al + 1\<rparr>"

definition saturating_add_u64 :: "u64 \<Rightarrow> u64 \<Rightarrow> u64" where
  "saturating_add_u64 a b = (case checked_add a b of None \<Rightarrow> - 1 | Some c \<Rightarrow> c)"

fun add_unreserved_regions ::
  "physical_range list \<Rightarrow> u64 \<Rightarrow> u64 \<Rightarrow> frame_allocator \<Rightarrow> frame_allocator" where
  "add_unreserved_regions [] base finish al =
     (if base < finish \<and> region_count al < max_regions then push_region base finish al else al)"
| "add_unreserved_regions (r # rs) base finish al =
     (case checked_add (range_start r) (range_length r) of
        None \<Rightarrow> add_unreserved_regions rs base finish al
      | Some reserved_end \<Rightarrow>
          let reserved_start = align_down (range_start r);
              reserved_end = align_down (saturating_add_u64 reserved_end (page_size - 1))
          in if reserved_end \<le> base \<or> finish \<le> reserved_start
             then add_unreserved_regions rs base finish al
             else
               let al = (if base < reserved_start \<and> region_count al < max_regions
                         then push_region base (min reserved_start finish) al else al);
                   base = max base reserved_end
               in if finish \<le> base then al else add_unreserved_regions rs base finish al)"

definition add_entry ::
  "physical_range list \<Rightarrow> memory_entry \<Rightarrow> frame_allocator \<Rightarrow> frame_allocator" where
  "add_entry reserved e al =
     (if \<not> entry_usable e \<or> region_count al = max_regions then al
      else (case checked_add (entry_base e) (entry_length e) of
        None \<Rightarrow> al
      | Some finish \<Rightarrow> (case checked_add (entry_base e) (page_size - 1) of
          None \<Rightarrow> al
        | Some aligned_base \<Rightarrow>
            let base = align_down aligned_base; finish = align_down finish
            in if base < finish then add_unreserved_regions reserved base finish al else al)))"

definition fresh_allocator :: "u64 \<Rightarrow> frame_allocator" where
  "fresh_allocator offset = \<lparr>regions = replicate max_regions empty_region, region_count = 0,
     current_region = 0, hhdm_offset = offset\<rparr>"

definition count_frames :: "frame_allocator \<Rightarrow> nat" where
  "count_frames al =
     sum_list (map (\<lambda>r. unat ((region_end r - region_next r) div page_size))
       (take (region_count al) (regions al)))"

definition init_memory ::
  "memory_entry list \<Rightarrow> u64 \<Rightarrow> physical_range list \<Rightarrow> nat \<times> frame_allocator" where
  "init_memory entries offset reserved =
     (let al = fold (add_entry reserved) entries (fresh_allocator offset)
      in (count_frames al, al))"

function allocate_frame :: "frame_allocator \<Rightarrow> frame option \<times> frame_allocator" where
  "allocate_frame al =
     (if current_region al < region_count al then
        let r = regions al ! current_region al in
        if region_next r < region_end r then
          (case checked_add (region_next r) page_size of
             None \<Rightarrow> (None, al)
           | Some n \<Rightarrow>
               let al' = al\<lparr>regions := (regions al)[current_region al := r\<lparr>region_next := n\<rparr>]\<rparr>
               in (case checked_add (region_next r) (hhdm_offset al) of
                     None \<Rightarrow> (None, al')
                   | Some v \<Rightarrow> (Some \<lparr>physical_address = region_next r, virtual_address = v\<rparr>, al')))
        else allocate_frame (al\<lparr>current_region := current_region al + 1\<rparr>)
      else (None, al))"
  by pat_completeness auto
termination
  by (relation "measure (\<lambda>al. region_count al - current_region al)") auto

declare allocate_frame.simps [simp del]

definition phys_to_virt :: "frame_allocator \<Rightarrow> u64 \<Rightarrow> u64 option" where
  "phys_to_virt al physical = checked_add physical (hhdm_offset al)"

section \<open>What the regions leave out\<close>

text \<open>
  The pages a reserved range blocks, as the code rounds it, and the list of free ranges that
  \<open>add_unreserved_regions\<close> pushes as long as the table has room.
\<close>

definition blocked_range :: "physical_range \<Rightarrow> (u64 \<times> u64) option" where
  "blocked_range r = (case checked_add (range_start r) (range_length r) of
     None \<Rightarrow> None
   | Some e \<Rightarrow> Some (align_down (range_start r), align_down (saturating_add_u64 e (page_size - 1))))"

definition blocks :: "physical_range \<Rightarrow> u64 \<Rightarrow> bool" where
  "blocks r a \<longleftrightarrow> (case blocked_range r of None \<Rightarrow> False | Some (s, e) \<Rightarrow> s \<le> a \<and> a < e)"

fun free_ranges :: "physical_range list \<Rightarrow> u64 \<Rightarrow> u64 \<Rightarrow> (u64 \<times> u64) list" where
  "free_ranges [] base finish = (if base < finish then [(base, finish)] else [])"
| "free_ranges (r # rs) base finish = (case blocked_range r of
     None \<Rightarrow> free_ranges rs base finish
   | Some (s, e) \<Rightarrow>
       if e \<le> base \<or> finish \<le> s then free_ranges rs base finish
       else (if base < s then [(base, min s finish)] else []) @
         (if finish \<le> max base e then [] else free_ranges rs (max base e) finish))"

definition push_regions :: "(u64 \<times> u64) list \<Rightarrow> frame_allocator \<Rightarrow> frame_allocator" where
  "push_regions xs al = fold (\<lambda>(a, b). push_region a b) (take (max_regions - region_count al) xs) al"

lemma push_region_frame [simp]:
  "region_count (push_region a b al) = region_count al + 1"
  "length (regions (push_region a b al)) = length (regions al)"
  "current_region (push_region a b al) = current_region al"
  "hhdm_offset (push_region a b al) = hhdm_offset al"
  by (simp_all add: push_region_def)

lemma push_regions_Nil [simp]: "push_regions [] al = al"
  by (simp add: push_regions_def)

lemma push_regions_full: "max_regions \<le> region_count al \<Longrightarrow> push_regions xs al = al"
  by (simp add: push_regions_def)

lemma push_regions_Cons:
  "region_count al < max_regions \<Longrightarrow>
     push_regions ((a, b) # xs) al = push_regions xs (push_region a b al)"
  by (simp add: push_regions_def take_Cons' Suc_diff_Suc [symmetric])

lemma add_unreserved_regions_push:
  "add_unreserved_regions rs base finish al = push_regions (free_ranges rs base finish) al"
proof (induction rs arbitrary: base al)
  case Nil
  then show ?case by (auto simp: push_regions_Cons push_regions_full)
next
  case (Cons r rs)
  show ?case
  proof (cases "checked_add (range_start r) (range_length r)")
    case None
    then show ?thesis using Cons.IH by (simp add: blocked_range_def)
  next
    case (Some e)
    then show ?thesis
      using Cons.IH
      by (cases "region_count al < max_regions")
        (auto simp: blocked_range_def Let_def push_regions_Cons push_regions_full)
  qed
qed

lemma blocked_range_aligned:
  "blocked_range r = Some (s, e) \<Longrightarrow> page_aligned s \<and> page_aligned e"
  by (auto simp: blocked_range_def split: option.splits)

lemma saturating_add_u64_unat:
  "unat (saturating_add_u64 a b) = min (unat a + unat b) 18446744073709551615"
  using unat_u64_less [of a] unat_u64_less [of b]
  by (auto simp: saturating_add_u64_def checked_add_def unat_word_ariths unat_u64_max)

lemma unat_page_mask [simp]: "unat (page_size - 1) = 4095"
  by (simp add: page_size_def)

lemma blocked_range_ordered:
  assumes "blocked_range r = Some (s, e)"
  shows "s \<le> e"
proof -
  obtain x where x: "checked_add (range_start r) (range_length r) = Some x"
      "s = align_down (range_start r)" "e = align_down (saturating_add_u64 x (page_size - 1))"
    using assms by (auto simp: blocked_range_def split: option.splits)
  have "range_start r \<le> saturating_add_u64 x (page_size - 1)"
    using checked_add_unat [OF x(1)] unat_u64_less [of x]
    by (simp add: word_le_nat_alt saturating_add_u64_unat)
  then show ?thesis unfolding x(2,3) by (rule align_down_mono)
qed

text \<open>The bytes of a range and of the frame that starts at an address.\<close>

definition range_bytes :: "physical_range \<Rightarrow> nat set" where
  "range_bytes r = {unat (range_start r)..<unat (range_start r) + unat (range_length r)}"

definition frame_bytes :: "u64 \<Rightarrow> nat set" where
  "frame_bytes a = {unat a..<unat a + 4096}"

lemma overlap_blocks:
  assumes "page_aligned a" "page_aligned b" "a < b"
    and "checked_add (range_start r) (range_length r) = Some e"
    and "n \<in> range_bytes r" "n \<in> frame_bytes a"
  shows "blocks r a"
proof -
  have e: "unat e = unat (range_start r) + unat (range_length r)"
    using checked_add_unat [OF assms(4)] .
  let ?E = "saturating_add_u64 e (page_size - 1)"
  have n: "unat (range_start r) \<le> n" "n < unat e" "unat a \<le> n" "n < unat a + 4096"
    using assms(5,6) e by (simp_all add: range_bytes_def frame_bytes_def)
  obtain k where k: "unat a = 4096 * k"
    using assms(1) by (auto simp: page_aligned_iff elim: dvdE)
  have "unat a + 4096 \<le> unat b" by (rule page_aligned_step [OF assms(1-3)])
  moreover have "unat b \<le> 18446744073709547520"
    using page_aligned_max [OF assms(2)] by (simp add: word_le_nat_alt page_size_def)
  ultimately have "4096 * Suc k \<le> unat ?E"
    using n k by (simp add: saturating_add_u64_unat)
  then have "Suc k \<le> unat ?E div 4096" by (simp add: less_eq_div_iff_mult_less_eq mult.commute)
  moreover have "unat (range_start r) div 4096 \<le> k"
    using n k by (simp add: div_le_mono less_mult_imp_div_less flip: less_Suc_eq_le)
  ultimately show ?thesis
    using assms(4) k
    by (simp add: blocks_def blocked_range_def word_le_nat_alt word_less_nat_alt unat_align_down)
qed

definition ranges_within :: "u64 \<Rightarrow> u64 \<Rightarrow> (u64 \<times> u64) list \<Rightarrow> bool" where
  "ranges_within base finish xs \<longleftrightarrow>
     (\<forall>x \<in> set xs. base \<le> fst x \<and> fst x < snd x \<and> snd x \<le> finish \<and>
       page_aligned (fst x) \<and> page_aligned (snd x)) \<and>
     sorted_wrt (\<lambda>x y. snd x \<le> fst y) xs"

lemma ranges_within_Nil [simp]: "ranges_within base finish []"
  by (simp add: ranges_within_def)

lemma ranges_within_Cons:
  assumes "ranges_within c finish xs" "base < b" "b \<le> c" "b \<le> finish"
    "page_aligned base" "page_aligned b"
  shows "ranges_within base finish ((base, b) # xs)"
  using assms by (fastforce simp: ranges_within_def)

lemma ranges_within_mono: "ranges_within c finish xs \<Longrightarrow> base \<le> c \<Longrightarrow> ranges_within base finish xs"
  by (fastforce simp: ranges_within_def)

lemma free_ranges_within:
  assumes "page_aligned base" "page_aligned finish"
  shows "ranges_within base finish (free_ranges rs base finish)"
  using assms
proof (induction rs arbitrary: base)
  case Nil
  then show ?case by (simp add: ranges_within_def)
next
  case (Cons r rs)
  show ?case
  proof (cases "blocked_range r")
    case None
    with Cons show ?thesis by simp
  next
    case (Some se)
    then obtain s e where se: "blocked_range r = Some (s, e)" by (cases se) auto
    note al = blocked_range_aligned [OF se]
    show ?thesis
    proof (cases "e \<le> base \<or> finish \<le> s")
      case True
      with se Cons show ?thesis by simp
    next
      case False
      let ?rest = "if finish \<le> max base e then [] else free_ranges rs (max base e) finish"
      have "ranges_within (max base e) finish ?rest"
        using Cons.IH [of "max base e"] Cons.prems al by (simp add: max_def)
      then have "ranges_within base finish ?rest"
          "base < s \<Longrightarrow> s \<le> e \<Longrightarrow> ranges_within base finish ((base, s) # ?rest)"
        using False al Cons.prems
        by (auto intro: ranges_within_mono ranges_within_Cons [of "max base e"])
      moreover have "s \<le> e" by (rule blocked_range_ordered [OF se])
      moreover have "min s finish = s" using False by (auto simp: min_def not_le)
      ultimately show ?thesis
        using se False by (cases "base < s") (simp_all add: max_absorb2)
    qed
  qed
qed

definition starts_sorted :: "physical_range list \<Rightarrow> bool" where
  "starts_sorted rs \<longleftrightarrow> sorted (map range_start rs)"

lemma free_ranges_pages:
  assumes "page_aligned a"
  shows "starts_sorted rs \<Longrightarrow>
    (\<exists>(s, e) \<in> set (free_ranges rs base finish). s \<le> a \<and> a < e) \<longleftrightarrow>
     base \<le> a \<and> a < finish \<and> (\<forall>r \<in> set rs. \<not> blocks r a)"
proof (induction rs arbitrary: base)
  case Nil
  then show ?case by auto
next
  case (Cons r rs)
  have rs: "starts_sorted rs" and first: "\<And>q. q \<in> set rs \<Longrightarrow> range_start r \<le> range_start q"
    using Cons.prems by (auto simp: starts_sorted_def)
  show ?case
  proof (cases "blocked_range r")
    case None
    then show ?thesis using Cons.IH [OF rs] by (simp add: blocks_def)
  next
    case (Some se)
    then obtain s e where se: "blocked_range r = Some (s, e)" by (cases se) auto
    have later: "\<not> blocks q a" if "q \<in> set rs" "a < s" for q
      using first [OF that(1)] that(2) se align_down_mono [of "range_start r" "range_start q"]
      by (auto simp: blocks_def blocked_range_def split: option.splits)
    have r: "blocks r a \<longleftrightarrow> s \<le> a \<and> a < e" using se by (simp add: blocks_def)
    show ?thesis
    proof (cases "e \<le> base \<or> finish \<le> s")
      case True
      then show ?thesis using se Cons.IH [OF rs] r by auto
    next
      case False
      then have *: "(\<exists>(s, e) \<in> set (free_ranges (r # rs) base finish). s \<le> a \<and> a < e) \<longleftrightarrow>
          (base < s \<and> base \<le> a \<and> a < s \<and> a < finish) \<or>
          (max base e \<le> a \<and> a < finish \<and> (\<forall>r \<in> set rs. \<not> blocks r a))"
        using se Cons.IH [OF rs, of "max base e"] by auto
      show ?thesis
        unfolding * using False later r by (auto simp: not_le)
    qed
  qed
qed

section \<open>The allocator's invariant\<close>

definition region_pages :: "frame_allocator \<Rightarrow> nat \<Rightarrow> u64 set" where
  "region_pages al i = {a. page_aligned a \<and> region_next (regions al ! i) \<le> a \<and>
     a < region_end (regions al ! i)}"

definition free_pages :: "frame_allocator \<Rightarrow> u64 set" where
  "free_pages al = (\<Union>i \<in> {current_region al..<region_count al}. region_pages al i)"

definition allocator_ok :: "frame_allocator \<Rightarrow> bool" where
  "allocator_ok al \<longleftrightarrow>
     length (regions al) = max_regions \<and> region_count al \<le> max_regions \<and>
     (\<forall>i < region_count al. page_aligned (region_next (regions al ! i)) \<and>
       page_aligned (region_end (regions al ! i))) \<and>
     (\<forall>i < region_count al. \<forall>j < region_count al. i \<noteq> j \<longrightarrow>
       region_pages al i \<inter> region_pages al j = {})"

fun take_frames :: "('s \<Rightarrow> 'f option \<times> 's) \<Rightarrow> nat \<Rightarrow> 's \<Rightarrow> 'f list \<times> 's" where
  "take_frames alloc 0 s = ([], s)"
| "take_frames alloc (Suc n) s = (case alloc s of
     (None, s') \<Rightarrow> ([], s')
   | (Some f, s') \<Rightarrow> let (fs, s'') = take_frames alloc n s' in (f # fs, s''))"

text \<open>
  Any supplier of page frames: each frame it hands out was free and is not free any more.
  Clients derive that no frame is ever handed out twice.
\<close>

locale frame_source =
  fixes alloc :: "'s \<Rightarrow> 'f option \<times> 's"
    and address :: "'f \<Rightarrow> u64"
    and free :: "'s \<Rightarrow> u64 set"
    and ok :: "'s \<Rightarrow> bool"
  assumes alloc_keeps: "ok s \<Longrightarrow> alloc s = (r, s') \<Longrightarrow> ok s' \<and> free s' \<subseteq> free s"
    and alloc_fresh: "ok s \<Longrightarrow> alloc s = (Some f, s') \<Longrightarrow> address f \<in> free s - free s'"
begin

lemma take_frames_fresh:
  assumes "ok s" "take_frames alloc n s = (fs, s')"
  shows "ok s' \<and> free s' \<subseteq> free s \<and> distinct (map address fs) \<and>
    address ` set fs \<subseteq> free s - free s'"
  using assms
proof (induction n arbitrary: s fs s')
  case 0
  then show ?case by simp
next
  case (Suc n)
  obtain r s1 where r: "alloc s = (r, s1)" by (cases "alloc s")
  note keep = alloc_keeps [OF Suc.prems(1) r]
  show ?case
  proof (cases r)
    case None
    with r Suc.prems keep show ?thesis by simp
  next
    case (Some f)
    then obtain gs where gs: "take_frames alloc n s1 = (gs, s')" "fs = f # gs"
      using r Suc.prems by (auto split: prod.splits)
    have IH: "ok s' \<and> free s' \<subseteq> free s1 \<and> distinct (map address gs) \<and>
        address ` set gs \<subseteq> free s1 - free s'"
      using Suc.IH [of s1, OF _ gs(1)] keep by simp
    moreover have "address f \<in> free s - free s1"
      using alloc_fresh [OF Suc.prems(1)] r Some by simp
    ultimately show ?thesis using gs(2) keep by auto
  qed
qed

end

lemma region_pages_current [simp]: "region_pages (al\<lparr>current_region := k\<rparr>) = region_pages al"
  by (rule ext) (simp add: region_pages_def)

lemma free_pages_skip:
  assumes "\<not> region_next (regions al ! current_region al) < region_end (regions al ! current_region al)"
    and "current_region al < region_count al"
  shows "free_pages (al\<lparr>current_region := current_region al + 1\<rparr>) = free_pages al"
proof -
  have "{current_region al..<region_count al} =
      insert (current_region al) {Suc (current_region al)..<region_count al}"
    using assms(2) by auto
  moreover have "region_pages al (current_region al) = {}"
    using assms(1) by (auto simp: region_pages_def)
  ultimately show ?thesis by (simp add: free_pages_def)
qed

lemma page_step_range:
  assumes "page_aligned n" "page_aligned a" "page_aligned e" "n < e"
    "checked_add n page_size = Some n'"
  shows "n' \<le> a \<and> a < e \<longleftrightarrow> n \<le> a \<and> a < e \<and> a \<noteq> n"
proof -
  have n': "unat n' = unat n + 4096"
    using checked_add_unat [OF assms(5)] by simp
  show ?thesis
    using page_aligned_step [OF assms(1,2)] n'
    by (auto simp: word_le_nat_alt word_less_nat_alt word_unat_eq_iff)
qed

lemma page_aligned_next:
  "page_aligned n \<Longrightarrow> checked_add n page_size = Some n' \<Longrightarrow> page_aligned n'"
  by (drule checked_add_unat) (auto simp: page_aligned_iff)

lemma allocator_ok_next:
  assumes ok: "allocator_ok al" and i: "current_region al < region_count al"
    and lt: "region_next (regions al ! current_region al) < region_end (regions al ! current_region al)"
    and step: "checked_add (region_next (regions al ! current_region al)) page_size = Some n"
    and al': "al' = al\<lparr>regions := (regions al)[current_region al :=
      (regions al ! current_region al)\<lparr>region_next := n\<rparr>]\<rparr>"
  shows "allocator_ok al'"
    "free_pages al' = free_pages al - {region_next (regions al ! current_region al)}"
    "region_next (regions al ! current_region al) \<in> free_pages al"
proof -
  let ?i = "current_region al"
  let ?n = "region_next (regions al ! ?i)"
  have len: "length (regions al) = max_regions" "?i < max_regions"
    using ok i by (auto simp: allocator_ok_def)
  have aligned: "page_aligned ?n" "page_aligned (region_end (regions al ! ?i))" "page_aligned n"
    using ok i page_aligned_next [OF _ step] by (auto simp: allocator_ok_def)
  have pages: "region_pages al' j = (if j = ?i then region_pages al ?i - {?n} else region_pages al j)"
    for j
  proof (cases "j = ?i")
    case True
    have "region_pages al' ?i = {a. page_aligned a \<and> n \<le> a \<and> a < region_end (regions al ! ?i)}"
      using len by (simp add: al' region_pages_def)
    also have "\<dots> = region_pages al ?i - {?n}"
      using page_step_range [OF aligned(1) _ aligned(2) lt step] by (auto simp: region_pages_def)
    finally show ?thesis using True by simp
  next
    case False
    then show ?thesis by (simp add: al' region_pages_def)
  qed
  have start: "?n \<in> region_pages al ?i"
    using aligned lt by (auto simp: region_pages_def)
  have other: "?n \<notin> region_pages al j" if "j < region_count al" "j \<noteq> ?i" for j
    using ok i that start by (auto simp: allocator_ok_def)
  have bounds: "region_count al' = region_count al" "current_region al' = ?i"
    "length (regions al') = max_regions"
    using len by (simp_all add: al')
  have al_aligned: "page_aligned (region_next (regions al' ! j)) \<and> page_aligned (region_end (regions al' ! j))"
    if "j < region_count al" for j
    using ok that aligned len by (cases "j = ?i") (auto simp: al' allocator_ok_def)
  show "allocator_ok al'"
    unfolding allocator_ok_def pages bounds
    using ok al_aligned by (simp add: allocator_ok_def) blast
  show "free_pages al' = free_pages al - {?n}"
    unfolding free_pages_def pages bounds using i other by (auto split: if_split_asm)
  show "?n \<in> free_pages al"
    unfolding free_pages_def using i start by auto
qed

lemma allocate_frame_ok:
  assumes "allocator_ok al" "allocate_frame al = (r, al')"
  shows "allocator_ok al' \<and> free_pages al' \<subseteq> free_pages al \<and> hhdm_offset al' = hhdm_offset al \<and>
    (\<forall>f. r = Some f \<longrightarrow> physical_address f \<in> free_pages al - free_pages al' \<and>
      checked_add (physical_address f) (hhdm_offset al) = Some (virtual_address f))"
  using assms
proof (induction al arbitrary: r al' rule: allocate_frame.induct)
  case (1 al)
  let ?r = "regions al ! current_region al"
  show ?case
  proof (cases "current_region al < region_count al")
    case False
    with "1.prems" show ?thesis by (auto simp: allocate_frame.simps [of al])
  next
    case True
    show ?thesis
    proof (cases "region_next ?r < region_end ?r")
      case False
      have "allocator_ok (al\<lparr>current_region := current_region al + 1\<rparr>)"
        using "1.prems"(1) by (simp add: allocator_ok_def region_pages_def)
      then show ?thesis
        using "1.IH" [OF True refl False] "1.prems"(2) True False free_pages_skip [OF False True]
        by (simp add: allocate_frame.simps [of al] Let_def)
    next
      case less: True
      show ?thesis
      proof (cases "checked_add (region_next ?r) page_size")
        case None
        with True less "1.prems" show ?thesis
          by (auto simp: allocate_frame.simps [of al] Let_def)
      next
        case (Some n)
        let ?al = "al\<lparr>regions := (regions al)[current_region al := ?r\<lparr>region_next := n\<rparr>]\<rparr>"
        note step = allocator_ok_next [OF "1.prems"(1) True less Some refl]
        have "allocate_frame al = (case checked_add (region_next ?r) (hhdm_offset al) of
              None \<Rightarrow> (None, ?al)
            | Some v \<Rightarrow> (Some \<lparr>physical_address = region_next ?r, virtual_address = v\<rparr>, ?al))"
          using True less Some by (simp add: allocate_frame.simps [of al] Let_def)
        then have "al' = ?al" "\<And>f. r = Some f \<Longrightarrow> physical_address f = region_next ?r \<and>
            checked_add (region_next ?r) (hhdm_offset al) = Some (virtual_address f)"
          using "1.prems"(2) by (auto split: option.splits)
        then show ?thesis using step by simp
      qed
    qed
  qed
qed

interpretation frames: frame_source allocate_frame physical_address free_pages allocator_ok
  by unfold_locales (use allocate_frame_ok in \<open>blast+\<close>)

section \<open>The allocator that initialisation builds\<close>

definition region_list :: "frame_allocator \<Rightarrow> (u64 \<times> u64) list" where
  "region_list al = map (\<lambda>r. (region_next r, region_end r)) (take (region_count al) (regions al))"

definition ranges_apart :: "u64 \<times> u64 \<Rightarrow> u64 \<times> u64 \<Rightarrow> bool" where
  "ranges_apart x y \<longleftrightarrow> (\<forall>a. \<not> (fst x \<le> a \<and> a < snd x \<and> fst y \<le> a \<and> a < snd y))"

definition entry_bytes :: "memory_entry \<Rightarrow> nat set" where
  "entry_bytes e = {unat (entry_base e)..<unat (entry_base e) + unat (entry_length e)}"

text \<open>The boot protocol's guarantee on the memory map: usable entries do not overlap.\<close>

definition usable_disjoint :: "memory_entry list \<Rightarrow> bool" where
  "usable_disjoint entries \<longleftrightarrow> sorted_wrt (\<lambda>e f. entry_usable e \<longrightarrow> entry_usable f \<longrightarrow>
     entry_bytes e \<inter> entry_bytes f = {}) entries"

definition tables_ok :: "frame_allocator \<Rightarrow> bool" where
  "tables_ok al \<longleftrightarrow> length (regions al) = max_regions \<and> region_count al \<le> max_regions \<and>
     current_region al = 0"

lemma region_list_push:
  "region_count al < length (regions al) \<Longrightarrow>
     region_list (push_region a b al) = region_list al @ [(a, b)]"
  by (simp add: region_list_def push_region_def take_Suc_conv_app_nth)

lemma length_region_list: "tables_ok al \<Longrightarrow> length (region_list al) = region_count al"
  by (simp add: region_list_def tables_ok_def)

lemma push_regions_spec:
  assumes "tables_ok al"
  shows "tables_ok (push_regions xs al) \<and> hhdm_offset (push_regions xs al) = hhdm_offset al \<and>
    region_list (push_regions xs al) = region_list al @ take (max_regions - region_count al) xs"
  using assms
proof (induction xs arbitrary: al)
  case Nil
  then show ?case by simp
next
  case (Cons x xs)
  show ?case
  proof (cases "region_count al < max_regions")
    case True
    obtain a b where x: "x = (a, b)" by (cases x)
    have "tables_ok (push_region a b al)"
      using Cons.prems True by (simp add: tables_ok_def)
    from Cons.IH [OF this] show ?thesis
      using True Cons.prems
      by (simp add: x push_regions_Cons region_list_push tables_ok_def take_Cons'
          Suc_diff_Suc [symmetric])
  next
    case False
    then show ?thesis using Cons.prems by (simp add: push_regions_full)
  qed
qed

text \<open>What every region of the finished table satisfies, with the entries processed so far.\<close>

definition region_good :: "memory_entry list \<Rightarrow> physical_range list \<Rightarrow> u64 \<times> u64 \<Rightarrow> bool" where
  "region_good entries reserved x \<longleftrightarrow> page_aligned (fst x) \<and> page_aligned (snd x) \<and>
     (\<exists>e \<in> set entries. entry_usable e \<and> unat (entry_base e) \<le> unat (fst x) \<and>
        unat (snd x) \<le> unat (entry_base e) + unat (entry_length e)) \<and>
     (\<forall>a. page_aligned a \<longrightarrow> fst x \<le> a \<longrightarrow> a < snd x \<longrightarrow> (\<forall>r \<in> set reserved. \<not> blocks r a))"

definition table_good :: "memory_entry list \<Rightarrow> physical_range list \<Rightarrow> frame_allocator \<Rightarrow> bool" where
  "table_good entries reserved al \<longleftrightarrow> tables_ok al \<and>
     (\<forall>x \<in> set (region_list al). region_good entries reserved x) \<and>
     sorted_wrt ranges_apart (region_list al)"

lemma table_good_mono:
  "table_good es reserved al \<Longrightarrow> set es \<subseteq> set es' \<Longrightarrow> table_good es' reserved al"
  unfolding table_good_def region_good_def by blast

lemma align_up_ge:
  assumes "checked_add a (page_size - 1) = Some b"
  shows "unat a \<le> unat (align_down b)"
  using checked_add_unat [OF assms] by (simp add: unat_align_down)

lemma ranges_within_apart: "ranges_within base finish xs \<Longrightarrow> sorted_wrt ranges_apart xs"
  unfolding ranges_within_def ranges_apart_def
  by (elim conjE, erule sorted_wrt_mono_rel [rotated]) (metis leD order.strict_trans1 order.trans)

lemma sorted_wrt_take: "sorted_wrt P xs \<Longrightarrow> sorted_wrt P (take n xs)"
  by (metis append_take_drop_id sorted_wrt_append)

lemma add_entry_good:
  assumes good: "table_good es reserved al" and rs: "starts_sorted reserved"
    and disj: "\<forall>f \<in> set es. entry_usable f \<longrightarrow> entry_usable e \<longrightarrow> entry_bytes f \<inter> entry_bytes e = {}"
  shows "table_good (es @ [e]) reserved (add_entry reserved e al) \<and>
    hhdm_offset (add_entry reserved e al) = hhdm_offset al"
proof -
  have keep: "table_good (es @ [e]) reserved al"
    using good by (rule table_good_mono) auto
  show ?thesis
  proof (cases "add_entry reserved e al = al")
    case True
    with keep show ?thesis by simp
  next
    case False
    then obtain f ab where f: "checked_add (entry_base e) (entry_length e) = Some f"
        "checked_add (entry_base e) (page_size - 1) = Some ab" "entry_usable e"
        and eq: "add_entry reserved e al =
          push_regions (free_ranges reserved (align_down ab) (align_down f)) al"
      by (auto simp: add_entry_def Let_def add_unreserved_regions_push split: if_splits option.splits)
    let ?xs = "free_ranges reserved (align_down ab) (align_down f)"
    have within: "ranges_within (align_down ab) (align_down f) ?xs"
      by (rule free_ranges_within) simp_all
    have lo: "unat (entry_base e) \<le> unat (align_down ab)" by (rule align_up_ge [OF f(2)])
    have hi: "unat (align_down f) \<le> unat (entry_base e) + unat (entry_length e)"
      using align_down_le [of f] checked_add_unat [OF f(1)] by (simp add: word_le_nat_alt)
    have new: "region_good (es @ [e]) reserved x \<and>
        unat (entry_base e) \<le> unat (fst x) \<and> unat (snd x) \<le> unat (entry_base e) + unat (entry_length e)"
      if x: "x \<in> set ?xs" for x
    proof -
      have x1: "align_down ab \<le> fst x" "snd x \<le> align_down f" "page_aligned (fst x)" "page_aligned (snd x)"
        using within x by (auto simp: ranges_within_def)
      have "\<not> blocks r a" if a: "page_aligned a" "fst x \<le> a" "a < snd x" "r \<in> set reserved" for a r
        using free_ranges_pages [OF a(1) rs, of "align_down ab" "align_down f"] x a
        by (metis (mono_tags, lifting) case_prodI2 prod.collapse prod.sel)
      moreover have "unat (entry_base e) \<le> unat (fst x)"
          "unat (snd x) \<le> unat (entry_base e) + unat (entry_length e)"
        using x1(1,2) lo hi by (simp_all add: word_le_nat_alt)
      ultimately show ?thesis using x1(3,4) f(3) by (auto simp: region_good_def)
    qed
    have apart: "ranges_apart y x" if y: "y \<in> set (region_list al)" and x: "x \<in> set ?xs" for x y
    proof -
      obtain g where g: "g \<in> set es" "entry_usable g" "unat (entry_base g) \<le> unat (fst y)"
          "unat (snd y) \<le> unat (entry_base g) + unat (entry_length g)"
        using good y by (auto simp: table_good_def region_good_def)
      have "entry_bytes g \<inter> entry_bytes e = {}" using disj g f(3) by blast
      then show ?thesis
        using g(3,4) new [OF x]
        by (auto simp: ranges_apart_def entry_bytes_def word_le_nat_alt word_less_nat_alt disjoint_iff)
    qed
    have spec: "tables_ok (push_regions ?xs al)" "hhdm_offset (push_regions ?xs al) = hhdm_offset al"
        "region_list (push_regions ?xs al) = region_list al @ take (max_regions - region_count al) ?xs"
      using push_regions_spec [of al ?xs] good by (simp_all add: table_good_def)
    have "table_good (es @ [e]) reserved (push_regions ?xs al)"
      unfolding table_good_def spec(3) sorted_wrt_append
      using spec(1) keep new apart sorted_wrt_take [OF ranges_within_apart [OF within]]
      by (auto simp: table_good_def dest: in_set_takeD)
    then show ?thesis by (simp add: eq spec(2))
  qed
qed

lemma fold_entries_good:
  assumes "table_good es reserved al" "starts_sorted reserved" "usable_disjoint (es @ fs)"
  shows "table_good (es @ fs) reserved (fold (add_entry reserved) fs al) \<and>
    hhdm_offset (fold (add_entry reserved) fs al) = hhdm_offset al"
  using assms
proof (induction fs arbitrary: es al)
  case Nil
  then show ?case by simp
next
  case (Cons f fs)
  have "\<forall>g \<in> set es. entry_usable g \<longrightarrow> entry_usable f \<longrightarrow> entry_bytes g \<inter> entry_bytes f = {}"
    using Cons.prems(3) by (auto simp: usable_disjoint_def sorted_wrt_append)
  from add_entry_good [OF Cons.prems(1,2) this]
  show ?case using Cons.IH [of "es @ [f]" "add_entry reserved f al"] Cons.prems by simp
qed

lemma table_good_fresh: "table_good [] reserved (fresh_allocator offset)"
  by (simp add: table_good_def tables_ok_def region_list_def fresh_allocator_def)

lemma init_memory_good:
  assumes "usable_disjoint entries" "starts_sorted reserved" "init_memory entries offset reserved = (n, al)"
  shows "table_good entries reserved al \<and> hhdm_offset al = offset"
  using fold_entries_good [OF table_good_fresh [of reserved offset] assms(2), of entries] assms(1,3)
  by (simp add: init_memory_def Let_def fresh_allocator_def)

lemma region_list_nth:
  "tables_ok al \<Longrightarrow> i < region_count al \<Longrightarrow>
     region_list al ! i = (region_next (regions al ! i), region_end (regions al ! i))"
  by (simp add: region_list_def tables_ok_def)

lemma ranges_apart_nth:
  assumes "sorted_wrt ranges_apart xs" "i < length xs" "j < length xs" "i \<noteq> j"
  shows "ranges_apart (xs ! i) (xs ! j)"
proof (cases "i < j")
  case True
  with assms show ?thesis by (simp add: sorted_wrt_iff_nth_less)
next
  case False
  with assms have "ranges_apart (xs ! j) (xs ! i)" by (simp add: sorted_wrt_iff_nth_less)
  then show ?thesis by (auto simp: ranges_apart_def)
qed

lemma table_good_ok:
  assumes "table_good entries reserved al"
  shows "allocator_ok al"
proof -
  have ok: "tables_ok al" using assms by (simp add: table_good_def)
  have in_list: "(region_next (regions al ! i), region_end (regions al ! i)) \<in> set (region_list al)"
    if "i < region_count al" for i
    using region_list_nth [OF ok that] length_region_list [OF ok] that by (metis nth_mem)
  have "region_pages al i \<inter> region_pages al j = {}"
    if "i < region_count al" "j < region_count al" "i \<noteq> j" for i j
    using ranges_apart_nth [of "region_list al" i j] assms that length_region_list [OF ok]
    by (auto simp: table_good_def region_list_nth [OF ok] ranges_apart_def region_pages_def)
  then show ?thesis
    using ok in_list assms
    by (fastforce simp: allocator_ok_def tables_ok_def table_good_def region_good_def)
qed

lemma table_good_free:
  assumes "table_good entries reserved al" "a \<in> free_pages al"
  shows "page_aligned a \<and> (\<exists>e \<in> set entries. entry_usable e \<and> frame_bytes a \<subseteq> entry_bytes e) \<and>
    (\<forall>r \<in> set reserved. unat (range_start r) + unat (range_length r) < 2 ^ 64 \<longrightarrow>
       frame_bytes a \<inter> range_bytes r = {})"
proof -
  have ok: "tables_ok al" using assms by (simp add: table_good_def)
  obtain i where i: "i < region_count al" and a: "a \<in> region_pages al i"
    using assms(2) by (auto simp: free_pages_def)
  let ?x = "region_list al ! i"
  have x: "region_good entries reserved ?x"
    using assms(1) i length_region_list [OF ok] by (simp add: table_good_def)
  have bounds: "page_aligned a" "fst ?x \<le> a" "a < snd ?x"
    using a i by (simp_all add: region_pages_def region_list_nth [OF ok])
  obtain e where e: "e \<in> set entries" "entry_usable e" "unat (entry_base e) \<le> unat (fst ?x)"
      "unat (snd ?x) \<le> unat (entry_base e) + unat (entry_length e)"
    using x by (auto simp: region_good_def)
  have step: "unat a + 4096 \<le> unat (snd ?x)"
    using page_aligned_step [OF bounds(1) _ bounds(3)] x by (simp add: region_good_def)
  have sub: "frame_bytes a \<subseteq> entry_bytes e"
    using e(3,4) step bounds(2) by (auto simp: frame_bytes_def entry_bytes_def word_le_nat_alt)
  have "frame_bytes a \<inter> range_bytes r = {}"
    if r: "r \<in> set reserved" "unat (range_start r) + unat (range_length r) < 2 ^ 64" for r
  proof -
    have "checked_add (range_start r) (range_length r) = Some (range_start r + range_length r)"
      using r(2) by (simp add: checked_add_def)
    moreover have "\<not> blocks r a" using x bounds r(1) by (auto simp: region_good_def)
    ultimately show ?thesis
      using overlap_blocks [OF bounds(1) _ bounds(3)] x by (auto simp: region_good_def)
  qed
  with bounds(1) e sub show ?thesis by blast
qed

end
