(* ===== verification/Boot_Memory.thy ===== *)
theory Boot_Memory
  imports Frame_Allocator "HOL-Library.Multiset"
begin

text \<open>
  The bootstrap's own memory management, \<open>bootstrap/bootstrap.rs\<close>: the contiguous allocator
  that places the unpacked kernel, the pool of page-table frames, and the sorting and merging
  of the reserved ranges that are handed to the kernel. The last section joins it with the
  kernel's frame allocator.
\<close>

section \<open>The contiguous allocator\<close>

record physical_allocator =
  pa_regions :: "region list"
  pa_count :: nat

definition pa_add_entry :: "memory_entry \<Rightarrow> physical_allocator \<Rightarrow> physical_allocator" where
  "pa_add_entry e al =
     (if \<not> entry_usable e \<or> pa_count al = length (pa_regions al) then al
      else (case checked_add (entry_base e) (entry_length e) of
        None \<Rightarrow> al
      | Some finish \<Rightarrow> (case checked_add (entry_base e) (page_size - 1) of
          None \<Rightarrow> al
        | Some aligned \<Rightarrow>
            let start = align_down aligned; finish = align_down finish
            in if start < finish
               then al\<lparr>pa_regions := (pa_regions al)[pa_count al :=
                        \<lparr>region_next = start, region_end = finish\<rparr>],
                      pa_count := pa_count al + 1\<rparr>
               else al)))"

definition new_physical_allocator :: "memory_entry list \<Rightarrow> physical_allocator" where
  "new_physical_allocator entries =
     fold pa_add_entry entries \<lparr>pa_regions = replicate 128 empty_region, pa_count = 0\<rparr>"

function allocate_loop_contiguous ::
  "u64 \<Rightarrow> nat \<Rightarrow> physical_allocator \<Rightarrow> physical_range option \<times> physical_allocator" where
  "allocate_loop_contiguous len i al =
     (if i < pa_count al then
        (case checked_add (region_next (pa_regions al ! i)) len of
           None \<Rightarrow> (None, al)
         | Some finish \<Rightarrow>
             if finish \<le> region_end (pa_regions al ! i)
             then (Some \<lparr>range_start = region_next (pa_regions al ! i), range_length = len\<rparr>,
                   al\<lparr>pa_regions := (pa_regions al)[i := (pa_regions al ! i)\<lparr>region_next := finish\<rparr>]\<rparr>)
             else allocate_loop_contiguous len (i + 1) al)
      else (None, al))"
  by pat_completeness auto
termination
  by (relation "measure (\<lambda>(len, i, al). pa_count al - i)") auto

declare allocate_loop_contiguous.simps [simp del]

definition allocate_contiguous ::
  "u64 \<Rightarrow> physical_allocator \<Rightarrow> physical_range option \<times> physical_allocator" where
  "allocate_contiguous bytes al = (case checked_add bytes (page_size - 1) of
     None \<Rightarrow> (None, al)
   | Some b \<Rightarrow> allocate_loop_contiguous (align_down b) 0 al)"

section \<open>The pool of page tables\<close>

record page_table_pool =
  pool_next :: u64
  pool_end :: u64
  pool_offset :: u64

text \<open>
  \<open>PageTablePool::allocate\<close>: besides the frame it returns the address of the page it zeroed.
  The addition \<open>self.next += PAGE_SIZE\<close> stays below \<open>pool_end\<close>, so it does not overflow.
\<close>

definition pool_allocate :: "page_table_pool \<Rightarrow> (u64 \<times> u64) option \<times> page_table_pool" where
  "pool_allocate pool =
     (if pool_next pool \<ge> pool_end pool then (None, pool)
      else
        let physical = pool_next pool;
            pool' = pool\<lparr>pool_next := pool_next pool + page_size\<rparr>
        in (case checked_add physical (pool_offset pool) of
              None \<Rightarrow> (None, pool')
            | Some zeroed \<Rightarrow> (Some (physical, zeroed), pool')))"

text \<open>The pool is a frame source too: no two page tables share a frame.\<close>

definition pool_ok :: "page_table_pool \<Rightarrow> bool" where
  "pool_ok pool \<longleftrightarrow> page_aligned (pool_next pool) \<and> page_aligned (pool_end pool)"

definition pool_free :: "page_table_pool \<Rightarrow> u64 set" where
  "pool_free pool = {a. page_aligned a \<and> pool_next pool \<le> a \<and> a < pool_end pool}"

lemma pool_allocate_step:
  assumes "pool_ok pool" "pool_next pool < pool_end pool"
    and "pool' = pool\<lparr>pool_next := pool_next pool + page_size\<rparr>"
  shows "pool_ok pool'" "pool_free pool' = pool_free pool - {pool_next pool}"
    "pool_next pool \<in> pool_free pool"
proof -
  have "unat (pool_next pool) + 4096 \<le> unat (pool_end pool)"
    using page_aligned_step assms(1,2) by (simp add: pool_ok_def)
  then have "checked_add (pool_next pool) page_size = Some (pool_next pool + page_size)"
    using unat_u64_less [of "pool_end pool"] by (simp add: checked_add_def)
  then show "pool_ok pool'" "pool_free pool' = pool_free pool - {pool_next pool}"
    using assms page_step_range [of "pool_next pool" _ "pool_end pool"]
    by (auto simp: pool_ok_def pool_free_def dest: page_aligned_next)
  show "pool_next pool \<in> pool_free pool"
    using assms(1,2) by (simp add: pool_ok_def pool_free_def)
qed

lemma pool_allocate_cases:
  assumes "pool_allocate pool = (r, pool')"
  obtains (empty) "r = None" "pool' = pool"
  | (step) "pool_next pool < pool_end pool"
      "pool' = pool\<lparr>pool_next := pool_next pool + page_size\<rparr>"
      "\<And>f. r = Some f \<Longrightarrow> fst f = pool_next pool"
  using assms by (auto simp: pool_allocate_def Let_def not_le split: if_splits option.splits)

interpretation pool: frame_source pool_allocate fst pool_free pool_ok
proof (unfold_locales, goal_cases)
  case (1 s r s')
  from 1(2) show ?case
    by (cases rule: pool_allocate_cases) (use 1(1) pool_allocate_step [of s s'] in auto)
next
  case (2 s f s')
  from 2(2) show ?case
  proof (cases rule: pool_allocate_cases)
    case step
    from pool_allocate_step [OF 2(1) step(1,2)] step(3) [OF refl] show ?thesis by simp
  qed simp
qed

section \<open>Sorting and merging the reserved ranges\<close>

fun sift_down :: "nat \<Rightarrow> physical_range list \<Rightarrow> physical_range list" where
  "sift_down 0 rs = rs"
| "sift_down (Suc p) rs =
     (if range_start (rs ! Suc p) < range_start (rs ! p)
      then sift_down p (rs[Suc p := rs ! p, p := rs ! Suc p])
      else rs)"

definition sort_ranges :: "physical_range list \<Rightarrow> physical_range list" where
  "sort_ranges rs = fold sift_down [1..<length rs] rs"

definition range_finish :: "physical_range \<Rightarrow> u64" where
  "range_finish r = (case checked_add (range_start r) (range_length r) of None \<Rightarrow> - 1 | Some e \<Rightarrow> e)"

definition merge_step :: "nat \<Rightarrow> nat \<times> physical_range list \<Rightarrow> nat \<times> physical_range list" where
  "merge_step i = (\<lambda>(merged, rs).
     let finish = range_finish (rs ! merged); next_finish = range_finish (rs ! i)
     in if range_start (rs ! i) \<le> finish
        then (merged, rs[merged := (rs ! merged)\<lparr>range_length :=
                max finish next_finish - range_start (rs ! merged)\<rparr>])
        else (merged + 1, rs[merged + 1 := rs ! i]))"

definition sort_and_merge_ranges :: "physical_range list \<Rightarrow> nat \<times> physical_range list" where
  "sort_and_merge_ranges rs =
     (let (merged, rs) = fold merge_step [1..<length rs] (0, sort_ranges rs) in (merged + 1, rs))"

section \<open>Sorting is a sorting\<close>

lemma length_sift_down [simp]: "length (sift_down p rs) = length rs"
  by (induction p rs rule: sift_down.induct) auto

lemma sift_down_mset: "p < length rs \<Longrightarrow> mset (sift_down p rs) = mset rs"
proof (induction p rs rule: sift_down.induct)
  case (2 p rs)
  then show ?case by (simp add: mset_swap)
qed simp

text \<open>Sifting touches only the positions up to \<open>p\<close> and keeps them a permutation.\<close>

lemma sift_down_above: "p < i \<Longrightarrow> sift_down p rs ! i = rs ! i"
  by (induction p rs rule: sift_down.induct) auto

lemma sift_down_sorted:
  assumes "p < length rs"
    and "\<And>i j. i < j \<Longrightarrow> j < p \<Longrightarrow> range_start (rs ! i) \<le> range_start (rs ! j)"
    and "\<And>i j. i < j \<Longrightarrow> p < j \<Longrightarrow> j \<le> n \<Longrightarrow> i \<noteq> p \<Longrightarrow> range_start (rs ! i) \<le> range_start (rs ! j)"
    and "\<And>j. p < j \<Longrightarrow> j \<le> n \<Longrightarrow> range_start (rs ! p) \<le> range_start (rs ! j)"
    and "p \<le> n" "n < length rs" "i < j" "j \<le> n"
  shows "range_start (sift_down p rs ! i) \<le> range_start (sift_down p rs ! j)"
  using assms
proof (induction p rs arbitrary: i j rule: sift_down.induct)
  case (1 rs)
  then show ?case by (cases i) auto
next
  case (2 p rs)
  show ?case
  proof (cases "range_start (rs ! Suc p) < range_start (rs ! p)")
    case True
    let ?rs = "rs[Suc p := rs ! p, p := rs ! Suc p]"
    have nth: "?rs ! k = (if k = p then rs ! Suc p else if k = Suc p then rs ! p else rs ! k)"
      if "k \<le> n" for k
      using that "2.prems"(5,6) by (simp add: nth_list_update)
    have "range_start (sift_down p ?rs ! i) \<le> range_start (sift_down p ?rs ! j)"
    proof (rule "2.IH" [OF True])
      show "p < length ?rs" using "2.prems"(5,6) by simp
      show "range_start (?rs ! i') \<le> range_start (?rs ! j')" if "i' < j'" "j' < p" for i' j'
        using "2.prems"(2) [OF that(1)] that "2.prems"(5) by (simp add: nth)
      show "range_start (?rs ! i') \<le> range_start (?rs ! j')"
        if "i' < j'" "p < j'" "j' \<le> n" "i' \<noteq> p" for i' j'
        using "2.prems"(2) [of i' p] "2.prems"(3) [of i' j'] "2.prems"(3) [of p j']
          "2.prems"(4) [of j'] that "2.prems"(5,6)
        by (cases "j' = Suc p") (auto simp: nth_list_update)
      show "range_start (?rs ! p) \<le> range_start (?rs ! j')" if "p < j'" "j' \<le> n" for j'
        using "2.prems"(4) [of j'] that True "2.prems"(5,6)
        by (cases "j' = Suc p") (auto simp: nth_list_update)
      show "p \<le> n" "n < length ?rs" "i < j" "j \<le> n" using "2.prems"(5-8) by simp_all
    qed
    then show ?thesis using True by simp
  next
    case False
    consider "j < Suc p" | "j = Suc p" | "Suc p < j" by linarith
    then show ?thesis
    proof cases
      case 1
      then show ?thesis using "2.prems"(2) [of i j] "2.prems"(7) False by simp
    next
      case 2
      then show ?thesis
        using "2.prems"(2) [of i p] False "2.prems"(7) by (cases "i = p") auto
    next
      case 3
      then show ?thesis
        using "2.prems"(3) [of i j] "2.prems"(4) [of j] "2.prems"(7,8) False by (cases "i = Suc p") auto
    qed
  qed
qed

lemma sort_ranges_prefix:
  assumes "n < length rs"
  shows "length (fold sift_down [1..<Suc n] rs) = length rs \<and>
    mset (fold sift_down [1..<Suc n] rs) = mset rs \<and>
    (\<forall>i j. i < j \<longrightarrow> j \<le> n \<longrightarrow>
       range_start (fold sift_down [1..<Suc n] rs ! i) \<le> range_start (fold sift_down [1..<Suc n] rs ! j))"
  using assms
proof (induction n)
  case 0
  then show ?case by simp
next
  case (Suc n)
  let ?ss = "fold sift_down [1..<Suc n] rs"
  have IH: "length ?ss = length rs" "mset ?ss = mset rs"
      "\<And>i j. i < j \<Longrightarrow> j \<le> n \<Longrightarrow> range_start (?ss ! i) \<le> range_start (?ss ! j)"
    using Suc by simp_all
  have eq: "fold sift_down [1..<Suc (Suc n)] rs = sift_down (Suc n) ?ss" by simp
  have "range_start (sift_down (Suc n) ?ss ! i) \<le> range_start (sift_down (Suc n) ?ss ! j)"
    if "i < j" "j \<le> Suc n" for i j
    by (rule sift_down_sorted [where n = "Suc n"]) (use IH Suc.prems that in auto)
  moreover have "mset (sift_down (Suc n) ?ss) = mset rs"
    using IH(1,2) Suc.prems by (subst sift_down_mset) simp_all
  moreover have "length (sift_down (Suc n) ?ss) = length rs"
    using IH(1) by (subst length_sift_down)
  ultimately show ?case unfolding eq by blast
qed

lemma sort_ranges_sorted: "starts_sorted (sort_ranges rs)" "mset (sort_ranges rs) = mset rs"
proof -
  show "starts_sorted (sort_ranges rs)"
  proof (cases rs)
    case (Cons r rs')
    then have "length rs = Suc (length rs')" "length rs' < length rs" by simp_all
    with sort_ranges_prefix [of "length rs'" rs] show ?thesis
      by (auto simp: starts_sorted_def sorted_iff_nth_mono_less sort_ranges_def)
  qed (simp add: sort_ranges_def starts_sorted_def)
  show "mset (sort_ranges rs) = mset rs"
    using sort_ranges_prefix [of "length rs - 1" rs]
    by (cases rs) (auto simp: sort_ranges_def simp del: fold_Cons upt_Suc)
qed

section \<open>Merging keeps the bytes covered\<close>

definition ranges_fit :: "physical_range list \<Rightarrow> bool" where
  "ranges_fit rs \<longleftrightarrow> (\<forall>r \<in> set rs. unat (range_start r) + unat (range_length r) < 2 ^ 64)"

definition covered :: "physical_range list \<Rightarrow> nat set" where
  "covered rs = (\<Union>r \<in> set rs. range_bytes r)"

lemma covered_append [simp]: "covered (xs @ ys) = covered xs \<union> covered ys"
  by (auto simp: covered_def)

lemma covered_Nil [simp]: "covered [] = {}"
  by (simp add: covered_def)

lemma covered_Cons [simp]: "covered (x # xs) = range_bytes x \<union> covered xs"
  by (simp add: covered_def)

lemma range_finish_unat:
  "unat (range_start r) + unat (range_length r) < 2 ^ 64 \<Longrightarrow>
     unat (range_finish r) = unat (range_start r) + unat (range_length r)"
  by (simp add: range_finish_def checked_add_def unat_word_ariths)

definition merge_two :: "physical_range \<Rightarrow> physical_range \<Rightarrow> physical_range" where
  "merge_two r q = r\<lparr>range_length := max (range_finish r) (range_finish q) - range_start r\<rparr>"

lemma merge_two_spec:
  assumes fit: "ranges_fit [r, q]" and "range_start r \<le> range_start q" "range_start q \<le> range_finish r"
  shows "range_bytes (merge_two r q) = range_bytes r \<union> range_bytes q" "ranges_fit [merge_two r q]"
    "range_start (merge_two r q) = range_start r"
proof -
  note fin = range_finish_unat [of r] range_finish_unat [of q]
  have "range_start r \<le> max (range_finish r) (range_finish q)"
    using assms by (auto simp: max_def)
  then have len: "unat (range_length (merge_two r q)) =
      max (unat (range_finish r)) (unat (range_finish q)) - unat (range_start r)"
    by (auto simp: merge_two_def unat_sub max_def word_le_nat_alt)
  then show "range_bytes (merge_two r q) = range_bytes r \<union> range_bytes q"
    using assms fin by (auto simp: range_bytes_def merge_two_def ranges_fit_def word_le_nat_alt)
  show "ranges_fit [merge_two r q]"
    using assms fin len unat_u64_less [of "range_finish r"] unat_u64_less [of "range_finish q"]
    by (auto simp: ranges_fit_def merge_two_def word_le_nat_alt)
  show "range_start (merge_two r q) = range_start r" by (simp add: merge_two_def)
qed

text \<open>The merge loop after position \<open>i\<close>: the front is the merged part, the tail is untouched.\<close>

definition merge_inv :: "physical_range list \<Rightarrow> nat \<Rightarrow> nat \<times> physical_range list \<Rightarrow> bool" where
  "merge_inv ss i = (\<lambda>(merged, rs). length rs = length ss \<and> merged \<le> i \<and> drop (Suc i) rs = drop (Suc i) ss \<and>
     ranges_fit (take (Suc merged) rs) \<and> starts_sorted (take (Suc merged) rs) \<and>
     covered (take (Suc merged) rs) = covered (take (Suc i) ss) \<and>
     range_start (rs ! merged) \<le> range_start (ss ! i))"

lemma ranges_fit_append [simp]: "ranges_fit (xs @ ys) \<longleftrightarrow> ranges_fit xs \<and> ranges_fit ys"
  by (auto simp: ranges_fit_def)

lemma ranges_fit_simps [simp]:
  "ranges_fit []"
  "ranges_fit (r # rs) \<longleftrightarrow>
     unat (range_start r) + unat (range_length r) < 2 ^ 64 \<and> ranges_fit rs"
  by (auto simp: ranges_fit_def)

lemma starts_sorted_snoc:
  "starts_sorted (xs @ [x]) \<longleftrightarrow> starts_sorted xs \<and> (\<forall>y \<in> set xs. range_start y \<le> range_start x)"
  by (simp add: starts_sorted_def sorted_append)

lemma merge_step_inv:
  assumes inv: "merge_inv ss i (merged, rs)" and i: "Suc i < length ss"
    and fit: "ranges_fit ss" and sorted: "starts_sorted ss"
  shows "merge_inv ss (Suc i) (merge_step (Suc i) (merged, rs))"
proof -
  let ?q = "ss ! Suc i" and ?r = "rs ! merged" and ?front = "take merged rs"
  have len: "length rs = length ss" "merged \<le> i" and tail: "drop (Suc i) rs = drop (Suc i) ss"
    and start: "range_start ?r \<le> range_start (ss ! i)"
    using inv by (simp_all add: merge_inv_def)
  have q: "rs ! Suc i = ?q"
    using tail i len by (metis Cons_nth_drop_Suc list.inject)
  have front: "take (Suc merged) rs = ?front @ [?r]"
    using len i by (simp add: take_Suc_conv_app_nth)
  have inv': "ranges_fit (?front @ [?r])" "starts_sorted (?front @ [?r])"
      "covered (?front @ [?r]) = covered (take (Suc i) ss)"
    using inv unfolding front [symmetric] by (simp_all add: merge_inv_def)
  have "range_start (ss ! i) \<le> range_start ?q"
    using sorted i by (simp add: starts_sorted_def sorted_iff_nth_mono)
  with start have le: "range_start ?r \<le> range_start ?q" by (rule order.trans)
  have fq: "ranges_fit [?q]" using fit i by (simp add: ranges_fit_def)
  have cover: "covered (take (Suc (Suc i)) ss) = covered (?front @ [?r]) \<union> range_bytes ?q"
    using i inv'(3) by (simp add: take_Suc_conv_app_nth [of "Suc i"])
  have tail': "drop (Suc (Suc i)) rs = drop (Suc (Suc i)) ss"
    using tail by (metis drop_drop plus_1_eq_Suc)
  show ?thesis
  proof (cases "range_start ?q \<le> range_finish ?r")
    case True
    have fits: "ranges_fit [?r, ?q]" using inv'(1) fq by (auto simp: ranges_fit_def)
    note two = merge_two_spec [OF fits le True]
    have "merge_step (Suc i) (merged, rs) = (merged, rs[merged := merge_two ?r ?q])"
      using True by (simp add: merge_step_def merge_two_def q)
    moreover have "take (Suc merged) (rs[merged := merge_two ?r ?q]) = ?front @ [merge_two ?r ?q]"
      using len i by (simp add: take_Suc_conv_app_nth)
    ultimately show ?thesis
      using inv' two tail' len i le cover
      by (auto simp: merge_inv_def starts_sorted_snoc)
  next
    case False
    have "merge_step (Suc i) (merged, rs) = (Suc merged, rs[Suc merged := ?q])"
      using False by (simp add: merge_step_def q)
    moreover have "take (Suc (Suc merged)) (rs[Suc merged := ?q]) = (?front @ [?r]) @ [?q]"
      using len i front by (simp add: take_Suc_conv_app_nth)
    moreover have "starts_sorted ((?front @ [?r]) @ [?q])"
      unfolding starts_sorted_snoc [of "?front @ [?r]"]
      using inv'(2) le by (auto simp: starts_sorted_snoc intro: order.trans)
    ultimately show ?thesis
      using inv' fq tail' len i cover by (auto simp: merge_inv_def)
  qed
qed

lemma sort_and_merge_ranges_spec:
  assumes "rs \<noteq> []" "ranges_fit rs" "sort_and_merge_ranges rs = (n, out)"
  shows "n \<le> length rs \<and> starts_sorted (take n out) \<and> ranges_fit (take n out) \<and>
    covered (take n out) = covered rs"
proof -
  let ?ss = "sort_ranges rs"
  have set: "set ?ss = set rs" using sort_ranges_sorted(2) by (rule mset_eq_setD)
  have ss: "length ?ss = length rs" "ranges_fit ?ss" "covered ?ss = covered rs" "?ss \<noteq> []"
    using mset_eq_length [OF sort_ranges_sorted(2)] set assms(1,2)
    by (auto simp: ranges_fit_def covered_def)
  have inv: "merge_inv ?ss i (fold merge_step [1..<Suc i] (0, ?ss))" if "i < length ?ss" for i
    using that
  proof (induction i)
    case 0
    then show ?case
      using ss(2,4) by (cases ?ss) (auto simp: merge_inv_def ranges_fit_def starts_sorted_def)
  next
    case (Suc i)
    obtain m qs where st: "fold merge_step [1..<Suc i] (0, ?ss) = (m, qs)"
      by (cases "fold merge_step [1..<Suc i] (0, ?ss)")
    have "fold merge_step [1..<Suc (Suc i)] (0, ?ss) = merge_step (Suc i) (m, qs)"
      using st by simp
    then show ?case
      using merge_step_inv [of ?ss i m qs] Suc st ss(2) sort_ranges_sorted(1) by simp
  qed
  obtain m where m: "fold merge_step [1..<length rs] (0, ?ss) = (m, out)" "n = m + 1"
    using assms(3) by (auto simp: sort_and_merge_ranges_def split: prod.splits)
  have "merge_inv ?ss (length rs - 1) (m, out)"
    using inv [of "length rs - 1"] m(1) assms(1) ss(1) by (cases rs) auto
  then show ?thesis
    using ss(1,3) assms(1) m(2) by (cases rs) (auto simp: merge_inv_def)
qed

section \<open>The hand-over to the kernel\<close>

text \<open>
  C5. The kernel's allocator, built from the boot loader's memory map and from the ranges the
  bootstrap sorted and merged, never hands out the same frame twice, and every frame is a
  whole page inside one usable entry that shares no byte with any range the bootstrap
  reserved, whatever the order and the overlaps of those ranges.
\<close>

theorem boot_reservations_respected:
  assumes "usable_disjoint entries" "reserved \<noteq> []" "ranges_fit reserved"
    and "sort_and_merge_ranges reserved = (n, merged)"
    and "init_memory entries offset (take n merged) = (pages, al)"
    and "take_frames allocate_frame k al = (fs, al')"
  shows "distinct (map physical_address fs) \<and>
    (\<forall>f \<in> set fs. page_aligned (physical_address f) \<and>
      (\<exists>e \<in> set entries. entry_usable e \<and> frame_bytes (physical_address f) \<subseteq> entry_bytes e) \<and>
      (\<forall>r \<in> set reserved. frame_bytes (physical_address f) \<inter> range_bytes r = {}))"
proof -
  have merged: "starts_sorted (take n merged)" "ranges_fit (take n merged)"
      "covered (take n merged) = covered reserved"
    using sort_and_merge_ranges_spec [OF assms(2-4)] by simp_all
  have good: "table_good entries (take n merged) al"
    using init_memory_good [OF assms(1) merged(1) assms(5)] by simp
  have fs: "distinct (map physical_address fs)" "physical_address ` set fs \<subseteq> free_pages al"
    using frames.take_frames_fresh [OF table_good_ok [OF good] assms(6)] by auto
  have "frame_bytes a \<inter> covered reserved = {}" if "a \<in> free_pages al" for a
    using table_good_free [OF good that] merged(2)
    unfolding merged(3) [symmetric] by (auto simp: covered_def ranges_fit_def)
  then show ?thesis
    using fs table_good_free [OF good] by (fastforce simp: covered_def)
qed

definition sample_map :: "memory_entry list" where
  "sample_map = [\<lparr>entry_base = 0x1000, entry_length = 0x4000, entry_usable = True\<rparr>]"

definition sample_reserved :: "physical_range list" where
  "sample_reserved = [\<lparr>range_start = 0x3000, range_length = 0x800\<rparr>,
     \<lparr>range_start = 0x1000, range_length = 0x10\<rparr>]"

definition sample_merged :: "physical_range list" where
  "sample_merged = [\<lparr>range_start = 0x1000, range_length = 0x10\<rparr>,
     \<lparr>range_start = 0x3000, range_length = 0x800\<rparr>]"

lemma sample_merge: "sort_and_merge_ranges sample_reserved = (2, sample_merged)"
  by (simp add: sort_and_merge_ranges_def sort_ranges_def sample_reserved_def sample_merged_def
      merge_step_def range_finish_def checked_add_def upt_rec)

definition sample_allocator :: frame_allocator where
  "sample_allocator = push_region 0x4000 0x5000 (push_region 0x2000 0x3000 (fresh_allocator 0x10000))"

lemma room [simp]: "0 < max_regions" "Suc 0 < max_regions" "max_regions \<noteq> 0"
  by (simp_all add: max_regions_def)

lemma fresh_allocator_fields [simp]:
  "region_count (fresh_allocator n) = 0" "current_region (fresh_allocator n) = 0"
  "length (regions (fresh_allocator n)) = max_regions" "hhdm_offset (fresh_allocator n) = n"
  by (simp_all add: fresh_allocator_def)

lemma sample_init: "\<exists>k. init_memory sample_map 0x10000 (take 2 sample_merged) = (k, sample_allocator)"
  by (simp add: init_memory_def Let_def sample_map_def sample_merged_def add_entry_def
      page_size_def align_down_def checked_add_def saturating_add_u64_def sample_allocator_def)

lemma sample_frames:
  "\<exists>al'. take_frames allocate_frame 3 sample_allocator =
       ([\<lparr>physical_address = 0x2000, virtual_address = 0x12000\<rparr>,
         \<lparr>physical_address = 0x4000, virtual_address = 0x14000\<rparr>], al')"
  by (simp add: numeral_3_eq_3 sample_allocator_def push_region_def allocate_frame.simps
      checked_add_def page_size_def)

theorem boot_reservations_respected_witness:
  "\<exists>n merged pages al al'. sort_and_merge_ranges sample_reserved = (n, merged) \<and>
     init_memory sample_map 0x10000 (take n merged) = (pages, al) \<and>
     take_frames allocate_frame 3 al =
       ([\<lparr>physical_address = 0x2000, virtual_address = 0x12000\<rparr>,
         \<lparr>physical_address = 0x4000, virtual_address = 0x14000\<rparr>], al') \<and>
     frame_bytes 0x2000 \<inter> range_bytes \<lparr>range_start = 0x3000, range_length = 0x800\<rparr> = {}"
proof -
  obtain n merged pages al al' where boot: "sort_and_merge_ranges sample_reserved = (n, merged)"
      "init_memory sample_map 0x10000 (take n merged) = (pages, al)"
      "take_frames allocate_frame 3 al =
       ([\<lparr>physical_address = 0x2000, virtual_address = 0x12000\<rparr>,
         \<lparr>physical_address = 0x4000, virtual_address = 0x14000\<rparr>], al')"
    using sample_merge sample_init sample_frames by blast
  have "usable_disjoint sample_map" "sample_reserved \<noteq> []" "ranges_fit sample_reserved"
    by (simp_all add: usable_disjoint_def sample_map_def sample_reserved_def)
  from boot_reservations_respected [OF this boot] boot show ?thesis
    by (auto simp: sample_reserved_def)
qed

end
