(* ===== verification/Dzimage.thy ===== *)
theory Dzimage
  imports Prelude
begin

text \<open>
  The compressed kernel image: \<open>bootstrap/dzimage.rs\<close> unpacks what \<open>tools/dzpack.rs\<close> packs, an
  LZ4 block behind a 24-byte header with a CRC-32. The decoder's mutable state is a record;
  the calls of its progress callback are the list \<open>reports\<close>. The packer's hash table only
  proposes match candidates, so the round trip holds whatever it contains.
\<close>

section \<open>The unpacker\<close>

definition dz_magic :: "u8 list" where
  "dz_magic = [0x44, 0x5a, 0x49, 0x4d, 0x41, 0x47, 0x45, 0]"

definition header_size :: nat where
  "header_size = 24"

definition max_kernel_size :: nat where
  "max_kernel_size = 64 * 1024 * 1024"

datatype unpack_error = InvalidHeader | InvalidSize | InvalidLz4 | ChecksumMismatch

definition dz_read_u32 :: "u8 list \<Rightarrow> nat \<Rightarrow> unpack_error + u32" where
  "dz_read_u32 input offset =
     (if offset + 4 \<le> length input then Inr (from_le (slice offset (offset + 4) input))
      else Inl InvalidHeader)"

definition dz_read_u64 :: "u8 list \<Rightarrow> nat \<Rightarrow> unpack_error + u64" where
  "dz_read_u64 input offset =
     (if offset + 8 \<le> length input then Inr (from_le (slice offset (offset + 8) input))
      else Inl InvalidHeader)"

definition dz_crc_bit :: "u32 \<Rightarrow> u32" where
  "dz_crc_bit checksum = drop_bit 1 checksum XOR (0xedb88320 AND (0 - (checksum AND 1)))"

definition dz_crc32 :: "u8 list \<Rightarrow> u32" where
  "dz_crc32 bytes = NOT (fold (\<lambda>byte checksum. (dz_crc_bit ^^ 8) (checksum XOR ucast byte)) bytes (NOT 0))"

definition unpacked_size :: "u8 list \<Rightarrow> unpack_error + nat" where
  "unpacked_size img =
     (if length img < header_size \<or> slice 0 8 img \<noteq> dz_magic \<or> slice 20 24 img \<noteq> [0, 0, 0, 0]
      then Inl InvalidHeader
      else rbind (dz_read_u64 img 8) (\<lambda>size.
        if size = 0 \<or> max_kernel_size < unat size then Inl InvalidSize else Inr (unat size)))"

fun take_byte :: "u8 list \<Rightarrow> unpack_error + u8 \<times> u8 list" where
  "take_byte [] = Inl InvalidLz4"
| "take_byte (b # bs) = Inr (b, bs)"

definition take_u16 :: "u8 list \<Rightarrow> unpack_error + u16 \<times> u8 list" where
  "take_u16 input =
     (if length input < 2 then Inl InvalidLz4 else Inr (from_le (take 2 input), drop 2 input))"

fun extended_length_loop :: "nat \<Rightarrow> u8 list \<Rightarrow> unpack_error + nat \<times> u8 list" where
  "extended_length_loop len [] = Inl InvalidLz4"
| "extended_length_loop len (b # bs) = (case usize_add len (unat b) of
     None \<Rightarrow> Inl InvalidLz4
   | Some len \<Rightarrow> if b \<noteq> 255 then Inr (len, bs) else extended_length_loop len bs)"

definition read_extended_length :: "u8 list \<Rightarrow> nat \<Rightarrow> unpack_error + nat \<times> u8 list" where
  "read_extended_length input initial =
     (if initial \<noteq> 15 then Inr (initial, input) else extended_length_loop initial input)"

record decoder =
  d_input :: "u8 list"
  d_output :: "u8 list"
  d_written :: nat
  d_progress :: u8
  reports :: "u8 list"

definition report_new_progress :: "nat \<Rightarrow> decoder \<Rightarrow> decoder" where
  "report_new_progress target d =
     (let progress = word_of_nat (d_written d * 100 div target) in
      if d_progress d < progress
      then d\<lparr>d_progress := progress, reports := reports d @ [progress]\<rparr> else d)"

definition copy_byte :: "nat \<Rightarrow> nat \<Rightarrow> decoder \<Rightarrow> decoder" where
  "copy_byte offset target d =
     (let d = d\<lparr>d_output := (d_output d)[d_written d := d_output d ! (d_written d - offset)],
               d_written := d_written d + 1\<rparr>
      in if d_written d AND 0xfff = 0 then report_new_progress target d else d)"

lemma report_new_progress_frame [simp]:
  "d_input (report_new_progress t d) = d_input d"
  "d_output (report_new_progress t d) = d_output d"
  "d_written (report_new_progress t d) = d_written d"
  by (simp_all add: report_new_progress_def Let_def)

lemma copy_byte_frame [simp]:
  "d_input (copy_byte offset t d) = d_input d"
  "d_output (copy_byte offset t d) = (d_output d)[d_written d := d_output d ! (d_written d - offset)]"
  "d_written (copy_byte offset t d) = Suc (d_written d)"
  by (simp_all add: copy_byte_def Let_def)

function copy_match :: "nat \<Rightarrow> nat \<Rightarrow> nat \<Rightarrow> decoder \<Rightarrow> decoder" where
  "copy_match match_end offset target d =
     (if d_written d < match_end then copy_match match_end offset target (copy_byte offset target d) else d)"
  by pat_completeness auto
termination
  by (relation "measure (\<lambda>(match_end, offset, target, d). match_end - d_written d)") auto

text \<open>
  One turn of the loop of \<open>unpack\<close>; the flag tells whether it left the loop. The guards come
  in the order of the source.
\<close>

definition copy_literals :: "nat \<Rightarrow> u8 \<Rightarrow> decoder \<Rightarrow> unpack_error + decoder" where
  "copy_literals target token d =
     rbind (read_extended_length (d_input d) (unat (drop_bit 4 token))) (\<lambda>(literal_length, input).
     (case usize_add (d_written d) literal_length of
        None \<Rightarrow> Inl InvalidLz4
      | Some literal_end \<Rightarrow>
          if target < literal_end \<or> length input < literal_length then Inl InvalidLz4
          else Inr (report_new_progress target
            (d\<lparr>d_output := splice (d_written d) (take literal_length input) (d_output d),
               d_input := drop literal_length input, d_written := literal_end\<rparr>))))"

definition copy_sequence :: "nat \<Rightarrow> u8 \<Rightarrow> decoder \<Rightarrow> unpack_error + decoder" where
  "copy_sequence target token d =
     rbind (take_u16 (d_input d)) (\<lambda>(offset, input).
     if offset = 0 \<or> d_written d < unat offset then Inl InvalidLz4
     else rbind (read_extended_length input (unat (token AND 0xf))) (\<lambda>(len, input).
     (case usize_add len 4 of
        None \<Rightarrow> Inl InvalidLz4
      | Some match_length \<Rightarrow> (case usize_add (d_written d) match_length of
          None \<Rightarrow> Inl InvalidLz4
        | Some match_end \<Rightarrow>
            if target < match_end then Inl InvalidLz4
            else Inr (report_new_progress target
              (copy_match match_end (unat offset) target (d\<lparr>d_input := input\<rparr>)))))))"

definition unpack_step :: "nat \<Rightarrow> decoder \<Rightarrow> unpack_error + bool \<times> decoder" where
  "unpack_step target d =
     rbind (take_byte (d_input d)) (\<lambda>(token, input).
     rbind (copy_literals target token (d\<lparr>d_input := input\<rparr>)) (\<lambda>d.
     if d_input d = [] then Inr (True, d)
     else rbind (copy_sequence target token d) (\<lambda>d. Inr (False, d))))"

lemma extended_length_loop_input:
  "extended_length_loop len input = Inr (n, rest) \<Longrightarrow> length rest < length input"
  by (induction len input rule: extended_length_loop.induct) (auto split: option.splits if_splits)

lemma read_extended_length_input:
  "read_extended_length input k = Inr (n, rest) \<Longrightarrow> length rest \<le> length input"
  by (auto simp: read_extended_length_def split: if_splits dest: extended_length_loop_input)

declare copy_match.simps [simp del]

lemma copy_match_input [simp]: "d_input (copy_match e offset t d) = d_input d"
  by (induction e offset t d rule: copy_match.induct) (subst copy_match.simps, simp)

lemma unpack_step_shorter:
  "unpack_step target d = Inr (b, d') \<Longrightarrow> length (d_input d') < length (d_input d)"
  by (cases "d_input d")
    (auto simp: unpack_step_def copy_literals_def copy_sequence_def rbind_Inr_iff take_u16_def
      split: if_splits option.splits dest!: read_extended_length_input)

function unpack_loop :: "nat \<Rightarrow> decoder \<Rightarrow> unpack_error + decoder" where
  "unpack_loop target d =
     (if d_input d = [] then Inr d
      else (case unpack_step target d of
        Inl e \<Rightarrow> Inl e
      | Inr (finished, d') \<Rightarrow> if finished then Inr d' else unpack_loop target d'))"
  by pat_completeness auto
termination
  by (relation "measure (\<lambda>(target, d). length (d_input d))") (auto intro: unpack_step_shorter)

declare unpack_loop.simps [simp del]

text \<open>
  \<open>unpack\<close>: the size, the output buffer and the progress reports. On an error the caller
  halts, and the partly written buffer is not part of the result.
\<close>

definition unpack :: "u8 list \<Rightarrow> u8 list \<Rightarrow> unpack_error + nat \<times> u8 list \<times> u8 list" where
  "unpack img out =
     rbind (unpacked_size img) (\<lambda>output_size.
     if length out < output_size then Inl InvalidSize
     else rbind (dz_read_u32 img 16) (\<lambda>expected_checksum.
     rbind (unpack_loop output_size
        \<lparr>d_input = drop header_size img, d_output = out, d_written = 0, d_progress = 0,
         reports = [0]\<rparr>) (\<lambda>d.
     if d_written d \<noteq> output_size then Inl InvalidLz4
     else if dz_crc32 (take output_size (d_output d)) \<noteq> expected_checksum then Inl ChecksumMismatch
     else Inr (output_size, d_output d,
       if d_progress d \<noteq> 100 then reports d @ [100] else reports d))))"

section \<open>The packer\<close>

definition hash_bits :: nat where
  "hash_bits = 16"

definition hash_size :: nat where
  "hash_size = 2 ^ hash_bits"

definition hash_sequence :: "u8 list \<Rightarrow> nat" where
  "hash_sequence bytes =
     unat (drop_bit (32 - hash_bits) ((from_le (take 4 bytes) :: u32) * 2654435761)) AND (hash_size - 1)"

fun emit_extended_length :: "nat \<Rightarrow> u8 list" where
  "emit_extended_length len =
     (if 255 \<le> len then 255 # emit_extended_length (len - 255) else [word_of_nat len])"

declare emit_extended_length.simps [simp del]

definition emit_sequence :: "u8 list \<Rightarrow> nat \<Rightarrow> nat \<Rightarrow> u8 list" where
  "emit_sequence literals offset match_length =
     (let literal_nibble = min (length literals) 15; match_nibble = min (match_length - 4) 15 in
      [word_of_nat (push_bit 4 literal_nibble OR match_nibble)] @
      (if 15 \<le> length literals then emit_extended_length (length literals - 15) else []) @
      literals @ to_le 2 (word_of_nat offset :: u16) @
      (if 15 \<le> match_length - 4 then emit_extended_length (match_length - 4 - 15) else []))"

definition emit_last_literals :: "u8 list \<Rightarrow> u8 list" where
  "emit_last_literals literals =
     [word_of_nat (push_bit 4 (min (length literals) 15))] @
     (if 15 \<le> length literals then emit_extended_length (length literals - 15) else []) @ literals"

function extend_match :: "u8 list \<Rightarrow> nat \<Rightarrow> nat \<Rightarrow> nat" where
  "extend_match input match_end candidate_end =
     (if match_end < length input \<and> input ! match_end = input ! candidate_end
      then extend_match input (match_end + 1) (candidate_end + 1) else match_end)"
  by pat_completeness auto
termination
  by (relation "measure (\<lambda>(input, e, c). length input - e)") auto

declare extend_match.simps [simp del]

function update_table :: "u8 list \<Rightarrow> nat \<Rightarrow> nat \<Rightarrow> nat list \<Rightarrow> nat list" where
  "update_table input cursor update table =
     (if update + 4 \<le> cursor
      then update_table input cursor (update + 1)
        (table[hash_sequence (slice update (update + 4) input) := update])
      else table)"
  by pat_completeness auto
termination
  by (relation "measure (\<lambda>(input, cursor, update, table). cursor - update)") auto

declare update_table.simps [simp del]

lemma extend_match_ge: "match_end \<le> extend_match input match_end candidate_end"
proof (induction input match_end candidate_end rule: extend_match.induct)
  case (1 input match_end candidate_end)
  then show ?case by (subst extend_match.simps) auto
qed

function compress_loop :: "u8 list \<Rightarrow> nat list \<Rightarrow> nat \<Rightarrow> nat \<Rightarrow> u8 list \<Rightarrow> u8 list" where
  "compress_loop input table anchor cursor out =
     (if cursor + 4 \<le> length input then
        let hash = hash_sequence (slice cursor (cursor + 4) input);
            candidate = table ! hash;
            table = table[hash := cursor]
        in if candidate = usize_max \<or> 65535 < cursor - candidate \<or>
              slice candidate (candidate + 4) input \<noteq> slice cursor (cursor + 4) input
           then compress_loop input table anchor (cursor + 1) out
           else
             let match_end = extend_match input (cursor + 4) (candidate + 4);
                 out = out @ emit_sequence (slice anchor cursor input) (cursor - candidate)
                   (match_end - cursor);
                 table = update_table input match_end (saturating_sub match_end 2) table
             in compress_loop input table match_end match_end out
      else out @ emit_last_literals (slice anchor (length input) input))"
  by pat_completeness auto
termination
proof (relation "measure (\<lambda>(input, table, anchor, cursor, out). length input - cursor)", goal_cases)
  case (3 input table anchor cursor out hash candidate table' match_end out' table'')
  then show ?case using extend_match_ge [of "cursor + 4" input "candidate + 4"] by simp
qed auto

declare compress_loop.simps [simp del]

definition lz4_compress :: "u8 list \<Rightarrow> u8 list" where
  "lz4_compress input = compress_loop input (replicate hash_size usize_max) 0 0 []"

text \<open>\<open>run\<close> of the packer on a file's bytes; \<open>None\<close> is the refused size.\<close>

definition dzpack :: "u8 list \<Rightarrow> u8 list option" where
  "dzpack input =
     (if input = [] \<or> max_kernel_size < length input then None
      else Some (dz_magic @ to_le 8 (word_of_nat (length input) :: u64) @
        to_le 4 (dz_crc32 input) @ [0, 0, 0, 0] @ lz4_compress input))"

section \<open>Reading back what was emitted\<close>

lemma extended_length_loop_emit:
  "k + len \<le> usize_max \<Longrightarrow> extended_length_loop k (emit_extended_length len @ rest) = Inr (k + len, rest)"
proof (induction len arbitrary: k rule: emit_extended_length.induct)
  case (1 len)
  show ?case
  proof (cases "255 \<le> len")
    case True
    with 1 have "extended_length_loop (k + 255) (emit_extended_length (len - 255) @ rest) =
        Inr (k + len, rest)"
      by simp
    with True 1(2) show ?thesis
      by (subst emit_extended_length.simps) (simp add: usize_add_def)
  next
    case False
    then have "unat (word_of_nat len :: u8) = len" "(word_of_nat len :: u8) \<noteq> 255"
      by (auto simp: unat_of_nat dest: arg_cong [where f = unat])
    with False 1(2) show ?thesis
      by (subst emit_extended_length.simps) (simp add: usize_add_def)
  qed
qed

lemma read_extended_length_emit:
  "len \<le> usize_max \<Longrightarrow>
     read_extended_length ((if 15 \<le> len then emit_extended_length (len - 15) else []) @ rest) (min len 15) =
       Inr (len, rest)"
  by (auto simp: read_extended_length_def extended_length_loop_emit min_def)

lemma token_nibbles:
  assumes "a < 16" "b < 16"
  shows "unat (drop_bit 4 (word_of_nat (push_bit 4 a OR b) :: u8)) = a"
    "unat ((word_of_nat (push_bit 4 a OR b) :: u8) AND 0xf) = b"
proof -
  have ab: "push_bit 4 a OR b = 16 * a + b"
  proof -
    have "\<not> bit b n" if "4 \<le> n" for n
      using that assms(2) take_bit_nat_eq_self [of b 4] by (auto simp: bit_simps dest: arg_cong [where f = "\<lambda>x. bit x n"])
    then have "push_bit 4 a AND b = 0"
      by (intro bit_eqI) (auto simp: bit_simps)
    then show ?thesis by (simp add: disjunctive_add_eq_or [symmetric] push_bit_eq_mult)
  qed
  define t :: u8 where "t = word_of_nat (push_bit 4 a OR b)"
  have t: "unat t = 16 * a + b"
    unfolding t_def ab using assms by (subst unat_of_nat) simp
  have low: "t AND 0xf = take_bit 4 t"
    by (simp add: take_bit_eq_mask mask_eq_exp_minus_1)
  show "unat (drop_bit 4 (word_of_nat (push_bit 4 a OR b) :: u8)) = a"
    unfolding t_def [symmetric] using assms t by (simp add: drop_bit_eq_div unat_div)
  show "unat ((word_of_nat (push_bit 4 a OR b) :: u8) AND 0xf) = b"
    unfolding t_def [symmetric] low unsigned_take_bit_eq t using assms by (simp add: take_bit_eq_mod)
qed

text \<open>The decoder has produced the first \<open>d_written\<close> bytes of \<open>data\<close>; \<open>after\<close> is what follows it in the buffer.\<close>

definition decoded :: "u8 list \<Rightarrow> u8 list \<Rightarrow> decoder \<Rightarrow> bool" where
  "decoded data after d \<longleftrightarrow> d_written d \<le> length data \<and>
     length (d_output d) = length data + length after \<and> drop (length data) (d_output d) = after \<and>
     take (d_written d) (d_output d) = take (d_written d) data"

lemma decoded_frame [simp]:
  "decoded data after (d\<lparr>d_input := i\<rparr>) = decoded data after d"
  "decoded data after (report_new_progress t d) = decoded data after d"
  by (simp_all add: decoded_def)

lemma copy_literals_spec:
  assumes dec: "decoded data after d" and k: "d_written d + k \<le> length data" "length data \<le> usize_max"
    and lits: "lits = slice (d_written d) (d_written d + k) data"
    and input: "d_input d = (if 15 \<le> k then emit_extended_length (k - 15) else []) @ lits @ rest"
    and token: "unat (drop_bit 4 token) = min k 15"
  obtains d' where "copy_literals (length data) token d = Inr d'" "decoded data after d'"
    "d_written d' = d_written d + k" "d_input d' = rest"
proof -
  let ?w = "d_written d"
  let ?d = "d\<lparr>d_output := splice ?w lits (d_output d), d_input := rest, d_written := ?w + k\<rparr>"
  have len: "length lits = k" using lits k(1) by simp
  have read: "read_extended_length (d_input d) (unat (drop_bit 4 token)) = Inr (k, lits @ rest)"
    using read_extended_length_emit [of k "lits @ rest"] k input token by simp
  have "decoded data after ?d"
  proof -
    have out: "length (d_output d) = length data + length after" "drop (length data) (d_output d) = after"
        "take ?w (d_output d) = take ?w data"
      using dec by (simp_all add: decoded_def)
    have "take (?w + k) (splice ?w lits (d_output d)) = take ?w data @ lits"
      using take_splice [of ?w lits "d_output d"] len out k(1) by simp
    also have "\<dots> = take (?w + k) data"
      using lits by (simp add: slice_def take_add)
    finally have "take (?w + k) (splice ?w lits (d_output d)) = take (?w + k) data" .
    then show ?thesis
      using k(1) out len by (simp add: decoded_def)
  qed
  then show thesis
    using that [of "report_new_progress (length data) ?d"] k read len
    by (simp add: copy_literals_def usize_add_def)
qed

lemma copy_match_spec:
  assumes "decoded data after d" "d_written d \<le> match_end" "match_end \<le> length data"
    "0 < offset" "offset \<le> d_written d"
    "\<And>i. d_written d \<le> i \<Longrightarrow> i < match_end \<Longrightarrow> data ! i = data ! (i - offset)"
  shows "decoded data after (copy_match match_end offset target d) \<and>
    d_written (copy_match match_end offset target d) = match_end"
  using assms
proof (induction match_end offset target d rule: copy_match.induct)
  case (1 match_end offset target d)
  show ?case
  proof (cases "d_written d < match_end")
    case True
    let ?w = "d_written d"
    have w: "?w < length data" using True "1.prems"(3) by simp
    have out: "length (d_output d) = length data + length after" "drop (length data) (d_output d) = after"
        "take ?w (d_output d) = take ?w data"
      using "1.prems"(1) by (simp_all add: decoded_def)
    have "d_output d ! (?w - offset) = take ?w (d_output d) ! (?w - offset)"
      using "1.prems"(4,5) by simp
    also have "\<dots> = data ! ?w"
      unfolding out(3) using "1.prems"(4-6) True by simp
    finally have "decoded data after (copy_byte offset target d)"
      using w out by (simp add: decoded_def take_Suc_conv_app_nth take_update_cancel)
    from "1.IH" [OF True this] show ?thesis
      using True "1.prems" by (subst (1 2) copy_match.simps) simp
  next
    case False
    then show ?thesis using "1.prems" by (subst (1 2) copy_match.simps) simp
  qed
qed

lemma copy_sequence_spec:
  assumes dec: "decoded data after d" and bound: "d_written d + len \<le> length data" "length data \<le> usize_max"
    and off: "0 < offset" "offset \<le> d_written d" "offset \<le> 65535" and len: "4 \<le> len"
    and same: "\<And>i. d_written d \<le> i \<Longrightarrow> i < d_written d + len \<Longrightarrow> data ! i = data ! (i - offset)"
    and input: "d_input d = to_le 2 (word_of_nat offset :: u16) @
      (if 15 \<le> len - 4 then emit_extended_length (len - 4 - 15) else []) @ rest"
    and token: "unat (token AND 0xf) = min (len - 4) 15"
  obtains d' where "copy_sequence (length data) token d = Inr d'" "decoded data after d'"
    "d_written d' = d_written d + len" "d_input d' = rest"
proof -
  have offset: "unat (word_of_nat offset :: u16) = offset"
    using off(3) by (simp add: unat_of_nat)
  define tail where "tail = (if 15 \<le> len - 4 then emit_extended_length (len - 4 - 15) else []) @ rest"
  have u16: "take_u16 (d_input d) = Inr (word_of_nat offset, tail)"
    by (simp add: take_u16_def input tail_def)
  have read: "read_extended_length tail (unat (token AND 0xf)) = Inr (len - 4, rest)"
    using read_extended_length_emit [of "len - 4" rest] bound token by (simp add: tail_def)
  let ?d = "copy_match (d_written d + len) offset (length data) (d\<lparr>d_input := rest\<rparr>)"
  have spec: "decoded data after ?d \<and> d_written ?d = d_written d + len"
    by (rule copy_match_spec) (use dec bound off same in auto)
  have nz: "(word_of_nat offset :: u16) \<noteq> 0"
    using offset off(1) by (metis unsigned_0 less_irrefl)
  have "copy_sequence (length data) token d = Inr (report_new_progress (length data) ?d)"
    unfolding copy_sequence_def u16
    using off bound len nz by (simp add: offset read usize_add_def)
  then show thesis using that [of "report_new_progress (length data) ?d"] spec by simp
qed

section \<open>The round trip\<close>

lemma step_emit_sequence:
  assumes dec: "decoded data after d" "length data \<le> usize_max"
    and bounds: "d_written d \<le> cursor" "cursor + len \<le> length data" "4 \<le> len"
    and off: "0 < offset" "offset \<le> cursor" "offset \<le> 65535"
    and same: "\<And>i. cursor \<le> i \<Longrightarrow> i < cursor + len \<Longrightarrow> data ! i = data ! (i - offset)"
    and input: "d_input d = emit_sequence (slice (d_written d) cursor data) offset len @ rest"
  obtains d' where "unpack_step (length data) d = Inr (False, d')" "decoded data after d'"
    "d_written d' = cursor + len" "d_input d' = rest"
proof -
  define lits where "lits = slice (d_written d) cursor data"
  define k where "k = cursor - d_written d"
  define token :: u8 where "token = word_of_nat (push_bit 4 (min k 15) OR min (len - 4) 15)"
  define tail where "tail = to_le 2 (word_of_nat offset :: u16) @
      (if 15 \<le> len - 4 then emit_extended_length (len - 4 - 15) else []) @ rest"
  have k: "length lits = k" "cursor = d_written d + k"
    using bounds by (simp_all add: lits_def k_def)
  have inp: "d_input d = token # (if 15 \<le> k then emit_extended_length (k - 15) else []) @ lits @ tail"
    unfolding input lits_def [symmetric]
    by (simp add: emit_sequence_def Let_def k token_def tail_def)
  have nibbles: "unat (drop_bit 4 token) = min k 15" "unat (token AND 0xf) = min (len - 4) 15"
    unfolding token_def by (rule token_nibbles; simp)+
  let ?d = "d\<lparr>d_input := tl (d_input d)\<rparr>"
  have dec': "decoded data after ?d" using dec by simp
  have kb: "d_written ?d + k \<le> length data" using k bounds by simp
  have lits: "lits = slice (d_written ?d) (d_written ?d + k) data"
    unfolding lits_def k(2) [symmetric] by (simp add: k(2))
  have din: "d_input ?d = (if 15 \<le> k then emit_extended_length (k - 15) else []) @ lits @ tail"
    using inp by simp
  obtain d1 where d1: "copy_literals (length data) token ?d = Inr d1" "decoded data after d1"
      "d_written d1 = cursor" "d_input d1 = tail"
    using copy_literals_spec [OF dec' kb dec(2) lits din nibbles(1)] k(2) by auto
  obtain d2 where d2: "copy_sequence (length data) token d1 = Inr d2" "decoded data after d2"
      "d_written d2 = cursor + len" "d_input d2 = rest"
    using copy_sequence_spec [OF d1(2), of len offset rest token] d1(3,4) dec(2) bounds off same nibbles(2)
    by (auto simp: tail_def)
  have "tail \<noteq> []" by (simp add: tail_def to_le.simps numeral_2_eq_2)
  then have "unpack_step (length data) d = Inr (False, d2)"
    using d1 d2 inp by (simp add: unpack_step_def)
  with d2 show thesis by (intro that)
qed

lemma step_emit_last:
  assumes dec: "decoded data after d" "length data \<le> usize_max"
    and input: "d_input d = emit_last_literals (slice (d_written d) (length data) data)"
  obtains d' where "unpack_step (length data) d = Inr (True, d')" "decoded data after d'"
    "d_written d' = length data"
proof -
  define lits where "lits = slice (d_written d) (length data) data"
  define k where "k = length data - d_written d"
  define token :: u8 where "token = word_of_nat (push_bit 4 (min k 15) OR 0)"
  have w: "d_written d \<le> length data" using dec by (simp add: decoded_def)
  have k: "length lits = k" "length data = d_written d + k"
    using w by (simp_all add: lits_def k_def)
  have inp: "d_input d = token # (if 15 \<le> k then emit_extended_length (k - 15) else []) @ lits @ []"
    unfolding input lits_def [symmetric]
    by (simp add: emit_last_literals_def k token_def)
  have nibble: "unat (drop_bit 4 token) = min k 15"
    unfolding token_def by (rule token_nibbles; simp)
  let ?d = "d\<lparr>d_input := tl (d_input d)\<rparr>"
  have dec': "decoded data after ?d" using dec by simp
  have kb: "d_written ?d + k \<le> length data" using k by simp
  have lits: "lits = slice (d_written ?d) (d_written ?d + k) data"
    using k(2) by (simp add: lits_def)
  have din: "d_input ?d = (if 15 \<le> k then emit_extended_length (k - 15) else []) @ lits @ []"
    using inp by simp
  obtain d1 where d1: "copy_literals (length data) token ?d = Inr d1" "decoded data after d1"
      "d_written d1 = length data" "d_input d1 = []"
    using copy_literals_spec [OF dec' kb dec(2) lits din nibble] k(2) by auto
  then have "unpack_step (length data) d = Inr (True, d1)"
    using inp by (simp add: unpack_step_def)
  with d1 show thesis by (intro that)
qed

lemma extend_match_spec:
  assumes "match_end \<le> length input"
  shows "extend_match input match_end candidate_end \<le> length input"
    and "\<And>i. match_end \<le> i \<Longrightarrow> i < extend_match input match_end candidate_end \<Longrightarrow>
      input ! i = input ! (candidate_end + (i - match_end))"
proof -
  have "extend_match input match_end candidate_end \<le> length input \<and>
    (\<forall>i. match_end \<le> i \<longrightarrow> i < extend_match input match_end candidate_end \<longrightarrow>
      input ! i = input ! (candidate_end + (i - match_end)))"
    using assms
  proof (induction input match_end candidate_end rule: extend_match.induct)
    case (1 input match_end candidate_end)
    show ?case
    proof (cases "match_end < length input \<and> input ! match_end = input ! candidate_end")
      case True
      have step: "extend_match input match_end candidate_end =
          extend_match input (match_end + 1) (candidate_end + 1)"
        using True by (subst extend_match.simps) simp
      have "input ! i = input ! (candidate_end + (i - match_end))"
        if i: "match_end \<le> i" "i < extend_match input (match_end + 1) (candidate_end + 1)" for i
      proof (cases "i = match_end")
        case False
        with i have "match_end + 1 \<le> i" "candidate_end + 1 + (i - (match_end + 1)) = candidate_end + (i - match_end)"
          by simp_all
        with "1.IH" [OF True] True i show ?thesis by auto
      qed (use True in simp)
      with "1.IH" [OF True] True show ?thesis by (simp add: step)
    next
      case False
      then have "extend_match input match_end candidate_end = match_end"
        by (subst extend_match.simps) auto
      with "1.prems" show ?thesis by simp
    qed
  qed
  then show "extend_match input match_end candidate_end \<le> length input"
    and "\<And>i. match_end \<le> i \<Longrightarrow> i < extend_match input match_end candidate_end \<Longrightarrow>
      input ! i = input ! (candidate_end + (i - match_end))"
    by blast+
qed

text \<open>What the packer needs of its table: positions it has already passed.\<close>

definition table_ok :: "nat \<Rightarrow> nat list \<Rightarrow> bool" where
  "table_ok cursor table \<longleftrightarrow> length table = hash_size \<and>
     (\<forall>e \<in> set table. e = usize_max \<or> e < cursor)"

lemma hash_sequence_less: "hash_sequence bytes < hash_size"
proof -
  have "hash_size - 1 = mask 16"
    by (simp add: hash_size_def hash_bits_def mask_eq_exp_minus_1)
  then have "hash_sequence bytes = take_bit 16 (unat (drop_bit (32 - hash_bits)
      ((from_le (take 4 bytes) :: u32) * 2654435761)))"
    by (simp add: hash_sequence_def take_bit_eq_mask)
  also have "\<dots> < 2 ^ 16" by (rule take_bit_nat_less_exp)
  finally show ?thesis by (simp add: hash_size_def hash_bits_def)
qed

lemma table_ok_mono: "table_ok cursor table \<Longrightarrow> cursor \<le> cursor' \<Longrightarrow> table_ok cursor' table"
  by (auto simp: table_ok_def)

lemma table_ok_update: "table_ok cursor table \<Longrightarrow> e < cursor \<Longrightarrow> table_ok cursor (table[h := e])"
  by (auto simp: table_ok_def dest: set_update_subset_insert [THEN subsetD])

lemma table_ok_update_table:
  "table_ok cursor table \<Longrightarrow> table_ok cursor (update_table input cursor update table)"
proof (induction input cursor update table rule: update_table.induct)
  case (1 input cursor update table)
  then show ?case by (subst update_table.simps) (simp add: table_ok_update)
qed

text \<open>
  The stream emitted from any point of the packer's loop makes the unpacker reproduce the
  rest of the input.
\<close>

lemma unpack_loop_step:
  assumes "d_input d \<noteq> []" "unpack_step n d = Inr (b, d')"
  shows "unpack_loop n d = (if b then Inr d' else unpack_loop n d')"
  using assms by (subst unpack_loop.simps) simp

lemma unpack_step_input: "unpack_step n d = Inr r \<Longrightarrow> d_input d \<noteq> []"
  by (auto simp: unpack_step_def)

lemma compress_loop_unpacks:
  assumes "table_ok cursor table" "anchor \<le> cursor" "cursor \<le> length input" "length input \<le> usize_max"
  shows "\<exists>stream. compress_loop input table anchor cursor out = out @ stream \<and>
    (\<forall>d. decoded input after d \<longrightarrow> d_written d = anchor \<longrightarrow> d_input d = stream \<longrightarrow>
      (\<exists>d'. unpack_loop (length input) d = Inr d' \<and> decoded input after d' \<and>
         d_written d' = length input))"
  using assms
proof (induction input table anchor cursor out rule: compress_loop.induct)
  case (1 input table anchor cursor out)
  let ?n = "length input"
  show ?case
  proof (cases "cursor + 4 \<le> ?n")
    case False
    have "\<exists>d'. unpack_loop ?n d = Inr d' \<and> decoded input after d' \<and> d_written d' = ?n"
      if d: "decoded input after d" "d_written d = anchor"
        "d_input d = emit_last_literals (slice anchor ?n input)" for d
    proof -
      obtain d' where d': "unpack_step ?n d = Inr (True, d')" "decoded input after d'" "d_written d' = ?n"
        using step_emit_last [OF d(1) "1.prems"(4)] d(2,3) by blast
      show ?thesis using unpack_loop_step [OF unpack_step_input [OF d'(1)] d'(1)] d'(2,3) by simp
    qed
    then show ?thesis using False by (subst compress_loop.simps) auto
  next
    case True
    define hash where "hash = hash_sequence (slice cursor (cursor + 4) input)"
    define candidate where "candidate = table ! hash"
    define table' where "table' = table[hash := cursor]"
    have table': "table_ok (Suc cursor) table'"
      unfolding table'_def by (rule table_ok_update [OF table_ok_mono [OF "1.prems"(1)]]) simp_all
    show ?thesis
    proof (cases "candidate = usize_max \<or> 65535 < cursor - candidate \<or>
        slice candidate (candidate + 4) input \<noteq> slice cursor (cursor + 4) input")
      case miss: True
      have "compress_loop input table anchor cursor out = compress_loop input table' anchor (cursor + 1) out"
        using True miss by (subst compress_loop.simps) (simp add: hash_def candidate_def table'_def Let_def)
      moreover note "1.IH"(1) [OF True hash_def candidate_def table'_def miss]
      ultimately show ?thesis using table' "1.prems" True by simp
    next
      case hit: False
      define match_end where "match_end = extend_match input (cursor + 4) (candidate + 4)"
      define out' where "out' = out @ emit_sequence (slice anchor cursor input) (cursor - candidate)
        (match_end - cursor)"
      define table'' where "table'' = update_table input match_end (saturating_sub match_end 2) table'"
      have loop: "compress_loop input table anchor cursor out =
          compress_loop input table'' match_end match_end out'"
        using True hit by (subst compress_loop.simps)
          (simp add: hash_def candidate_def table'_def table''_def out'_def match_end_def Let_def)
      have "hash < length table"
        using "1.prems"(1) hash_sequence_less by (simp add: table_ok_def hash_def)
      then have cand: "candidate < cursor"
        using "1.prems"(1) hit by (auto simp: table_ok_def candidate_def)
      have me: "cursor + 4 \<le> match_end" "match_end \<le> ?n"
        using extend_match_ge extend_match_spec(1) [OF True] by (simp_all add: match_end_def)
      have "table_ok match_end table''"
        unfolding table''_def by (rule table_ok_update_table [OF table_ok_mono [OF table']]) (use me in simp)
      from "1.IH"(2) [OF True hash_def candidate_def table'_def hit match_end_def out'_def table''_def
          this _ me(2) "1.prems"(4)]
      obtain stream where st: "compress_loop input table'' match_end match_end out' = out' @ stream"
        "\<And>d. decoded input after d \<Longrightarrow> d_written d = match_end \<Longrightarrow> d_input d = stream \<Longrightarrow>
          \<exists>d'. unpack_loop ?n d = Inr d' \<and> decoded input after d' \<and> d_written d' = ?n"
        by auto
      have same: "input ! i = input ! (i - (cursor - candidate))"
        if i: "cursor \<le> i" "i < cursor + (match_end - cursor)" for i
      proof (cases "i < cursor + 4")
        case True
        have "slice candidate (candidate + 4) input ! (i - cursor) = slice cursor (cursor + 4) input ! (i - cursor)"
          using hit by simp
        then show ?thesis
          using True i cand \<open>cursor + 4 \<le> ?n\<close> by (simp add: slice_def add.commute)
      next
        case False
        then show ?thesis
          using extend_match_spec(2) [OF True, of i "candidate + 4"] i cand
          by (simp add: match_end_def [symmetric] add.commute)
      qed
      have "\<exists>d'. unpack_loop ?n d = Inr d' \<and> decoded input after d' \<and> d_written d' = ?n"
        if d: "decoded input after d" "d_written d = anchor"
          "d_input d = emit_sequence (slice anchor cursor input) (cursor - candidate) (match_end - cursor) @ stream"
        for d
      proof -
        have len4: "4 \<le> match_end - cursor" using me(1) by simp
        obtain d1 where d1: "unpack_step ?n d = Inr (False, d1)" "decoded input after d1"
            "d_written d1 = match_end" "d_input d1 = stream"
          using step_emit_sequence [OF d(1) "1.prems"(4) _ _ len4, of cursor "cursor - candidate" stream]
            d(2,3) "1.prems"(2) me cand hit same by auto
        show ?thesis
          using st(2) [OF d1(2-4)] unpack_loop_step [OF unpack_step_input [OF d1(1)] d1(1)] by simp
      qed
      then show ?thesis
        unfolding loop st(1) unfolding out'_def by auto
    qed
  qed
qed

lemma lz4_compress_unpacks:
  assumes "length input \<le> usize_max" "decoded input after d" "d_written d = 0"
    and "d_input d = lz4_compress input"
  shows "\<exists>d'. unpack_loop (length input) d = Inr d' \<and> decoded input after d' \<and>
    d_written d' = length input"
proof -
  have "table_ok 0 (replicate hash_size usize_max)" by (simp add: table_ok_def)
  from compress_loop_unpacks [OF this, of 0 input "[]" after] assms show ?thesis
    by (auto simp: lz4_compress_def)
qed

lemma decoded_all: "decoded data after d \<Longrightarrow> d_written d = length data \<Longrightarrow> d_output d = data @ after"
proof -
  assume "decoded data after d" "d_written d = length data"
  then have "take (length data) (d_output d) = data" "drop (length data) (d_output d) = after"
    by (simp_all add: decoded_def)
  then show ?thesis using append_take_drop_id [of "length data" "d_output d"] by simp
qed

lemma dzpack_header:
  assumes "dzpack input = Some img"
  shows "img = dz_magic @ to_le 8 (word_of_nat (length input) :: u64) @ to_le 4 (dz_crc32 input) @
      [0, 0, 0, 0] @ lz4_compress input" "length dz_magic = 8" "input \<noteq> []" "length input \<le> max_kernel_size"
  using assms by (auto simp: dzpack_def dz_magic_def split: if_splits)

lemma header_fields:
  assumes "length magic = 8" "length size_bytes = 8" "length crc = 4" "length zeros = (4 :: nat)"
  shows "slice 0 8 (magic @ size_bytes @ crc @ zeros @ payload) = magic"
    "slice 8 16 (magic @ size_bytes @ crc @ zeros @ payload) = size_bytes"
    "slice 16 20 (magic @ size_bytes @ crc @ zeros @ payload) = crc"
    "slice 20 24 (magic @ size_bytes @ crc @ zeros @ payload) = zeros"
    "drop 24 (magic @ size_bytes @ crc @ zeros @ payload) = payload"
  using assms by (simp_all add: slice_def)

text \<open>
  C7. The bootstrap unpacks exactly the kernel that the build tool packed: for every kernel
  the packer accepts, unpacking into any buffer that is large enough succeeds, returns the
  kernel's size and leaves the kernel at the start of the buffer and the rest of it alone.
\<close>

theorem dzimage_roundtrip:
  assumes "dzpack elf = Some img" "length elf \<le> length out"
  shows "\<exists>progress. unpack img out = Inr (length elf, elf @ drop (length elf) out, progress)"
proof -
  note h = dzpack_header [OF assms(1)]
  have bound: "length elf \<le> usize_max" "length elf < 18446744073709551616"
    using h(4) by (simp_all add: max_kernel_size_def usize_max_def)
  have size_w: "unat (word_of_nat (length elf) :: u64) = length elf"
    using bound(2) by (simp add: unat_of_nat)
  have nz: "(word_of_nat (length elf) :: u64) \<noteq> 0"
    using size_w h(3) by (metis length_0_conv unsigned_0)
  have fields: "slice 0 8 img = dz_magic" "slice 8 16 img = to_le 8 (word_of_nat (length elf) :: u64)"
      "slice 16 20 img = to_le 4 (dz_crc32 elf)" "slice 20 24 img = [0, 0, 0, 0]"
      "drop 24 img = lz4_compress elf" "24 \<le> length img"
    unfolding h(1) by (rule header_fields; simp add: h(2))+ (simp add: h(2))
  have sz: "unpacked_size img = Inr (length elf)"
    using fields size_w nz h(4)
    by (simp add: unpacked_size_def header_size_def dz_read_u64_def)
  have crc: "dz_read_u32 img 16 = Inr (dz_crc32 elf)"
    using fields by (simp add: dz_read_u32_def)
  let ?d = "\<lparr>d_input = drop header_size img, d_output = out, d_written = 0, d_progress = 0, reports = [0]\<rparr>"
  have "decoded elf (drop (length elf) out) ?d" "d_input ?d = lz4_compress elf"
    using assms(2) fields(5) by (simp_all add: decoded_def header_size_def)
  then obtain d' where d': "unpack_loop (length elf) ?d = Inr d'"
      "decoded elf (drop (length elf) out) d'" "d_written d' = length elf"
    using lz4_compress_unpacks [OF bound(1)] by fastforce
  then show ?thesis
    using sz crc assms(2) decoded_all [OF d'(2,3)] by (simp add: unpack_def)
qed

text \<open>The progress callback.\<close>

definition progress_ok :: "nat \<Rightarrow> decoder \<Rightarrow> bool" where
  "progress_ok target d \<longleftrightarrow> d_written d \<le> target \<and> reports d \<noteq> [] \<and> hd (reports d) = 0 \<and>
     sorted_wrt (<) (reports d) \<and> last (reports d) = d_progress d \<and> d_progress d \<le> 100"

lemma progress_fits:
  assumes "written \<le> target"
  shows "(word_of_nat (written * 100 div target) :: u8) \<le> 100"
proof -
  have "written * 100 div target \<le> 100"
    using assms by (cases "target = 0") (simp_all add: div_le_mono2 less_eq_div_iff_mult_less_eq div_le_mono
      order.trans [OF div_le_mono [OF mult_le_mono1]])
  then show ?thesis by (simp add: word_le_nat_alt unat_of_nat)
qed

lemma report_progress_ok:
  assumes "reports d \<noteq> [] \<and> hd (reports d) = 0 \<and> sorted_wrt (<) (reports d) \<and>
      last (reports d) = d_progress d \<and> d_progress d \<le> 100" "d_written d \<le> target"
  shows "progress_ok target (report_new_progress target d)"
    "d_written d = target \<Longrightarrow> 0 < target \<Longrightarrow> d_progress (report_new_progress target d) = 100"
proof -
  have last_max: "x \<le> last xs" if "sorted_wrt (<) xs" "x \<in> set xs" for x :: u8 and xs
    using that by (induction xs) (auto simp: order.strict_implies_order)
  show "progress_ok target (report_new_progress target d)"
    using assms progress_fits [OF assms(2)] last_max [of "reports d"]
    by (auto simp: progress_ok_def report_new_progress_def Let_def sorted_wrt_append
        intro: order.strict_trans1)
  show "d_progress (report_new_progress target d) = 100" if "d_written d = target" "0 < target"
    using assms that by (auto simp: report_new_progress_def Let_def)
qed

lemma copy_byte_progress:
  assumes "progress_ok target d" "d_written d < target"
  shows "progress_ok target (copy_byte offset target d)"
proof -
  let ?d = "d\<lparr>d_output := (d_output d)[d_written d := d_output d ! (d_written d - offset)],
      d_written := d_written d + 1\<rparr>"
  have "progress_ok target ?d" using assms by (simp add: progress_ok_def)
  then show ?thesis
    using report_progress_ok(1) [of ?d target] by (simp add: copy_byte_def Let_def progress_ok_def)
qed

lemma copy_match_progress:
  "progress_ok target d \<Longrightarrow> match_end \<le> target \<Longrightarrow> progress_ok target (copy_match match_end offset target d)"
proof (induction match_end offset target d rule: copy_match.induct)
  case (1 match_end offset target d)
  have "d_written d < match_end \<Longrightarrow> progress_ok target (copy_byte offset target d)"
    using 1(2,3) by (simp add: copy_byte_progress)
  with 1 show ?case by (subst copy_match.simps) auto
qed

text \<open>Between two sequences the progress reported last belongs to the bytes written so far.\<close>

definition progress_current :: "nat \<Rightarrow> decoder \<Rightarrow> bool" where
  "progress_current target d \<longleftrightarrow> progress_ok target d \<and>
     (d_written d = target \<longrightarrow> 0 < target \<longrightarrow> d_progress d = 100)"

lemma progress_report:
  "progress_ok target d \<Longrightarrow> progress_current target (report_new_progress target d)"
  using report_progress_ok [of d target] by (simp add: progress_current_def progress_ok_def)

lemma copy_literals_progress:
  assumes "progress_ok target d" "copy_literals target token d = Inr d'"
  shows "progress_current target d'"
proof -
  obtain out input w where "d' = report_new_progress target (d\<lparr>d_output := out, d_input := input, d_written := w\<rparr>)"
      "w \<le> target"
    using assms(2)
    by (auto simp: copy_literals_def rbind_Inr_iff not_le split: option.splits if_splits)
  then show ?thesis using assms(1) by (simp add: progress_report progress_ok_def)
qed

lemma copy_sequence_progress:
  assumes "progress_ok target d" "copy_sequence target token d = Inr d'"
  shows "progress_current target d'"
proof -
  obtain e offset input where e: "d' = report_new_progress target (copy_match e offset target (d\<lparr>d_input := input\<rparr>))"
      "e \<le> target"
    using assms(2)
    by (auto simp: copy_sequence_def rbind_Inr_iff case_option_Inr_iff not_le split: if_split_asm)
  have "progress_ok target (d\<lparr>d_input := input\<rparr>)" using assms(1) by (simp add: progress_ok_def)
  from copy_match_progress [OF this e(2)] show ?thesis using e(1) by (simp add: progress_report)
qed

lemma unpack_step_progress:
  assumes "progress_ok target d" "unpack_step target d = Inr (b, d')"
  shows "progress_current target d'"
proof -
  obtain token input d1 where d1: "copy_literals target token (d\<lparr>d_input := input\<rparr>) = Inr d1"
      "d' = d1 \<or> copy_sequence target token d1 = Inr d'"
    using assms(2) by (auto simp: unpack_step_def rbind_Inr_iff split: if_splits)
  have "progress_ok target (d\<lparr>d_input := input\<rparr>)" using assms(1) by (simp add: progress_ok_def)
  from copy_literals_progress [OF this d1(1)] show ?thesis
    using d1(2) copy_sequence_progress [of target d1 token d'] by (auto simp: progress_current_def)
qed

lemma unpack_loop_progress:
  assumes "progress_current target d" "unpack_loop target d = Inr d'"
  shows "progress_current target d'"
  using assms
proof (induction target d rule: unpack_loop.induct)
  case (1 target d)
  show ?case
  proof (cases "d_input d = []")
    case True
    with 1 show ?thesis by (simp add: unpack_loop.simps [of target d])
  next
    case False
    then obtain b d1 where d1: "unpack_step target d = Inr (b, d1)"
      using 1(3) by (auto simp: unpack_loop.simps [of target d] split: sum.splits)
    have "progress_current target d1"
      using unpack_step_progress [OF _ d1] 1(2) by (simp add: progress_current_def)
    then show ?thesis
      using 1(1) [OF False d1 refl] 1(3) False d1
      by (cases b) (simp_all add: unpack_loop.simps [of target d])
  qed
qed

text \<open>
  C27. Whenever unpacking an image succeeds, the percentages it reported start at 0, end at
  100 and strictly increase, and the unpacked bytes have the checksum stored in the image.
\<close>

theorem unpack_reports_progress:
  assumes "unpack img out = Inr (n, out', progress)"
  shows "hd progress = 0 \<and> last progress = 100 \<and> sorted_wrt (<) progress \<and>
    0 < n \<and> n \<le> max_kernel_size \<and> n \<le> length out \<and>
    dz_crc32 (take n out') = from_le (slice 16 20 img)"
proof -
  let ?d = "\<lparr>d_input = drop header_size img, d_output = out, d_written = 0, d_progress = 0, reports = [0]\<rparr>"
  obtain d where d: "unpacked_size img = Inr n" "n \<le> length out"
      "dz_read_u32 img 16 = Inr (dz_crc32 (take n out'))" "unpack_loop n ?d = Inr d"
      "d_written d = n" "out' = d_output d"
      "progress = (if d_progress d \<noteq> 100 then reports d @ [100] else reports d)"
    using assms by (auto simp: unpack_def rbind_Inr_iff not_less split: if_splits)
  have n: "0 < n" "n \<le> max_kernel_size"
    using d(1) by (auto simp: unpacked_size_def rbind_Inr_iff not_less unat_gt_0 split: if_splits)
  have "progress_current n ?d" using n by (simp add: progress_current_def progress_ok_def)
  from unpack_loop_progress [OF this d(4)] n d(5)
  have "progress_ok n d" "d_progress d = 100" by (simp_all add: progress_current_def)
  moreover have "dz_crc32 (take n out') = from_le (slice 16 20 img)"
    using d(3) by (simp add: dz_read_u32_def split: if_splits)
  ultimately show ?thesis using d n by (simp add: progress_ok_def)
qed

definition tiny :: "u8 list" where
  "tiny = [0x74, 0x69]"

lemma tiny_packed: "\<exists>img. dzpack tiny = Some img"
  by (simp add: dzpack_def tiny_def max_kernel_size_def)

theorem dzimage_roundtrip_witness:
  "\<exists>img progress. dzpack tiny = Some img \<and> unpack img [0, 0, 7] = Inr (2, [0x74, 0x69, 7], progress)"
proof -
  obtain img where img: "dzpack tiny = Some img" using tiny_packed by blast
  from dzimage_roundtrip [OF this, of "[0, 0, 7]"] show ?thesis
    using img by (auto simp: tiny_def)
qed

text \<open>A stored image of one byte, and its unpacking.\<close>

definition stored_image :: "u8 list" where
  "stored_image = dz_magic @ [1, 0, 0, 0, 0, 0, 0, 0] @ to_le 4 (dz_crc32 [0x41]) @ [0, 0, 0, 0] @ [0x10, 0x41]"

lemma stored_image_unpacks: "unpack stored_image [0] = Inr (1, [0x41], [0, 100])"
proof -
  have fields: "slice 0 8 stored_image = dz_magic" "slice 8 16 stored_image = [1, 0, 0, 0, 0, 0, 0, 0]"
      "slice 16 20 stored_image = to_le 4 (dz_crc32 [0x41])" "slice 20 24 stored_image = [0, 0, 0, 0]"
      "drop 24 stored_image = [0x10, 0x41]" "24 \<le> length stored_image"
    unfolding stored_image_def by (rule header_fields; simp add: dz_magic_def)+ (simp add: dz_magic_def)
  let ?d = "\<lparr>d_input = [0x10, 0x41], d_output = [0], d_written = 0, d_progress = 0, reports = [0]\<rparr>"
  have step: "unpack_step 1 ?d = Inr (True, \<lparr>d_input = [], d_output = [0x41], d_written = 1,
      d_progress = 100, reports = [0, 100]\<rparr>)"
    by (simp add: unpack_step_def copy_literals_def read_extended_length_def usize_add_def
        report_new_progress_def splice_def usize_max_def)
  show ?thesis
    using fields unpack_loop_step [OF _ step]
    by (simp add: unpack_def unpacked_size_def header_size_def dz_read_u64_def dz_read_u32_def
        max_kernel_size_def)
qed

theorem unpack_reports_progress_witness:
  "unpack stored_image [0] = Inr (1, [0x41], [0, 100]) \<and>
   dz_crc32 (take 1 [0x41]) = from_le (slice 16 20 stored_image)"
  using unpack_reports_progress [OF stored_image_unpacks] stored_image_unpacks by blast

end
