(* ===== verification/Paging.thy ===== *)
theory Paging
  imports Frame_Allocator
begin

text \<open>
  Four-level page tables, \<open>kernel/src/arch/x86_64/paging.rs\<close>. The machine is the frame
  allocator, the bytes of memory as the kernel addresses them (pointers into the direct map,
  physical address plus \<open>hhdm_offset\<close>) and the root loaded in CR3. A function that only
  loads the tables takes the machine, one that allocates or stores returns the new one.
\<close>

section \<open>The machine\<close>

record machine =
  allocator :: frame_allocator
  ram :: "u64 \<Rightarrow> u8"
  cr3 :: u64

definition load_bytes :: "machine \<Rightarrow> u64 \<Rightarrow> nat \<Rightarrow> u8 list" where
  "load_bytes m p n = map (\<lambda>i. ram m (p + word_of_nat i)) [0..<n]"

definition store_bytes :: "u64 \<Rightarrow> u8 list \<Rightarrow> machine \<Rightarrow> machine" where
  "store_bytes p bs m = m\<lparr>ram := \<lambda>a. if unat (a - p) < length bs then bs ! unat (a - p) else ram m a\<rparr>"

definition load_u64 :: "machine \<Rightarrow> u64 \<Rightarrow> u64" where
  "load_u64 m p = from_le (load_bytes m p 8)"

definition store_u64 :: "u64 \<Rightarrow> u64 \<Rightarrow> machine \<Rightarrow> machine" where
  "store_u64 p v = store_bytes p (to_le 8 v)"

definition zero_page :: "u64 \<Rightarrow> machine \<Rightarrow> machine" where
  "zero_page p = store_bytes p (replicate 4096 0)"

definition copy_page :: "u64 \<Rightarrow> u64 \<Rightarrow> machine \<Rightarrow> machine" where
  "copy_page source destination m = store_bytes destination (load_bytes m source 4096) m"

text \<open>\<open>memory::allocate_frame\<close> on the machine's allocator.\<close>

definition new_frame :: "machine \<Rightarrow> frame option \<times> machine" where
  "new_frame m = (let (f, al) = allocate_frame (allocator m) in (f, m\<lparr>allocator := al\<rparr>))"

section \<open>Constants\<close>

definition entry_present :: u64 where
  "entry_present = 1"

definition entry_writable :: u64 where
  "entry_writable = push_bit 1 1"

definition entry_user :: u64 where
  "entry_user = push_bit 2 1"

definition entry_huge :: u64 where
  "entry_huge = push_bit 7 1"

definition address_mask :: u64 where
  "address_mask = 0x000ffffffffff000"

definition user_min :: u64 where
  "user_min = 0x400000"

definition user_max :: u64 where
  "user_max = 0x0000800000000000"

record address_space =
  root_physical :: u64

datatype map_error = InvalidAddress | OutOfMemory | AlreadyMapped

definition table_pointer :: "machine \<Rightarrow> u64 \<Rightarrow> u64 option" where
  "table_pointer m physical = phys_to_virt (allocator m) physical"

text \<open>\<open>table.add(index)\<close> for a table of 64-bit entries.\<close>

definition entry_pointer :: "u64 \<Rightarrow> nat \<Rightarrow> u64" where
  "entry_pointer table index = table + word_of_nat (8 * index)"

definition load_entry :: "machine \<Rightarrow> u64 \<Rightarrow> nat \<Rightarrow> u64" where
  "load_entry m table index = load_u64 m (entry_pointer table index)"

definition store_entry :: "u64 \<Rightarrow> nat \<Rightarrow> u64 \<Rightarrow> machine \<Rightarrow> machine" where
  "store_entry table index v = store_u64 (entry_pointer table index) v"

definition table_indices :: "u64 \<Rightarrow> nat list" where
  "table_indices a = map (\<lambda>s. unat (drop_bit s a AND 0x1ff)) [39, 30, 21, 12]"

definition present :: "u64 \<Rightarrow> bool" where
  "present e \<longleftrightarrow> e AND entry_present \<noteq> 0"

section \<open>Operations\<close>

definition new_user :: "machine \<Rightarrow> address_space option \<times> machine" where
  "new_user m =
     (let current_root = cr3 m AND address_mask in
      case new_frame m of
        (None, m) \<Rightarrow> (None, m)
      | (Some root, m) \<Rightarrow>
          let m = zero_page (virtual_address root) m in
          (case table_pointer m current_root of
             None \<Rightarrow> (None, m)
           | Some source \<Rightarrow>
               (Some \<lparr>root_physical = physical_address root\<rparr>,
                store_bytes (entry_pointer (virtual_address root) 256)
                  (load_bytes m (entry_pointer source 256) (256 * 8)) m)))"

text \<open>
  The loop over the three upper levels, shared by \<open>map_user_page\<close> and \<open>map_physical_page\<close>:
  a missing table is allocated and cleared, an existing entry is made writable and
  user-accessible. \<open>None\<close> is running out of memory.
\<close>

fun make_tables :: "nat list \<Rightarrow> u64 \<Rightarrow> machine \<Rightarrow> u64 option \<times> machine" where
  "make_tables [] table_physical m = (Some table_physical, m)"
| "make_tables (index # rest) table_physical m = (case table_pointer m table_physical of
     None \<Rightarrow> (None, m)
   | Some table \<Rightarrow>
       let e = load_entry m table index in
       if \<not> present e then
         (case new_frame m of
            (None, m) \<Rightarrow> (None, m)
          | (Some frame, m) \<Rightarrow>
              let m = zero_page (virtual_address frame) m;
                  e = physical_address frame OR entry_present OR entry_writable OR entry_user
              in make_tables rest (e AND address_mask) (store_entry table index e m))
       else
         let e = e OR (entry_writable OR entry_user)
         in make_tables rest (e AND address_mask) (store_entry table index e m))"

definition map_user_page :: "address_space \<Rightarrow> u64 \<Rightarrow> machine \<Rightarrow> (map_error + u64) \<times> machine" where
  "map_user_page space va m =
     (if va < user_min \<or> user_max \<le> va then (Inl InvalidAddress, m)
      else
        let indices = table_indices (align_down va) in
        (case make_tables (take 3 indices) (root_physical space) m of
           (None, m) \<Rightarrow> (Inl OutOfMemory, m)
         | (Some table_physical, m) \<Rightarrow> (case table_pointer m table_physical of
             None \<Rightarrow> (Inl OutOfMemory, m)
           | Some table \<Rightarrow>
               if present (load_entry m table (indices ! 3)) then (Inl AlreadyMapped, m)
               else (case new_frame m of
                   (None, m) \<Rightarrow> (Inl OutOfMemory, m)
                 | (Some frame, m) \<Rightarrow>
                     let m = zero_page (virtual_address frame) m;
                         e = physical_address frame OR entry_present OR entry_writable OR entry_user
                     in (Inr (virtual_address frame), store_entry table (indices ! 3) e m)))))"

definition map_physical_page :: "address_space \<Rightarrow> u64 \<Rightarrow> u64 \<Rightarrow> machine \<Rightarrow> u64 option \<times> machine" where
  "map_physical_page space va physical m =
     (if va < user_min \<or> user_max \<le> va then (None, m)
      else
        let indices = table_indices (align_down va) in
        (case make_tables (take 3 indices) (root_physical space) m of
           (None, m) \<Rightarrow> (None, m)
         | (Some table_physical, m) \<Rightarrow> (case table_pointer m table_physical of
             None \<Rightarrow> (None, m)
           | Some table \<Rightarrow>
               let e = physical OR entry_present OR entry_writable OR entry_user;
                   m = store_entry table (indices ! 3) e m
               in (phys_to_virt (allocator m) physical, m))))"

text \<open>
  \<open>map_framebuffer_range\<close>; \<open>length\<close> is a \<open>usize\<close>, and the page count is below \<open>2 ^ 53\<close>, so
  the product with the page size does not overflow.
\<close>

fun map_pages :: "address_space \<Rightarrow> u64 \<Rightarrow> u64 \<Rightarrow> nat list \<Rightarrow> machine \<Rightarrow> bool \<times> machine" where
  "map_pages space va start [] m = (True, m)"
| "map_pages space va start (index # rest) m =
     (case checked_add (align_down va) (word_of_nat index * page_size) of
        None \<Rightarrow> (False, m)
      | Some virtual_page \<Rightarrow> (case checked_add start (word_of_nat index * page_size) of
          None \<Rightarrow> (False, m)
        | Some physical_page \<Rightarrow> (case map_physical_page space virtual_page physical_page m of
            (None, m) \<Rightarrow> (False, m)
          | (Some target, m) \<Rightarrow> map_pages space va start rest m)))"

definition map_framebuffer_range ::
  "address_space \<Rightarrow> u64 \<Rightarrow> u64 \<Rightarrow> nat \<Rightarrow> machine \<Rightarrow> u64 option \<times> machine" where
  "map_framebuffer_range space va physical len m =
     (if len = 0 then (None, m)
      else
        let page_offset = physical AND (page_size - 1);
            start_physical = align_down physical;
            start_virtual = (case checked_add (align_down va) page_offset of None \<Rightarrow> va | Some a \<Rightarrow> a)
        in (case usize_add (unat page_offset) len of
              None \<Rightarrow> (None, m)
            | Some bytes \<Rightarrow>
                let pages = (bytes + 4095) div 4096 in
                (case map_pages space va start_physical [0..<pages] m of
                   (False, m) \<Rightarrow> (None, m)
                 | (True, m) \<Rightarrow> (Some start_virtual, m))))"

fun walk_user :: "machine \<Rightarrow> nat list \<Rightarrow> u64 \<Rightarrow> u64 option" where
  "walk_user m [] table_physical = Some table_physical"
| "walk_user m (index # rest) table_physical = (case table_pointer m table_physical of
     None \<Rightarrow> None
   | Some table \<Rightarrow>
       let e = load_entry m table index in
       if \<not> present e \<or> e AND entry_user = 0 then None
       else walk_user m rest (e AND address_mask))"

definition translate :: "machine \<Rightarrow> address_space \<Rightarrow> u64 \<Rightarrow> u64 option" where
  "translate m space va =
     (case walk_user m (table_indices va) (root_physical space) of
        None \<Rightarrow> None
      | Some physical \<Rightarrow> phys_to_virt (allocator m) (physical OR (va AND (page_size - 1))))"

text \<open>
  \<open>copy_table\<close>: a page is copied to a fresh frame, a table is descended into. Whatever cannot
  be copied counts zero and is left out of the copy.
\<close>

fun copy_table :: "nat \<Rightarrow> u64 \<Rightarrow> u64 \<Rightarrow> nat \<Rightarrow> machine \<Rightarrow> nat \<times> machine" where
  "copy_table 0 source destination index m = (0, m)"
| "copy_table (Suc level) source destination index m = (case table_pointer m source of
     None \<Rightarrow> (0, m)
   | Some source_table \<Rightarrow>
       let source_entry = load_entry m source_table index in
       if \<not> present source_entry then (0, m)
       else (case table_pointer m destination of
         None \<Rightarrow> (0, m)
       | Some destination_table \<Rightarrow>
           if level = 0 then
             (case new_frame m of
                (None, m) \<Rightarrow> (0, m)
              | (Some frame, m) \<Rightarrow> (case table_pointer m (source_entry AND address_mask) of
                  None \<Rightarrow> (0, m)
                | Some source_page \<Rightarrow>
                    let m = copy_page source_page (virtual_address frame) m in
                    (1, store_entry destination_table index
                          ((source_entry AND NOT address_mask) OR physical_address frame) m)))
           else if source_entry AND entry_huge \<noteq> 0 then (0, m)
           else
             let next_source = source_entry AND address_mask;
                 (ready, m) =
                   (if \<not> present (load_entry m destination_table index) then
                      (case new_frame m of
                         (None, m) \<Rightarrow> (False, m)
                       | (Some frame, m) \<Rightarrow>
                           (True, store_entry destination_table index
                              (physical_address frame OR entry_present OR entry_writable OR entry_user)
                              (zero_page (virtual_address frame) m)))
                    else (True, m))
             in if \<not> ready then (0, m)
                else
                  let next_destination = load_entry m destination_table index AND address_mask
                  in fold (\<lambda>child (copied, m).
                       let (n, m) = copy_table level next_source next_destination child m in (copied + n, m))
                     [0..<512] (0, m)))"

definition copy_user_pages :: "address_space \<Rightarrow> address_space \<Rightarrow> machine \<Rightarrow> nat \<times> machine" where
  "copy_user_pages space destination m =
     fold (\<lambda>index (copied, m).
       let (n, m) = copy_table 4 (root_physical space) (root_physical destination) index m
       in (copied + n, m)) [0..<256] (0, m)"

definition clone_user :: "address_space \<Rightarrow> machine \<Rightarrow> address_space option \<times> machine" where
  "clone_user space m = (case new_user m of
     (None, m) \<Rightarrow> (None, m)
   | (Some clone, m) \<Rightarrow>
       let (copied, m) = copy_user_pages space clone m
       in if copied = 0 then (None, m) else (Some clone, m))"

definition switch_space :: "address_space \<Rightarrow> machine \<Rightarrow> machine" where
  "switch_space space m = m\<lparr>cr3 := root_physical space\<rparr>"

text \<open>
  \<open>map_hhdm_page\<close> and \<open>map_hhdm_range\<close> extend the kernel's own direct map; \<open>invlpg\<close> only
  drops a cached translation and has no effect on the model's state.
\<close>

fun make_hhdm_tables :: "nat \<Rightarrow> nat list \<Rightarrow> u64 \<Rightarrow> machine \<Rightarrow> (bool + u64) \<times> machine" where
  "make_hhdm_tables level [] table_physical m = (Inr table_physical, m)"
| "make_hhdm_tables level (index # rest) table_physical m = (case table_pointer m table_physical of
     None \<Rightarrow> (Inl False, m)
   | Some table \<Rightarrow>
       let e = load_entry m table index in
       if \<not> present e then
         (case new_frame m of
            (None, m) \<Rightarrow> (Inl False, m)
          | (Some frame, m) \<Rightarrow>
              let m = zero_page (virtual_address frame) m;
                  e = physical_address frame OR entry_present OR entry_writable
              in make_hhdm_tables (level + 1) rest (e AND address_mask) (store_entry table index e m))
       else if 0 < level \<and> e AND entry_huge \<noteq> 0 then (Inl True, m)
       else make_hhdm_tables (level + 1) rest (e AND address_mask) m)"

definition map_hhdm_page :: "u64 \<Rightarrow> u64 \<Rightarrow> machine \<Rightarrow> bool \<times> machine" where
  "map_hhdm_page va physical m =
     (let indices = table_indices va in
      case make_hhdm_tables 0 (take 3 indices) (cr3 m AND address_mask) m of
        (Inl done, m) \<Rightarrow> (done, m)
      | (Inr table_physical, m) \<Rightarrow> (case table_pointer m table_physical of
          None \<Rightarrow> (False, m)
        | Some table \<Rightarrow>
            let e = load_entry m table (indices ! 3) in
            if present e then (e AND address_mask = physical, m)
            else (True, store_entry table (indices ! 3)
                    (physical OR entry_present OR entry_writable) m)))"

function map_hhdm_loop :: "u64 \<Rightarrow> u64 \<Rightarrow> u64 \<Rightarrow> machine \<Rightarrow> bool \<times> machine" where
  "map_hhdm_loop offset physical finish m =
     (if physical < finish then
        (case checked_add offset physical of
           None \<Rightarrow> (False, m)
         | Some va \<Rightarrow> (case map_hhdm_page va physical m of
             (False, m) \<Rightarrow> (False, m)
           | (True, m) \<Rightarrow> map_hhdm_loop offset (saturating_add_u64 physical page_size) finish m))
      else (True, m))"
  by pat_completeness auto
termination
proof (relation "measure (\<lambda>(offset, physical, finish, m). unat finish - unat physical)", goal_cases)
  case (2 offset physical finish m va ok m')
  then have "unat physical < unat finish" by (simp add: word_less_nat_alt)
  then show ?case
    using unat_u64_less [of finish] by (simp add: saturating_add_u64_unat)
qed simp

definition map_hhdm_range :: "u64 \<Rightarrow> u64 \<Rightarrow> nat \<Rightarrow> machine \<Rightarrow> bool \<times> machine" where
  "map_hhdm_range offset physical len m =
     (case checked_add physical (word_of_nat len) of
        None \<Rightarrow> (False, m)
      | Some finish \<Rightarrow>
          if len = 0 then (True, m)
          else map_hhdm_loop offset (align_down physical)
                 (align_down (saturating_add_u64 finish (page_size - 1))) m)"

end
