(* ===== verification/Elf.thy ===== *)
theory Elf
  imports Prelude
begin

text \<open>
  The ELF reader of the kernel, \<open>kernel/src/exec/elf.rs\<close>: header and program headers of a
  64-bit little-endian executable, with every offset checked.
\<close>

definition elf_header_size :: nat where
  "elf_header_size = 64"

definition program_header_size :: nat where
  "program_header_size = 56"

definition pt_load :: u32 where
  "pt_load = 1"

definition et_exec :: u16 where
  "et_exec = 2"

definition em_x86_64 :: u16 where
  "em_x86_64 = 62"

datatype elf_error = Truncated | InvalidMagic | UnsupportedFormat | InvalidProgramHeaders | InvalidSegment

record segment =
  seg_virtual_address :: u64
  seg_memory_size :: u64
  seg_file_offset :: nat
  seg_file_size :: nat
  seg_flags :: u32

record elf64 =
  elf_bytes :: "u8 list"
  elf_entry :: u64
  elf_program_headers :: nat
  elf_header_count :: nat
  elf_header_stride :: nat

definition elf_read_u16 :: "u8 list \<Rightarrow> nat \<Rightarrow> elf_error + u16" where
  "elf_read_u16 bytes offset =
     (if offset + 2 \<le> length bytes then Inr (from_le (slice offset (offset + 2) bytes)) else Inl Truncated)"

definition elf_read_u32 :: "u8 list \<Rightarrow> nat \<Rightarrow> elf_error + u32" where
  "elf_read_u32 bytes offset =
     (if offset + 4 \<le> length bytes then Inr (from_le (slice offset (offset + 4) bytes)) else Inl Truncated)"

definition elf_read_u64 :: "u8 list \<Rightarrow> nat \<Rightarrow> elf_error + u64" where
  "elf_read_u64 bytes offset =
     (if offset + 8 \<le> length bytes then Inr (from_le (slice offset (offset + 8) bytes)) else Inl Truncated)"

definition elf_segment :: "elf64 \<Rightarrow> nat \<Rightarrow> elf_error + segment option" where
  "elf_segment elf index =
     (if elf_header_count elf \<le> index then Inr None
      else
        rbind (ok_or InvalidProgramHeaders (usize_mul index (elf_header_stride elf))) (\<lambda>stride.
        rbind (ok_or InvalidProgramHeaders (usize_add (elf_program_headers elf) stride)) (\<lambda>header.
        rbind (elf_read_u32 (elf_bytes elf) header) (\<lambda>kind.
        if kind \<noteq> pt_load then Inr None
        else
          rbind (elf_read_u64 (elf_bytes elf) (header + 8)) (\<lambda>offset.
          rbind (elf_read_u64 (elf_bytes elf) (header + 16)) (\<lambda>virtual_address.
          rbind (elf_read_u64 (elf_bytes elf) (header + 32)) (\<lambda>file_size.
          rbind (elf_read_u64 (elf_bytes elf) (header + 40)) (\<lambda>memory_size.
          let file_offset = unat offset; file_size = unat file_size in
          if file_size = 0 \<and> memory_size = 0 then Inr None
          else
            rbind (ok_or InvalidSegment (usize_add file_offset file_size)) (\<lambda>file_end.
            rbind (ok_or InvalidSegment (checked_add virtual_address memory_size)) (\<lambda>memory_end.
            if length (elf_bytes elf) < file_end \<or> unat memory_size < file_size \<or> memory_size = 0 \<or>
               virtual_address < 0x400000 \<or> 0x0000800000000000 < memory_end
            then Inl InvalidSegment
            else
              rbind (elf_read_u32 (elf_bytes elf) (header + 4)) (\<lambda>flags.
              Inr (Some \<lparr>seg_virtual_address = virtual_address, seg_memory_size = memory_size,
                seg_file_offset = file_offset, seg_file_size = file_size, seg_flags = flags\<rparr>))))))))))))"

text \<open>The scan of \<open>parse\<close> over the program headers: whether a segment is loadable, and whether one executable segment holds the entry.\<close>

fun scan_segments :: "elf64 \<Rightarrow> nat list \<Rightarrow> bool \<Rightarrow> bool \<Rightarrow> elf_error + bool \<times> bool" where
  "scan_segments elf [] loadable executable_entry = Inr (loadable, executable_entry)"
| "scan_segments elf (index # rest) loadable executable_entry =
     rbind (elf_segment elf index) (\<lambda>seg. case seg of
       None \<Rightarrow> scan_segments elf rest loadable executable_entry
     | Some seg \<Rightarrow>
         rbind (ok_or InvalidSegment (checked_add (seg_virtual_address seg) (seg_memory_size seg))) (\<lambda>finish.
         scan_segments elf rest True
           (executable_entry \<or> (seg_flags seg AND 1 \<noteq> 0 \<and> seg_virtual_address seg \<le> elf_entry elf \<and>
              elf_entry elf < finish))))"

definition elf_parse :: "u8 list \<Rightarrow> elf_error + elf64" where
  "elf_parse bytes =
     (if length bytes < elf_header_size then Inl Truncated
      else if take 4 bytes \<noteq> [0x7f, 0x45, 0x4c, 0x46] then Inl InvalidMagic
      else if bytes ! 4 \<noteq> 2 \<or> bytes ! 5 \<noteq> 1 then Inl UnsupportedFormat
      else
        rbind (elf_read_u16 bytes 16) (\<lambda>kind. if kind \<noteq> et_exec then Inl UnsupportedFormat else
        rbind (elf_read_u16 bytes 18) (\<lambda>arch. if arch \<noteq> em_x86_64 then Inl UnsupportedFormat else
        rbind (elf_read_u32 bytes 20) (\<lambda>version. if version \<noteq> 1 then Inl UnsupportedFormat else
        rbind (elf_read_u16 bytes 52) (\<lambda>size. if unat size \<noteq> elf_header_size then Inl UnsupportedFormat else
        rbind (elf_read_u64 bytes 24) (\<lambda>entry.
        rbind (elf_read_u64 bytes 32) (\<lambda>headers.
        rbind (elf_read_u16 bytes 54) (\<lambda>stride.
        rbind (elf_read_u16 bytes 56) (\<lambda>number.
        if unat stride < program_header_size \<or> number = 0 \<or> 128 < number then Inl InvalidProgramHeaders
        else
          rbind (ok_or InvalidProgramHeaders (usize_mul (unat stride) (unat number))) (\<lambda>table_size.
          rbind (ok_or InvalidProgramHeaders (usize_add (unat headers) table_size)) (\<lambda>table_end.
          if length bytes < table_end then Inl InvalidProgramHeaders
          else
            let elf = \<lparr>elf_bytes = bytes, elf_entry = entry, elf_program_headers = unat headers,
                       elf_header_count = unat number, elf_header_stride = unat stride\<rparr> in
            rbind (scan_segments elf [0..<unat number] False False) (\<lambda>(loadable, executable_entry).
            if \<not> loadable \<or> \<not> executable_entry then Inl InvalidSegment else Inr elf))))))))))))"

definition elf_file_bytes :: "elf64 \<Rightarrow> segment \<Rightarrow> u8 list option" where
  "elf_file_bytes elf seg = (case usize_add (seg_file_offset seg) (seg_file_size seg) of
     None \<Rightarrow> None
   | Some finish \<Rightarrow> if finish \<le> length (elf_bytes elf)
       then Some (slice (seg_file_offset seg) finish (elf_bytes elf)) else None)"

section \<open>What a parsed image promises\<close>

definition segment_ok :: "elf64 \<Rightarrow> segment \<Rightarrow> bool" where
  "segment_ok elf seg \<longleftrightarrow>
     seg_file_offset seg + seg_file_size seg \<le> length (elf_bytes elf) \<and>
     seg_file_size seg \<le> unat (seg_memory_size seg) \<and> 0 < unat (seg_memory_size seg) \<and>
     0x400000 \<le> unat (seg_virtual_address seg) \<and>
     unat (seg_virtual_address seg) + unat (seg_memory_size seg) \<le> 0x800000000000 \<and>
     elf_file_bytes elf seg = Some (slice (seg_file_offset seg) (seg_file_offset seg + seg_file_size seg) (elf_bytes elf))"

lemma elf_segment_ok:
  assumes "elf_segment elf index = Inr (Some seg)" "length (elf_bytes elf) \<le> usize_max"
  shows "segment_ok elf seg"
  using assms
  by (auto simp: elf_segment_def rbind_Inr_iff Let_def segment_ok_def elf_file_bytes_def not_less
      word_le_nat_alt word_less_nat_alt usize_add_def unat_gt_0 split: if_split_asm dest!: checked_add_unat)

lemma scan_segments_spec:
  assumes "scan_segments elf indices l x = Inr (l', x')" "x' \<noteq> x"
  shows "\<exists>index \<in> set indices. \<exists>seg. elf_segment elf index = Inr (Some seg) \<and> seg_flags seg AND 1 \<noteq> 0 \<and>
    unat (seg_virtual_address seg) \<le> unat (elf_entry elf) \<and>
    unat (elf_entry elf) < unat (seg_virtual_address seg) + unat (seg_memory_size seg)"
  using assms
proof (induction indices arbitrary: l x)
  case Nil
  then show ?case by simp
next
  case (Cons index rest)
  show ?case
  proof (cases "elf_segment elf index")
    case (Inl e)
    with Cons.prems show ?thesis by simp
  next
    case (Inr o')
    show ?thesis
    proof (cases o')
      case None
      with Inr Cons show ?thesis by fastforce
    next
      case (Some seg)
      then obtain finish where f: "checked_add (seg_virtual_address seg) (seg_memory_size seg) = Some finish"
          and scan: "scan_segments elf rest True (x \<or> (seg_flags seg AND 1 \<noteq> 0 \<and>
            seg_virtual_address seg \<le> elf_entry elf \<and> elf_entry elf < finish)) = Inr (l', x')"
        using Inr Cons.prems(1) by (auto simp: rbind_Inr_iff)
      show ?thesis
      proof (cases "seg_flags seg AND 1 \<noteq> 0 \<and> seg_virtual_address seg \<le> elf_entry elf \<and> elf_entry elf < finish")
        case True
        then show ?thesis
          using Inr Some checked_add_unat [OF f] by (auto simp: word_le_nat_alt word_less_nat_alt)
      next
        case False
        with scan have "scan_segments elf rest True x = Inr (l', x')" by auto
        from Cons.IH [OF this Cons.prems(2)] show ?thesis by auto
      qed
    qed
  qed
qed

lemma scan_segments_all:
  "scan_segments elf indices l x = Inr r \<Longrightarrow> index \<in> set indices \<Longrightarrow> \<exists>seg. elf_segment elf index = Inr seg"
  by (induction elf indices l x rule: scan_segments.induct)
    (auto simp: rbind_Inr_iff split: option.splits)

text \<open>
  C28. When \<open>parse\<close> accepts an image, no later access to it can fail: every program header
  reads without an error, every loadable segment takes its bytes from inside the file, fits
  its memory, lies in user space, and the entry point is inside an executable segment.
\<close>

theorem elf_parse_sound:
  assumes "elf_parse bytes = Inr elf" "length bytes \<le> usize_max"
  shows "elf_bytes elf = bytes \<and>
    (\<forall>index. \<exists>seg. elf_segment elf index = Inr seg \<and> (case seg of None \<Rightarrow> True | Some s \<Rightarrow> segment_ok elf s)) \<and>
    (\<exists>index seg. elf_segment elf index = Inr (Some seg) \<and> seg_flags seg AND 1 \<noteq> 0 \<and>
       unat (seg_virtual_address seg) \<le> unat (elf_entry elf) \<and>
       unat (elf_entry elf) < unat (seg_virtual_address seg) + unat (seg_memory_size seg))"
proof -
  have bytes: "elf_bytes elf = bytes"
    using assms(1) by (auto simp: elf_parse_def rbind_Inr_iff Let_def split: if_split_asm prod.splits)
  have scan: "\<exists>l. scan_segments elf [0..<elf_header_count elf] False False = Inr (l, True)"
    using assms(1) by (auto simp: elf_parse_def rbind_Inr_iff Let_def split: if_split_asm prod.splits)
  have "\<exists>seg. elf_segment elf index = Inr seg \<and> (case seg of None \<Rightarrow> True | Some s \<Rightarrow> segment_ok elf s)" for index
  proof (cases "index < elf_header_count elf")
    case True
    then obtain seg where "elf_segment elf index = Inr seg"
      using scan scan_segments_all [where index = index] by fastforce
    then show ?thesis
      using elf_segment_ok [of elf index] assms(2) bytes by (cases seg) auto
  next
    case False
    then show ?thesis by (simp add: elf_segment_def)
  qed
  moreover have "\<exists>index seg. elf_segment elf index = Inr (Some seg) \<and> seg_flags seg AND 1 \<noteq> 0 \<and>
       unat (seg_virtual_address seg) \<le> unat (elf_entry elf) \<and>
       unat (elf_entry elf) < unat (seg_virtual_address seg) + unat (seg_memory_size seg)"
    using scan scan_segments_spec [of elf "[0..<elf_header_count elf]" False False _ True] by blast
  ultimately show ?thesis using bytes by blast
qed

text \<open>The smallest executable of the unit tests, with one program header.\<close>

definition sample_elf :: "u8 list" where
  "sample_elf = [0x7f, 0x45, 0x4c, 0x46, 2, 1, 1, 0, 0, 0, 0, 0, 0, 0, 0, 0] @
     [2, 0, 62, 0, 1, 0, 0, 0, 0, 0, 0x40, 0, 0, 0, 0, 0, 64, 0, 0, 0, 0, 0, 0, 0] @
     [0, 0, 0, 0, 0, 0, 0, 0, 0, 0, 0, 0, 64, 0, 56, 0, 1, 0, 0, 0, 0, 0, 0, 0] @
     [1, 0, 0, 0, 1, 0, 0, 0, 120, 0, 0, 0, 0, 0, 0, 0, 0, 0, 0x40, 0, 0, 0, 0, 0, 0, 0, 0, 0, 0, 0, 0, 0] @
     [1, 0, 0, 0, 0, 0, 0, 0, 0, 16, 0, 0, 0, 0, 0, 0, 0, 16, 0, 0, 0, 0, 0, 0] @ [0x90]"

lemma sample_elf_parses: "\<exists>elf. elf_parse sample_elf = Inr elf"
  by (simp add: elf_parse_def sample_elf_def elf_header_size_def elf_read_u16_def elf_read_u32_def
      elf_read_u64_def slice_def et_exec_def em_x86_64_def program_header_size_def usize_mul_def
      usize_add_def usize_max_def elf_segment_def pt_load_def checked_add_def Let_def)

theorem elf_parse_sound_witness:
  "\<exists>elf. elf_parse sample_elf = Inr elf \<and> (\<exists>seg. elf_segment elf 5 = Inr seg)"
proof -
  obtain elf where elf: "elf_parse sample_elf = Inr elf" using sample_elf_parses by blast
  have "length sample_elf \<le> usize_max" by (simp add: sample_elf_def usize_max_def)
  from elf_parse_sound [OF elf this] elf show ?thesis by blast
qed

end
