(* ===== verification/User_Memory.thy ===== *)
theory User_Memory
  imports Paging Elf Io
begin

text \<open>
  How the kernel reaches user memory and builds a new program in it, from
  \<open>kernel/src/exec/process.rs\<close>: copies that go page by page through \<open>translate\<close>, the initial
  user stack with its argument and environment vectors, and the mapping of an ELF image. The
  loader's result is the pair of address space and entry state that \<open>load_elf_at\<close> puts into
  the new process record.
\<close>

section \<open>Copies\<close>

definition user_stack_size :: u64 where
  "user_stack_size = 32 * 4096"

definition user_stack_top :: u64 where
  "user_stack_top = 0x00007fffffff0000"

definition user_heap_start :: u64 where
  "user_heap_start = 0x0000000100000000"

definition user_heap_limit :: u64 where
  "user_heap_limit = 64 * 1024 * 1024"

definition max_exec_args :: nat where
  "max_exec_args = 12"

definition max_exec_env :: nat where
  "max_exec_env = 12"

text \<open>The bytes left in the page of an address, \<open>PAGE_SIZE - (current & (PAGE_SIZE - 1))\<close>.\<close>

definition page_room :: "u64 \<Rightarrow> u64" where
  "page_room a = page_size - (a AND (page_size - 1))"

lemma page_room_unat: "unat (page_room a) = 4096 - unat a mod 4096"
proof -
  have "page_size - 1 = (mask 12 :: u64)" by (simp add: page_size_def mask_eq_exp_minus_1)
  then have "unat (a AND (page_size - 1)) = unat a mod 4096"
    by (simp add: take_bit_eq_mask [symmetric] take_bit_eq_mod unat_mod)
  moreover from this have "a AND (page_size - 1) \<le> page_size"
    by (simp add: word_le_nat_alt order.strict_implies_order)
  ultimately show ?thesis by (simp add: page_room_def unat_sub)
qed

lemma page_room_pos [simp]: "0 < unat (page_room a)"
  by (simp add: page_room_unat)

text \<open>
  The loop of \<open>copy_to_user\<close>, \<open>copy_to_current_user\<close> and, reading, of
  \<open>copy_from_current_user\<close>. A failed copy leaves what it had already written.
\<close>

function copy_in_loop :: "address_space \<Rightarrow> u64 \<Rightarrow> u8 list \<Rightarrow> nat \<Rightarrow> machine \<Rightarrow> bool \<times> machine" where
  "copy_in_loop space address bytes copied m =
     (if copied < length bytes then
        (case checked_add address (word_of_nat copied) of
           None \<Rightarrow> (False, m)
         | Some current \<Rightarrow> (case translate m space current of
             None \<Rightarrow> (False, m)
           | Some destination \<Rightarrow>
               let available = min (unat (page_room current)) (length bytes - copied)
               in copy_in_loop space address bytes (copied + available)
                    (store_bytes destination (take available (drop copied bytes)) m)))
      else (True, m))"
  by pat_completeness auto
termination
  by (relation "measure (\<lambda>(space, address, bytes, copied, m). length bytes - copied)")
    (auto simp: min_def intro: diff_less_mono2)

declare copy_in_loop.simps [simp del]

function copy_out_loop :: "machine \<Rightarrow> address_space \<Rightarrow> u64 \<Rightarrow> nat \<Rightarrow> u8 list \<Rightarrow> u8 list option" where
  "copy_out_loop m space address len output =
     (if length output < len then
        (case checked_add address (word_of_nat (length output)) of
           None \<Rightarrow> None
         | Some current \<Rightarrow> (case translate m space current of
             None \<Rightarrow> None
           | Some source \<Rightarrow>
               let available = min (unat (page_room current)) (len - length output)
               in copy_out_loop m space address len (output @ load_bytes m source available)))
      else Some output)"
  by pat_completeness auto
termination
  by (relation "measure (\<lambda>(m, space, address, len, output). len - length output)")
    (auto simp: load_bytes_def min_def intro: diff_less_mono2)

declare copy_out_loop.simps [simp del]

datatype load_error = InvalidElf elf_error | LoadOutOfMemory | InvalidMapping

definition copy_to_user :: "address_space \<Rightarrow> u64 \<Rightarrow> u8 list \<Rightarrow> (machine, load_error, unit) io" where
  "copy_to_user space address bytes m = (case copy_in_loop space address bytes 0 m of
     (False, m) \<Rightarrow> (Inl InvalidMapping, m)
   | (True, m) \<Rightarrow> (Inr (), m))"

function zero_loop :: "address_space \<Rightarrow> u64 \<Rightarrow> u64 \<Rightarrow> machine \<Rightarrow> (load_error + unit) \<times> machine" where
  "zero_loop space current finish m =
     (if current < finish then
        (case translate m space current of
           None \<Rightarrow> (Inl InvalidMapping, m)
         | Some destination \<Rightarrow>
             let available = min (page_room current) (finish - current)
             in zero_loop space (current + available) finish
                  (store_bytes destination (replicate (unat available) 0) m))
      else (Inr (), m))"
  by pat_completeness auto
termination
proof (relation "measure (\<lambda>(space, current, finish, m). unat finish - unat current)", goal_cases)
  case (2 space current finish m destination available)
  then have le: "available \<le> finish - current" and lt: "unat current < unat finish"
    by (simp_all add: word_less_nat_alt)
  have "unat (finish - current) = unat finish - unat current"
    using lt by (simp add: unat_sub word_le_nat_alt)
  moreover have "0 < unat available"
    using 2 lt \<open>unat (finish - current) = unat finish - unat current\<close> by (auto simp: min_def)
  ultimately have "unat (current + available) = unat current + unat available"
    using le unat_u64_less [of finish] by (simp add: word_le_nat_alt unat_word_ariths)
  with \<open>0 < unat available\<close> lt show ?case by simp
qed simp

declare zero_loop.simps [simp del]

definition zero_user_range :: "address_space \<Rightarrow> u64 \<Rightarrow> u64 \<Rightarrow> (machine, load_error, unit) io" where
  "zero_user_range space address size' =
     try_io (lift_io (ok_or InvalidMapping (checked_add address size'))) (\<lambda>finish.
     zero_loop space address finish)"

section \<open>The initial stack\<close>

definition align16 :: "u64 \<Rightarrow> u64" where
  "align16 a = a AND NOT 0xf"

text \<open>Pushing the strings: the new stack pointer and the address of each.\<close>

fun push_strings ::
  "address_space \<Rightarrow> u8 list list \<Rightarrow> u64 \<Rightarrow> u64 list \<Rightarrow> (machine, load_error, u64 \<times> u64 list) io" where
  "push_strings space [] stack_pointer pointers = ok_io (stack_pointer, pointers)"
| "push_strings space (item # rest) stack_pointer pointers =
     try_io (lift_io (ok_or InvalidMapping
       (checked_sub stack_pointer (word_of_nat (length item) + 1)))) (\<lambda>stack_pointer.
     try_io (copy_to_user space stack_pointer item) (\<lambda>_.
     try_io (copy_to_user space (stack_pointer + word_of_nat (length item)) [0]) (\<lambda>_.
     push_strings space rest stack_pointer (pointers @ [stack_pointer]))))"

text \<open>Writing a vector of pointers followed by a null pointer.\<close>

fun write_pointers :: "address_space \<Rightarrow> u64 \<Rightarrow> nat \<Rightarrow> u64 list \<Rightarrow> (machine, load_error, unit) io" where
  "write_pointers space vector index [] =
     copy_to_user space (vector + word_of_nat (index * 8)) (to_le 8 (0 :: u64))"
| "write_pointers space vector index (p # ps) =
     try_io (copy_to_user space (vector + word_of_nat (index * 8)) (to_le 8 p)) (\<lambda>_.
     write_pointers space vector (index + 1) ps)"

definition prepare_user_stack ::
  "address_space \<Rightarrow> u8 list list \<Rightarrow> u8 list list \<Rightarrow> (machine, load_error, u64 \<times> u64 \<times> u64) io" where
  "prepare_user_stack space arguments environment =
     (if max_exec_args < length arguments \<or> max_exec_env < length environment
      then fail_io InvalidMapping
      else
        try_io (push_strings space arguments user_stack_top []) (\<lambda>(stack_pointer, argument_pointers).
        try_io (push_strings space environment stack_pointer []) (\<lambda>(stack_pointer, environment_pointers).
        try_io (lift_io (ok_or InvalidMapping
          (checked_sub stack_pointer (word_of_nat ((length environment + 1) * 8))))) (\<lambda>v.
        let environment_vector = align16 v in
        try_io (write_pointers space environment_vector 0 environment_pointers) (\<lambda>_.
        try_io (lift_io (ok_or InvalidMapping
          (checked_sub environment_vector (word_of_nat ((length arguments + 1) * 8))))) (\<lambda>v.
        let stack_pointer = align16 v in
        try_io (write_pointers space stack_pointer 0 argument_pointers) (\<lambda>_.
        try_io (lift_io (ok_or InvalidMapping (checked_sub stack_pointer 8))) (\<lambda>entry_stack.
        ok_io (entry_stack, stack_pointer, environment_vector)))))))))"

section \<open>Mapping an image\<close>

text \<open>The pages \<open>start, start + PAGE_SIZE, ...\<close> below \<open>past\<close>, both page-aligned.\<close>

definition page_list :: "u64 \<Rightarrow> u64 \<Rightarrow> u64 list" where
  "page_list start past = map (\<lambda>i. start + word_of_nat (i * 4096)) [0..<(unat past - unat start) div 4096]"

definition map_segment_page :: "address_space \<Rightarrow> u64 \<Rightarrow> (machine, load_error, unit) io" where
  "map_segment_page space page m = (case map_user_page space page m of
     (Inr p, m) \<Rightarrow> (Inr (), m)
   | (Inl AlreadyMapped, m) \<Rightarrow> (Inr (), m)
   | (Inl e, m) \<Rightarrow> (Inl LoadOutOfMemory, m))"

text \<open>
  One segment. The source hands the \<open>Option\<close> of \<open>file_bytes\<close> to \<open>copy_to_user\<close>; the model
  copies the slice inside it, which exists for every segment of an accepted image
  (\<open>elf_parse_sound\<close>).
\<close>

definition load_segment :: "elf64 \<Rightarrow> address_space \<Rightarrow> segment \<Rightarrow> (machine, load_error, unit) io" where
  "load_segment elf space seg =
     try_io (lift_io (ok_or InvalidMapping
       (checked_add (seg_virtual_address seg) (seg_memory_size seg)))) (\<lambda>segment_end.
     let first_page = align_down (seg_virtual_address seg) in
     try_io (lift_io (ok_or InvalidMapping (checked_add segment_end (page_size - 1)))) (\<lambda>padded.
     let last_page = align_down padded in
     try_io (for_io (page_list first_page last_page) (map_segment_page space)) (\<lambda>_.
     try_io (zero_user_range space (seg_virtual_address seg) (seg_memory_size seg)) (\<lambda>_.
     copy_to_user space (seg_virtual_address seg)
       (case elf_file_bytes elf seg of Some bytes \<Rightarrow> bytes | None \<Rightarrow> [])))))"

definition load_index :: "elf64 \<Rightarrow> address_space \<Rightarrow> nat \<Rightarrow> (machine, load_error, unit) io" where
  "load_index elf space index =
     try_io (lift_io (map_err InvalidElf (elf_segment elf index))) (\<lambda>seg. case seg of
       None \<Rightarrow> ok_io ()
     | Some seg \<Rightarrow> load_segment elf space seg)"

definition map_stack_page :: "address_space \<Rightarrow> u64 \<Rightarrow> (machine, load_error, unit) io" where
  "map_stack_page space page m = (case map_user_page space page m of
     (Inr p, m) \<Rightarrow> (Inr (), m)
   | (Inl e, m) \<Rightarrow> (Inl LoadOutOfMemory, m))"

text \<open>What the loader hands over: the space, entry point, stack pointer, \<open>argv\<close> and \<open>envp\<close>.\<close>

record program =
  prog_space :: address_space
  prog_entry :: u64
  prog_stack :: u64
  prog_argv :: u64
  prog_envp :: u64

definition load_program ::
  "u8 list \<Rightarrow> u8 list list \<Rightarrow> u8 list list \<Rightarrow> (machine, load_error, program) io" where
  "load_program img arguments environment =
     try_io (lift_io (map_err InvalidElf (elf_parse img))) (\<lambda>elf.
     try_io (\<lambda>m. case new_user m of (None, m) \<Rightarrow> (Inl LoadOutOfMemory, m) | (Some s, m) \<Rightarrow> (Inr s, m)) (\<lambda>space.
     try_io (for_io [0..<elf_header_count elf] (load_index elf space)) (\<lambda>_.
     try_io (lift_io (ok_or InvalidMapping (checked_sub user_stack_top user_stack_size))) (\<lambda>stack_start.
     try_io (for_io (page_list stack_start user_stack_top) (map_stack_page space)) (\<lambda>_.
     try_io (prepare_user_stack space arguments environment) (\<lambda>(user_stack, user_argv, user_envp) m.
     if translate m space (elf_entry elf) = None then (Inl InvalidMapping, m)
     else (Inr \<lparr>prog_space = space, prog_entry = elf_entry elf, prog_stack = user_stack,
             prog_argv = user_argv, prog_envp = user_envp\<rparr>, m)))))))"

end
