(* ===== verification/Pipes.thy ===== *)
theory Pipes
  imports Ring_Buffer
begin

text \<open>
  The kernel pipes of \<open>kernel/src/ipc.rs\<close>: a table of \<open>MAX_PIPES\<close> rings of
  \<open>PIPE_CAPACITY\<close> bytes with counted read and write ends. The static table is explicit
  state; \<open>read\<close> and \<open>write\<close> also return the caller's buffer and the byte count. The
  byte loops are kept as loops; that their indices stay inside the ring is the invariant
  \<open>pipes_ok\<close>, which every operation preserves.
\<close>

section \<open>State\<close>

definition max_pipes :: nat where
  "max_pipes = 8"

definition pipe_capacity :: nat where
  "pipe_capacity = 4096"

declare max_pipes_def [abi_simps] pipe_capacity_def [abi_simps]

datatype pipe_error = TooMany | Invalid | WouldBlock | Broken

fun pipe_errno :: "pipe_error \<Rightarrow> int" where
  "pipe_errno TooMany = -23"
| "pipe_errno Invalid = -9"
| "pipe_errno WouldBlock = -11"
| "pipe_errno Broken = -32"

record pipe =
  pipe_open :: bool
  readers :: nat
  writers :: nat
  ring_head :: nat
  ring_tail :: nat
  ring_length :: nat
  buffer :: "u8 list"

definition empty_pipe :: pipe where
  "empty_pipe = \<lparr>pipe_open = False, readers = 0, writers = 0, ring_head = 0, ring_tail = 0,
     ring_length = 0, buffer = replicate pipe_capacity 0\<rparr>"

type_synonym pipe_table = "pipe list"

definition initial_pipes :: pipe_table where
  "initial_pipes = replicate max_pipes empty_pipe"

section \<open>Operations\<close>

definition create_pipe :: "pipe_table \<Rightarrow> (pipe_error + nat) \<times> pipe_table" where
  "create_pipe ps = (case position (\<lambda>p. \<not> pipe_open p) ps of
     None \<Rightarrow> (Inl TooMany, ps)
   | Some i \<Rightarrow>
       (Inr i, ps[i := empty_pipe\<lparr>pipe_open := True, readers := 1, writers := 1\<rparr>]))"

definition get_pipe :: "nat \<Rightarrow> pipe_table \<Rightarrow> pipe_error + pipe" where
  "get_pipe i ps =
     (if i \<ge> length ps then Inl Invalid
      else if \<not> pipe_open (ps ! i) then Inl Invalid
      else Inr (ps ! i))"

definition add_reader :: "nat \<Rightarrow> pipe_table \<Rightarrow> (pipe_error + unit) \<times> pipe_table" where
  "add_reader i ps = (case get_pipe i ps of
     Inl e \<Rightarrow> (Inl e, ps)
   | Inr p \<Rightarrow> (Inr (), ps[i := p\<lparr>readers := saturating_add (readers p) 1\<rparr>]))"

definition add_writer :: "nat \<Rightarrow> pipe_table \<Rightarrow> (pipe_error + unit) \<times> pipe_table" where
  "add_writer i ps = (case get_pipe i ps of
     Inl e \<Rightarrow> (Inl e, ps)
   | Inr p \<Rightarrow> (Inr (), ps[i := p\<lparr>writers := saturating_add (writers p) 1\<rparr>]))"

definition close_reader :: "nat \<Rightarrow> pipe_table \<Rightarrow> pipe_table" where
  "close_reader i ps = (case get_pipe i ps of
     Inl e \<Rightarrow> ps
   | Inr p \<Rightarrow>
       let p = p\<lparr>readers := saturating_sub (readers p) 1\<rparr>
       in ps[i := if readers p = 0 \<and> writers p = 0 then empty_pipe else p])"

definition close_writer :: "nat \<Rightarrow> pipe_table \<Rightarrow> pipe_table" where
  "close_writer i ps = (case get_pipe i ps of
     Inl e \<Rightarrow> ps
   | Inr p \<Rightarrow>
       let p = p\<lparr>writers := saturating_sub (writers p) 1\<rparr>
       in ps[i := if readers p = 0 \<and> writers p = 0 then empty_pipe else p])"

text \<open>
  The two \<open>for offset in 0..length\<close> loops. The count already done is \<open>offset\<close>, the count
  still to do the first argument.
\<close>

fun read_loop :: "nat \<Rightarrow> nat \<Rightarrow> pipe \<Rightarrow> u8 list \<Rightarrow> pipe \<times> u8 list" where
  "read_loop 0 offset p out = (p, out)"
| "read_loop (Suc k) offset p out =
     read_loop k (Suc offset) (p\<lparr>ring_head := (ring_head p + 1) mod pipe_capacity\<rparr>)
       (out[offset := buffer p ! ring_head p])"

fun write_loop :: "nat \<Rightarrow> nat \<Rightarrow> pipe \<Rightarrow> u8 list \<Rightarrow> pipe" where
  "write_loop 0 offset p input = p"
| "write_loop (Suc k) offset p input =
     write_loop k (Suc offset)
       (p\<lparr>buffer := (buffer p)[ring_tail p := input ! offset],
          ring_tail := (ring_tail p + 1) mod pipe_capacity\<rparr>) input"

definition read_pipe ::
  "nat \<Rightarrow> u8 list \<Rightarrow> pipe_table \<Rightarrow> (pipe_error + nat) \<times> u8 list \<times> pipe_table" where
  "read_pipe i out ps = (case get_pipe i ps of
     Inl e \<Rightarrow> (Inl e, out, ps)
   | Inr p \<Rightarrow>
       if ring_length p = 0
       then ((if writers p = 0 then Inr 0 else Inl WouldBlock), out, ps)
       else
         let len = min (length out) (ring_length p);
             (p, out) = read_loop len 0 p out
         in (Inr len, out, ps[i := p\<lparr>ring_length := ring_length p - len\<rparr>]))"

definition write_pipe ::
  "nat \<Rightarrow> u8 list \<Rightarrow> pipe_table \<Rightarrow> (pipe_error + nat) \<times> pipe_table" where
  "write_pipe i input ps = (case get_pipe i ps of
     Inl e \<Rightarrow> (Inl e, ps)
   | Inr p \<Rightarrow>
       if readers p = 0 then (Inl Broken, ps)
       else if input = [] then (Inr 0, ps)
       else if ring_length p = pipe_capacity then (Inl WouldBlock, ps)
       else
         let space = pipe_capacity - ring_length p;
             len = min (length input) space;
             p = write_loop len 0 p input
         in (Inr len, ps[i := p\<lparr>ring_length := ring_length p + len\<rparr>]))"

section \<open>Well-formed tables\<close>

definition pipe_ok :: "pipe \<Rightarrow> bool" where
  "pipe_ok p \<longleftrightarrow> length (buffer p) = pipe_capacity \<and> ring_head p < pipe_capacity \<and>
     ring_length p \<le> pipe_capacity \<and>
     ring_tail p = (ring_head p + ring_length p) mod pipe_capacity \<and>
     (pipe_open p \<longleftrightarrow> 0 < readers p + writers p)"

definition pipes_ok :: "pipe_table \<Rightarrow> bool" where
  "pipes_ok ps \<longleftrightarrow> length ps = max_pipes \<and> (\<forall>p \<in> set ps. pipe_ok p)"

definition pipe_contents :: "pipe \<Rightarrow> u8 list" where
  "pipe_contents p = ring_contents (buffer p) (ring_head p) (ring_length p)"

lemma pipe_capacity_pos [simp]: "0 < pipe_capacity"
  by (simp add: pipe_capacity_def)

lemma pipe_ok_empty [simp]: "pipe_ok empty_pipe"
  by (simp add: pipe_ok_def empty_pipe_def)

lemma pipe_contents_empty [simp]: "pipe_contents empty_pipe = []"
  by (simp add: pipe_contents_def empty_pipe_def)

lemma empty_pipe_sel [simp]:
  "pipe_open empty_pipe = False" "readers empty_pipe = 0" "writers empty_pipe = 0"
  "ring_length empty_pipe = 0" "ring_head empty_pipe = 0" "ring_tail empty_pipe = 0"
  "length (buffer empty_pipe) = pipe_capacity"
  by (simp_all add: empty_pipe_def)

lemma pipes_ok_initial: "pipes_ok initial_pipes"
  by (auto simp: pipes_ok_def initial_pipes_def)

lemma pipes_ok_nth: "pipes_ok ps \<Longrightarrow> i < length ps \<Longrightarrow> pipe_ok (ps ! i)"
  by (simp add: pipes_ok_def)

lemma pipes_ok_update: "pipes_ok ps \<Longrightarrow> pipe_ok p \<Longrightarrow> pipes_ok (ps[i := p])"
  by (auto simp: pipes_ok_def dest: set_update_subset_insert [THEN subsetD])

lemma get_pipe_Inr_iff:
  "get_pipe i ps = Inr p \<longleftrightarrow> i < length ps \<and> pipe_open (ps ! i) \<and> p = ps ! i"
  by (auto simp: get_pipe_def)

lemma get_pipe_InlD: "get_pipe i ps = Inl e \<Longrightarrow> e = Invalid"
  by (auto simp: get_pipe_def split: if_splits)

section \<open>The byte loops\<close>

lemma read_loop_result:
  assumes "length (buffer p) = pipe_capacity" "ring_head p < pipe_capacity"
    and "offset + k \<le> length out"
  shows "read_loop k offset p out =
    (p\<lparr>ring_head := (ring_head p + k) mod pipe_capacity\<rparr>,
     take offset out @ ring_contents (buffer p) (ring_head p) k @ drop (offset + k) out)"
  using assms
proof (induction k offset p out rule: read_loop.induct)
  case (1 offset p out)
  then show ?case by simp
next
  case (2 k offset p out)
  let ?h = "(ring_head p + 1) mod pipe_capacity"
  have "take (Suc offset) (out[offset := buffer p ! ring_head p]) =
      take offset out @ [buffer p ! ring_head p]"
    using "2.prems"(3) by (simp add: take_Suc_conv_app_nth)
  moreover have "ring_contents (buffer p) (ring_head p) (Suc k) =
      buffer p ! ring_head p # ring_contents (buffer p) ?h k"
    using "2.prems"(1,2) by (simp add: ring_contents_pop)
  ultimately show ?case
    using "2.IH" "2.prems" by (simp add: mod_Suc_eq mod_add_left_eq)
qed

lemma write_loop_frame [simp]:
  "ring_head (write_loop k offset p input) = ring_head p"
  "ring_length (write_loop k offset p input) = ring_length p"
  "readers (write_loop k offset p input) = readers p"
  "writers (write_loop k offset p input) = writers p"
  "pipe_open (write_loop k offset p input) = pipe_open p"
  "length (buffer (write_loop k offset p input)) = length (buffer p)"
  by (induction k offset p input rule: write_loop.induct) auto

lemma write_loop_tail:
  "ring_tail p < pipe_capacity \<Longrightarrow>
    ring_tail (write_loop k offset p input) = (ring_tail p + k) mod pipe_capacity"
  by (induction k offset p input rule: write_loop.induct) (auto simp: mod_add_left_eq mod_Suc_eq)

lemma write_loop_contents:
  assumes "length (buffer p) = pipe_capacity" "n + k \<le> pipe_capacity"
    and "ring_tail p = (ring_head p + n) mod pipe_capacity"
    and "offset + k \<le> length input"
  shows "ring_contents (buffer (write_loop k offset p input)) (ring_head p) (n + k) =
    ring_contents (buffer p) (ring_head p) n @ take k (drop offset input)"
  using assms
proof (induction k offset p input arbitrary: n rule: write_loop.induct)
  case (1 offset p input)
  then show ?case by simp
next
  case (2 k offset p input)
  let ?p = "p\<lparr>buffer := (buffer p)[ring_tail p := input ! offset],
      ring_tail := (ring_tail p + 1) mod pipe_capacity\<rparr>"
  have "ring_contents (buffer (write_loop k (Suc offset) ?p input)) (ring_head ?p) (Suc n + k) =
      ring_contents (buffer ?p) (ring_head ?p) (Suc n) @ take k (drop (Suc offset) input)"
    using "2.prems" by (intro "2.IH") (auto simp: mod_Suc_eq mod_add_left_eq)
  moreover have "ring_contents (buffer ?p) (ring_head p) (Suc n) =
      ring_contents (buffer p) (ring_head p) n @ [input ! offset]"
    using "2.prems" by (simp add: ring_contents_store)
  moreover have "drop offset input = input ! offset # drop (Suc offset) input"
    using "2.prems"(4) by (simp add: Cons_nth_drop_Suc)
  ultimately show ?case by simp
qed

section \<open>Functional behaviour of reads and writes\<close>

lemma read_pipe_open:
  assumes "pipes_ok ps" "i < length ps" "pipe_open (ps ! i)" "pipe_contents (ps ! i) \<noteq> []"
    and c_def: "c = pipe_contents (ps ! i)" and n_def: "n = min (length out) (ring_length (ps ! i))"
  shows "read_pipe i out ps =
    (Inr n, take n c @ drop n out,
     ps[i := (ps ! i)\<lparr>ring_head := (ring_head (ps ! i) + n) mod pipe_capacity,
                      ring_length := ring_length (ps ! i) - n\<rparr>])"
proof -
  have ok: "pipe_ok (ps ! i)" using assms(1,2) by (rule pipes_ok_nth)
  have "ring_length (ps ! i) \<noteq> 0"
    using assms(4) by (auto simp: pipe_contents_def)
  moreover have "take n c = ring_contents (buffer (ps ! i)) (ring_head (ps ! i)) n"
    by (auto simp: n_def c_def pipe_contents_def ring_contents_def take_map)
  moreover have "n \<le> length out" by (simp add: n_def)
  ultimately show ?thesis
    using ok assms(2,3)
    by (simp add: read_pipe_def get_pipe_def Let_def read_loop_result pipe_ok_def flip: n_def)
qed

lemma write_pipe_open:
  assumes "pipes_ok ps" "i < length ps" "pipe_open (ps ! i)" "readers (ps ! i) \<noteq> 0"
    and "input \<noteq> []" "ring_length (ps ! i) \<noteq> pipe_capacity"
    and n_def: "n = min (length input) (pipe_capacity - ring_length (ps ! i))"
  shows "write_pipe i input ps = (Inr n, ps[i := (write_loop n 0 (ps ! i) input)
    \<lparr>ring_length := ring_length (ps ! i) + n\<rparr>])"
  using assms(2-6) by (simp add: write_pipe_def get_pipe_def Let_def n_def)

lemma read_step_ok:
  assumes "pipe_ok p" "n \<le> ring_length p"
    and p'_def: "p' = p\<lparr>ring_head := (ring_head p + n) mod pipe_capacity,
      ring_length := ring_length p - n\<rparr>"
  shows "pipe_ok p'" and "pipe_contents p' = drop n (pipe_contents p)"
proof -
  show "pipe_ok p'"
    using assms(1) ring_tail_after_pop [OF assms(2), of "ring_head p" pipe_capacity]
    by (auto simp: pipe_ok_def p'_def simp del: add_diff_assoc diff_add_assoc)
  show "pipe_contents p' = drop n (pipe_contents p)"
    using assms(1,2)
    by (intro nth_equalityI)
      (auto simp: pipe_contents_def p'_def pipe_ok_def ring_contents_nth mod_add_left_eq add.assoc)
qed

lemma write_step_ok:
  assumes "pipe_ok p" "ring_length p + n \<le> pipe_capacity" "n \<le> length input"
    and p'_def: "p' = (write_loop n 0 p input)\<lparr>ring_length := ring_length p + n\<rparr>"
  shows "pipe_ok p'" and "pipe_contents p' = pipe_contents p @ take n input"
proof -
  have tail: "ring_tail p < pipe_capacity" using assms(1) by (auto simp: pipe_ok_def)
  show "pipe_ok p'"
    using assms(1,2) tail by (auto simp: pipe_ok_def p'_def write_loop_tail mod_add_left_eq add.assoc)
  show "pipe_contents p' = pipe_contents p @ take n input"
    using assms(1-3) write_loop_contents [of p "ring_length p" n 0 input]
    by (simp add: pipe_contents_def p'_def pipe_ok_def)
qed

lemma read_pipe_cases:
  assumes "pipes_ok ps" "i < max_pipes" "pipe_open (ps ! i)"
    and "read_pipe i out ps = (r, out', ps')"
  obtains
    (empty) "pipe_contents (ps ! i) = []" "out' = out" "ps' = ps"
      "r = (if writers (ps ! i) = 0 then Inr 0 else Inl WouldBlock)"
  | (data) n p' where "n = min (length out) (length (pipe_contents (ps ! i)))" "r = Inr n"
      "pipe_contents (ps ! i) \<noteq> []"
      "out' = take n (pipe_contents (ps ! i)) @ drop n out" "ps' = ps[i := p']"
      "pipe_ok p'" "pipe_contents p' = drop n (pipe_contents (ps ! i))"
      "readers p' = readers (ps ! i)" "writers p' = writers (ps ! i)" "pipe_open p'"
proof -
  from assms(1,2) have i: "i < length ps" by (simp add: pipes_ok_def)
  have ok: "pipe_ok (ps ! i)" using assms(1) i by (rule pipes_ok_nth)
  have cl: "length (pipe_contents (ps ! i)) = ring_length (ps ! i)"
    by (simp add: pipe_contents_def)
  show thesis
  proof (cases "ring_length (ps ! i) = 0")
    case True
    then show thesis
      using assms(3,4) i by (intro empty) (auto simp: read_pipe_def get_pipe_def pipe_contents_def)
  next
    case False
    let ?n = "min (length out) (ring_length (ps ! i))"
    let ?p' = "(ps ! i)\<lparr>ring_head := (ring_head (ps ! i) + ?n) mod pipe_capacity,
      ring_length := ring_length (ps ! i) - ?n\<rparr>"
    have "pipe_contents (ps ! i) \<noteq> []" using False by (simp add: pipe_contents_def)
    note op = read_pipe_open [OF assms(1) i assms(3) this refl refl, of out]
    have "pipe_ok ?p'" "pipe_contents ?p' = drop ?n (pipe_contents (ps ! i))"
      using read_step_ok [OF ok _ refl, of ?n] by simp_all
    with op assms(3,4) False show thesis
      by (intro data [of ?n ?p']) (simp_all add: cl pipe_contents_def)
  qed
qed

lemma write_pipe_cases:
  assumes "pipes_ok ps" "i < max_pipes" "pipe_open (ps ! i)"
    and "write_pipe i input ps = (r, ps')"
  obtains
    (broken) "readers (ps ! i) = 0" "r = Inl Broken" "ps' = ps"
  | (none) "readers (ps ! i) \<noteq> 0" "input = []" "r = Inr 0" "ps' = ps"
  | (full) "readers (ps ! i) \<noteq> 0" "input \<noteq> []" "r = Inl WouldBlock" "ps' = ps"
      "length (pipe_contents (ps ! i)) = pipe_capacity"
  | (data) n p' where "readers (ps ! i) \<noteq> 0" "input \<noteq> []" "r = Inr n" "0 < n"
      "n = min (length input) (pipe_capacity - length (pipe_contents (ps ! i)))"
      "ps' = ps[i := p']" "pipe_ok p'"
      "pipe_contents p' = pipe_contents (ps ! i) @ take n input"
      "readers p' = readers (ps ! i)" "writers p' = writers (ps ! i)" "pipe_open p'"
proof -
  from assms(1,2) have i: "i < length ps" by (simp add: pipes_ok_def)
  have ok: "pipe_ok (ps ! i)" using assms(1) i by (rule pipes_ok_nth)
  have cl: "length (pipe_contents (ps ! i)) = ring_length (ps ! i)"
    by (simp add: pipe_contents_def)
  have le: "ring_length (ps ! i) \<le> pipe_capacity" using ok by (simp add: pipe_ok_def)
  note wdef = write_pipe_def get_pipe_def
  consider "readers (ps ! i) = 0" | "readers (ps ! i) \<noteq> 0" "input = []"
    | "readers (ps ! i) \<noteq> 0" "input \<noteq> []" "ring_length (ps ! i) = pipe_capacity"
    | "readers (ps ! i) \<noteq> 0" "input \<noteq> []" "ring_length (ps ! i) \<noteq> pipe_capacity"
    by blast
  then show thesis
  proof cases
    case 1
    with assms(3,4) i show thesis by (intro broken) (simp_all add: wdef)
  next
    case 2
    with assms(3,4) i show thesis by (intro none) (simp_all add: wdef)
  next
    case 3
    with assms(3,4) i cl show thesis by (intro full) (auto simp: wdef)
  next
    case 4
    let ?n = "min (length input) (pipe_capacity - ring_length (ps ! i))"
    let ?p' = "(write_loop ?n 0 (ps ! i) input)\<lparr>ring_length := ring_length (ps ! i) + ?n\<rparr>"
    have "pipe_ok ?p'" "pipe_contents ?p' = pipe_contents (ps ! i) @ take ?n input"
      using le write_step_ok [OF ok _ _ refl, of ?n input] by simp_all
    moreover have "0 < ?n" using 4 le by auto
    ultimately show thesis
      using write_pipe_open [OF assms(1) i assms(3) 4(1,2,3) refl] assms(3,4) 4
      by (intro data [of ?n ?p']) (simp_all add: cl)
  qed
qed

section \<open>Every operation keeps the table well-formed\<close>

inductive pipe_step :: "pipe_table \<Rightarrow> pipe_table \<Rightarrow> bool" where
  create: "create_pipe ps = (r, ps') \<Longrightarrow> pipe_step ps ps'"
| add_reader: "add_reader i ps = (r1, ps') \<Longrightarrow> pipe_step ps ps'"
| add_writer: "add_writer i ps = (r1, ps') \<Longrightarrow> pipe_step ps ps'"
| close_reader: "pipe_step ps (close_reader i ps)"
| close_writer: "pipe_step ps (close_writer i ps)"
| read: "read_pipe i out ps = (r, out', ps') \<Longrightarrow> pipe_step ps ps'"
| "write": "write_pipe i input ps = (r, ps') \<Longrightarrow> pipe_step ps ps'"

lemma pipes_ok_create: "pipes_ok ps \<Longrightarrow> pipes_ok (snd (create_pipe ps))"
  by (auto simp: create_pipe_def pipe_ok_def empty_pipe_def split: option.splits
      intro!: pipes_ok_update)

lemma pipes_ok_add_reader: "pipes_ok ps \<Longrightarrow> pipes_ok (snd (add_reader i ps))"
  by (auto simp: add_reader_def get_pipe_Inr_iff saturating_add_def pipes_ok_nth
      split: sum.splits intro!: pipes_ok_update)
    (use pipes_ok_nth [of ps i] in \<open>auto simp: pipe_ok_def usize_max_def\<close>)

lemma pipes_ok_add_writer: "pipes_ok ps \<Longrightarrow> pipes_ok (snd (add_writer i ps))"
  by (auto simp: add_writer_def get_pipe_Inr_iff saturating_add_def pipes_ok_nth
      split: sum.splits intro!: pipes_ok_update)
    (use pipes_ok_nth [of ps i] in \<open>auto simp: pipe_ok_def usize_max_def\<close>)

lemma pipes_ok_close_reader: "pipes_ok ps \<Longrightarrow> pipes_ok (close_reader i ps)"
  using pipes_ok_nth [of ps i]
  by (auto simp: close_reader_def get_pipe_Inr_iff saturating_sub_def pipe_ok_def Let_def
      split: sum.splits intro!: pipes_ok_update)

lemma pipes_ok_close_writer: "pipes_ok ps \<Longrightarrow> pipes_ok (close_writer i ps)"
  using pipes_ok_nth [of ps i]
  by (auto simp: close_writer_def get_pipe_Inr_iff saturating_sub_def pipe_ok_def Let_def
      split: sum.splits intro!: pipes_ok_update)

lemma read_pipe_invalid: "get_pipe i ps = Inl e \<Longrightarrow> read_pipe i out ps = (Inl e, out, ps)"
  by (simp add: read_pipe_def)

lemma write_pipe_invalid: "get_pipe i ps = Inl e \<Longrightarrow> write_pipe i input ps = (Inl e, ps)"
  by (simp add: write_pipe_def)

lemma pipes_ok_read:
  assumes "pipes_ok ps" "read_pipe i out ps = (r, out', ps')"
  shows "pipes_ok ps'"
proof (cases "get_pipe i ps")
  case (Inl e)
  with assms show ?thesis by (simp add: read_pipe_invalid)
next
  case (Inr p)
  then have "i < max_pipes" "pipe_open (ps ! i)"
    using assms(1) by (auto simp: get_pipe_Inr_iff pipes_ok_def)
  from assms(1) this assms(2) show ?thesis
    by (cases rule: read_pipe_cases) (use assms(1) in \<open>auto intro: pipes_ok_update\<close>)
qed

lemma pipes_ok_write:
  assumes "pipes_ok ps" "write_pipe i input ps = (r, ps')"
  shows "pipes_ok ps'"
proof (cases "get_pipe i ps")
  case (Inl e)
  with assms show ?thesis by (simp add: write_pipe_invalid)
next
  case (Inr p)
  then have "i < max_pipes" "pipe_open (ps ! i)"
    using assms(1) by (auto simp: get_pipe_Inr_iff pipes_ok_def)
  from assms(1) this assms(2) show ?thesis
    by (cases rule: write_pipe_cases) (use assms(1) in \<open>auto intro: pipes_ok_update\<close>)
qed

lemma pipe_step_ok: "pipe_step ps ps' \<Longrightarrow> pipes_ok ps \<Longrightarrow> pipes_ok ps'"
  by (induction rule: pipe_step.induct)
    (metis pipes_ok_create snd_conv, metis pipes_ok_add_reader snd_conv,
     metis pipes_ok_add_writer snd_conv, auto intro: pipes_ok_close_reader pipes_ok_close_writer
      pipes_ok_read pipes_ok_write)

inductive pipe_reachable :: "pipe_table \<Rightarrow> bool" where
  start: "pipe_reachable initial_pipes"
| step: "pipe_reachable ps \<Longrightarrow> pipe_step ps ps' \<Longrightarrow> pipe_reachable ps'"

lemma pipe_reachable_ok: "pipe_reachable ps \<Longrightarrow> pipes_ok ps"
  by (induction rule: pipe_reachable.induct) (auto intro: pipes_ok_initial pipe_step_ok)

section \<open>The byte stream of one pipe\<close>

text \<open>
  The client's view of \<open>read\<close> and \<open>write\<close> on pipe \<open>i\<close>: an error accepts or delivers
  nothing, otherwise the count returned by the kernel delimits the bytes.
\<close>

definition stream_write :: "nat \<Rightarrow> u8 list \<Rightarrow> pipe_table \<Rightarrow> nat \<times> pipe_table" where
  "stream_write i xs ps =
     (case write_pipe i xs ps of (Inl e, ps') \<Rightarrow> (0, ps') | (Inr n, ps') \<Rightarrow> (n, ps'))"

definition stream_read :: "nat \<Rightarrow> nat \<Rightarrow> pipe_table \<Rightarrow> u8 list \<times> pipe_table" where
  "stream_read i n ps = (case read_pipe i (replicate n 0) ps of
     (Inl e, out, ps') \<Rightarrow> ([], ps') | (Inr k, out, ps') \<Rightarrow> (take k out, ps'))"

definition stream_live :: "nat \<Rightarrow> pipe_table \<Rightarrow> bool" where
  "stream_live i ps \<longleftrightarrow>
     pipes_ok ps \<and> i < max_pipes \<and> pipe_open (ps ! i) \<and> 0 < readers (ps ! i)"

lemma pipes_ok_length: "pipes_ok ps \<Longrightarrow> length ps = max_pipes"
  by (simp add: pipes_ok_def)

lemma pipe_contents_le: "pipe_ok p \<Longrightarrow> length (pipe_contents p) \<le> pipe_capacity"
  by (simp add: pipe_contents_def pipe_ok_def)

interpretation pipe_stream: stream_fifo "\<lambda>ps. pipe_contents (ps ! i)" "stream_live i"
  pipe_capacity "stream_write i" "stream_read i" for i
proof (unfold_locales, goal_cases)
  case (1 ps)
  then show ?case
    by (simp add: stream_live_def pipe_contents_le pipes_ok_def)
next
  case (2 ps xs n ps')
  obtain r where w: "write_pipe i xs ps = (r, ps')" "n = (case r of Inl _ \<Rightarrow> 0 | Inr k \<Rightarrow> k)"
    using 2(2) by (auto simp: stream_write_def split: prod.splits sum.splits)
  from 2(1) have live: "pipes_ok ps" "i < max_pipes" "pipe_open (ps ! i)" "0 < readers (ps ! i)"
    by (simp_all add: stream_live_def)
  have len: "length ps = max_pipes" using live(1) by (rule pipes_ok_length)
  from live(1-3) w(1) show ?case
    by (cases rule: write_pipe_cases)
      (use live w(2) len in \<open>auto simp: stream_live_def pipes_ok_update\<close>)
next
  case (3 ps n ys ps')
  obtain r out where rd: "read_pipe i (replicate n 0) ps = (r, out, ps')"
      "ys = (case r of Inl _ \<Rightarrow> [] | Inr k \<Rightarrow> take k out)"
    using 3(2) by (auto simp: stream_read_def split: prod.splits sum.splits)
  from 3(1) have live: "pipes_ok ps" "i < max_pipes" "pipe_open (ps ! i)" "0 < readers (ps ! i)"
    by (simp_all add: stream_live_def)
  have len: "length ps = max_pipes" using live(1) by (rule pipes_ok_length)
  from live(1-3) rd(1) show ?case
    by (cases rule: read_pipe_cases)
      (use live rd(2) len in \<open>auto simp: stream_live_def pipes_ok_update min_def\<close>)
qed

section \<open>Properties\<close>

text \<open>
  C8. Whatever the order in which a live pipe is written and read, and however short the
  reads and writes come out, the bytes delivered followed by the bytes still buffered are
  the bytes buffered at the start followed by the bytes accepted: nothing is lost,
  duplicated or reordered.
\<close>

theorem pipe_stream_integrity:
  assumes "stream_live i ps"
    and "run_stream (stream_write i) (stream_read i) ops ps = (accepted, delivered, ps')"
  shows "delivered @ pipe_contents (ps' ! i) = pipe_contents (ps ! i) @ accepted"
  using pipe_stream.run_integrity [OF assms] by simp

lemma create_pipe_initial:
  "create_pipe initial_pipes =
     (Inr 0, initial_pipes[0 := empty_pipe\<lparr>pipe_open := True, readers := 1, writers := 1\<rparr>])"
  by (simp add: create_pipe_def initial_pipes_def max_pipes_def numeral_eq_Suc)

definition one_pipe :: pipe_table where
  "one_pipe = initial_pipes[0 := empty_pipe\<lparr>pipe_open := True, readers := 1, writers := 1\<rparr>]"

lemmas create_one_pipe = create_pipe_initial [folded one_pipe_def]

lemma one_pipe_nth: "one_pipe ! 0 = empty_pipe\<lparr>pipe_open := True, readers := 1, writers := 1\<rparr>"
  by (simp add: one_pipe_def initial_pipes_def max_pipes_def)

lemma one_pipe_contents: "pipe_contents (one_pipe ! 0) = []"
  by (simp add: one_pipe_nth pipe_contents_def)

lemma one_pipe_ok: "pipes_ok one_pipe"
  using pipes_ok_create [OF pipes_ok_initial] by (simp add: create_one_pipe)

lemma one_pipe_live: "stream_live 0 one_pipe"
  using one_pipe_ok by (simp add: stream_live_def one_pipe_nth max_pipes_def)

theorem pipe_stream_integrity_witness:
  "\<exists>ps'. stream_live 0 one_pipe \<and>
     run_stream (stream_write 0) (stream_read 0) [Put [1, 2, 3], Get 2] one_pipe =
       ([1, 2, 3], [1, 2], ps') \<and>
     [1, 2] @ pipe_contents (ps' ! 0) = pipe_contents (one_pipe ! 0) @ [1, 2, 3]"
proof -
  obtain n ps1 where w: "stream_write 0 [1, 2, 3] one_pipe = (n, ps1)"
    by (cases "stream_write 0 [1, 2, 3] one_pipe")
  obtain ys ps2 where r: "stream_read 0 2 ps1 = (ys, ps2)"
    by (cases "stream_read 0 2 ps1")
  have n: "n = 3" "stream_live 0 ps1" "pipe_contents (ps1 ! 0) = [1, 2, 3]"
    using pipe_stream.put_spec [OF one_pipe_live w]
    by (simp_all add: one_pipe_contents pipe_capacity_def)
  have "ys = [1, 2]"
    using pipe_stream.get_spec [OF n(2) r] n(3) by (simp add: numeral_eq_Suc)
  then have run: "run_stream (stream_write 0) (stream_read 0) [Put [1, 2, 3], Get 2] one_pipe =
      ([1, 2, 3], [1, 2], ps2)"
    using w r n(1) by simp
  show ?thesis
    using one_pipe_live run pipe_stream_integrity [OF one_pipe_live run] by blast
qed

text \<open>
  C21. In every table reachable from boot by any sequence of pipe operations, each ring is
  within its 4096 bytes, its head and tail are valid indices that agree with its length,
  and a slot is open exactly while it has an end.
\<close>

theorem pipe_tables_well_formed: "pipe_reachable ps \<Longrightarrow> pipes_ok ps"
  by (rule pipe_reachable_ok)

theorem pipe_tables_well_formed_witness:
  "pipe_reachable (close_writer 0 one_pipe) \<and> pipes_ok (close_writer 0 one_pipe)"
proof -
  have "pipe_reachable one_pipe"
    using pipe_reachable.step [OF pipe_reachable.start pipe_step.create [OF create_one_pipe]] .
  then have "pipe_reachable (close_writer 0 one_pipe)"
    by (rule pipe_reachable.step) (rule pipe_step.close_writer)
  then show ?thesis by (simp add: pipe_tables_well_formed)
qed

text \<open>
  C22. A read of an open pipe with room in the caller's buffer reports end of file exactly
  when no byte is buffered and the last writer is gone; while a writer is left, an empty
  pipe says \<open>WouldBlock\<close> and changes nothing.
\<close>

theorem pipe_read_eof:
  assumes "pipes_ok ps" "i < max_pipes" "pipe_open (ps ! i)" "out \<noteq> []"
    and "read_pipe i out ps = (r, out', ps')"
  shows "(r = Inr 0 \<longleftrightarrow> pipe_contents (ps ! i) = [] \<and> writers (ps ! i) = 0) \<and>
    (r = Inl WouldBlock \<longleftrightarrow> pipe_contents (ps ! i) = [] \<and> 0 < writers (ps ! i)) \<and>
    (pipe_contents (ps ! i) = [] \<longrightarrow> ps' = ps \<and> out' = out)"
  using assms(1-3,5) by (cases rule: read_pipe_cases) (use assms(4) in auto)

theorem pipe_read_eof_witness:
  "pipes_ok one_pipe \<and> pipe_contents (one_pipe ! 0) = [] \<and>
   read_pipe 0 [7] one_pipe = (Inl WouldBlock, [7], one_pipe)"
proof -
  obtain r out' ps' where rd: "read_pipe 0 [7] one_pipe = (r, out', ps')"
    by (cases "read_pipe 0 [7] one_pipe")
  have "0 < max_pipes" "pipe_open (one_pipe ! 0)"
    by (simp_all add: max_pipes_def one_pipe_nth)
  from pipe_read_eof [OF one_pipe_ok this _ rd] rd show ?thesis
    using one_pipe_ok one_pipe_contents by (simp add: one_pipe_nth)
qed

end
