(* ===== verification/Surfaces.thy ===== *)
theory Surfaces
  imports Ring_Buffer
begin

text \<open>
  The surface registry of \<open>kernel/src/surface.rs\<close>: the table of client surfaces, the queue of
  dirty ids and one event queue per process slot. The calling process is an argument (its
  pid), and so are the two results \<open>create\<close> and \<open>snapshot_mapped\<close> take from the memory
  manager: the frame it allocated and whether a mapping succeeded.
\<close>

section \<open>State\<close>

definition max_surfaces :: nat where
  "max_surfaces = 8"

definition surface_max_width :: u32 where
  "surface_max_width = 320"

definition surface_max_height :: u32 where
  "surface_max_height = 200"

definition surface_max_pixels :: nat where
  "surface_max_pixels = unat surface_max_width * unat surface_max_height"

definition surface_event_capacity :: nat where
  "surface_event_capacity = 16"

definition max_processes :: nat where
  "max_processes = 16"

definition surface_region_base :: u64 where
  "surface_region_base = 0x140000000"

definition surface_region_stride :: u64 where
  "surface_region_stride = 0x100000"

definition surface_event_hidden :: u32 where
  "surface_event_hidden = 5"

declare max_surfaces_def [abi_simps] surface_max_width_def [abi_simps]
  surface_max_height_def [abi_simps] surface_event_capacity_def [abi_simps]
  max_processes_def [abi_simps]

text \<open>
  \<open>width\<close> and \<open>height\<close> of a surface and \<open>x\<close> and \<open>y\<close> of an event are \<open>i32\<close> in the code, which only
  casts, stores and copies them; the fields hold their 32 bits.
\<close>

record surface =
  sf_pid :: nat
  sf_width :: u32
  sf_height :: u32
  sf_physical :: u64
  sf_pitch :: u32
  sf_shown :: bool
  sf_z :: u32

definition empty_surface :: surface where
  "empty_surface = \<lparr>sf_pid = 0, sf_width = 0, sf_height = 0, sf_physical = 0, sf_pitch = 0,
     sf_shown = False, sf_z = 0\<rparr>"

record surface_event =
  se_surface :: u32
  se_kind :: u32
  se_x :: u32
  se_y :: u32
  se_button :: u32
  se_pressed :: u32
  se_key :: u32

record client_events =
  ce_queue :: "surface_event option list"
  ce_head :: nat
  ce_tail :: nat
  ce_length :: nat

definition empty_events :: client_events where
  "empty_events = \<lparr>ce_queue = replicate surface_event_capacity None, ce_head = 0, ce_tail = 0,
     ce_length = 0\<rparr>"

record surfaces =
  slots :: "surface list"
  z_counter :: u32
  dirty :: "u32 list"
  dirty_head :: nat
  dirty_tail :: nat
  dirty_length :: nat
  server_pid :: nat
  client_queues :: "client_events list"

definition initial_surfaces :: surfaces where
  "initial_surfaces = \<lparr>slots = replicate max_surfaces empty_surface, z_counter = 0,
     dirty = replicate max_surfaces 0, dirty_head = 0, dirty_tail = 0, dirty_length = 0,
     server_pid = 0, client_queues = replicate max_processes empty_events\<rparr>"

record surface_info =
  si_id :: u32
  si_width :: u32
  si_height :: u32
  si_pitch :: u32
  si_address :: u64

record surface_snapshot =
  sn_id :: u32
  sn_width :: u32
  sn_height :: u32
  sn_pitch :: u32
  sn_address :: u64

datatype surface_error = EINVAL | ENOSPC | ENOENT

fun surface_errno :: "surface_error \<Rightarrow> int" where
  "surface_errno EINVAL = -22"
| "surface_errno ENOSPC = -28"
| "surface_errno ENOENT = -2"

section \<open>Event queues\<close>

definition client_push :: "surface_event \<Rightarrow> client_events \<Rightarrow> client_events" where
  "client_push event q =
     (let q = (if ce_length q = surface_event_capacity
               then q\<lparr>ce_head := (ce_head q + 1) mod surface_event_capacity,
                      ce_length := ce_length q - 1\<rparr>
               else q)
      in q\<lparr>ce_queue := (ce_queue q)[ce_tail q := Some event],
           ce_tail := (ce_tail q + 1) mod surface_event_capacity,
           ce_length := ce_length q + 1\<rparr>)"

definition client_pop :: "client_events \<Rightarrow> surface_event option \<times> client_events" where
  "client_pop q =
     (if ce_length q = 0 then (None, q)
      else (ce_queue q ! ce_head q,
            q\<lparr>ce_queue := (ce_queue q)[ce_head q := None],
              ce_head := (ce_head q + 1) mod surface_event_capacity,
              ce_length := ce_length q - 1\<rparr>))"

section \<open>The registry\<close>

definition find_surface :: "u32 \<Rightarrow> surfaces \<Rightarrow> nat option" where
  "find_surface surface_id s =
     (let slot = unat surface_id in
      if slot \<ge> max_surfaces \<or> sf_physical (slots s ! slot) = 0 then None else Some slot)"

definition mark_dirty :: "u32 \<Rightarrow> surfaces \<Rightarrow> surfaces" where
  "mark_dirty surface_id s =
     (if dirty_length s = max_surfaces then s
      else s\<lparr>dirty := (dirty s)[dirty_tail s := surface_id],
             dirty_tail := (dirty_tail s + 1) mod max_surfaces,
             dirty_length := dirty_length s + 1\<rparr>)"

definition take_dirty :: "surfaces \<Rightarrow> u32 option \<times> surfaces" where
  "take_dirty s =
     (if dirty_length s = 0 then (None, s)
      else (Some (dirty s ! dirty_head s),
            s\<lparr>dirty_head := (dirty_head s + 1) mod max_surfaces,
              dirty_length := dirty_length s - 1\<rparr>))"

text \<open>
  \<open>create\<close>. \<open>frame\<close> is the physical and virtual address \<open>allocate_frame\<close> returned, \<open>mapped\<close>
  the outcome of \<open>map_framebuffer_range\<close>; the second component of the result is the range
  the call fills with zeroes, from the frame's virtual address.
\<close>

definition create_surface ::
  "nat \<Rightarrow> (u64 \<times> u64) option \<Rightarrow> bool \<Rightarrow> surface_info \<Rightarrow> surfaces \<Rightarrow>
   (surface_error + surface_info) \<times> (u64 \<times> nat) option \<times> surfaces" where
  "create_surface pid frame mapped info s =
     (if si_width info = 0 \<or> si_height info = 0 \<or> si_width info > surface_max_width \<or>
         si_height info > surface_max_height
      then (Inl EINVAL, None, s)
      else case position (\<lambda>surface. sf_physical surface = 0) (slots s) of
        None \<Rightarrow> (Inl ENOSPC, None, s)
      | Some slot \<Rightarrow>
        (case frame of
           None \<Rightarrow> (Inl ENOSPC, None, s)
         | Some (physical, virtual) \<Rightarrow>
             let zeroed = Some (virtual, surface_max_pixels * 4);
                 client_address = surface_region_base + word_of_nat slot * surface_region_stride
             in if \<not> mapped then (Inl ENOSPC, zeroed, s)
                else (Inr (info\<lparr>si_id := word_of_nat slot, si_pitch := si_width info,
                             si_address := client_address\<rparr>),
                      zeroed,
                      s\<lparr>slots := (slots s)[slot := \<lparr>sf_pid = pid, sf_width = si_width info,
                           sf_height = si_height info, sf_physical = physical,
                           sf_pitch = si_width info, sf_shown = False, sf_z = z_counter s\<rparr>],
                        z_counter := z_counter s + 1\<rparr>)))"

definition present_surface ::
  "nat \<Rightarrow> u32 \<Rightarrow> bool \<Rightarrow> surfaces \<Rightarrow> (surface_error + unit) \<times> surfaces" where
  "present_surface pid surface_id shown s = (case find_surface surface_id s of
     None \<Rightarrow> (Inl ENOENT, s)
   | Some slot \<Rightarrow>
       if sf_pid (slots s ! slot) \<noteq> pid then (Inl EINVAL, s)
       else
         let s = s\<lparr>slots := (slots s)[slot := (slots s ! slot)\<lparr>sf_shown := shown\<rparr>]\<rparr>;
             s = (if shown
                  then s\<lparr>slots := (slots s)[slot := (slots s ! slot)\<lparr>sf_z := z_counter s\<rparr>],
                         z_counter := z_counter s + 1\<rparr>
                  else s)
         in (Inr (), mark_dirty surface_id s))"

definition flush_surface :: "nat \<Rightarrow> u32 \<Rightarrow> surfaces \<Rightarrow> (surface_error + unit) \<times> surfaces" where
  "flush_surface pid surface_id s = (case find_surface surface_id s of
     None \<Rightarrow> (Inl ENOENT, s)
   | Some slot \<Rightarrow>
       if sf_pid (slots s ! slot) \<noteq> pid then (Inl EINVAL, s)
       else (Inr (), mark_dirty surface_id s))"

definition destroy_surface :: "nat \<Rightarrow> u32 \<Rightarrow> surfaces \<Rightarrow> (surface_error + unit) \<times> surfaces" where
  "destroy_surface pid surface_id s = (case find_surface surface_id s of
     None \<Rightarrow> (Inl ENOENT, s)
   | Some slot \<Rightarrow>
       if sf_pid (slots s ! slot) \<noteq> pid then (Inl EINVAL, s)
       else (Inr (), s\<lparr>slots := (slots s)[slot := empty_surface]\<rparr>))"

definition release_pid :: "nat \<Rightarrow> surfaces \<Rightarrow> surfaces" where
  "release_pid pid s =
     s\<lparr>slots := map (\<lambda>surface. if sf_pid surface = pid then empty_surface else surface) (slots s),
       client_queues := (client_queues s)[pid mod max_processes := empty_events]\<rparr>"

definition set_server :: "nat \<Rightarrow> surfaces \<Rightarrow> surfaces" where
  "set_server pid s = s\<lparr>server_pid := pid\<rparr>"

definition push_event_for :: "nat \<Rightarrow> surface_event \<Rightarrow> surfaces \<Rightarrow> surfaces" where
  "push_event_for pid event s =
     (let index = pid mod max_processes
      in s\<lparr>client_queues := (client_queues s)[index := client_push event (client_queues s ! index)]\<rparr>)"

definition push_event_to_surface :: "u32 \<Rightarrow> surface_event \<Rightarrow> surfaces \<Rightarrow> bool \<times> surfaces" where
  "push_event_to_surface surface_id event s = (case find_surface surface_id s of
     None \<Rightarrow> (False, s)
   | Some slot \<Rightarrow> (True, push_event_for (sf_pid (slots s ! slot)) event s))"

definition notify_hidden :: "u32 \<Rightarrow> surfaces \<Rightarrow> surfaces" where
  "notify_hidden surface_id s =
     snd (push_event_to_surface surface_id
       \<lparr>se_surface = surface_id, se_kind = surface_event_hidden, se_x = 0, se_y = 0, se_button = 0,
        se_pressed = 0, se_key = 0\<rparr> s)"

definition pop_event :: "nat \<Rightarrow> surfaces \<Rightarrow> surface_event option \<times> surfaces" where
  "pop_event pid s =
     (let index = pid mod max_processes; (event, q) = client_pop (client_queues s ! index)
      in (event, s\<lparr>client_queues := (client_queues s)[index := q]\<rparr>))"

text \<open>\<open>snapshot_mapped\<close>; \<open>mapped\<close> tells for each slot whether its buffer could be mapped.\<close>

fun snapshot_loop ::
  "(nat \<Rightarrow> bool) \<Rightarrow> nat \<Rightarrow> (nat \<times> surface) list \<Rightarrow> surface_snapshot list" where
  "snapshot_loop mapped room [] = []"
| "snapshot_loop mapped room ((slot, surface) # rest) =
     (if sf_physical surface = 0 \<or> \<not> sf_shown surface \<or> room = 0 \<or> \<not> mapped slot
      then snapshot_loop mapped room rest
      else \<lparr>sn_id = word_of_nat slot, sn_width = sf_width surface, sn_height = sf_height surface,
             sn_pitch = sf_pitch surface,
             sn_address = 0x500000000000 + word_of_nat slot * 0x100000\<rparr>
           # snapshot_loop mapped (room - 1) rest)"

definition snapshot_mapped :: "(nat \<Rightarrow> bool) \<Rightarrow> nat \<Rightarrow> surfaces \<Rightarrow> surface_snapshot list" where
  "snapshot_mapped mapped room s = snapshot_loop mapped room (zip [0..<length (slots s)] (slots s))"

section \<open>The event queues as lists\<close>

definition client_ok :: "client_events \<Rightarrow> bool" where
  "client_ok q \<longleftrightarrow> length (ce_queue q) = surface_event_capacity \<and>
     ce_head q < surface_event_capacity \<and> ce_length q \<le> surface_event_capacity \<and>
     ce_tail q = (ce_head q + ce_length q) mod surface_event_capacity \<and>
     None \<notin> set (ring_contents (ce_queue q) (ce_head q) (ce_length q))"

definition client_contents :: "client_events \<Rightarrow> surface_event list" where
  "client_contents q = map the (ring_contents (ce_queue q) (ce_head q) (ce_length q))"

lemma surface_event_capacity_pos [simp]: "0 < surface_event_capacity"
  by (simp add: surface_event_capacity_def)

lemma client_ok_empty [simp]: "client_ok empty_events"
  by (simp add: client_ok_def empty_events_def)

lemma client_contents_empty [simp]: "client_contents empty_events = []"
  by (simp add: client_contents_def empty_events_def)

lemma last_n_map: "map f (last_n n xs) = last_n n (map f xs)"
  by (simp add: last_n_def drop_map)

lemma set_last_n: "set (last_n n xs) \<subseteq> set xs"
  by (simp add: last_n_def set_drop_subset)

lemma client_push_spec:
  assumes ok: "client_ok q"
  shows "client_ok (client_push e q) \<and>
    client_contents (client_push e q) = last_n surface_event_capacity (client_contents q @ [e])"
proof -
  define head' len' where
    "head' = (if ce_length q = surface_event_capacity
       then (ce_head q + 1) mod surface_event_capacity else ce_head q)"
    and "len' = (if ce_length q = surface_event_capacity then ce_length q - 1 else ce_length q)"
  have push: "client_push e q = q\<lparr>ce_queue := (ce_queue q)[ce_tail q := Some e],
      ce_tail := (ce_tail q + 1) mod surface_event_capacity, ce_head := head', ce_length := len' + 1\<rparr>"
    by (auto simp: client_push_def Let_def head'_def len'_def)
  have len: "length (ce_queue q) = surface_event_capacity" using ok by (simp add: client_ok_def)
  have "(head', len') = (if ce_length q = length (ce_queue q)
      then ((ce_head q + 1) mod length (ce_queue q), ce_length q - 1) else (ce_head q, ce_length q))"
    using len by (simp add: head'_def len'_def)
  note step = this
  have pre: "0 < length (ce_queue q)" "ce_head q < length (ce_queue q)"
    "ce_length q \<le> length (ce_queue q)"
    "ce_tail q = (ce_head q + ce_length q) mod length (ce_queue q)"
    using ok len by (simp_all add: client_ok_def)
  have R: "ring_contents ((ce_queue q)[ce_tail q := Some e]) head' (len' + 1) =
      last_n surface_event_capacity (ring_contents (ce_queue q) (ce_head q) (ce_length q) @ [Some e])"
    "(ce_tail q + 1) mod surface_event_capacity = (head' + (len' + 1)) mod surface_event_capacity"
    "head' < surface_event_capacity" "len' + 1 \<le> surface_event_capacity"
    using ring_push_evicting(1) [OF pre step, of "Some e"] ring_push_evicting(2-4) [OF pre step]
    by (simp_all only: len)
  have "None \<notin> set (ring_contents ((ce_queue q)[ce_tail q := Some e]) head' (len' + 1))"
    unfolding R(1)
    using ok set_last_n [of surface_event_capacity
        "ring_contents (ce_queue q) (ce_head q) (ce_length q) @ [Some e]"]
    by (auto simp: client_ok_def)
  then show ?thesis
    using R len push by (simp add: client_ok_def client_contents_def last_n_map)
qed

lemma client_pop_spec:
  assumes ok: "client_ok q" and pop: "client_pop q = (r, q')"
  shows "client_ok q' \<and> (r, client_contents q') = list_pop (client_contents q)"
proof (cases "ce_length q")
  case 0
  then show ?thesis using assms by (auto simp: client_pop_def client_contents_def list_pop_def)
next
  case (Suc k)
  let ?c = surface_event_capacity and ?h' = "(ce_head q + 1) mod surface_event_capacity"
  have len: "length (ce_queue q) = ?c" "ce_head q < ?c" "Suc k \<le> ?c"
    using ok Suc by (simp_all add: client_ok_def)
  have split: "ring_contents (ce_queue q) (ce_head q) (Suc k) =
      ce_queue q ! ce_head q # ring_contents (ce_queue q) ?h' k"
    using ring_contents_pop [of "ce_head q" "ce_queue q" k] len by simp
  have keep: "ring_contents ((ce_queue q)[ce_head q := None]) ?h' k = ring_contents (ce_queue q) ?h' k"
  proof (rule nth_equalityI)
    fix i assume "i < length (ring_contents ((ce_queue q)[ce_head q := None]) ?h' k)"
    then have i: "i < k" by simp
    have "(?h' + i) mod ?c = (ce_head q + Suc i) mod ?c" by (simp add: mod_add_left_eq)
    moreover have "(ce_head q + 0) mod ?c \<noteq> (ce_head q + Suc i) mod ?c"
      by (rule ring_slots_distinct) (use i len in simp_all)
    ultimately have "(?h' + i) mod ?c \<noteq> ce_head q" using len by simp
    then show "ring_contents ((ce_queue q)[ce_head q := None]) ?h' k ! i =
        ring_contents (ce_queue q) ?h' k ! i"
      using i len by (simp add: ring_contents_nth)
  qed simp
  have q': "q' = q\<lparr>ce_queue := (ce_queue q)[ce_head q := None], ce_head := ?h', ce_length := k\<rparr>"
    and r: "r = ce_queue q ! ce_head q"
    using pop Suc by (auto simp: client_pop_def)
  have "(?h' + k) mod ?c = ce_tail q"
    using ok Suc by (simp add: client_ok_def mod_add_left_eq)
  moreover have "None \<notin> set (ring_contents (ce_queue q) ?h' k)" "r \<noteq> None"
  proof -
    have "None \<notin> set (ring_contents (ce_queue q) (ce_head q) (Suc k))"
      using ok Suc by (simp add: client_ok_def)
    then show "None \<notin> set (ring_contents (ce_queue q) ?h' k)" "r \<noteq> None"
      unfolding split r by (metis list.set_intros)+
  qed
  ultimately show ?thesis
    using q' r keep split len Suc
    by (auto simp: client_ok_def client_contents_def list_pop_def)
qed

interpretation client_queue: evicting_queue client_contents client_ok surface_event_capacity
    client_push client_pop
  by unfold_locales
    (simp_all add: client_push_spec, erule (1) client_pop_spec,
      simp add: client_contents_def client_ok_def)

section \<open>The whole registry\<close>

definition surfaces_ok :: "surfaces \<Rightarrow> bool" where
  "surfaces_ok s \<longleftrightarrow> length (slots s) = max_surfaces \<and> length (client_queues s) = max_processes \<and>
     (\<forall>q \<in> set (client_queues s). client_ok q) \<and>
     length (dirty s) = max_surfaces \<and> dirty_head s < max_surfaces \<and>
     dirty_length s \<le> max_surfaces \<and>
     dirty_tail s = (dirty_head s + dirty_length s) mod max_surfaces"

inductive surfaces_reachable :: "surfaces \<Rightarrow> bool" where
  boot: "surfaces_reachable initial_surfaces"
| create: "surfaces_reachable s \<Longrightarrow>
    surfaces_reachable (snd (snd (create_surface pid frame mapped info s)))"
| present: "surfaces_reachable s \<Longrightarrow> surfaces_reachable (snd (present_surface pid i shown s))"
| flush: "surfaces_reachable s \<Longrightarrow> surfaces_reachable (snd (flush_surface pid i s))"
| destroy: "surfaces_reachable s \<Longrightarrow> surfaces_reachable (snd (destroy_surface pid i s))"
| release: "surfaces_reachable s \<Longrightarrow> surfaces_reachable (release_pid pid s)"
| server: "surfaces_reachable s \<Longrightarrow> surfaces_reachable (set_server pid s)"
| taken: "surfaces_reachable s \<Longrightarrow> surfaces_reachable (snd (take_dirty s))"
| deliver: "surfaces_reachable s \<Longrightarrow> surfaces_reachable (push_event_for pid e s)"
| deliver_to: "surfaces_reachable s \<Longrightarrow> surfaces_reachable (snd (push_event_to_surface i e s))"
| read: "surfaces_reachable s \<Longrightarrow> surfaces_reachable (snd (pop_event pid s))"

lemma max_surfaces_pos [simp]: "0 < max_surfaces" "0 < max_processes"
  by (simp_all add: max_surfaces_def max_processes_def)

lemma surfaces_ok_initial: "surfaces_ok initial_surfaces"
  by (auto simp: surfaces_ok_def initial_surfaces_def)

lemma surfaces_ok_slots: "surfaces_ok s \<Longrightarrow> length ss = max_surfaces \<Longrightarrow> surfaces_ok (s\<lparr>slots := ss\<rparr>)"
  by (simp add: surfaces_ok_def)

lemma surfaces_ok_z [simp]: "surfaces_ok (s\<lparr>z_counter := z\<rparr>) = surfaces_ok s"
  "surfaces_ok (s\<lparr>server_pid := p\<rparr>) = surfaces_ok s"
  by (simp_all add: surfaces_ok_def)

lemma surfaces_ok_queue:
  "surfaces_ok s \<Longrightarrow> client_ok q \<Longrightarrow> surfaces_ok (s\<lparr>client_queues := (client_queues s)[i := q]\<rparr>)"
  by (auto simp: surfaces_ok_def dest!: set_update_subset_insert [THEN subsetD])

lemma surfaces_ok_mark_dirty: "surfaces_ok s \<Longrightarrow> surfaces_ok (mark_dirty i s)"
  by (auto simp: surfaces_ok_def mark_dirty_def mod_Suc_eq)

lemma surfaces_ok_length [simp]: "surfaces_ok s \<Longrightarrow> length (slots s) = max_surfaces"
  by (simp add: surfaces_ok_def)

lemma client_ok_nth:
  "surfaces_ok s \<Longrightarrow> client_ok (client_queues s ! (pid mod max_processes))"
  by (simp add: surfaces_ok_def)

lemma surfaces_ok_push: "surfaces_ok s \<Longrightarrow> surfaces_ok (push_event_for pid e s)"
  by (simp add: push_event_for_def Let_def surfaces_ok_queue client_push_spec client_ok_nth)

lemma surfaces_ok_pop: "surfaces_ok s \<Longrightarrow> surfaces_ok (snd (pop_event pid s))"
  using client_pop_spec [OF client_ok_nth [of s pid]]
  by (auto simp: pop_event_def Let_def surfaces_ok_queue split: prod.split)

lemma surfaces_ok_release: "surfaces_ok s \<Longrightarrow> surfaces_ok (release_pid pid s)"
  by (auto simp: surfaces_ok_def release_pid_def dest!: set_update_subset_insert [THEN subsetD])

lemma surfaces_reachable_ok: "surfaces_reachable s \<Longrightarrow> surfaces_ok s"
proof (induction rule: surfaces_reachable.induct)
  case (taken s)
  show ?case
  proof (cases "dirty_length s")
    case 0
    then show ?thesis using taken by (simp add: take_dirty_def)
  next
    case (Suc k)
    have "((dirty_head s + 1) mod max_surfaces + k) mod max_surfaces = dirty_tail s"
      using ring_tail_after_pop [of 1 "Suc k" "dirty_head s" max_surfaces] taken Suc
      by (simp add: surfaces_ok_def)
    then show ?thesis using taken Suc by (simp add: take_dirty_def surfaces_ok_def)
  qed
qed (auto simp: surfaces_ok_initial surfaces_ok_push surfaces_ok_pop surfaces_ok_slots
    surfaces_ok_mark_dirty create_surface_def present_surface_def flush_surface_def
    destroy_surface_def surfaces_ok_release set_server_def push_event_to_surface_def
    Let_def surfaces_ok_queue split: option.split prod.split)

section \<open>Delivery of events\<close>

definition events_of :: "nat \<Rightarrow> surfaces \<Rightarrow> surface_event list" where
  "events_of pid s = client_contents (client_queues s ! (pid mod max_processes))"

lemma events_of_push:
  assumes "surfaces_ok s"
  shows "events_of p (push_event_for pid e s) =
    (if p mod max_processes = pid mod max_processes
     then last_n surface_event_capacity (events_of p s @ [e]) else events_of p s)"
  using assms client_push_spec [OF client_ok_nth [OF assms, of pid], of e]
  by (simp add: events_of_def push_event_for_def Let_def surfaces_ok_def)

lemma events_of_pop:
  assumes ok: "surfaces_ok s" and pop: "pop_event pid s = (r, s')"
  shows "(r, events_of pid s') = list_pop (events_of pid s) \<and>
    (p mod max_processes \<noteq> pid mod max_processes \<longrightarrow> events_of p s' = events_of p s)"
  using pop client_pop_spec [OF client_ok_nth [OF ok, of pid]] ok
  by (auto simp: events_of_def pop_event_def Let_def surfaces_ok_def split: prod.splits)

interpretation surface_queue: evicting_queue "events_of pid" surfaces_ok surface_event_capacity
    "push_event_for pid" "pop_event pid" for pid
proof unfold_locales
  show "surfaces_ok (push_event_for pid e s) \<and> events_of pid (push_event_for pid e s) =
      last_n surface_event_capacity (events_of pid s @ [e])" if "surfaces_ok s" for e s
    using that by (simp add: surfaces_ok_push events_of_push)
  show "surfaces_ok s' \<and> (r, events_of pid s') = list_pop (events_of pid s)"
    if "surfaces_ok s" "pop_event pid s = (r, s')" for s r s'
    using surfaces_ok_pop [OF that(1), of pid] that(2) events_of_pop [OF that] by simp
  show "length (events_of pid s) \<le> surface_event_capacity" if "surfaces_ok s" for s
    using client_ok_nth [OF that, of pid] by (simp add: events_of_def client_contents_def client_ok_def)
qed

lemma run_other_events:
  "surfaces_ok s \<Longrightarrow> run_queue (push_event_for pid) (pop_event pid) ops s = (rs, s') \<Longrightarrow>
   p mod max_processes \<noteq> pid mod max_processes \<Longrightarrow> events_of p s' = events_of p s"
proof (induction ops arbitrary: s rs s')
  case Nil
  then show ?case by simp
next
  case (Cons op ops)
  show ?case
  proof (cases op)
    case (Push e)
    then show ?thesis
      using Cons.IH [of "push_event_for pid e s"] Cons.prems surfaces_ok_push
      by (simp add: events_of_push)
  next
    case Pop
    obtain r s1 where pop: "pop_event pid s = (r, s1)" by (cases "pop_event pid s")
    obtain rs1 s2 where run: "run_queue (push_event_for pid) (pop_event pid) ops s1 = (rs1, s2)"
      by (cases "run_queue (push_event_for pid) (pop_event pid) ops s1")
    have "surfaces_ok s1" using surfaces_ok_pop [OF Cons.prems(1), of pid] pop by simp
    then show ?thesis
      using Cons.IH [OF _ run Cons.prems(3)] Cons.prems Pop pop run events_of_pop [OF Cons.prems(1) pop]
      by simp
  qed
qed

text \<open>
  C26. Events sent to a process are handed to it in order, keeping the sixteen most recent,
  whatever the registry went through before; the queues of processes in other slots (pids
  that differ modulo 16) are untouched.
\<close>

theorem surface_events_delivered:
  assumes "surfaces_reachable s"
  shows "fst (run_queue (push_event_for pid) (pop_event pid) ops s) =
      fst (run_queue (\<lambda>e es. last_n surface_event_capacity (es @ [e])) list_pop ops (events_of pid s)) \<and>
    (p mod max_processes \<noteq> pid mod max_processes \<longrightarrow>
       events_of p (snd (run_queue (push_event_for pid) (pop_event pid) ops s)) = events_of p s)"
proof -
  obtain rs s' where run: "run_queue (push_event_for pid) (pop_event pid) ops s = (rs, s')"
    by (cases "run_queue (push_event_for pid) (pop_event pid) ops s")
  have ok: "surfaces_ok s" by (rule surfaces_reachable_ok [OF assms])
  show ?thesis
    using surface_queue.run_refines [OF ok run] run_other_events [OF ok run] run by simp
qed

definition sample_surface_event :: surface_event where
  "sample_surface_event = \<lparr>se_surface = 0, se_kind = 1, se_x = 0, se_y = 0, se_button = 0,
     se_pressed = 0, se_key = 97\<rparr>"

lemma events_of_initial [simp]: "events_of pid initial_surfaces = []"
  by (simp add: events_of_def initial_surfaces_def)

theorem surface_events_delivered_witness:
  "fst (run_queue (push_event_for 3) (pop_event 3) [Push sample_surface_event, Pop] initial_surfaces) =
     [Some sample_surface_event]"
  using surface_events_delivered [OF surfaces_reachable.boot, of 3 "[Push sample_surface_event, Pop]"]
  by (simp add: list_pop_def last_n_def abi_simps)

text \<open>
  The queue of a process is chosen by its pid modulo 16, while pids grow without bound: a
  process receives, and by ending also discards, the events of another one with an equal
  remainder.
\<close>

lemma surface_events_shared_slot:
  assumes "surfaces_ok s" "events_of 3 s = []"
  shows "fst (pop_event 19 (push_event_for 3 e s)) = Some e"
proof -
  have same: "events_of 19 t = events_of 3 t" for t by (simp add: events_of_def abi_simps)
  have "events_of 19 (push_event_for 3 e s) = [e]"
    using assms by (simp add: same events_of_push last_n_def abi_simps)
  then show ?thesis
    using events_of_pop [OF surfaces_ok_push [OF assms(1), of 3 e], of 19
        "fst (pop_event 19 (push_event_for 3 e s))" "snd (pop_event 19 (push_event_for 3 e s))"]
    by (simp add: list_pop_def)
qed

text \<open>
  \<open>create\<close> fills 256000 bytes from the start of the one frame it allocated, which holds 4096.
\<close>

lemma create_surface_overruns_frame:
  assumes "create_surface pid (Some (physical, virtual)) mapped info s = (Inr info', zeroed, s')"
  shows "zeroed = Some (virtual, 256000)"
  using assms
  by (auto simp: create_surface_def Let_def surface_max_pixels_def abi_simps
      split: if_splits option.splits)

end
