(* ===== verification/Input_Queue.thy ===== *)
theory Input_Queue
  imports Ring_Buffer
begin

text \<open>
  The input events of \<open>kernel/src/input.rs\<close>: a ring of 128 events with motion coalescing,
  the pointer and its bounds, and the button states. Coordinates are \<open>i32\<close>: integers with
  the wrap-around of release arithmetic written out in \<open>wrap_i32\<close>.
\<close>

section \<open>State\<close>

definition i32_min :: int where
  "i32_min = - (2 ^ 31)"

definition i32_max :: int where
  "i32_max = 2 ^ 31 - 1"

definition wrap_i32 :: "int \<Rightarrow> int" where
  "wrap_i32 x = (x + 2 ^ 31) mod 2 ^ 32 - 2 ^ 31"

definition clamp :: "int \<Rightarrow> int \<Rightarrow> int \<Rightarrow> int" where
  "clamp low high x = (if x < low then low else if x > high then high else x)"

definition saturating_sub_i32 :: "int \<Rightarrow> int \<Rightarrow> int" where
  "saturating_sub_i32 a b = clamp i32_min i32_max (a - b)"

definition input_key :: u32 where
  "input_key = 1"

definition input_mouse_move :: u32 where
  "input_mouse_move = 2"

definition input_mouse_button :: u32 where
  "input_mouse_button = 3"

definition input_capacity :: nat where
  "input_capacity = 128"

definition max_pointer :: int where
  "max_pointer = 4096"

declare input_key_def [abi_simps] input_mouse_move_def [abi_simps]
  input_mouse_button_def [abi_simps] input_capacity_def [abi_simps] max_pointer_def [abi_simps]

record input_event =
  ev_kind :: u32
  ev_key :: u32
  ev_x :: int
  ev_y :: int
  ev_button :: u32
  ev_pressed :: u32

definition empty_event :: input_event where
  "empty_event = \<lparr>ev_kind = 0, ev_key = 0, ev_x = 0, ev_y = 0, ev_button = 0, ev_pressed = 0\<rparr>"

record input_queue =
  in_events :: "input_event list"
  in_head :: nat
  in_tail :: nat
  in_length :: nat
  captured :: bool
  pointer_x :: int
  pointer_y :: int
  pointer_max_x :: int
  pointer_max_y :: int
  left_pressed :: bool
  right_pressed :: bool

definition new_input_queue :: input_queue where
  "new_input_queue = \<lparr>in_events = replicate input_capacity empty_event, in_head = 0, in_tail = 0,
     in_length = 0, captured = False, pointer_x = 0, pointer_y = 0,
     pointer_max_x = max_pointer - 1, pointer_max_y = max_pointer - 1,
     left_pressed = False, right_pressed = False\<rparr>"

section \<open>Operations\<close>

definition push_event :: "input_event \<Rightarrow> input_queue \<Rightarrow> input_queue" where
  "push_event event q =
     (let last = (in_tail q + input_capacity - 1) mod input_capacity in
      if ev_kind event = input_mouse_move \<and> in_length q \<noteq> 0 \<and>
         ev_kind (in_events q ! last) = input_mouse_move
      then q\<lparr>in_events := (in_events q)[last := event]\<rparr>
      else
        let q = (if in_length q = input_capacity
                 then q\<lparr>in_head := (in_head q + 1) mod input_capacity, in_length := in_length q - 1\<rparr>
                 else q)
        in q\<lparr>in_events := (in_events q)[in_tail q := event],
             in_tail := (in_tail q + 1) mod input_capacity,
             in_length := in_length q + 1\<rparr>)"

definition capture_input :: "input_queue \<Rightarrow> input_queue" where
  "capture_input q = q\<lparr>captured := True, in_head := 0, in_tail := 0, in_length := 0\<rparr>"

definition release_input :: "input_queue \<Rightarrow> input_queue" where
  "release_input q = q\<lparr>captured := False\<rparr>"

definition is_captured :: "input_queue \<Rightarrow> bool" where
  "is_captured q = captured q"

definition push_key :: "u32 \<Rightarrow> input_queue \<Rightarrow> input_queue" where
  "push_key character = push_event (empty_event\<lparr>ev_kind := input_key, ev_key := character\<rparr>)"

definition push_pointer :: "int \<Rightarrow> int \<Rightarrow> input_queue \<Rightarrow> input_queue" where
  "push_pointer delta_x delta_y q =
     (let q = q\<lparr>pointer_x := clamp 0 (pointer_max_x q) (wrap_i32 (pointer_x q + delta_x))\<rparr>;
          q = q\<lparr>pointer_y := clamp 0 (pointer_max_y q) (wrap_i32 (pointer_y q + delta_y))\<rparr>
      in push_event (empty_event\<lparr>ev_kind := input_mouse_move, ev_x := pointer_x q,
           ev_y := pointer_y q\<rparr>) q)"

definition clamp_pointer :: "int \<Rightarrow> int \<Rightarrow> input_queue \<Rightarrow> input_queue" where
  "clamp_pointer width height q =
     (let q = q\<lparr>pointer_max_x := max (saturating_sub_i32 width 1) 0,
                pointer_max_y := max (saturating_sub_i32 height 1) 0\<rparr>
      in q\<lparr>pointer_x := clamp 0 (pointer_max_x q) (pointer_x q),
           pointer_y := clamp 0 (pointer_max_y q) (pointer_y q)\<rparr>)"

definition push_pointer_button :: "u32 \<Rightarrow> bool \<Rightarrow> input_queue \<Rightarrow> input_queue" where
  "push_pointer_button button pressed q =
     (if button \<noteq> 1 \<and> button \<noteq> 2 then q
      else if (if button = 1 then left_pressed q else right_pressed q) = pressed then q
      else
        let q = (if button = 1 then q\<lparr>left_pressed := pressed\<rparr> else q\<lparr>right_pressed := pressed\<rparr>)
        in push_event (empty_event\<lparr>ev_kind := input_mouse_button, ev_x := pointer_x q,
             ev_y := pointer_y q, ev_button := button,
             ev_pressed := (if pressed then 1 else 0)\<rparr>) q)"

definition poll_event :: "input_queue \<Rightarrow> input_event option \<times> input_queue" where
  "poll_event q =
     (if in_length q = 0 then (None, q)
      else (Some (in_events q ! in_head q),
            q\<lparr>in_head := (in_head q + 1) mod input_capacity, in_length := in_length q - 1\<rparr>))"

definition pointer_position :: "input_queue \<Rightarrow> int \<times> int" where
  "pointer_position q = (pointer_x q, pointer_y q)"

section \<open>The queue as a list\<close>

definition input_ok :: "input_queue \<Rightarrow> bool" where
  "input_ok q \<longleftrightarrow> length (in_events q) = input_capacity \<and> in_head q < input_capacity \<and>
     in_length q \<le> input_capacity \<and> in_tail q = (in_head q + in_length q) mod input_capacity"

definition input_contents :: "input_queue \<Rightarrow> input_event list" where
  "input_contents q = ring_contents (in_events q) (in_head q) (in_length q)"

text \<open>
  What a new event does to the pending ones: a motion replaces a pending motion at the end,
  any other event is appended and the oldest is dropped beyond the capacity.
\<close>

definition coalesce :: "input_event \<Rightarrow> input_event list \<Rightarrow> input_event list" where
  "coalesce e es =
     (if ev_kind e = input_mouse_move \<and> es \<noteq> [] \<and> ev_kind (last es) = input_mouse_move
      then butlast es @ [e] else last_n input_capacity (es @ [e]))"

lemma input_capacity_pos [simp]: "0 < input_capacity"
  by (simp add: input_capacity_def)

lemma ring_last_slot:
  assumes "0 < len" "tail = (head + len) mod n" "0 < (n :: nat)"
  shows "(tail + n - 1) mod n = (head + (len - 1)) mod n"
proof -
  have "(tail + n - 1) mod n = (tail + (n - 1)) mod n" using assms(3) by simp
  also have "\<dots> = (head + len + (n - 1)) mod n" using assms(2) by (simp only: mod_add_left_eq)
  also have "head + len + (n - 1) = head + (len - 1) + n" using assms(1,3) by simp
  finally show ?thesis by simp
qed

lemma ring_replace_last:
  assumes "0 < len" "len \<le> length buf" "slot = (head + (len - 1)) mod length buf"
  shows "ring_contents (buf[slot := x]) head len = butlast (ring_contents buf head len) @ [x]"
proof -
  have "len - 1 < length buf" "Suc (len - 1) = len" using assms by simp_all
  then have "ring_contents (buf[slot := x]) head len = ring_contents buf head (len - 1) @ [x]"
    using ring_contents_store [of "len - 1" buf slot head x] assms(3) by simp
  moreover have "butlast (ring_contents buf head len) = ring_contents buf head (len - 1)"
    using \<open>Suc (len - 1) = len\<close> by (simp add: ring_contents_def butlast_conv_take take_map)
  ultimately show ?thesis by simp
qed

lemma last_input_contents:
  assumes "input_ok q" "in_length q \<noteq> 0"
  shows "last (input_contents q) = in_events q ! ((in_tail q + input_capacity - 1) mod input_capacity)"
proof -
  have "last (input_contents q) = input_contents q ! (in_length q - 1)"
    using assms(2) by (simp add: input_contents_def last_conv_nth)
  also have "\<dots> = in_events q ! ((in_head q + (in_length q - 1)) mod input_capacity)"
    using assms by (simp add: input_contents_def ring_contents_nth input_ok_def)
  finally show ?thesis
    using ring_last_slot [of "in_length q" "in_tail q" "in_head q" input_capacity] assms
    by (simp add: input_ok_def)
qed

lemma push_event_spec:
  assumes ok: "input_ok q"
  shows "input_ok (push_event e q) \<and> input_contents (push_event e q) = coalesce e (input_contents q)"
proof (cases "ev_kind e = input_mouse_move \<and> in_length q \<noteq> 0 \<and>
    ev_kind (in_events q ! ((in_tail q + input_capacity - 1) mod input_capacity)) = input_mouse_move")
  case True
  let ?slot = "(in_tail q + input_capacity - 1) mod input_capacity"
  have slot: "?slot = (in_head q + (in_length q - 1)) mod length (in_events q)"
    using ring_last_slot [of "in_length q" "in_tail q" "in_head q" input_capacity] ok True
    by (simp add: input_ok_def)
  have "input_contents (q\<lparr>in_events := (in_events q)[?slot := e]\<rparr>) = butlast (input_contents q) @ [e]"
    using ring_replace_last [OF _ _ slot] ok True by (simp add: input_contents_def input_ok_def)
  moreover have "ev_kind (last (input_contents q)) = input_mouse_move"
    using last_input_contents [OF ok] True by simp
  moreover have "input_contents q \<noteq> []" using True by (simp add: input_contents_def)
  ultimately show ?thesis
    using True ok by (simp add: push_event_def Let_def coalesce_def input_ok_def)
next
  case False
  define head' len' where
    "head' = (if in_length q = input_capacity then (in_head q + 1) mod input_capacity else in_head q)"
    and "len' = (if in_length q = input_capacity then in_length q - 1 else in_length q)"
  have push: "push_event e q = q\<lparr>in_events := (in_events q)[in_tail q := e],
      in_tail := (in_tail q + 1) mod input_capacity, in_head := head', in_length := len' + 1\<rparr>"
    using False by (auto simp: push_event_def Let_def head'_def len'_def input_capacity_def)
  have "(head', len') = (if in_length q = length (in_events q)
      then ((in_head q + 1) mod length (in_events q), in_length q - 1) else (in_head q, in_length q))"
    using ok by (simp add: head'_def len'_def input_ok_def)
  note R = ring_push_evicting(1) [where tail = "in_tail q" and x = e, OF _ _ _ _ this]
    ring_push_evicting(2-4) [where tail = "in_tail q", OF _ _ _ _ this]
  have "coalesce e (input_contents q) = last_n input_capacity (input_contents q @ [e])"
    using False last_input_contents [OF ok]
    by (auto simp: coalesce_def input_contents_def)
  moreover have "in_events q \<noteq> []"
    using ok input_capacity_pos by (auto simp: input_ok_def simp del: input_capacity_pos)
  ultimately show ?thesis
    using R ok push by (simp add: input_ok_def input_contents_def)
qed

lemma poll_event_spec:
  assumes ok: "input_ok q" and poll: "poll_event q = (r, q')"
  shows "input_ok q' \<and> (r, input_contents q') = list_pop (input_contents q)"
proof (cases "in_length q = 0")
  case True
  then show ?thesis using assms by (auto simp: poll_event_def input_contents_def list_pop_def)
next
  case False
  then obtain k where k: "in_length q = Suc k" by (cases "in_length q") auto
  have "input_contents q = in_events q ! in_head q # ring_contents (in_events q) ((in_head q + 1) mod input_capacity) k"
    using ring_contents_pop [of "in_head q" "in_events q" k] ok k
    by (simp add: input_contents_def input_ok_def)
  moreover have "((in_head q + 1) mod input_capacity + k) mod input_capacity = in_tail q"
    using ok k by (simp add: input_ok_def mod_add_left_eq)
  ultimately show ?thesis
    using poll ok k by (auto simp: poll_event_def input_ok_def input_contents_def list_pop_def)
qed

interpretation input_events: event_queue input_contents input_ok coalesce push_event poll_event
  by unfold_locales (simp_all add: push_event_spec, rule poll_event_spec)

section \<open>All states of the input queue\<close>

inductive input_reachable :: "input_queue \<Rightarrow> bool" where
  boot: "input_reachable new_input_queue"
| key: "input_reachable q \<Longrightarrow> input_reachable (push_key c q)"
| motion: "input_reachable q \<Longrightarrow> input_reachable (push_pointer dx dy q)"
| button: "input_reachable q \<Longrightarrow> input_reachable (push_pointer_button b pressed q)"
| screen: "input_reachable q \<Longrightarrow> input_reachable (clamp_pointer w h q)"
| capture: "input_reachable q \<Longrightarrow> input_reachable (capture_input q)"
| release: "input_reachable q \<Longrightarrow> input_reachable (release_input q)"
| poll: "input_reachable q \<Longrightarrow> input_reachable (snd (poll_event q))"

definition pointer_ok :: "input_queue \<Rightarrow> bool" where
  "pointer_ok q \<longleftrightarrow> 0 \<le> pointer_x q \<and> pointer_x q \<le> pointer_max_x q \<and> pointer_max_x q \<le> i32_max \<and>
     0 \<le> pointer_y q \<and> pointer_y q \<le> pointer_max_y q \<and> pointer_max_y q \<le> i32_max"

lemma push_event_pointer [simp]:
  "pointer_x (push_event e q) = pointer_x q" "pointer_y (push_event e q) = pointer_y q"
  "pointer_max_x (push_event e q) = pointer_max_x q"
  "pointer_max_y (push_event e q) = pointer_max_y q"
  by (simp_all add: push_event_def Let_def)

lemma pointer_ok_push [simp]: "pointer_ok (push_event e q) = pointer_ok q"
  by (simp add: pointer_ok_def)

lemma clamp_bounds: "low \<le> high \<Longrightarrow> low \<le> clamp low high x \<and> clamp low high x \<le> high"
  by (simp add: clamp_def)

lemma input_ok_frame [simp]:
  "input_ok (q\<lparr>pointer_x := i\<rparr>) = input_ok q" "input_ok (q\<lparr>pointer_y := i\<rparr>) = input_ok q"
  "input_ok (q\<lparr>pointer_max_x := i\<rparr>) = input_ok q" "input_ok (q\<lparr>pointer_max_y := i\<rparr>) = input_ok q"
  "input_ok (q\<lparr>left_pressed := p\<rparr>) = input_ok q" "input_ok (q\<lparr>right_pressed := p\<rparr>) = input_ok q"
  "input_ok (q\<lparr>captured := p\<rparr>) = input_ok q"
  by (simp_all add: input_ok_def)

lemma screen_limit: "0 \<le> max (saturating_sub_i32 w 1) 0 \<and> max (saturating_sub_i32 w 1) 0 \<le> i32_max"
  by (auto simp: saturating_sub_i32_def clamp_def i32_max_def i32_min_def)

lemma input_reachable_ok: "input_reachable q \<Longrightarrow> input_ok q \<and> pointer_ok q"
proof (induction rule: input_reachable.induct)
  case boot
  then show ?case
    by (simp add: input_ok_def pointer_ok_def new_input_queue_def abi_simps i32_max_def)
next
  case (key q c)
  then show ?case by (simp add: push_key_def push_event_spec)
next
  case (motion q dx dy)
  then show ?case
    using clamp_bounds [of 0 "pointer_max_x q"] clamp_bounds [of 0 "pointer_max_y q"]
    by (simp add: push_pointer_def Let_def push_event_spec)
      (auto simp: pointer_ok_def)
next
  case (button q b pressed)
  then show ?case
    by (simp add: push_pointer_button_def Let_def push_event_spec pointer_ok_def)
next
  case (screen q w h)
  then show ?case
    using screen_limit [of w] screen_limit [of h] clamp_bounds
    by (simp add: clamp_pointer_def Let_def pointer_ok_def)
next
  case (capture q)
  then show ?case by (simp add: capture_input_def input_ok_def pointer_ok_def)
next
  case (release q)
  then show ?case by (simp add: release_input_def pointer_ok_def)
next
  case (poll q)
  moreover have "pointer_ok (snd (poll_event q)) = pointer_ok q"
    by (simp add: poll_event_def pointer_ok_def)
  ultimately show ?case using poll_event_spec [of q "fst (poll_event q)" "snd (poll_event q)"] by simp
qed

text \<open>
  C14. From every state the input queue can reach, any sequence of pushed and polled events
  behaves as a list that coalesces motion and keeps the 128 most recent events: polls return
  the events in order, none twice and none invented. The pointer never leaves the screen.
\<close>

theorem input_queue_refines:
  assumes "input_reachable q"
  shows "fst (run_queue push_event poll_event ops q) =
      fst (run_queue coalesce list_pop ops (input_contents q)) \<and>
    0 \<le> pointer_x q \<and> pointer_x q \<le> pointer_max_x q \<and>
    0 \<le> pointer_y q \<and> pointer_y q \<le> pointer_max_y q"
proof -
  have "input_ok q" "pointer_ok q" using input_reachable_ok [OF assms] by simp_all
  then show ?thesis
    using input_events.run_refines [of q ops "fst (run_queue push_event poll_event ops q)"
        "snd (run_queue push_event poll_event ops q)"]
    by (simp add: pointer_ok_def)
qed

theorem input_queue_refines_witness:
  "fst (run_queue push_event poll_event [Push empty_event, Pop]
      (clamp_pointer 640 480 new_input_queue)) = [Some empty_event]"
proof -
  have "input_reachable (clamp_pointer 640 480 new_input_queue)"
    by (intro input_reachable.screen input_reachable.boot)
  moreover have "input_contents (clamp_pointer 640 480 new_input_queue) = []"
    by (simp add: input_contents_def clamp_pointer_def new_input_queue_def Let_def)
  moreover have "coalesce empty_event [] = [empty_event]"
    by (simp add: coalesce_def last_n_def empty_event_def abi_simps)
  ultimately show ?thesis
    using input_queue_refines [of "clamp_pointer 640 480 new_input_queue" "[Push empty_event, Pop]"]
    by (simp add: list_pop_def)
qed

end
