(* ===== verification/Process_State.thy ===== *)
theory Process_State
  imports User_Memory Pipes Surfaces Input_Queue
begin

text \<open>
  The state behind the process manager \<open>kernel/src/exec/process.rs\<close>: trap frames, descriptor
  tables, process slots and the scheduler, joined in the record \<open>kernel\<close> with the other
  static state its operations touch (pipes, surfaces, the input queue, memory). Trap frames
  live on the kernel stacks; the model keeps them in a map from their addresses, and the
  addresses of the frames that belong to a slot are \<open>top_of_slot\<close> and \<open>execve_frame_scratch\<close>.
\<close>

section \<open>Descriptors\<close>

definition max_open_fds :: nat where
  "max_open_fds = 24"

declare max_open_fds_def [abi_simps]

datatype descriptor_kind = Closed | Stdin | Stdout | Stderr | RegularFile | PipeRead | PipeWrite

record descriptor =
  fd_kind :: descriptor_kind
  fd_path :: "u8 list"
  fd_path_length :: nat
  fd_offset :: nat
  fd_flags :: u64
  fd_input :: "u8 list"
  fd_input_length :: nat
  fd_input_offset :: nat
  fd_pipe :: nat

definition new_descriptor :: "descriptor_kind \<Rightarrow> descriptor" where
  "new_descriptor kind = \<lparr>fd_kind = kind, fd_path = replicate 256 0, fd_path_length = 0, fd_offset = 0,
     fd_flags = 0, fd_input = replicate 4 0, fd_input_length = 0, fd_input_offset = 0, fd_pipe = 0\<rparr>"

definition closed_descriptor :: descriptor where
  "closed_descriptor = new_descriptor Closed"

definition pipe_descriptor :: "descriptor_kind \<Rightarrow> nat \<Rightarrow> descriptor" where
  "pipe_descriptor kind pipe = (new_descriptor kind)\<lparr>fd_pipe := pipe\<rparr>"

definition file_descriptor :: "u8 list \<Rightarrow> u64 \<Rightarrow> nat \<Rightarrow> descriptor" where
  "file_descriptor path flags offset = (let d = new_descriptor RegularFile in
     d\<lparr>fd_path := splice 0 path (fd_path d), fd_path_length := length path, fd_flags := flags,
       fd_offset := offset\<rparr>)"

type_synonym descriptor_table = "descriptor list"

definition new_table :: descriptor_table where
  "new_table = (replicate max_open_fds closed_descriptor)[0 := new_descriptor Stdin,
     1 := new_descriptor Stdout, 2 := new_descriptor Stderr]"

definition allocate_in :: "descriptor \<Rightarrow> descriptor_table \<Rightarrow> nat option \<times> descriptor_table" where
  "allocate_in d table =
     (case find (\<lambda>index. fd_kind (table ! index) = Closed) [3..<length table] of
        None \<Rightarrow> (None, table)
      | Some slot \<Rightarrow> (Some slot, table[slot := d]))"

section \<open>Processes\<close>

record trap_frame =
  tf_r15 :: u64
  tf_r14 :: u64
  tf_r13 :: u64
  tf_r12 :: u64
  tf_r11 :: u64
  tf_r10 :: u64
  tf_r9 :: u64
  tf_r8 :: u64
  tf_rbp :: u64
  tf_rdi :: u64
  tf_rsi :: u64
  tf_rdx :: u64
  tf_rcx :: u64
  tf_rbx :: u64
  tf_rax :: u64
  tf_rip :: u64
  tf_cs :: u64
  tf_rflags :: u64
  tf_rsp :: u64
  tf_ss :: u64

definition trap_frame_size :: nat where
  "trap_frame_size = 160"

definition kernel_stack_size :: nat where
  "kernel_stack_size = 64 * 1024"

definition root_name :: "u8 list" where
  "root_name = [0x72, 0x6f, 0x6f, 0x74]"

record process =
  pr_pid :: nat
  pr_active :: bool
  pr_stopped :: bool
  pr_parent :: nat
  pr_zombie :: bool
  pr_exit_status :: "32 word"
  pr_waiting_for :: nat
  pr_quantum :: u64
  pr_disk_install :: bool
  pr_uid :: u32
  pr_gid :: u32
  pr_is_admin :: bool
  pr_username :: "u8 list"
  pr_username_length :: nat
  pr_frame :: u64
  pr_space :: "address_space option"
  pr_heap_end :: u64
  pr_name :: "u8 list"
  pr_pending :: u64
  pr_actions :: "u64 list"
  pr_restorer :: u64
  pr_signal_frame :: "trap_frame option"
  pr_fpu :: "u8 list"

definition empty_process :: process where
  "empty_process = \<lparr>pr_pid = 0, pr_active = False, pr_stopped = False, pr_parent = 0, pr_zombie = False,
     pr_exit_status = 0, pr_waiting_for = 0, pr_quantum = 0, pr_disk_install = False, pr_uid = 0,
     pr_gid = 0, pr_is_admin = True, pr_username = splice 0 root_name (replicate 32 0),
     pr_username_length = 4, pr_frame = 0, pr_space = None, pr_heap_end = user_heap_start,
     pr_name = replicate 64 0, pr_pending = 0, pr_actions = replicate 32 0, pr_restorer = 0,
     pr_signal_frame = None, pr_fpu = replicate 512 0\<rparr>"

section \<open>The kernel\<close>

text \<open>
  \<open>live_fpu\<close> is the image \<open>fxsave\<close> would store, \<open>kernel_stack\<close> the stack pointer in the task
  state segment, \<open>console_active\<close> whether the console draws on the screen, and
  \<open>stacks_base\<close> the address of the array of kernel stacks.
\<close>

record kernel =
  processes :: "process list"
  slot_count :: nat
  current :: nat
  tables :: "descriptor_table list"
  pipes :: pipe_table
  surface_state :: surfaces
  input_state :: input_queue
  mach :: machine
  trap_frames :: "u64 \<Rightarrow> trap_frame"
  live_fpu :: "u8 list"
  kernel_stack :: u64
  console_active :: bool
  stacks_base :: u64

definition stack_top :: "kernel \<Rightarrow> nat \<Rightarrow> u64" where
  "stack_top k slot = stacks_base k + word_of_nat (slot * kernel_stack_size + kernel_stack_size)"

definition top_of_slot :: "kernel \<Rightarrow> nat \<Rightarrow> u64" where
  "top_of_slot k slot = stack_top k slot - word_of_nat trap_frame_size"

definition execve_frame_scratch :: "kernel \<Rightarrow> nat \<Rightarrow> u64 option" where
  "execve_frame_scratch k slot = (let offset = 2 * trap_frame_size in
     if kernel_stack_size \<le> offset then None
     else Some (stacks_base k + word_of_nat (slot * kernel_stack_size + offset)))"

definition current_process :: "kernel \<Rightarrow> process" where
  "current_process k = processes k ! current k"

definition update_process :: "nat \<Rightarrow> (process \<Rightarrow> process) \<Rightarrow> kernel \<Rightarrow> kernel" where
  "update_process slot f k = k\<lparr>processes := (processes k)[slot := f (processes k ! slot)]\<rparr>"

definition set_frame :: "u64 \<Rightarrow> trap_frame \<Rightarrow> kernel \<Rightarrow> kernel" where
  "set_frame a tf k = k\<lparr>trap_frames := (trap_frames k)(a := tf)\<rparr>"

definition set_rax :: "u64 \<Rightarrow> u64 \<Rightarrow> kernel \<Rightarrow> kernel" where
  "set_rax a v k = set_frame a ((trap_frames k a)\<lparr>tf_rax := v\<rparr>) k"

text \<open>A negative error number as the \<open>rax\<close> of a system call.\<close>

definition errno :: "nat \<Rightarrow> u64" where
  "errno n = - word_of_nat n"

section \<open>Descriptor operations of the current process\<close>

definition current_table :: "kernel \<Rightarrow> descriptor_table" where
  "current_table k = tables k ! current k"

definition set_current_table :: "descriptor_table \<Rightarrow> kernel \<Rightarrow> kernel" where
  "set_current_table t k = k\<lparr>tables := (tables k)[current k := t]\<rparr>"

definition get_descriptor :: "nat \<Rightarrow> kernel \<Rightarrow> descriptor option" where
  "get_descriptor fd k =
     (if fd < length (current_table k) \<and> fd_kind (current_table k ! fd) \<noteq> Closed
      then Some (current_table k ! fd) else None)"

definition allocate_descriptor :: "descriptor \<Rightarrow> kernel \<Rightarrow> nat option \<times> kernel" where
  "allocate_descriptor d k = (let (r, t) = allocate_in d (current_table k) in (r, set_current_table t k))"

definition update_descriptor :: "nat \<Rightarrow> descriptor \<Rightarrow> kernel \<Rightarrow> bool \<times> kernel" where
  "update_descriptor fd d k =
     (if length (current_table k) \<le> fd then (False, k)
      else if fd_kind (current_table k ! fd) = Closed then (False, k)
      else (True, set_current_table ((current_table k)[fd := d]) k))"

definition release_pipe_reference :: "descriptor \<Rightarrow> pipe_table \<Rightarrow> pipe_table" where
  "release_pipe_reference d ps = (case fd_kind d of
     PipeRead \<Rightarrow> close_reader (fd_pipe d) ps
   | PipeWrite \<Rightarrow> close_writer (fd_pipe d) ps
   | _ \<Rightarrow> ps)"

definition release_descriptors :: "nat \<Rightarrow> kernel \<Rightarrow> kernel" where
  "release_descriptors slot k =
     k\<lparr>pipes := fold release_pipe_reference (tables k ! slot) (pipes k),
       tables := (tables k)[slot := map (\<lambda>d. closed_descriptor) (tables k ! slot)]\<rparr>"

definition close_descriptor :: "nat \<Rightarrow> kernel \<Rightarrow> bool \<times> kernel" where
  "close_descriptor fd k =
     (if length (current_table k) \<le> fd then (False, k)
      else
        let d = current_table k ! fd in
        if fd_kind d = Closed then (False, k)
        else (True, set_current_table ((current_table k)[fd := closed_descriptor])
               (k\<lparr>pipes := release_pipe_reference d (pipes k)\<rparr>)))"

text \<open>Taking one more reference to what a descriptor names; only a pipe end is counted.\<close>

definition add_pipe_reference :: "descriptor \<Rightarrow> pipe_table \<Rightarrow> (pipe_error + unit) \<times> pipe_table" where
  "add_pipe_reference d ps = (case fd_kind d of
     PipeRead \<Rightarrow> add_reader (fd_pipe d) ps
   | PipeWrite \<Rightarrow> add_writer (fd_pipe d) ps
   | _ \<Rightarrow> (Inr (), ps))"

definition duplicate_descriptor :: "nat \<Rightarrow> kernel \<Rightarrow> (int + nat) \<times> kernel" where
  "duplicate_descriptor fd k =
     (if length (current_table k) \<le> fd then (Inl (-9), k)
      else
        let d = current_table k ! fd in
        if fd_kind d = Closed then (Inl (-9), k)
        else (case add_pipe_reference d (pipes k) of
          (Inl e, ps) \<Rightarrow> (Inl (pipe_errno e), k\<lparr>pipes := ps\<rparr>)
        | (Inr u, ps) \<Rightarrow>
            let k = k\<lparr>pipes := ps\<rparr> in
            (case allocate_descriptor d k of
               (Some slot, k) \<Rightarrow> (Inr slot, k)
             | (None, k) \<Rightarrow> (Inl (-24), k\<lparr>pipes := release_pipe_reference d (pipes k)\<rparr>))))"

definition duplicate_descriptor_to :: "nat \<Rightarrow> nat \<Rightarrow> kernel \<Rightarrow> (int + nat) \<times> kernel" where
  "duplicate_descriptor_to source target k =
     (if max_open_fds \<le> target then (Inl (-9), k)
      else if length (current_table k) \<le> source then (Inl (-9), k)
      else
        let d = current_table k ! source in
        if fd_kind d = Closed then (Inl (-9), k)
        else if source = target then (Inr target, k)
        else (case add_pipe_reference d (pipes k) of
          (Inl e, ps) \<Rightarrow> (Inl (pipe_errno e), k\<lparr>pipes := ps\<rparr>)
        | (Inr u, ps) \<Rightarrow>
            let k = k\<lparr>pipes := release_pipe_reference (current_table k ! target) ps\<rparr>
            in (Inr target, set_current_table ((current_table k)[target := d]) k)))"

section \<open>User memory of the current process\<close>

text \<open>
  \<open>with_current_space\<close> panics when the current slot has no address space; \<open>None\<close> is that
  panic, and otherwise the flag tells whether the copy succeeded.
\<close>

definition copy_to_current_user :: "u64 \<Rightarrow> u8 list \<Rightarrow> kernel \<Rightarrow> bool option \<times> kernel" where
  "copy_to_current_user address bytes k = (case pr_space (current_process k) of
     None \<Rightarrow> (None, k)
   | Some space \<Rightarrow> let (ok, m) = copy_in_loop space address bytes 0 (mach k) in (Some ok, k\<lparr>mach := m\<rparr>))"

definition copy_from_current_user :: "u64 \<Rightarrow> nat \<Rightarrow> kernel \<Rightarrow> u8 list option option" where
  "copy_from_current_user address len k = (case pr_space (current_process k) of
     None \<Rightarrow> None
   | Some space \<Rightarrow> Some (copy_out_loop (mach k) space address len []))"

fun grow_pages :: "address_space \<Rightarrow> u64 list \<Rightarrow> machine \<Rightarrow> bool \<times> machine" where
  "grow_pages space [] m = (True, m)"
| "grow_pages space (page # rest) m = (case map_user_page space page m of
     (Inl AlreadyMapped, m) \<Rightarrow>
       if checked_add page page_size = None then (False, m) else grow_pages space rest m
   | (Inl e, m) \<Rightarrow> (False, m)
   | (Inr p, m) \<Rightarrow>
       if checked_add page page_size = None then (False, m) else grow_pages space rest m)"

definition grow_heap :: "int \<Rightarrow> kernel \<Rightarrow> (int + u64) \<times> kernel" where
  "grow_heap increment k =
     (if increment < 0 then (Inl (-22), k)
      else
        let p = current_process k; previous = pr_heap_end p in
        (case checked_add previous (word_of_int increment) of
           None \<Rightarrow> (Inl (-12), k)
         | Some new_end \<Rightarrow>
             if user_heap_limit < new_end - user_heap_start then (Inl (-12), k)
             else (case checked_add previous (page_size - 1) of
               None \<Rightarrow> (Inl (-12), k)
             | Some a \<Rightarrow> (case checked_add new_end (page_size - 1) of
                 None \<Rightarrow> (Inl (-12), k)
               | Some b \<Rightarrow> (case pr_space p of
                   None \<Rightarrow> (Inl (-12), k)
                 | Some space \<Rightarrow>
                     (case grow_pages space (page_list (align_down a) (align_down b)) (mach k) of
                        (False, m) \<Rightarrow> (Inl (-12), k\<lparr>mach := m\<rparr>)
                      | (True, m) \<Rightarrow>
                          (Inr previous, update_process (current k) (\<lambda>p. p\<lparr>pr_heap_end := new_end\<rparr>)
                             (k\<lparr>mach := m\<rparr>))))))))"

end
