(* ===== verification/Scheduler.thy ===== *)
theory Scheduler
  imports Process_State
begin

text \<open>
  Context switches and signals, \<open>kernel/src/exec/process.rs\<close>. \<open>schedule\<close> ends in a frame to
  resume, in \<open>kernel_halt\<close>, or in the panic of \<open>expect\<close> on a slot without an address space;
  these are the values of \<open>resume\<close>.
\<close>

section \<open>Choosing the next process\<close>

datatype resume = Resume u64 | Halted | Panicked

definition eligible :: "process \<Rightarrow> bool" where
  "eligible p \<longleftrightarrow> pr_active p \<and> \<not> pr_stopped p \<and> \<not> pr_zombie p \<and> pr_waiting_for p = 0"

definition pick_next :: "kernel \<Rightarrow> nat option" where
  "pick_next k = find (\<lambda>candidate. eligible (processes k ! candidate))
     (map (\<lambda>distance. (current k + distance) mod max_processes) [1..<max_processes + 1])"

definition wake_waiters :: "nat \<Rightarrow> process list \<Rightarrow> process list" where
  "wake_waiters finished ps =
     map (\<lambda>p. if pr_waiting_for p = finished then p\<lparr>pr_waiting_for := 0\<rparr> else p) ps"

text \<open>What \<open>schedule\<close> does when the current process is exiting; clearing the screen's pixels is not modelled.\<close>

definition finish_current :: "kernel \<Rightarrow> kernel" where
  "finish_current k =
     (let k = update_process (current k)
            (\<lambda>p. p\<lparr>pr_zombie := True, pr_stopped := False, pr_waiting_for := 0\<rparr>) k;
          k = release_descriptors (current k) k;
          finished = pr_pid (current_process k);
          k = k\<lparr>surface_state := release_pid finished (surface_state k)\<rparr>;
          k = (if is_captured (input_state k)
               then k\<lparr>input_state := release_input (input_state k), console_active := True\<rparr> else k)
      in k\<lparr>processes := wake_waiters finished (processes k)\<rparr>)"

definition switch_to :: "nat \<Rightarrow> kernel \<Rightarrow> resume \<times> kernel" where
  "switch_to candidate k =
     (let k = k\<lparr>current := candidate\<rparr>; p = processes k ! candidate in
      case pr_space p of
        None \<Rightarrow> (Panicked, k)
      | Some space \<Rightarrow>
          (Resume (pr_frame p),
           k\<lparr>kernel_stack := stack_top k candidate, mach := switch_space space (mach k),
             live_fpu := pr_fpu p\<rparr>))"

definition save_context :: "u64 \<Rightarrow> kernel \<Rightarrow> kernel" where
  "save_context frame k =
     update_process (current k) (\<lambda>p. p\<lparr>pr_frame := frame, pr_fpu := live_fpu k\<rparr>) k"

definition schedule :: "u64 \<Rightarrow> bool \<Rightarrow> kernel \<Rightarrow> resume \<times> kernel" where
  "schedule frame exiting k =
     (let k = save_context frame k;
          k = (if exiting then finish_current k else k)
      in case pick_next k of
           None \<Rightarrow> (Halted, k)
         | Some candidate \<Rightarrow> switch_to candidate k)"

definition schedule_ex :: "u64 \<Rightarrow> bool \<Rightarrow> kernel \<Rightarrow> (resume \<times> bool) \<times> kernel" where
  "schedule_ex frame exiting k =
     (let (r, k') = schedule frame exiting k in ((r, current k \<noteq> current k'), k'))"

definition yield_current :: "u64 \<Rightarrow> kernel \<Rightarrow> resume \<times> kernel" where
  "yield_current frame k = schedule frame False k"

definition exit_current :: "u64 \<Rightarrow> 32 word \<Rightarrow> kernel \<Rightarrow> resume \<times> kernel" where
  "exit_current frame status k =
     schedule frame True (update_process (current k) (\<lambda>p. p\<lparr>pr_exit_status := status\<rparr>) k)"

definition terminate_faulting_process :: "kernel \<Rightarrow> resume \<times> kernel" where
  "terminate_faulting_process k =
     (let frame = pr_frame (current_process k) in
      if frame = 0 then (Halted, k) else schedule frame True k)"

definition any_waiting :: "kernel \<Rightarrow> bool" where
  "any_waiting k \<longleftrightarrow> (\<exists>p \<in> set (processes k). pr_active p \<and> pr_waiting_for p \<noteq> 0)"

definition timer_quantum_ticks :: u64 where
  "timer_quantum_ticks = 10"

definition other_runnable :: "kernel \<Rightarrow> bool" where
  "other_runnable k \<longleftrightarrow>
     (\<exists>index \<in> set [0..<length (processes k)]. index \<noteq> current k \<and> eligible (processes k ! index))"

definition timer_tick :: "u64 \<Rightarrow> kernel \<Rightarrow> resume \<times> kernel" where
  "timer_tick frame k =
     (if frame = 0 then (Resume frame, k)
      else if tf_cs (trap_frames k frame) AND 3 \<noteq> 3 then (Resume frame, k)
      else if \<not> pr_active (current_process k) then (Resume frame, k)
      else if any_waiting k then (Resume frame, k)
      else if \<not> other_runnable k then (Resume frame, k)
      else
        let k = update_process (current k) (\<lambda>p. p\<lparr>pr_quantum := pr_quantum p + 1\<rparr>) k in
        if pr_quantum (current_process k) < timer_quantum_ticks then (Resume frame, k)
        else schedule frame False (update_process (current k) (\<lambda>p. p\<lparr>pr_quantum := 0\<rparr>) k))"

section \<open>Floating-point state and identity\<close>

definition save_current_fpu :: "kernel \<Rightarrow> kernel" where
  "save_current_fpu k = update_process (current k) (\<lambda>p. p\<lparr>pr_fpu := live_fpu k\<rparr>) k"

definition restore_fpu_for :: "u64 \<Rightarrow> kernel \<Rightarrow> kernel" where
  "restore_fpu_for frame k =
     (if frame = 0 then k
      else if pr_frame (current_process k) = frame then k\<lparr>live_fpu := pr_fpu (current_process k)\<rparr>
      else k)"

definition current_pid :: "kernel \<Rightarrow> nat" where
  "current_pid k = pr_pid (current_process k)"

definition current_credentials :: "kernel \<Rightarrow> u32 \<times> u32 \<times> bool" where
  "current_credentials k =
     (pr_uid (current_process k), pr_gid (current_process k), pr_is_admin (current_process k))"

definition can_install_to_disk :: "kernel \<Rightarrow> bool" where
  "can_install_to_disk k = pr_disk_install (current_process k)"

record process_info =
  pi_pid :: u64
  pi_state :: u32
  pi_pending :: u32
  pi_name :: "u8 list"

definition process_info_of :: "process \<Rightarrow> process_info" where
  "process_info_of p = \<lparr>pi_pid = word_of_nat (pr_pid p), pi_state = (if pr_stopped p then 2 else 1),
     pi_pending = ucast (pr_pending p), pi_name = pr_name p\<rparr>"

definition empty_info :: process_info where
  "empty_info = \<lparr>pi_pid = 0, pi_state = 0, pi_pending = 0, pi_name = replicate 64 0\<rparr>"

definition process_snapshot :: "kernel \<Rightarrow> process_info list \<times> nat" where
  "process_snapshot k =
     (let infos = map process_info_of (filter pr_active (processes k))
      in (infos @ replicate (max_processes - length infos) empty_info, length infos))"

section \<open>Signals\<close>

definition signal_hup :: u64 where
  "signal_hup = 1"

definition signal_int :: u64 where
  "signal_int = 2"

definition signal_kill :: u64 where
  "signal_kill = 9"

definition signal_segv :: u64 where
  "signal_segv = 11"

definition signal_term :: u64 where
  "signal_term = 15"

definition signal_cont :: u64 where
  "signal_cont = 18"

definition signal_stop :: u64 where
  "signal_stop = 19"

definition signal_default :: u64 where
  "signal_default = 0"

definition signal_ignore :: u64 where
  "signal_ignore = 1"

lemmas signal_defs = signal_hup_def signal_int_def signal_kill_def signal_segv_def signal_term_def
  signal_cont_def signal_stop_def signal_default_def signal_ignore_def

definition valid_signal :: "u64 \<Rightarrow> bool" where
  "valid_signal s \<longleftrightarrow> s \<in> {signal_hup, signal_int, signal_kill, signal_segv, signal_term, signal_cont, signal_stop}"

definition is_terminating_signal :: "u64 \<Rightarrow> bool" where
  "is_terminating_signal s \<longleftrightarrow> s \<in> {signal_hup, signal_int, signal_segv, signal_term}"

definition signal_bit :: "u64 \<Rightarrow> u64" where
  "signal_bit s = push_bit (unat s) 1"

definition next_pending_signal :: "u64 \<Rightarrow> u64 option" where
  "next_pending_signal pending = find (\<lambda>s. pending AND signal_bit s \<noteq> 0)
     [signal_kill, signal_stop, signal_cont, signal_hup, signal_int, signal_segv, signal_term]"

definition send_signal :: "nat \<Rightarrow> u64 \<Rightarrow> kernel \<Rightarrow> int \<times> kernel" where
  "send_signal pid signal k =
     (if \<not> valid_signal signal then (-22, k)
      else
        let sender_uid = pr_uid (current_process k) in
        (case position (\<lambda>p. pr_active p \<and> pr_pid p = pid) (processes k) of
           None \<Rightarrow> (-3, k)
         | Some slot \<Rightarrow>
             if sender_uid \<noteq> 0 \<and> sender_uid \<noteq> pr_uid (processes k ! slot) then (-1, k)
             else if pr_pid (processes k ! slot) = 1 then (-1, k)
             else (0, update_process slot (\<lambda>p.
               let p = p\<lparr>pr_pending := pr_pending p OR signal_bit signal\<rparr>
               in if signal = signal_cont \<or> signal = signal_kill then p\<lparr>pr_stopped := False\<rparr> else p) k)))"

text \<open>The outer \<open>None\<close> is the panic of \<open>with_current_space\<close>.\<close>

definition set_signal_action :: "u64 \<Rightarrow> u64 \<Rightarrow> u64 \<Rightarrow> kernel \<Rightarrow> int option \<times> kernel" where
  "set_signal_action signal handler restorer k =
     (let installed = update_process (current k) (\<lambda>p.
            let p = p\<lparr>pr_actions := (pr_actions p)[unat signal := handler]\<rparr>
            in if signal_ignore < handler then p\<lparr>pr_restorer := restorer\<rparr> else p) k in
      if \<not> valid_signal signal \<or> signal = signal_kill \<or> signal = signal_stop then (Some (-22), k)
      else if handler = signal_default \<or> handler = signal_ignore then (Some 0, installed)
      else if restorer = 0 then (Some (-22), k)
      else (case pr_space (current_process k) of
          None \<Rightarrow> (None, k)
        | Some space \<Rightarrow>
            if translate (mach k) space handler = None \<or> translate (mach k) space restorer = None
            then (Some (-22), k) else (Some 0, installed)))"

definition restore_signal_context :: "u64 \<Rightarrow> kernel \<Rightarrow> bool \<times> kernel" where
  "restore_signal_context frame k = (case pr_signal_frame (current_process k) of
     None \<Rightarrow> (False, k)
   | Some saved \<Rightarrow>
       (True, set_frame frame saved (update_process (current k) (\<lambda>p. p\<lparr>pr_signal_frame := None\<rparr>) k)))"

text \<open>
  One turn of the loop of \<open>deliver_pending_signal\<close>: \<open>None\<close> continues with the next signal. The
  arms are those of the source's \<open>match\<close>, in order.
\<close>

definition enter_handler :: "u64 \<Rightarrow> u64 \<Rightarrow> u64 \<Rightarrow> kernel \<Rightarrow> resume \<times> kernel" where
  "enter_handler frame signal handler k = (case pr_space (current_process k) of
     None \<Rightarrow> schedule frame True k
   | Some space \<Rightarrow>
       let interrupted = trap_frames k frame; stack_top = align16 (tf_rsp interrupted) in
       (case checked_sub stack_top 8 of
          None \<Rightarrow> schedule frame True k
        | Some stack_slot \<Rightarrow> (case translate (mach k) space stack_slot of
            None \<Rightarrow> schedule frame True k
          | Some destination \<Rightarrow>
              (Resume frame,
               set_frame frame (interrupted\<lparr>tf_rip := handler, tf_rdi := signal, tf_rsp := stack_slot\<rparr>)
                 (update_process (current k) (\<lambda>p. p\<lparr>pr_signal_frame := Some interrupted\<rparr>)
                   (k\<lparr>mach := store_u64 destination (pr_restorer (current_process k)) (mach k)\<rparr>))))))"

definition deliver_step :: "u64 \<Rightarrow> kernel \<Rightarrow> (resume \<times> kernel) option \<times> kernel" where
  "deliver_step frame k =
     (let p = current_process k in
      if \<not> pr_active p then (Some (Resume frame, k), k)
      else (case next_pending_signal (pr_pending p) of
        None \<Rightarrow> (Some (Resume frame, k), k)
      | Some signal \<Rightarrow>
          if pr_signal_frame p \<noteq> None \<and> signal \<noteq> signal_kill \<and> signal \<noteq> signal_stop
          then (Some (Resume frame, k), k)
          else
            let k = update_process (current k) (\<lambda>p. p\<lparr>pr_pending := pr_pending p AND NOT (signal_bit signal)\<rparr>) k;
                handler = pr_actions p ! unat signal
            in if handler = signal_ignore \<and> signal \<noteq> signal_kill \<and> signal \<noteq> signal_stop then (None, k)
               else if signal = signal_kill \<or> (handler = signal_default \<and> is_terminating_signal signal)
               then (Some (schedule frame True k), k)
               else if signal = signal_stop
               then (Some (schedule frame False (update_process (current k) (\<lambda>p. p\<lparr>pr_stopped := True\<rparr>) k)), k)
               else if signal = signal_cont \<and> handler \<le> signal_ignore then (None, k)
               else if signal_ignore < handler then (Some (enter_handler frame signal handler k), k)
               else (None, k)))"

text \<open>
  The loop clears one of the seven valid pending bits in each turn that continues, so it turns
  at most eight times; \<open>deliver_loop\<close> takes that many turns, and running out is \<open>None\<close>.
\<close>

fun deliver_loop :: "nat \<Rightarrow> u64 \<Rightarrow> kernel \<Rightarrow> (resume \<times> kernel) option" where
  "deliver_loop 0 frame k = None"
| "deliver_loop (Suc turns) frame k = (case deliver_step frame k of
     (Some r, k') \<Rightarrow> Some r
   | (None, k') \<Rightarrow> deliver_loop turns frame k')"

definition deliver_pending_signal :: "u64 \<Rightarrow> kernel \<Rightarrow> (resume \<times> kernel) option" where
  "deliver_pending_signal frame k =
     (if frame = 0 then Some (Resume frame, k) else deliver_loop 8 frame k)"

end
