(* ===== verification/Accounts.thy ===== *)
theory Accounts
  imports Crypto Rust_Str
begin

text \<open>
  User accounts, \<open>kernel/src/accounts.rs\<close>: the checks on an installation request, the record
  of 100 bytes that holds the one user account, and logging in against it. The contents of
  \<open>/etc/users.db\<close> and the values drawn by \<open>rdrand\<close> are arguments.
\<close>

section \<open>Data\<close>

definition account_name_size :: nat where
  "account_name_size = 32"

definition account_password_size :: nat where
  "account_password_size = 64"

definition hostname_size :: nat where
  "hostname_size = 64"

definition database_magic :: "u8 list" where
  "database_magic = [0x49, 0x4d, 0x55, 0x53, 0x45, 0x52, 0x30, 0x31]"

definition database_size :: nat where
  "database_size = 100"

definition pbkdf2_iterations :: u32 where
  "pbkdf2_iterations = 10000"

definition root_user :: "u8 list" where
  "root_user = [0x72, 0x6f, 0x6f, 0x74]"

definition default_hostname :: "u8 list" where
  "default_hostname = [0x69, 0x6d, 0x61, 0x67, 0x69, 0x6e, 0x65, 0x6f, 0x73]"

record install_config =
  ic_username_length :: u8
  ic_password_length :: u8
  ic_hostname_length :: u8
  ic_add_user :: u8
  ic_administrator :: u8
  ic_username :: "u8 list"
  ic_password :: "u8 list"
  ic_hostname :: "u8 list"

record account =
  ac_username :: "u8 list"
  ac_username_length :: nat
  ac_uid :: u32
  ac_gid :: u32
  ac_administrator :: bool
  ac_salt :: "u8 list"
  ac_password_hash :: "u8 list"

definition root_account :: account where
  "root_account = \<lparr>ac_username = splice 0 root_user (replicate account_name_size 0),
     ac_username_length = 4, ac_uid = 0, ac_gid = 0, ac_administrator = True,
     ac_salt = replicate 16 0, ac_password_hash = replicate 32 0\<rparr>"

section \<open>Operations\<close>

definition is_ascii_lowercase :: "u8 \<Rightarrow> bool" where
  "is_ascii_lowercase b \<longleftrightarrow> 0x61 \<le> b \<and> b \<le> 0x7a"

definition is_ascii_uppercase :: "u8 \<Rightarrow> bool" where
  "is_ascii_uppercase b \<longleftrightarrow> 0x41 \<le> b \<and> b \<le> 0x5a"

definition is_ascii_digit :: "u8 \<Rightarrow> bool" where
  "is_ascii_digit b \<longleftrightarrow> 0x30 \<le> b \<and> b \<le> 0x39"

definition is_ascii_alphanumeric :: "u8 \<Rightarrow> bool" where
  "is_ascii_alphanumeric b \<longleftrightarrow> is_ascii_lowercase b \<or> is_ascii_uppercase b \<or> is_ascii_digit b"

definition hostname_ok :: "u8 list \<Rightarrow> bool" where
  "hostname_ok h \<longleftrightarrow> h = [] \<or>
     (\<forall>b \<in> set h. is_ascii_alphanumeric b \<or> b = 0x2d \<or> b = 0x2e) \<and> h ! 0 \<noteq> 0x2d \<and> h ! 0 \<noteq> 0x2e"

definition user_ok :: "u8 list \<Rightarrow> u8 list \<Rightarrow> bool" where
  "user_ok username password \<longleftrightarrow> username \<noteq> [] \<and> username \<noteq> root_user \<and>
     (\<forall>b \<in> set username. is_ascii_lowercase b \<or> is_ascii_digit b \<or> b = 0x2d \<or> b = 0x5f) \<and>
     password \<noteq> [] \<and> 0 \<notin> set password"

definition config_username :: "install_config \<Rightarrow> u8 list" where
  "config_username c = take (unat (ic_username_length c)) (ic_username c)"

definition config_password :: "install_config \<Rightarrow> u8 list" where
  "config_password c = take (unat (ic_password_length c)) (ic_password c)"

definition validate_install_config :: "install_config \<Rightarrow> bool" where
  "validate_install_config c =
     (if unat (ic_hostname_length c) > hostname_size \<or> unat (ic_username_length c) > account_name_size \<or>
         unat (ic_password_length c) > account_password_size \<or> ic_add_user c > 1 \<or> ic_administrator c > 1
      then False
      else if \<not> hostname_ok (take (unat (ic_hostname_length c)) (ic_hostname c)) then False
      else if ic_add_user c = 0
      then ic_username_length c = 0 \<and> ic_password_length c = 0 \<and> ic_administrator c = 0
      else user_ok (config_username c) (config_password c))"

text \<open>
  \<open>fill_random\<close>: one draw for every eight bytes. The first argument is bit 30 of \<open>ecx\<close> of
  \<open>cpuid\<close>, a draw of \<open>None\<close> is one that \<open>rdrand\<close> reports as unavailable.
\<close>

fun fill_random :: "bool \<Rightarrow> u64 option list \<Rightarrow> nat \<Rightarrow> u8 list option" where
  "fill_random supported draws remaining =
     (if \<not> supported then None
      else if remaining = 0 then Some []
      else (case draws of
        Some random # rest \<Rightarrow>
          map_option (\<lambda>bs. take (min 8 remaining) (to_le 8 random) @ bs)
            (fill_random supported rest (remaining - 8))
      | _ \<Rightarrow> None))"

declare fill_random.simps [simp del]

text \<open>\<open>None\<close> is the error \<open>Err(())\<close>.\<close>

definition make_database :: "install_config \<Rightarrow> bool \<Rightarrow> u64 option list \<Rightarrow> u8 list option" where
  "make_database c supported draws =
     (if \<not> validate_install_config c \<or> ic_add_user c = 0 then None
      else (case fill_random supported draws 16 of
        None \<Rightarrow> None
      | Some salt \<Rightarrow> (case pbkdf2_sha256 (config_password c) salt pbkdf2_iterations of
          Some (Some hash) \<Rightarrow>
            let b = splice 0 database_magic (replicate database_size 0);
                b = b[8 := ic_username_length c, 9 := ic_administrator c];
                b = splice 12 (to_le 4 (1000 :: u32)) b;
                b = splice 16 (to_le 4 (1000 :: u32)) b;
                b = splice 20 salt b;
                b = splice 36 hash b
            in Some (splice 68 (config_username c) b)
        | _ \<Rightarrow> None)))"

definition decode_account :: "u8 list \<Rightarrow> account option" where
  "decode_account bytes =
     (if length bytes \<noteq> database_size \<or> slice 0 8 bytes \<noteq> database_magic then None
      else
        let username_length = unat (bytes ! 8) in
        if username_length = 0 \<or> username_length > account_name_size \<or> bytes ! 9 > 1 then None
        else
          let uid = from_le (slice 12 16 bytes); gid = from_le (slice 16 20 bytes) in
          if uid < 1000 \<or> gid < 1000 then None
          else
            let username = slice 68 100 bytes in
            if \<exists>b \<in> set (drop username_length username). b \<noteq> 0 then None
            else Some \<lparr>ac_username = username, ac_username_length = username_length, ac_uid = uid,
              ac_gid = gid, ac_administrator = (bytes ! 9 \<noteq> 0), ac_salt = slice 20 36 bytes,
              ac_password_hash = slice 36 68 bytes\<rparr>)"

definition constant_time_eq :: "u8 list \<Rightarrow> u8 list \<Rightarrow> bool" where
  "constant_time_eq left right \<longleftrightarrow> fold (\<lambda>(l, r) difference. difference OR (l XOR r)) (zip left right) 0 = (0 :: u8)"

definition verify_password :: "account \<Rightarrow> u8 list \<Rightarrow> bool" where
  "verify_password a password =
     (if ac_uid a = 0 then password = root_user
      else (case pbkdf2_sha256 password (ac_salt a) pbkdf2_iterations of
          Some (Some candidate) \<Rightarrow> constant_time_eq candidate (ac_password_hash a)
        | _ \<Rightarrow> False))"

definition authenticate :: "u8 list option \<Rightarrow> u8 list \<Rightarrow> u8 list \<Rightarrow> account option" where
  "authenticate users_db username password =
     (if username = root_user then (if password = root_user then Some root_account else None)
      else (case users_db of
        None \<Rightarrow> None
      | Some bytes \<Rightarrow> (case decode_account bytes of
          None \<Rightarrow> None
        | Some a \<Rightarrow>
            if username = take (ac_username_length a) (ac_username a) \<and> verify_password a password
            then Some a else None)))"

definition config_hostname :: "install_config \<Rightarrow> u8 list" where
  "config_hostname c = (let len = unat (ic_hostname_length c) in
     if len = 0 then default_hostname else take len (ic_hostname c))"

section \<open>Properties\<close>

lemma constant_time_eq_fold:
  "fold (\<lambda>(l, r) difference. difference OR (l XOR r)) (zip xs ys) d = (0 :: u8) \<longleftrightarrow>
     d = 0 \<and> (\<forall>(l, r) \<in> set (zip xs ys). l = r)"
proof (induction "zip xs ys" arbitrary: xs ys d)
  case (Cons p ps)
  then obtain x xs' y ys' where [simp]: "xs = x # xs'" "ys = y # ys'" by (cases xs; cases ys) auto
  have "(d OR (x XOR y) = 0) \<longleftrightarrow> d = 0 \<and> x = y"
    by (auto simp: bit_eq_iff bit_or_iff bit_xor_iff)
  then show ?case using Cons by auto
next
  case Nil
  then have "zip xs ys = []" by simp
  then show ?case by (simp only: fold.simps id_apply list.set) simp
qed

lemma constant_time_eq_iff: "length xs = length ys \<Longrightarrow> constant_time_eq xs ys \<longleftrightarrow> xs = ys"
  unfolding constant_time_eq_def constant_time_eq_fold
  by (induction xs ys rule: list_induct2) auto

lemma length_fill_random: "fill_random supported draws n = Some bs \<Longrightarrow> length bs = n"
proof (induction n arbitrary: draws bs rule: less_induct)
  case (less n)
  show ?case
  proof (cases "n = 0")
    case False
    then obtain r rest bs' where d: "draws = Some r # rest"
        "fill_random supported rest (n - 8) = Some bs'" "bs = take (min 8 n) (to_le 8 r) @ bs'"
      using less.prems by (auto simp: fill_random.simps [of supported draws n] split: if_splits list.splits option.splits)
    then have "length bs' = n - 8" using less.IH False by simp
    then show ?thesis using d by simp
  next
    case True
    then show ?thesis
      using less.prems fill_random.simps [of supported draws 0] by (auto split: if_splits)
  qed
qed

text \<open>The fixed sizes of the arrays of a request.\<close>

definition config_shaped :: "install_config \<Rightarrow> bool" where
  "config_shaped c \<longleftrightarrow> length (ic_username c) = account_name_size \<and>
     length (ic_password c) = account_password_size \<and> length (ic_hostname c) = hostname_size"

definition made_account :: "install_config \<Rightarrow> u8 list \<Rightarrow> account" where
  "made_account c salt = \<lparr>ac_username = config_username c @ replicate (32 - length (config_username c)) 0,
     ac_username_length = length (config_username c), ac_uid = 1000, ac_gid = 1000,
     ac_administrator = (ic_administrator c \<noteq> 0), ac_salt = salt,
     ac_password_hash = pbkdf2_spec (config_password c) salt 10000\<rparr>"

lemma length_pbkdf2_spec [simp]: "length (pbkdf2_spec password salt c) = 32"
proof -
  have "length (foldl xor_bytes u bs) = 32" if "length u = 32" "\<forall>b \<in> set bs. length b = 32" for u bs
    using that by (induction bs arbitrary: u) simp_all
  then show ?thesis by (simp add: pbkdf2_spec_def del: pbkdf2_block.simps)
qed

lemma pbkdf2_of_account: "length salt = 16 \<Longrightarrow>
    pbkdf2_sha256 password salt pbkdf2_iterations = Some (Some (pbkdf2_spec password salt 10000))"
  by (simp add: pbkdf2_sha256_eq pbkdf2_iterations_def)

lemma make_database_decodes:
  assumes made: "make_database c supported draws = Some db" and shaped: "config_shaped c"
  shows "\<exists>salt. fill_random supported draws 16 = Some salt \<and> length salt = 16 \<and>
    user_ok (config_username c) (config_password c) \<and>
    decode_account db = Some (made_account c salt)"
proof -
  from made obtain salt where salt: "fill_random supported draws 16 = Some salt"
    and valid: "validate_install_config c" "ic_add_user c \<noteq> 0"
    by (auto simp: make_database_def split: if_splits option.splits)
  then have len: "length salt = 16" by (simp add: length_fill_random)
  let ?name = "config_username c"
  let ?hash = "pbkdf2_spec (config_password c) salt 10000"
  have ok: "user_ok ?name (config_password c)" "unat (ic_username_length c) \<le> 32" "ic_administrator c \<le> 1"
    using valid by (auto simp: validate_install_config_def account_name_size_def split: if_splits)
  then have name: "length ?name = unat (ic_username_length c)" "?name \<noteq> []" "length ?name \<le> 32"
    using shaped by (auto simp: config_username_def config_shaped_def account_name_size_def user_ok_def)
  define b0 where "b0 = (splice 0 database_magic (replicate database_size 0))
    [8 := ic_username_length c, 9 := ic_administrator c]"
  define b where "b = splice 36 ?hash (splice 20 salt
    (splice 16 (to_le 4 (1000 :: u32)) (splice 12 (to_le 4 (1000 :: u32)) b0)))"
  have "replicate 92 0 = (0 :: u8) # 0 # replicate 90 0"
    using replicate_add [of 2 90 "0 :: u8"] by (simp add: numeral_2_eq_2)
  then have b0_eq: "b0 = database_magic @ ic_username_length c # ic_administrator c # replicate 90 0"
    by (simp add: b0_def splice_def database_size_def database_magic_def)
  have b0: "length b0 = 100" "slice 0 8 b0 = database_magic" "b0 ! 8 = ic_username_length c"
    "b0 ! 9 = ic_administrator c" "drop 36 b0 = replicate 64 0"
    unfolding b0_eq by (simp_all add: slice_def database_magic_def)
  have b: "length b = 100" by (simp add: b_def b0 len)
  have db: "db = splice 68 ?name b"
    using made valid salt
    by (simp add: make_database_def pbkdf2_of_account [OF len] Let_def b_def b0_def)
  have "drop 68 b0 = drop 32 (drop 36 b0)" by (simp only: drop_drop) simp
  then have "drop 68 b = replicate 32 0" by (simp add: b_def b0 len)
  then have tail: "drop (68 + n) b = replicate (32 - n) 0" for n
    by (subst add.commute, subst drop_drop [symmetric]) (simp only: drop_replicate)
  have name_bytes: "slice 68 100 db = ?name @ replicate (32 - length ?name) 0"
    using tail [of "length ?name"] name b by (simp add: db slice_def splice_def)
  have parts: "length db = 100" "slice 0 8 db = database_magic" "db ! 8 = ic_username_length c"
    "db ! 9 = ic_administrator c" "slice 12 16 db = to_le 4 (1000 :: u32)"
    "slice 16 20 db = to_le 4 (1000 :: u32)" "slice 20 36 db = salt" "slice 36 68 db = ?hash"
    using name by (simp_all add: db b b_def b0 len)
  have "decode_account db = Some (made_account c salt)"
    unfolding decode_account_def Let_def parts name_bytes
    using name ok(3) length_greater_0_conv [of ?name] by (auto simp: not_less database_size_def account_name_size_def made_account_def)
  then show ?thesis using salt len ok(1) by blast
qed

text \<open>
  C17. A database made from an installation request decodes to the requested account with
  uid and gid 1000; its user logs in with exactly the passwords whose derived key is that of
  the requested one (the requested one among them), and no other name but root logs in.
\<close>

theorem account_roundtrip:
  assumes "make_database c supported draws = Some db" and "config_shaped c"
  shows "\<exists>a. decode_account db = Some a \<and>
    take (ac_username_length a) (ac_username a) = config_username c \<and>
    ac_uid a = 1000 \<and> ac_gid a = 1000 \<and> ac_administrator a = (ic_administrator c \<noteq> 0) \<and>
    authenticate (Some db) (config_username c) (config_password c) = Some a \<and>
    (\<forall>user password. user \<noteq> root_user \<longrightarrow> authenticate (Some db) user password =
      (if user = config_username c \<and>
          pbkdf2_spec password (ac_salt a) 10000 = pbkdf2_spec (config_password c) (ac_salt a) 10000
       then Some a else None))"
proof -
  obtain salt where s: "length salt = 16" "user_ok (config_username c) (config_password c)"
      "decode_account db = Some (made_account c salt)"
    using make_database_decodes [OF assms] by blast
  have auth: "authenticate (Some db) user password =
      (if user = config_username c \<and> pbkdf2_spec password salt 10000 = pbkdf2_spec (config_password c) salt 10000
       then Some (made_account c salt) else None)" if "user \<noteq> root_user" for user password
    using that s by (auto simp: authenticate_def made_account_def verify_password_def
      pbkdf2_of_account constant_time_eq_iff)
  show ?thesis
  proof (intro exI conjI)
    show "authenticate (Some db) (config_username c) (config_password c) = Some (made_account c salt)"
      using s(2) by (subst auth) (auto simp: user_ok_def)
    show "\<forall>user password. user \<noteq> root_user \<longrightarrow> authenticate (Some db) user password =
      (if user = config_username c \<and> pbkdf2_spec password (ac_salt (made_account c salt)) 10000 =
          pbkdf2_spec (config_password c) (ac_salt (made_account c salt)) 10000
       then Some (made_account c salt) else None)"
      using auth by (simp add: made_account_def)
  qed (use s(3) in \<open>simp_all add: made_account_def\<close>)
qed

definition sample_config :: install_config where
  "sample_config = \<lparr>ic_username_length = 3, ic_password_length = 1, ic_hostname_length = 0, ic_add_user = 1,
     ic_administrator = 1, ic_username = [0x61, 0x6e, 0x61] @ replicate 29 0,
     ic_password = [0x78] @ replicate 63 0, ic_hostname = replicate 64 0\<rparr>"

lemma sample_database: "\<exists>db. make_database sample_config True [Some 1, Some 2] = Some db"
proof -
  have "fill_random True [Some 1, Some 2] 16 = Some (to_le 8 (1 :: u64) @ to_le 8 (2 :: u64))"
    by (simp add: fill_random.simps)
  moreover have "validate_install_config sample_config"
    by (simp add: validate_install_config_def sample_config_def hostname_size_def account_name_size_def
      account_password_size_def hostname_ok_def user_ok_def config_username_def config_password_def
      root_user_def is_ascii_lowercase_def)
  moreover have "ic_add_user sample_config \<noteq> 0" by (simp add: sample_config_def)
  ultimately show ?thesis
    by (simp add: make_database_def pbkdf2_of_account Let_def)
qed

theorem account_roundtrip_witness:
  "\<exists>db a. make_database sample_config True [Some 1, Some 2] = Some db \<and> decode_account db = Some a \<and>
     authenticate (Some db) [0x61, 0x6e, 0x61] [0x78] = Some a"
proof -
  obtain db where db: "make_database sample_config True [Some 1, Some 2] = Some db"
    using sample_database by blast
  have "config_shaped sample_config"
    by (simp add: config_shaped_def sample_config_def account_name_size_def account_password_size_def
      hostname_size_def)
  from account_roundtrip [OF db this] db show ?thesis
    by (auto simp: config_username_def config_password_def sample_config_def)
qed

end
