(* ===== verification/Process_Ops.thy ===== *)
theory Process_Ops
  imports Scheduler Accounts Dfs_Format
begin

text \<open>
  Process creation and collection, \<open>kernel/src/exec/process.rs\<close>: \<open>init\<close>, \<open>start\<close>, \<open>spawn\<close>,
  \<open>execve\<close>, \<open>fork\<close>, \<open>waitpid\<close>, the access check and the identity of a process, and the
  \<open>pipe\<close> system call of \<open>kernel/src/abi/syscall.rs\<close> that puts both ends of a new pipe into
  the caller's table. The files a program is read from are given by \<open>fs_view\<close>, the effect of
  the \<open>fninit\<close> instruction on the floating-point image by an argument.
\<close>

section \<open>Permissions\<close>

definition allows :: "u16 \<Rightarrow> u32 \<Rightarrow> u32 \<Rightarrow> u32 \<Rightarrow> u32 \<Rightarrow> u16 \<Rightarrow> bool" where
  "allows file_mode owner_uid owner_gid user grp requested =
     (if user = 0 then True
      else
        let shift = (if user = owner_uid then 6 else if grp = owner_gid then 3 else 0)
        in drop_bit shift file_mode AND requested = requested)"

text \<open>The answers of \<open>ramfs::read\<close> and \<open>ramfs::metadata\<close>.\<close>

record fs_view =
  fv_read :: "str \<Rightarrow> u8 list option"
  fv_metadata :: "str \<Rightarrow> dfs_metadata option"

definition max_mutable_path :: nat where
  "max_mutable_path = 256"

text \<open>
  The walk over the components of the parent directory; \<open>None\<close> is the panic of writing the
  separator past the end of the buffer.
\<close>

fun walk_access :: "fs_view \<Rightarrow> u32 \<Rightarrow> u32 \<Rightarrow> str list \<Rightarrow> str \<Rightarrow> bool option" where
  "walk_access fs user grp [] path = Some True"
| "walk_access fs user grp (component # rest) path =
     (if component = [] then walk_access fs user grp rest path
      else if path \<noteq> [] \<and> max_mutable_path \<le> length path then None
      else
        let path = (if path \<noteq> [] then path @ [slash] else path) in
        if max_mutable_path < length path + length component then Some False
        else
          let path = path @ component; directory = (if utf8_valid path then path else []) in
          (case fv_metadata fs directory of
             None \<Rightarrow> Some False
           | Some md \<Rightarrow>
               if \<not> meta_is_directory md \<or> \<not> allows (meta_mode md) (meta_uid md) (meta_gid md) user grp 1
               then Some False
               else walk_access fs user grp rest path))"

definition has_access :: "fs_view \<Rightarrow> str \<Rightarrow> u16 \<Rightarrow> kernel \<Rightarrow> bool option" where
  "has_access fs path requested k =
     (let (user, grp, admin) = current_credentials k in
      if user = 0 then Some True
      else
        let parent = (case rsplit_once slash path of None \<Rightarrow> [] | Some (parent, name) \<Rightarrow> parent) in
        (case walk_access fs user grp (split_on slash (trim_matches slash parent)) [] of
           Some True \<Rightarrow> (case fv_metadata fs path of
               None \<Rightarrow> Some False
             | Some md \<Rightarrow>
                 Some (allows (meta_mode md) (meta_uid md) (meta_gid md) user grp requested))
         | r \<Rightarrow> r))"

section \<open>A loaded program\<close>

definition user_code_selector :: u64 where
  "user_code_selector = 0x2b"

definition user_data_selector :: u64 where
  "user_data_selector = 0x33"

definition entry_frame :: "program \<Rightarrow> u8 list list \<Rightarrow> u8 list list \<Rightarrow> trap_frame" where
  "entry_frame prog arguments environment =
     \<lparr>tf_r15 = 0, tf_r14 = 0, tf_r13 = 0, tf_r12 = 0, tf_r11 = 0, tf_r10 = 0, tf_r9 = 0, tf_r8 = 0,
      tf_rbp = 0, tf_rdi = word_of_nat (length arguments), tf_rsi = prog_argv prog,
      tf_rdx = word_of_nat (length environment), tf_rcx = prog_envp prog, tf_rbx = 0, tf_rax = 0,
      tf_rip = prog_entry prog, tf_cs = user_code_selector, tf_rflags = 0x202, tf_rsp = prog_stack prog,
      tf_ss = user_data_selector\<rparr>"

definition process_name :: "str \<Rightarrow> u8 list" where
  "process_name name = splice 0 (take 64 name) (replicate 64 0)"

type_synonym cpu = "u8 list \<Rightarrow> u8 list"

definition load_elf_at ::
  "cpu \<Rightarrow> u8 list \<Rightarrow> nat \<Rightarrow> u8 list list \<Rightarrow> u8 list list \<Rightarrow> bool \<Rightarrow> str \<Rightarrow> u64 \<Rightarrow> kernel \<Rightarrow> (load_error + process) \<times> kernel" where
  "load_elf_at fninit img pid arguments environment disk_install name frame k =
     (case load_program img arguments environment (mach k) of
        (Inl e, m) \<Rightarrow> (Inl e, k\<lparr>mach := m\<rparr>)
      | (Inr prog, m) \<Rightarrow>
          let fpu = fninit (live_fpu k);
              k = set_frame frame (entry_frame prog arguments environment) (k\<lparr>mach := m, live_fpu := fpu\<rparr>)
          in (Inr (empty_process\<lparr>pr_pid := pid, pr_active := True, pr_disk_install := disk_install,
                 pr_frame := frame, pr_space := Some (prog_space prog), pr_name := process_name name,
                 pr_fpu := fpu\<rparr>), k))"

definition load_elf ::
  "cpu \<Rightarrow> u8 list \<Rightarrow> nat \<Rightarrow> nat \<Rightarrow> u8 list list \<Rightarrow> u8 list list \<Rightarrow> bool \<Rightarrow> str \<Rightarrow> kernel \<Rightarrow> (load_error + process) \<times> kernel" where
  "load_elf fninit img pid slot arguments environment disk_install name k =
     load_elf_at fninit img pid arguments environment disk_install name (top_of_slot k slot) k"

section \<open>Boot\<close>

definition init_path :: str where
  "init_path = ascii ''/sbin/init''"

fun init_programs :: "cpu \<Rightarrow> (u8 list \<times> nat) list \<Rightarrow> kernel \<Rightarrow> (load_error + unit) \<times> kernel" where
  "init_programs fninit [] k = (Inr (), k)"
| "init_programs fninit ((img, pid) # rest) k =
     (case load_elf fninit img pid (slot_count k) [init_path] [] False init_path k of
        (Inl e, k) \<Rightarrow> (Inl e, k)
      | (Inr p, k) \<Rightarrow>
          init_programs fninit rest
            (k\<lparr>processes := (processes k)[slot_count k := p], slot_count := slot_count k + 1\<rparr>))"

definition init_processes :: "cpu \<Rightarrow> (u8 list \<times> nat) list \<Rightarrow> kernel \<Rightarrow> (load_error + unit) \<times> kernel" where
  "init_processes fninit programs k =
     (let k = k\<lparr>processes := replicate max_processes empty_process, slot_count := 0, current := 0,
                tables := replicate max_processes new_table\<rparr>
      in case init_programs fninit (take max_processes programs) k of
           (Inl e, k) \<Rightarrow> (Inl e, k)
         | (Inr u, k) \<Rightarrow> if slot_count k = 0 then (Inl InvalidMapping, k) else (Inr (), k))"

definition start_processes :: "kernel \<Rightarrow> resume \<times> kernel" where
  "start_processes k =
     (let p = processes k ! 0; k = k\<lparr>current := 0\<rparr> in
      case pr_space p of
        None \<Rightarrow> (Panicked, k)
      | Some space \<Rightarrow>
          (Resume (pr_frame p), k\<lparr>kernel_stack := stack_top k 0, mach := switch_space space (mach k)\<rparr>))"

section \<open>Spawn, execve, fork\<close>

definition fail_call :: "u64 \<Rightarrow> nat \<Rightarrow> kernel \<Rightarrow> resume \<times> kernel" where
  "fail_call frame n k = (Resume frame, set_rax frame (errno n) k)"

definition free_slot :: "kernel \<Rightarrow> nat option" where
  "free_slot k = position (\<lambda>p. \<not> pr_active p) (processes k)"

definition next_pid :: "kernel \<Rightarrow> nat" where
  "next_pid k = fold max (map pr_pid (processes k)) 0 + 1"

record spawn_io =
  si_stdin :: int
  si_stdout :: int
  si_stderr :: int

definition default_io :: spawn_io where
  "default_io = \<lparr>si_stdin = -1, si_stdout = -1, si_stderr = -1\<rparr>"

text \<open>One of the three redirections, on the child's table and the pipes.\<close>

definition apply_redirection ::
  "descriptor_table \<Rightarrow> nat \<times> int \<Rightarrow> descriptor_table \<times> pipe_table \<Rightarrow> descriptor_table \<times> pipe_table" where
  "apply_redirection parent request state =
     (let (target, source) = request; (child, ps) = state in
      if source = -1 then state
      else if source < 0 \<or> max_open_fds \<le> nat source then state
      else
        let d = parent ! nat source in
        if fd_kind d = Closed then state
        else (child[target := d], snd (add_pipe_reference d ps)))"

definition apply_spawn_io ::
  "spawn_io \<Rightarrow> descriptor_table \<Rightarrow> descriptor_table \<times> pipe_table \<Rightarrow> descriptor_table \<times> pipe_table" where
  "apply_spawn_io io parent state =
     fold (apply_redirection parent) [(0, si_stdin io), (1, si_stdout io), (2, si_stderr io)] state"

definition inherit_identity :: "process \<Rightarrow> process \<Rightarrow> process" where
  "inherit_identity parent p = p\<lparr>pr_uid := pr_uid parent, pr_gid := pr_gid parent,
     pr_is_admin := pr_is_admin parent, pr_username := pr_username parent,
     pr_username_length := pr_username_length parent\<rparr>"

definition installer_path :: str where
  "installer_path = ascii ''/bin/distroinstall''"

definition spawn_current_with_io ::
  "cpu \<Rightarrow> fs_view \<Rightarrow> str \<Rightarrow> u8 list list \<Rightarrow> u8 list list \<Rightarrow> spawn_io \<Rightarrow> u64 \<Rightarrow> kernel \<Rightarrow> resume \<times> kernel" where
  "spawn_current_with_io fninit fs path arguments environment io frame k =
     (case has_access fs path 1 k of
        None \<Rightarrow> (Panicked, k)
      | Some False \<Rightarrow> fail_call frame 13 k
      | Some True \<Rightarrow> (case fv_read fs path of
          None \<Rightarrow> fail_call frame 2 k
        | Some img \<Rightarrow> (case free_slot k of
            None \<Rightarrow> fail_call frame 11 k
          | Some slot \<Rightarrow>
              let pid = next_pid k; parent_slot = current k in
              (case load_elf fninit img pid slot arguments environment (path = installer_path) path k of
                 (Inl e, k) \<Rightarrow> fail_call frame 8 k
               | (Inr p, k) \<Rightarrow>
                   let parent_table = tables k ! parent_slot;
                       (child, ps) = apply_spawn_io io parent_table (new_table, pipes k);
                       parent = processes k ! parent_slot;
                       p = inherit_identity parent (p\<lparr>pr_parent := pr_pid parent\<rparr>);
                       k = k\<lparr>tables := (tables k)[slot := child], pipes := ps,
                             processes := (processes k)[slot := p],
                             slot_count := max (slot_count k) (slot + 1)\<rparr>
                   in schedule frame False (set_rax frame (word_of_nat pid) k)))))"

definition spawn_current ::
  "cpu \<Rightarrow> fs_view \<Rightarrow> str \<Rightarrow> u8 list list \<Rightarrow> u8 list list \<Rightarrow> u64 \<Rightarrow> kernel \<Rightarrow> resume \<times> kernel" where
  "spawn_current fninit fs path arguments environment frame k =
     spawn_current_with_io fninit fs path arguments environment default_io frame k"

definition execve_current ::
  "cpu \<Rightarrow> fs_view \<Rightarrow> str \<Rightarrow> u8 list list \<Rightarrow> u8 list list \<Rightarrow> u64 \<Rightarrow> kernel \<Rightarrow> resume \<times> kernel" where
  "execve_current fninit fs path arguments environment frame k =
     (case has_access fs path 1 k of
        None \<Rightarrow> (Panicked, k)
      | Some False \<Rightarrow> fail_call frame 13 k
      | Some True \<Rightarrow> (case fv_read fs path of
          None \<Rightarrow> fail_call frame 2 k
        | Some img \<Rightarrow>
            let slot = current k; p = processes k ! slot in
            (case execve_frame_scratch k slot of
               None \<Rightarrow> fail_call frame 12 k
             | Some scratch \<Rightarrow>
                 (case load_elf_at fninit img (pr_pid p) arguments environment (path = installer_path) path scratch k of
                    (Inl e, k) \<Rightarrow> fail_call frame 8 k
                  | (Inr q, k) \<Rightarrow>
                      let q = inherit_identity p q;
                          q = q\<lparr>pr_parent := pr_parent p, pr_disk_install := pr_disk_install p, pr_actions := pr_actions p,
                                pr_restorer := pr_restorer p\<rparr>
                      in (case pr_space q of
                            None \<Rightarrow> (Panicked, k)
                          | Some space \<Rightarrow>
                              (Resume (pr_frame q),
                               k\<lparr>processes := (processes k)[slot := q],
                                 mach := switch_space space (mach k)\<rparr>))))))"

definition forked_process :: "process \<Rightarrow> nat \<Rightarrow> u64 \<Rightarrow> address_space \<Rightarrow> u8 list \<Rightarrow> process" where
  "forked_process parent pid frame space fpu =
     \<lparr>pr_pid = pid, pr_active = True, pr_stopped = False, pr_parent = pr_pid parent,
      pr_zombie = False, pr_exit_status = 0, pr_waiting_for = 0, pr_quantum = 0,
      pr_disk_install = pr_disk_install parent, pr_uid = pr_uid parent,
      pr_gid = pr_gid parent, pr_is_admin = pr_is_admin parent,
      pr_username = pr_username parent, pr_username_length = pr_username_length parent,
      pr_frame = frame, pr_space = Some space, pr_heap_end = pr_heap_end parent,
      pr_name = pr_name parent, pr_pending = 0, pr_actions = pr_actions parent,
      pr_restorer = pr_restorer parent, pr_signal_frame = None, pr_fpu = fpu\<rparr>"

definition fork_current :: "cpu \<Rightarrow> u64 \<Rightarrow> kernel \<Rightarrow> resume \<times> kernel" where
  "fork_current fninit frame k =
     (if frame = 0 then (Resume frame, k)
      else (case free_slot k of
        None \<Rightarrow> fail_call frame 11 k
      | Some slot \<Rightarrow>
          let pid = next_pid k; parent_slot = current k; parent = processes k ! parent_slot;
              parent_frame = trap_frames k frame
          in (case pr_space parent of
            None \<Rightarrow> fail_call frame 12 k
          | Some space \<Rightarrow> (case clone_user space (mach k) of
              (None, m) \<Rightarrow> fail_call frame 12 (k\<lparr>mach := m\<rparr>)
            | (Some child_space, m) \<Rightarrow>
                let child_frame = top_of_slot k slot;
                    k = set_frame child_frame (parent_frame\<lparr>tf_rax := 0\<rparr>) (k\<lparr>mach := m\<rparr>);
                    parent_table = tables k ! parent_slot;
                    ps = fold (\<lambda>d ps. snd (add_pipe_reference d ps)) parent_table (pipes k);
                    fpu = fninit (live_fpu k);
                    child = forked_process parent pid child_frame child_space fpu
                in (Resume frame, set_rax frame (word_of_nat pid)
                     (k\<lparr>live_fpu := fpu, tables := (tables k)[slot := parent_table], pipes := ps,
                        processes := (processes k)[slot := child],
                        slot_count := max (slot_count k) (slot + 1)\<rparr>))))))"

section \<open>Waiting for a child\<close>

definition wanted_child :: "nat \<Rightarrow> int \<Rightarrow> process \<Rightarrow> bool" where
  "wanted_child parent_pid wanted p \<longleftrightarrow> pr_active p \<and> pr_parent p = parent_pid \<and>
     (0 < wanted \<longrightarrow> pr_pid p = nat wanted)"

definition wait_status :: "32 word \<Rightarrow> u32" where
  "wait_status exit_status = push_bit 8 (exit_status AND 0xff)"

text \<open>The outer \<open>None\<close> is the panic of a caller without an address space.\<close>

definition reap_child :: "nat \<Rightarrow> int \<Rightarrow> u64 \<Rightarrow> kernel \<Rightarrow> (nat option \<times> bool) option \<times> kernel" where
  "reap_child parent_pid wanted status_pointer k =
     (let found_any = (\<exists>p \<in> set (processes k). wanted_child parent_pid wanted p) in
      case find (\<lambda>p. wanted_child parent_pid wanted p \<and> pr_zombie p) (processes k) of
        None \<Rightarrow> (Some (None, found_any), k)
      | Some child \<Rightarrow>
          let collect = (\<lambda>k. case position (\<lambda>p. pr_active p \<and> pr_pid p = pr_pid child) (processes k) of
                Some slot \<Rightarrow> k\<lparr>processes := (processes k)[slot := empty_process]\<rparr> | None \<Rightarrow> k)
          in if status_pointer = 0 then (Some (Some (pr_pid child), found_any), collect k)
             else (case copy_to_current_user status_pointer (to_le 4 (wait_status (pr_exit_status child))) k of
                 (None, k) \<Rightarrow> (None, k)
               | (Some False, k) \<Rightarrow> (Some (None, found_any), k)
               | (Some True, k) \<Rightarrow> (Some (Some (pr_pid child), found_any), collect k)))"

definition waitpid_current :: "u64 \<Rightarrow> int \<Rightarrow> u64 \<Rightarrow> int \<Rightarrow> kernel \<Rightarrow> resume \<times> kernel" where
  "waitpid_current frame pid status_pointer options k =
     (let parent_slot = current k; parent_pid = pr_pid (processes k ! parent_slot) in
      case reap_child parent_pid pid status_pointer k of
        (None, k) \<Rightarrow> (Panicked, k)
      | (Some (Some child_pid, found_any), k) \<Rightarrow> (Resume frame, set_rax frame (word_of_nat child_pid) k)
      | (Some (None, found_any), k) \<Rightarrow>
          if \<not> found_any then fail_call frame 10 k
          else if options AND 1 \<noteq> 0 then (Resume frame, set_rax frame 0 k)
          else
            let k = update_process parent_slot (\<lambda>p. p\<lparr>pr_waiting_for :=
                      if 0 < pid then nat pid else usize_max\<rparr>) k;
                ((next', switched), k) = schedule_ex frame False (set_rax frame (errno 11) k)
            in (next', k))"

section \<open>Identity\<close>

definition become :: "u32 \<Rightarrow> u32 \<Rightarrow> bool \<Rightarrow> u8 list \<Rightarrow> nat \<Rightarrow> kernel \<Rightarrow> kernel" where
  "become user grp admin name name_length k =
     update_process (current k) (\<lambda>p. p\<lparr>pr_uid := user, pr_gid := grp, pr_is_admin := admin,
       pr_username := name, pr_username_length := name_length\<rparr>) k"

definition authenticate_current ::
  "u8 list option \<Rightarrow> u8 list \<Rightarrow> u8 list \<Rightarrow> u32 \<Rightarrow> kernel \<Rightarrow> int \<times> kernel" where
  "authenticate_current users_db username password target_uid k =
     (let p = current_process k;
          is_self = (username = take (pr_username_length p) (pr_username p))
      in if target_uid = 0 \<and> is_self \<and> pr_uid p \<noteq> 0 then
           (if \<not> pr_is_admin p \<or> authenticate users_db username password = None then (-1, k)
            else (0, become 0 0 True (splice 0 root_user (replicate account_name_size 0)) 4 k))
         else (case authenticate users_db username password of
             None \<Rightarrow> (-1, k)
           | Some a \<Rightarrow>
               if target_uid \<noteq> -1 \<and> ac_uid a \<noteq> target_uid then (-1, k)
               else (0, become (ac_uid a) (ac_gid a) (ac_administrator a) (ac_username a)
                       (ac_username_length a) k)))"

record identity =
  id_uid :: u32
  id_gid :: u32
  id_is_admin :: u32
  id_username :: "u8 list"
  id_username_length :: u32
  id_hostname :: "u8 list"
  id_hostname_length :: u32

definition strip_newline :: "u8 list \<Rightarrow> u8 list" where
  "strip_newline bs = (if bs \<noteq> [] \<and> last bs = 10 then butlast bs else bs)"

definition current_identity :: "fs_view \<Rightarrow> kernel \<Rightarrow> identity" where
  "current_identity fs k =
     (let p = current_process k;
          host = (case fv_read fs (ascii ''/etc/hostname'') of
              Some bs \<Rightarrow> take hostname_size (strip_newline bs)
            | None \<Rightarrow> default_hostname)
      in \<lparr>id_uid = pr_uid p, id_gid = pr_gid p, id_is_admin = (if pr_is_admin p then 1 else 0),
          id_username = pr_username p, id_username_length = word_of_nat (pr_username_length p),
          id_hostname = splice 0 host (replicate hostname_size 0),
          id_hostname_length = word_of_nat (length host)\<rparr>)"

section \<open>The pipe system call\<close>

definition rollback_end :: "nat option \<Rightarrow> kernel \<Rightarrow> kernel" where
  "rollback_end fd k = (case fd of None \<Rightarrow> k | Some fd \<Rightarrow> snd (close_descriptor fd k))"

definition sys_pipe :: "u64 \<Rightarrow> kernel \<Rightarrow> resume \<times> kernel" where
  "sys_pipe frame k = (case create_pipe (pipes k) of
     (Inl e, ps) \<Rightarrow> (Resume frame, set_rax frame (word_of_int (pipe_errno e)) (k\<lparr>pipes := ps\<rparr>))
   | (Inr i, ps) \<Rightarrow>
       let (read_end, k) = allocate_descriptor (pipe_descriptor PipeRead i) (k\<lparr>pipes := ps\<rparr>);
           (write_end, k) = allocate_descriptor (pipe_descriptor PipeWrite i) k
       in (case (read_end, write_end) of
            (Some r, Some w) \<Rightarrow>
              (case copy_to_current_user (tf_rdi (trap_frames k frame))
                  (to_le 4 (word_of_nat r :: u32) @ to_le 4 (word_of_nat w :: u32)) k of
                 (None, k) \<Rightarrow> (Panicked, k)
               | (Some False, k) \<Rightarrow>
                   fail_call frame 14 (snd (close_descriptor w (snd (close_descriptor r k))))
               | (Some True, k) \<Rightarrow> (Resume frame, set_rax frame 0 k))
          | _ \<Rightarrow>
              let k = rollback_end write_end (rollback_end read_end k)
              in fail_call frame 24 (k\<lparr>pipes := close_writer i (close_reader i (pipes k))\<rparr>)))"

end
