(* ===== verification/Pipe_References.thy ===== *)
theory Pipe_References
  imports Process_Ops
begin

text \<open>
  Pipe ends and the descriptors that name them. The kernel counts the readers and writers of a
  pipe by hand in every operation that creates, copies, replaces or drops a descriptor; the
  theory proves that the counts are always the numbers of descriptors in the tables of all
  processes. The locale \<open>counted_references\<close> is the contract between a counted resource and
  the tables that refer to it.
\<close>

declare split_paired_All [simp del]

section \<open>Counted references\<close>

locale counted_references =
  fixes valid :: "'s \<Rightarrow> bool"
    and count_of :: "'s \<Rightarrow> 'e \<Rightarrow> nat"
    and refers :: "'d \<Rightarrow> 'e option"
    and acquire :: "'d \<Rightarrow> 's \<Rightarrow> 's"
    and release :: "'d \<Rightarrow> 's \<Rightarrow> 's"
    and limit :: nat
  assumes acquire_law: "valid s \<Longrightarrow>
      (\<And>e. refers d = Some e \<Longrightarrow> 0 < count_of s e \<and> count_of s e < limit) \<Longrightarrow>
      valid (acquire d s) \<and> (\<forall>e. count_of (acquire d s) e = count_of s e + of_bool (refers d = Some e))"
    and release_law: "valid s \<Longrightarrow> (\<And>e. refers d = Some e \<Longrightarrow> 0 < count_of s e) \<Longrightarrow>
      valid (release d s) \<and> (\<forall>e. count_of (release d s) e = count_of s e - of_bool (refers d = Some e))"
begin

lemma release_all:
  "valid s \<Longrightarrow> (\<And>e. (\<Sum>d\<leftarrow>t. of_bool (refers d = Some e)) \<le> count_of s e) \<Longrightarrow>
   valid (fold release t s) \<and>
   (\<forall>e. count_of (fold release t s) e = count_of s e - (\<Sum>d\<leftarrow>t. of_bool (refers d = Some e)))"
proof (induction t arbitrary: s)
  case (Cons d t)
  have le: "of_bool (refers d = Some e) + (\<Sum>d\<leftarrow>t. of_bool (refers d = Some e)) \<le> count_of s e" for e
    using Cons.prems(2) [of e] by simp
  have "0 < count_of s e" if "refers d = Some e" for e
    using le [of e] that by simp
  then have r: "valid (release d s)" "\<And>e. count_of (release d s) e = count_of s e - of_bool (refers d = Some e)"
    using release_law [OF Cons.prems(1), of d] by auto
  have "(\<Sum>d\<leftarrow>t. of_bool (refers d = Some e)) \<le> count_of (release d s) e" for e
    using le [of e] by (simp add: r(2))
  from Cons.IH [OF r(1) this] show ?case by (simp add: r(2))
qed simp

lemma acquire_all:
  "valid s \<Longrightarrow> (\<And>e. 0 < (\<Sum>d\<leftarrow>t. of_bool (refers d = Some e) :: nat) \<Longrightarrow>
      0 < count_of s e \<and> count_of s e + length t \<le> limit) \<Longrightarrow>
   valid (fold acquire t s) \<and>
   (\<forall>e. count_of (fold acquire t s) e = count_of s e + (\<Sum>d\<leftarrow>t. of_bool (refers d = Some e)))"
proof (induction t arbitrary: s)
  case (Cons d t)
  have "0 < count_of s e \<and> count_of s e < limit" if "refers d = Some e" for e
    using Cons.prems(2) [of e] that by simp
  then have r: "valid (acquire d s)" "\<And>e. count_of (acquire d s) e = count_of s e + of_bool (refers d = Some e)"
    using acquire_law [OF Cons.prems(1), of d] by auto
  have "0 < count_of (acquire d s) e \<and> count_of (acquire d s) e + length t \<le> limit"
    if "0 < (\<Sum>d\<leftarrow>t. of_bool (refers d = Some e) :: nat)" for e
    using Cons.prems(2) [of e] that by (auto simp: r(2))
  from Cons.IH [OF r(1) this] show ?case by (simp add: r(2))
qed simp

end

section \<open>Pipe ends\<close>

text \<open>The read end of pipe \<open>i\<close> is \<open>(True, i)\<close>, the write end \<open>(False, i)\<close>.\<close>

definition referenced_end :: "descriptor \<Rightarrow> (bool \<times> nat) option" where
  "referenced_end d = (case fd_kind d of
     PipeRead \<Rightarrow> Some (True, fd_pipe d)
   | PipeWrite \<Rightarrow> Some (False, fd_pipe d)
   | _ \<Rightarrow> None)"

definition end_count :: "pipe_table \<Rightarrow> bool \<times> nat \<Rightarrow> nat" where
  "end_count ps e = (if snd e < length ps then if fst e then readers (ps ! snd e) else writers (ps ! snd e) else 0)"

lemma closed_pipe_counts: "pipes_ok ps \<Longrightarrow> i < length ps \<Longrightarrow> pipe_open (ps ! i) \<longleftrightarrow> 0 < readers (ps ! i) + writers (ps ! i)"
  by (auto dest: pipes_ok_nth simp: pipe_ok_def)

lemma end_count_pos: "pipes_ok ps \<Longrightarrow> 0 < end_count ps e \<Longrightarrow> snd e < length ps \<and> pipe_open (ps ! snd e)"
  by (auto simp: end_count_def closed_pipe_counts split: if_splits)

lemma count_add_reader:
  "pipes_ok ps \<Longrightarrow> 0 < end_count ps (True, i) \<Longrightarrow> end_count ps (True, i) < usize_max \<Longrightarrow>
   fst (add_reader i ps) = Inr () \<and>
   end_count (snd (add_reader i ps)) e = end_count ps e + of_bool (e = (True, i))"
  using end_count_pos [of ps "(True, i)"]
  by (cases e) (auto simp: add_reader_def get_pipe_def end_count_def saturating_add_exact nth_list_update split: if_splits)

lemma count_add_writer:
  "pipes_ok ps \<Longrightarrow> 0 < end_count ps (False, i) \<Longrightarrow> end_count ps (False, i) < usize_max \<Longrightarrow>
   fst (add_writer i ps) = Inr () \<and>
   end_count (snd (add_writer i ps)) e = end_count ps e + of_bool (e = (False, i))"
  using end_count_pos [of ps "(False, i)"]
  by (cases e) (auto simp: add_writer_def get_pipe_def end_count_def saturating_add_exact nth_list_update split: if_splits)

lemma count_close_reader:
  "pipes_ok ps \<Longrightarrow> end_count (close_reader i ps) e = end_count ps e - of_bool (e = (True, i))"
  by (cases e) (auto simp: close_reader_def get_pipe_def end_count_def saturating_sub_def Let_def
    nth_list_update closed_pipe_counts split: if_splits)

lemma count_close_writer:
  "pipes_ok ps \<Longrightarrow> end_count (close_writer i ps) e = end_count ps e - of_bool (e = (False, i))"
  by (cases e) (auto simp: close_writer_def get_pipe_def end_count_def saturating_sub_def Let_def
    nth_list_update closed_pipe_counts split: if_splits)

lemma count_create:
  assumes "pipes_ok ps" "create_pipe ps = (Inr i, ps')"
  shows "pipes_ok ps'" "end_count ps' e = end_count ps e + of_bool (snd e = i)" "snd e = i \<Longrightarrow> end_count ps e = 0"
proof -
  from assms(2) have i: "i < length ps" "\<not> pipe_open (ps ! i)"
    and ps': "ps' = ps[i := empty_pipe\<lparr>pipe_open := True, readers := 1, writers := 1\<rparr>]"
    by (auto simp: create_pipe_def position_Some_iff split: option.splits)
  then have zero: "readers (ps ! i) = 0" "writers (ps ! i) = 0"
    using closed_pipe_counts [OF assms(1), of i] by auto
  show "pipes_ok ps'" using pipes_ok_create [OF assms(1)] assms(2) by simp
  show "end_count ps' e = end_count ps e + of_bool (snd e = i)"
    using i zero by (auto simp: end_count_def ps' nth_list_update)
  show "snd e = i \<Longrightarrow> end_count ps e = 0" using zero by (auto simp: end_count_def)
qed

interpretation ends: counted_references pipes_ok end_count referenced_end
  "\<lambda>d ps. snd (add_pipe_reference d ps)" release_pipe_reference usize_max
proof
  fix s d
  assume ok: "pipes_ok s" and "\<And>e. referenced_end d = Some e \<Longrightarrow> 0 < end_count s e \<and> end_count s e < usize_max"
  then show "pipes_ok (snd (add_pipe_reference d s)) \<and>
    (\<forall>e. end_count (snd (add_pipe_reference d s)) e = end_count s e + of_bool (referenced_end d = Some e))"
    by (cases "fd_kind d")
      (auto simp: add_pipe_reference_def referenced_end_def pipes_ok_add_reader pipes_ok_add_writer
        count_add_reader count_add_writer)
next
  fix s d
  assume ok: "pipes_ok s" and "\<And>e. referenced_end d = Some e \<Longrightarrow> 0 < end_count s e"
  then show "pipes_ok (release_pipe_reference d s) \<and>
    (\<forall>e. end_count (release_pipe_reference d s) e = end_count s e - of_bool (referenced_end d = Some e))"
    by (cases "fd_kind d")
      (auto simp: release_pipe_reference_def referenced_end_def pipes_ok_close_reader pipes_ok_close_writer
        count_close_reader count_close_writer)
qed

section \<open>The invariant\<close>

definition held :: "descriptor_table \<Rightarrow> bool \<times> nat \<Rightarrow> nat" where
  "held t e = (\<Sum>d\<leftarrow>t. of_bool (referenced_end d = Some e))"

definition all_held :: "descriptor_table list \<Rightarrow> bool \<times> nat \<Rightarrow> nat" where
  "all_held ts e = (\<Sum>t\<leftarrow>ts. held t e)"

definition idle :: "process \<Rightarrow> bool" where
  "idle p \<longleftrightarrow> \<not> pr_active p \<or> pr_zombie p"

definition shaped :: "kernel \<Rightarrow> bool" where
  "shaped k \<longleftrightarrow> length (processes k) = max_processes \<and> length (tables k) = max_processes \<and>
     (\<forall>t \<in> set (tables k). length t = max_open_fds) \<and> current k < max_processes"

definition references_ok :: "kernel \<Rightarrow> bool" where
  "references_ok k \<longleftrightarrow> shaped k \<and> pipes_ok (pipes k) \<and>
     end_count (pipes k) = all_held (tables k) \<and>
     (\<forall>slot < max_processes. idle (processes k ! slot) \<longrightarrow> held (tables k ! slot) = (\<lambda>e. 0))"

lemma held_Nil [simp]: "held [] e = 0"
  by (simp add: held_def)

lemma held_Cons [simp]: "held (d # t) e = of_bool (referenced_end d = Some e) + held t e"
  by (simp add: held_def)

lemma held_le_length: "held t e \<le> length t"
  by (induction t) (auto simp: le_Suc_eq)

lemma held_update:
  "i < length t \<Longrightarrow> held (t[i := d]) e =
     held t e + of_bool (referenced_end d = Some e) - of_bool (referenced_end (t ! i) = Some e)"
  by (simp add: held_def map_update sum_list_update)

lemma held_nth_le: "i < length t \<Longrightarrow> of_bool (referenced_end (t ! i) = Some e) \<le> held t e"
  unfolding held_def by (rule member_le_sum_list) auto

lemma all_held_update:
  "i < length ts \<Longrightarrow> all_held (ts[i := t]) e = all_held ts e + held t e - held (ts ! i) e"
  by (simp add: all_held_def map_update sum_list_update)

lemma held_le_all: "i < length ts \<Longrightarrow> held (ts ! i) e \<le> all_held ts e"
  unfolding all_held_def by (rule member_le_sum_list) auto

lemma all_held_bound:
  assumes "shaped k" shows "all_held (tables k) e \<le> 384"
proof -
  have "all_held ts e \<le> length ts * 24" if "\<forall>t \<in> set ts. length t = max_open_fds" for ts
    using that
  proof (induction ts)
    case (Cons t ts)
    then have "held t e \<le> 24" using held_le_length [of t e] by (simp add: max_open_fds_def)
    then show ?case using Cons by (simp add: all_held_def)
  qed (simp add: all_held_def)
  from this [of "tables k"] show ?thesis using assms by (simp add: shaped_def max_processes_def)
qed

lemma references_room: "references_ok k \<Longrightarrow> end_count (pipes k) e + 384 \<le> usize_max"
proof -
  assume ok: "references_ok k"
  then have "end_count (pipes k) e \<le> 384"
    using all_held_bound [of k e] unfolding references_ok_def by metis
  then show ?thesis using usize_max_ge by linarith
qed

lemma shapedD:
  "shaped k \<Longrightarrow> current k < length (tables k) \<and> current k < length (processes k) \<and>
     length (tables k) = max_processes \<and> length (processes k) = max_processes"
  "shaped k \<Longrightarrow> i < max_processes \<Longrightarrow> length (tables k ! i) = max_open_fds"
  by (auto simp: shaped_def)

lemma current_table_length [simp]: "shaped k \<Longrightarrow> length (current_table k) = max_open_fds"
  by (auto simp: shaped_def current_table_def)

text \<open>
  Operations that leave the tables, the pipes and the standing of the processes alone keep
  the invariant; \<open>same_references\<close> collects what is compared.
\<close>

definition standing :: "process \<Rightarrow> bool \<times> bool \<times> nat" where
  "standing p = (pr_active p, pr_zombie p, pr_pid p)"

definition same_references :: "kernel \<Rightarrow> kernel \<Rightarrow> bool" where
  "same_references k k' \<longleftrightarrow> tables k' = tables k \<and> pipes k' = pipes k \<and>
     map standing (processes k') = map standing (processes k) \<and> current k' = current k"

definition unique_pids :: "process list \<Rightarrow> bool" where
  "unique_pids ps \<longleftrightarrow> (\<forall>i < length ps. \<forall>j < length ps.
     pr_active (ps ! i) \<longrightarrow> pr_active (ps ! j) \<longrightarrow> pr_pid (ps ! i) = pr_pid (ps ! j) \<longrightarrow> i = j)"

lemma same_references_refl [simp]: "same_references k k"
  by (simp add: same_references_def)

lemma same_references_trans: "same_references a b \<Longrightarrow> same_references b c \<Longrightarrow> same_references a c"
  by (simp add: same_references_def)

lemma standing_nth:
  assumes "map standing ps' = map standing ps" "i < length ps"
  shows "length ps' = length ps" "pr_active (ps' ! i) = pr_active (ps ! i)"
    "idle (ps' ! i) = idle (ps ! i)" "pr_pid (ps' ! i) = pr_pid (ps ! i)"
proof -
  show len: "length ps' = length ps" using assms(1) by (metis length_map)
  have "standing (ps' ! i) = standing (ps ! i)"
    using assms len by (metis nth_map)
  then show "pr_active (ps' ! i) = pr_active (ps ! i)" "idle (ps' ! i) = idle (ps ! i)"
    "pr_pid (ps' ! i) = pr_pid (ps ! i)" by (simp_all add: standing_def idle_def)
qed

lemma same_references_ok:
  assumes "same_references k k'" "references_ok k" shows "references_ok k'"
proof -
  have st: "map standing (processes k') = map standing (processes k)"
    using assms(1) by (simp add: same_references_def)
  then have "length (processes k') = length (processes k)" by (metis length_map)
  then show ?thesis
    using assms standing_nth(3) [OF st] by (simp add: references_ok_def shaped_def same_references_def)
qed

lemma same_references_pids:
  assumes "same_references k k'" "unique_pids (processes k)" shows "unique_pids (processes k')"
proof -
  have st: "map standing (processes k') = map standing (processes k)"
    using assms(1) by (simp add: same_references_def)
  then have "length (processes k') = length (processes k)" by (metis length_map)
  then show ?thesis
    using assms(2) standing_nth(2,4) [OF st] by (simp add: unique_pids_def)
qed

lemma same_references_update:
  "(\<And>p. standing (f p) = standing p) \<Longrightarrow> same_references k (update_process slot f k)"
  by (simp add: same_references_def update_process_def map_update) (metis list_update_id list_update_beyond map_update not_le nth_map)

definition running :: "kernel \<Rightarrow> bool" where
  "running k \<longleftrightarrow> \<not> idle (current_process k)"

lemma same_references_running:
  assumes "same_references k k'" "shaped k" shows "running k' \<longleftrightarrow> running k"
  using assms shapedD(1) [OF assms(2)] standing_nth(3) [of "processes k'" "processes k" "current k"]
  by (auto simp: same_references_def running_def current_process_def)

lemma same_references_frame [simp]:
  "same_references k (set_frame a tf k)" "same_references k (set_rax a v k)"
  "same_references k (k\<lparr>mach := m\<rparr>)" "same_references k (k\<lparr>live_fpu := l\<rparr>)"
  by (simp_all add: same_references_def set_frame_def set_rax_def)

text \<open>
  While a system call builds a pipe, its ends are counted before they are in the table:
  \<open>balanced x\<close> is the invariant with \<open>x\<close> references outside the tables.
\<close>

definition balanced :: "(bool \<times> nat \<Rightarrow> nat) \<Rightarrow> kernel \<Rightarrow> bool" where
  "balanced x k \<longleftrightarrow> shaped k \<and> pipes_ok (pipes k) \<and>
     (\<forall>e. end_count (pipes k) e = all_held (tables k) e + x e) \<and>
     (\<forall>slot < max_processes. idle (processes k ! slot) \<longrightarrow> held (tables k ! slot) = (\<lambda>e. 0))"

lemma references_balanced: "references_ok k \<longleftrightarrow> balanced (\<lambda>e. 0) k"
  by (auto simp: references_ok_def balanced_def)

text \<open>Replacing one descriptor of the current process, with the pipes changed to match.\<close>

lemma balanced_replace:
  assumes ok: "balanced x k" and run: "running k" and fd: "fd < max_open_fds" and valid: "pipes_ok ps"
    and counts: "\<And>e. end_count ps e + of_bool (referenced_end (current_table k ! fd) = Some e) + x e =
      end_count (pipes k) e + of_bool (referenced_end d = Some e) + x' e"
  shows "balanced x' (set_current_table ((current_table k)[fd := d]) (k\<lparr>pipes := ps\<rparr>))"
proof -
  let ?t = "(current_table k)[fd := d]"
  have sh: "shaped k" using ok by (simp add: balanced_def)
  have cur: "current k < length (tables k)" and len: "fd < length (current_table k)"
    using sh fd shapedD(1) [OF sh] by simp_all
  have sh': "shaped (set_current_table ?t (k\<lparr>pipes := ps\<rparr>))"
    using sh by (auto simp: shaped_def set_current_table_def current_table_def
      dest!: set_update_subset_insert [THEN subsetD])
  have "end_count ps e = all_held ((tables k)[current k := ?t]) e + x' e" for e
  proof -
    have "end_count (pipes k) e = all_held (tables k) e + x e" using ok by (simp add: balanced_def)
    then show ?thesis
      using counts [of e] held_nth_le [OF len, of e] held_le_all [OF cur, of e, folded current_table_def]
      unfolding all_held_update [OF cur, folded current_table_def] held_update [OF len] by linarith
  qed
  moreover have "held ((tables k)[current k := ?t] ! slot) = (\<lambda>e. 0)"
    if "slot < max_processes" "idle (processes k ! slot)" for slot
  proof -
    have "slot \<noteq> current k" using run that(2) by (auto simp: running_def current_process_def)
    then show ?thesis using ok that by (simp add: balanced_def)
  qed
  ultimately show ?thesis
    using valid sh' by (simp add: balanced_def set_current_table_def)
qed

lemma references_replace:
  assumes "references_ok k" "running k" "fd < max_open_fds" "pipes_ok ps"
    and "\<And>e. end_count ps e + of_bool (referenced_end (current_table k ! fd) = Some e) =
      end_count (pipes k) e + of_bool (referenced_end d = Some e)"
  shows "references_ok (set_current_table ((current_table k)[fd := d]) (k\<lparr>pipes := ps\<rparr>))"
  using balanced_replace [of "\<lambda>e. 0" k fd ps d "\<lambda>e. 0"] assms by (simp add: references_balanced)

section \<open>Descriptor operations\<close>

lemma referenced_end_simps [simp]:
  "fd_kind d \<noteq> PipeRead \<Longrightarrow> fd_kind d \<noteq> PipeWrite \<Longrightarrow> referenced_end d = None"
  by (cases "fd_kind d") (simp_all add: referenced_end_def)

lemma closed_descriptor_kind [simp]: "fd_kind closed_descriptor = Closed"
  by (simp add: closed_descriptor_def new_descriptor_def)

lemma running_set_table [simp]:
  "running (set_current_table t k) = running k" "running (k\<lparr>pipes := ps\<rparr>) = running k"
  "running (k\<lparr>mach := m\<rparr>) = running k" "running (set_rax a v k) = running k"
  by (simp_all add: running_def current_process_def set_current_table_def set_rax_def set_frame_def)

lemma current_table_pipes [simp]: "current_table (k\<lparr>pipes := ps\<rparr>) = current_table k"
  by (simp add: current_table_def)

lemma held_end_pos:
  assumes "balanced x k" "fd < max_open_fds" "referenced_end (current_table k ! fd) = Some e"
  shows "0 < end_count (pipes k) e"
proof -
  have sh: "shaped k" and eq: "end_count (pipes k) e = all_held (tables k) e + x e"
    using assms(1) by (simp_all add: balanced_def)
  have "fd < length (current_table k)" "current k < length (tables k)"
    using sh assms(2) shapedD(1) [OF sh] by simp_all
  then have "1 \<le> all_held (tables k) e"
    using held_nth_le [of fd "current_table k" e] held_le_all [of "current k" "tables k" e] assms(3)
    by (simp add: current_table_def)
  then show ?thesis by (simp add: eq)
qed

lemma held_end_live:
  assumes "references_ok k" "fd < max_open_fds" "referenced_end (current_table k ! fd) = Some e"
  shows "0 < end_count (pipes k) e" "end_count (pipes k) e < usize_max"
  using references_room [OF assms(1), of e] held_end_pos [of "\<lambda>e. 0" k fd e] assms
  by (auto simp: references_balanced)

lemma release_held:
  assumes "balanced x k" "fd < max_open_fds"
  shows "pipes_ok (release_pipe_reference (current_table k ! fd) (pipes k))"
    "end_count (release_pipe_reference (current_table k ! fd) (pipes k)) e +
      of_bool (referenced_end (current_table k ! fd) = Some e) = end_count (pipes k) e"
  using ends.release_law [of "pipes k" "current_table k ! fd"] held_end_pos [OF assms] assms(1)
  by (auto simp: balanced_def)

lemma acquire_held:
  assumes "references_ok k" "fd < max_open_fds"
  shows "pipes_ok (snd (add_pipe_reference (current_table k ! fd) (pipes k)))"
    "end_count (snd (add_pipe_reference (current_table k ! fd) (pipes k))) e =
     end_count (pipes k) e + of_bool (referenced_end (current_table k ! fd) = Some e)"
    "fst (add_pipe_reference (current_table k ! fd) (pipes k)) = Inr ()"
proof -
  have ok: "pipes_ok (pipes k)" using assms(1) by (simp add: references_ok_def)
  note live = held_end_live [OF assms]
  show "pipes_ok (snd (add_pipe_reference (current_table k ! fd) (pipes k)))"
    "end_count (snd (add_pipe_reference (current_table k ! fd) (pipes k))) e =
     end_count (pipes k) e + of_bool (referenced_end (current_table k ! fd) = Some e)"
    using ends.acquire_law [OF ok, of "current_table k ! fd"] live by auto
  show "fst (add_pipe_reference (current_table k ! fd) (pipes k)) = Inr ()"
    using live count_add_reader [OF ok] count_add_writer [OF ok]
    by (cases "fd_kind (current_table k ! fd)") (auto simp: add_pipe_reference_def referenced_end_def)
qed

lemma unused_descriptor:
  assumes "shaped k" "\<not> (fd < max_open_fds \<and> fd_kind (current_table k ! fd) \<noteq> Closed)"
  shows "snd (close_descriptor fd k) = k" "snd (update_descriptor fd d k) = k"
    "snd (duplicate_descriptor fd k) = k"
  using assms current_table_length [OF assms(1)]
  by (auto simp: close_descriptor_def update_descriptor_def duplicate_descriptor_def not_less Let_def)

lemma balanced_close:
  assumes ok: "balanced x k" and run: "running k"
  shows "balanced x (snd (close_descriptor fd k))"
proof (cases "fd < max_open_fds \<and> fd_kind (current_table k ! fd) \<noteq> Closed")
  case True
  then have fd: "fd < max_open_fds" by simp
  have "balanced x (set_current_table ((current_table k)[fd := closed_descriptor])
      (k\<lparr>pipes := release_pipe_reference (current_table k ! fd) (pipes k)\<rparr>))"
    by (rule balanced_replace [OF ok run fd release_held(1) [OF ok fd]])
      (simp add: release_held(2) [OF ok fd])
  moreover have "shaped k" using ok by (simp add: balanced_def)
  ultimately show ?thesis using True by (simp add: close_descriptor_def Let_def)
next
  case False
  then show ?thesis
    using ok unused_descriptor(1) [of k fd] by (simp add: balanced_def)
qed

lemma references_close:
  "references_ok k \<Longrightarrow> running k \<Longrightarrow> references_ok (snd (close_descriptor fd k))"
  by (simp add: references_balanced balanced_close)

lemma running_close [simp]: "running (snd (close_descriptor fd k)) = running k"
  by (simp add: close_descriptor_def Let_def)

lemma find_SomeD: "find P xs = Some x \<Longrightarrow> x \<in> set xs \<and> P x"
  by (induction xs) (auto split: if_splits)

lemma allocate_in_cases:
  assumes "allocate_in d t = (r, t')"
  obtains (full) "r = None" "t' = t"
  | (slot) i where "r = Some i" "i < length t" "fd_kind (t ! i) = Closed" "t' = t[i := d]"
proof (cases "find (\<lambda>i. fd_kind (t ! i) = Closed) [3..<length t]")
  case None
  then show thesis using assms by (intro full) (simp_all add: allocate_in_def)
next
  case (Some i)
  from find_SomeD [OF this] Some assms show thesis
    by (intro slot [of i]) (simp_all add: allocate_in_def)
qed

lemma set_current_table_id [simp]: "set_current_table (current_table k) k = k"
  by (simp add: set_current_table_def current_table_def)

lemma references_allocate:
  assumes ok: "references_ok k" and run: "running k" and d: "referenced_end d = None"
  shows "references_ok (snd (allocate_descriptor d k))"
proof -
  obtain r t' where a: "allocate_in d (current_table k) = (r, t')" by fastforce
  have sh: "shaped k" using ok by (simp add: references_ok_def)
  from a show ?thesis
  proof (cases rule: allocate_in_cases)
    case (slot i)
    have "references_ok (set_current_table ((current_table k)[i := d]) (k\<lparr>pipes := pipes k\<rparr>))"
      by (rule references_replace [OF ok run]) (use ok slot sh d in \<open>auto simp: references_ok_def\<close>)
    then show ?thesis using a slot by (simp add: allocate_descriptor_def)
  qed (use a ok in \<open>simp add: allocate_descriptor_def\<close>)
qed

lemma references_update:
  assumes ok: "references_ok k" and run: "running k"
    and same: "referenced_end d = referenced_end (current_table k ! fd)"
  shows "references_ok (snd (update_descriptor fd d k))"
proof (cases "fd < max_open_fds \<and> fd_kind (current_table k ! fd) \<noteq> Closed")
  case True
  have "references_ok (set_current_table ((current_table k)[fd := d]) (k\<lparr>pipes := pipes k\<rparr>))"
    by (rule references_replace [OF ok run]) (use ok True same in \<open>auto simp: references_ok_def\<close>)
  moreover have "shaped k" using ok by (simp add: references_ok_def)
  ultimately show ?thesis using True by (simp add: update_descriptor_def)
next
  case False
  then show ?thesis using ok unused_descriptor(2) [of k fd d] by (simp add: references_ok_def)
qed

lemma references_duplicate:
  assumes ok: "references_ok k" and run: "running k"
  shows "references_ok (snd (duplicate_descriptor fd k))"
proof (cases "fd < max_open_fds \<and> fd_kind (current_table k ! fd) \<noteq> Closed")
  case True
  then have fd: "fd < max_open_fds" by simp
  have sh: "shaped k" using ok by (simp add: references_ok_def)
  let ?d = "current_table k ! fd"
  obtain ps where ps: "add_pipe_reference ?d (pipes k) = (Inr (), ps)"
    using acquire_held(3) [OF ok fd] by (metis prod.collapse)
  have valid: "pipes_ok ps" and counts: "\<And>e. end_count ps e = end_count (pipes k) e + of_bool (referenced_end ?d = Some e)"
    using acquire_held(1,2) [OF ok fd] by (simp_all add: ps)
  obtain r t' where a: "allocate_in ?d (current_table k) = (r, t')" by fastforce
  from a show ?thesis
  proof (cases rule: allocate_in_cases)
    case full
    have "pipes_ok (release_pipe_reference ?d ps) \<and>
        (\<forall>e. end_count (release_pipe_reference ?d ps) e = end_count ps e - of_bool (referenced_end ?d = Some e))"
      by (rule ends.release_law [OF valid]) (simp add: counts)
    then have "pipes_ok (release_pipe_reference ?d ps)" "end_count (release_pipe_reference ?d ps) = end_count (pipes k)"
      by (auto simp: counts fun_eq_iff)
    then have "references_ok (k\<lparr>pipes := release_pipe_reference ?d ps\<rparr>)"
      using ok by (simp add: references_ok_def shaped_def)
    then show ?thesis
      using True sh full a ps by (simp add: duplicate_descriptor_def Let_def allocate_descriptor_def)
        (simp add: set_current_table_def current_table_def)
  next
    case (slot i)
    have "references_ok (set_current_table ((current_table k)[i := ?d]) (k\<lparr>pipes := ps\<rparr>))"
      by (rule references_replace [OF ok run _ valid]) (use slot sh counts in auto)
    then show ?thesis
      using True sh slot a ps by (simp add: duplicate_descriptor_def Let_def allocate_descriptor_def)
  qed
next
  case False
  then show ?thesis using ok unused_descriptor(3) [of k fd] by (simp add: references_ok_def)
qed

lemma references_duplicate_to:
  assumes ok: "references_ok k" and run: "running k"
  shows "references_ok (snd (duplicate_descriptor_to source target k))"
proof (cases "target < max_open_fds \<and> source < max_open_fds \<and> fd_kind (current_table k ! source) \<noteq> Closed
    \<and> source \<noteq> target")
  case True
  then have fd: "source < max_open_fds" and target: "target < max_open_fds" by simp_all
  have sh: "shaped k" using ok by (simp add: references_ok_def)
  let ?d = "current_table k ! source" and ?old = "current_table k ! target"
  obtain ps where ps: "add_pipe_reference ?d (pipes k) = (Inr (), ps)"
    using acquire_held(3) [OF ok fd] by (metis prod.collapse)
  have valid: "pipes_ok ps" and counts: "\<And>e. end_count ps e = end_count (pipes k) e + of_bool (referenced_end ?d = Some e)"
    using acquire_held(1,2) [OF ok fd] by (simp_all add: ps)
  have "0 < end_count ps e" if "referenced_end ?old = Some e" for e
    using held_end_live(1) [OF ok target that] by (simp add: counts)
  then have rel: "pipes_ok (release_pipe_reference ?old ps)"
    "\<And>e. end_count (release_pipe_reference ?old ps) e + of_bool (referenced_end ?old = Some e) = end_count ps e"
    using ends.release_law [OF valid, of ?old] by auto
  have "references_ok (set_current_table ((current_table k)[target := ?d])
      (k\<lparr>pipes := release_pipe_reference ?old ps\<rparr>))"
    by (rule references_replace [OF ok run target rel(1)]) (simp add: rel(2) counts)
  then show ?thesis
    using True sh ps by (simp add: duplicate_descriptor_to_def Let_def)
next
  case False
  have sh: "shaped k" using ok by (simp add: references_ok_def)
  have "snd (duplicate_descriptor_to source target k) = k"
    using False current_table_length [OF sh] by (auto simp: duplicate_descriptor_to_def Let_def not_less)
  then show ?thesis using ok by simp
qed

section \<open>The pipe system call\<close>

lemma balanced_pipes:
  "balanced x k \<Longrightarrow> pipes_ok ps \<Longrightarrow> (\<And>e. end_count ps e = all_held (tables k) e + y e) \<Longrightarrow>
   balanced y (k\<lparr>pipes := ps\<rparr>)"
  by (simp add: balanced_def shaped_def)

lemma balanced_allocate:
  assumes ok: "balanced x k" and run: "running k" and slot: "allocate_descriptor d k = (Some fd, k')"
    and x: "\<And>e. x e = of_bool (referenced_end d = Some e) + x' e"
  shows "balanced x' k'" "running k'" "fd < max_open_fds" "current_table k' ! fd = d" "pipes k' = pipes k"
    "trap_frames k' = trap_frames k"
proof -
  have sh: "shaped k" and valid: "pipes_ok (pipes k)" using ok by (simp_all add: balanced_def)
  obtain t' where a: "allocate_in d (current_table k) = (Some fd, t')" and k': "k' = set_current_table t' k"
    using slot by (auto simp: allocate_descriptor_def split: prod.splits)
  from a have c: "fd < max_open_fds" "fd_kind (current_table k ! fd) = Closed" "t' = (current_table k)[fd := d]"
    using current_table_length [OF sh] by (auto elim: allocate_in_cases)
  have "balanced x' (set_current_table ((current_table k)[fd := d]) (k\<lparr>pipes := pipes k\<rparr>))"
    by (rule balanced_replace [OF ok run c(1) valid]) (simp add: c(2) x)
  then show "balanced x' k'" by (simp add: k' c)
  show "running k'" using run by (simp add: k')
  show "fd < max_open_fds" by (rule c)
  show "current_table k' ! fd = d"
    using c(1) shapedD(1) [OF sh] current_table_length [OF sh]
    by (simp add: k' c set_current_table_def current_table_def)
  show "pipes k' = pipes k" "trap_frames k' = trap_frames k" by (simp_all add: k' set_current_table_def)
qed

lemma allocate_none: "allocate_descriptor d k = (None, k') \<Longrightarrow> k' = k \<and> allocate_descriptor d' k = (None, k)"
  by (auto simp: allocate_descriptor_def allocate_in_def split: option.splits)

lemma copy_keeps: "copy_to_current_user a bs k = (r, k') \<Longrightarrow> \<exists>m. k' = k\<lparr>mach := m\<rparr>"
proof (cases "pr_space (current_process k)")
  case None
  moreover assume "copy_to_current_user a bs k = (r, k')"
  ultimately have "k' = k\<lparr>mach := mach k\<rparr>" by (simp add: copy_to_current_user_def)
  then show ?thesis by blast
qed (auto simp: copy_to_current_user_def split: prod.splits)

lemma balanced_mach [simp]: "balanced x (k\<lparr>mach := m\<rparr>) = balanced x k"
  by (simp add: balanced_def shaped_def)

lemma references_frame [simp]:
  "references_ok (set_rax a v k) = references_ok k" "references_ok (set_frame a tf k) = references_ok k"
  "references_ok (k\<lparr>mach := m\<rparr>) = references_ok k" "references_ok (k\<lparr>live_fpu := l\<rparr>) = references_ok k"
  by (simp_all add: references_ok_def shaped_def set_rax_def set_frame_def)

lemma running_rax [simp]: "running (set_rax a v k) = running k"
  by (simp add: running_def current_process_def set_rax_def set_frame_def)

text \<open>Both ends in the table: the call keeps the invariant whether or not the copy succeeds.\<close>

lemma references_pipe_done:
  assumes "references_ok k" "running k"
  shows "references_ok (snd (close_descriptor w (snd (close_descriptor r k))))"
    "running (snd (close_descriptor w (snd (close_descriptor r k))))"
  using assms by (simp_all add: references_close)

lemma close_allocated:
  assumes "shaped k" "fd < max_open_fds" "fd_kind (current_table k ! fd) \<noteq> Closed"
  shows "pipes (snd (close_descriptor fd k)) = release_pipe_reference (current_table k ! fd) (pipes k)"
  using assms by (simp add: close_descriptor_def Let_def set_current_table_def)

lemma references_sys_pipe:
  assumes ok: "references_ok k" and run: "running k" and op: "sys_pipe frame k = (r, k')"
  shows "references_ok k' \<and> running k'"
proof (cases "create_pipe (pipes k)")
  case (Pair res ps)
  have valid: "pipes_ok (pipes k)" using ok by (simp add: references_ok_def)
  show ?thesis
  proof (cases res)
    case (Inl e)
    then have "ps = pipes k" using Pair by (auto simp: create_pipe_def split: option.splits)
    then show ?thesis using op ok run Pair Inl by (auto simp: sys_pipe_def)
  next
    case (Inr i)
    define k1 where "k1 = k\<lparr>pipes := ps\<rparr>"
    let ?x = "\<lambda>e. of_bool (snd e = i) :: nat" and ?y = "\<lambda>e. of_bool (e = (False, i)) :: nat"
    note created = count_create [OF valid, of i ps]
    have new: "pipes_ok ps" "\<And>e. end_count ps e = all_held (tables k) e + of_bool (snd e = i)"
      using created Pair Inr ok by (simp_all add: references_ok_def)
    have b1: "balanced ?x k1" and run1: "running k1"
      using ok run new by (simp_all add: k1_def references_balanced balanced_pipes)
    have ends: "referenced_end (pipe_descriptor PipeRead i) = Some (True, i)"
      "referenced_end (pipe_descriptor PipeWrite i) = Some (False, i)"
      by (simp_all add: pipe_descriptor_def new_descriptor_def referenced_end_def)
    obtain fd2 k2 where a2: "allocate_descriptor (pipe_descriptor PipeRead i) k1 = (fd2, k2)" by fastforce
    obtain fd3 k3 where a3: "allocate_descriptor (pipe_descriptor PipeWrite i) k2 = (fd3, k3)" by fastforce
    note op' = op [unfolded sys_pipe_def Pair Inr, simplified, folded k1_def, unfolded a2, simplified, unfolded a3, simplified]
    show ?thesis
    proof (cases fd2)
      case None
      then have "k2 = k1" "fd3 = None" "k3 = k1"
        using allocate_none [of "pipe_descriptor PipeRead i" k1 k2 "pipe_descriptor PipeWrite i"] a2 a3 by auto
      then have k': "k' = set_rax frame (errno 24) (k1\<lparr>pipes := close_writer i (close_reader i ps)\<rparr>)"
        using op' None by (simp add: fail_call_def rollback_end_def k1_def)
      have "end_count (close_writer i (close_reader i ps)) e = all_held (tables k) e" for e
        using new created(3) [of e] ok Pair Inr
        by (cases e) (auto simp: count_close_writer count_close_reader pipes_ok_close_reader references_ok_def)
      then have "references_ok (k1\<lparr>pipes := close_writer i (close_reader i ps)\<rparr>)"
        unfolding references_balanced using b1 new(1)
        by (intro balanced_pipes [OF b1]) (simp_all add: pipes_ok_close_reader pipes_ok_close_writer k1_def)
      then show ?thesis using run1 by (simp add: k')
    next
      case (Some r1)
      have b2: "balanced ?y k2" "running k2" "r1 < max_open_fds" "current_table k2 ! r1 = pipe_descriptor PipeRead i"
          "pipes k2 = ps"
        using balanced_allocate [OF b1 run1, of "pipe_descriptor PipeRead i" r1 k2 ?y] a2 Some
        by (auto simp: ends k1_def prod_eq_iff)
      have count2: "end_count ps e = of_bool (snd e = i)" if "snd e = i" for e
        using created(2,3) [of e] Pair Inr that by simp
      have sh2: "shaped k2" using b2(1) by (simp add: balanced_def)
      show ?thesis
      proof (cases fd3)
        case None
        let ?K = "snd (close_descriptor r1 k2)"
        have "k3 = k2" using allocate_none a3 None by blast
        then have k': "k' = set_rax frame (errno 24) (?K\<lparr>pipes := close_writer i (close_reader i (pipes ?K))\<rparr>)"
          using op' Some None by (simp add: fail_call_def rollback_end_def Let_def)
        have bK: "balanced ?y ?K" "running ?K" using balanced_close [OF b2(1,2)] b2(2) by simp_all
        have "fd_kind (current_table k2 ! r1) \<noteq> Closed" by (simp add: b2 pipe_descriptor_def new_descriptor_def)
        then have pK: "pipes ?K = close_reader i ps"
          using close_allocated [OF sh2 b2(3)] b2(4,5)
          by (simp add: release_pipe_reference_def pipe_descriptor_def new_descriptor_def)
        have okK: "pipes_ok (pipes ?K)" using bK(1) by (simp add: balanced_def)
        have eqK: "end_count (pipes ?K) e = all_held (tables ?K) e + ?y e" for e
          using bK(1) by (simp add: balanced_def)
        have "end_count (pipes ?K) (True, i) = 0"
          using count2 [of "(True, i)"] by (simp add: pK count_close_reader new(1))
        then have "end_count (close_writer i (close_reader i (pipes ?K))) e = all_held (tables ?K) e" for e
          using eqK [of e] eqK [of "(True, i)"]
          by (auto simp: count_close_writer count_close_reader okK pipes_ok_close_reader)
        then have "references_ok (?K\<lparr>pipes := close_writer i (close_reader i (pipes ?K))\<rparr>)"
          using bK(1) okK
          by (simp add: references_balanced balanced_pipes pipes_ok_close_reader pipes_ok_close_writer)
        then show ?thesis using bK(2) by (simp add: k')
      next
        case (Some w1)
        have "references_ok k3" "running k3"
          using balanced_allocate [OF b2(1,2), of "pipe_descriptor PipeWrite i" w1 k3 "\<lambda>e. 0"] a3 Some
          by (auto simp: ends references_balanced)
        moreover obtain res4 k4 where c: "copy_to_current_user (tf_rdi (trap_frames k3 frame))
            (to_le 4 (word_of_nat r1 :: u32) @ to_le 4 (word_of_nat w1 :: u32)) k3 = (res4, k4)" by fastforce
        then obtain m where "k4 = k3\<lparr>mach := m\<rparr>" using copy_keeps by blast
        ultimately have k4: "references_ok k4" "running k4" by simp_all
        show ?thesis
          using op' \<open>fd2 = Some r1\<close> Some c k4 references_pipe_done [OF k4, of w1 r1]
          by (auto simp: fail_call_def split: option.splits bool.splits)
      qed
    qed
  qed
qed

section \<open>Context switches\<close>

lemma pick_next_Some:
  assumes "pick_next k = Some c"
  shows "c < max_processes \<and> eligible (processes k ! c)"
  using find_SomeD [OF assms [unfolded pick_next_def]] by (auto simp: max_processes_def)

lemma eligible_not_idle: "eligible p \<Longrightarrow> \<not> idle p"
  by (simp add: eligible_def idle_def)

lemma same_references_save [simp]: "same_references k (save_context frame k)"
  unfolding save_context_def by (rule same_references_update) (simp add: standing_def)

lemma standing_wake [simp]: "map standing (wake_waiters n ps) = map standing ps"
  by (simp add: wake_waiters_def standing_def comp_def if_distrib cong: if_cong)

lemma held_all_closed: "held (map (\<lambda>d. closed_descriptor) t) = (\<lambda>e. 0)"
  by (rule ext) (induction t, simp_all)

lemma finish_current_parts:
  "current (finish_current k) = current k"
  "tables (finish_current k) = (tables k)[current k := map (\<lambda>d. closed_descriptor) (tables k ! current k)]"
  "pipes (finish_current k) = fold release_pipe_reference (tables k ! current k) (pipes k)"
  "map standing (processes (finish_current k)) =
     (map standing (processes k))[current k :=
       (pr_active (processes k ! current k), True, pr_pid (processes k ! current k))]"
  by (simp_all add: finish_current_def Let_def update_process_def release_descriptors_def map_update standing_def
    current_process_def)

lemma finish_current_nth:
  assumes "current k < length (processes k)" "i < length (processes k)"
  shows "length (processes (finish_current k)) = length (processes k)"
    "pr_active (processes (finish_current k) ! i) = pr_active (processes k ! i)"
    "pr_pid (processes (finish_current k) ! i) = pr_pid (processes k ! i)"
    "idle (processes (finish_current k) ! i) = (i = current k \<or> idle (processes k ! i))"
proof -
  show len: "length (processes (finish_current k)) = length (processes k)"
    using arg_cong [OF finish_current_parts(4), of length k] by simp
  have "map standing (processes (finish_current k)) ! i = standing (processes (finish_current k) ! i)"
    using assms len by simp
  then have "standing (processes (finish_current k) ! i) =
    (if i = current k then (pr_active (processes k ! i), True, pr_pid (processes k ! i))
     else standing (processes k ! i))"
    using assms unfolding finish_current_parts(4) by (auto simp: nth_list_update)
  then show "pr_active (processes (finish_current k) ! i) = pr_active (processes k ! i)"
    "pr_pid (processes (finish_current k) ! i) = pr_pid (processes k ! i)"
    "idle (processes (finish_current k) ! i) = (i = current k \<or> idle (processes k ! i))"
    by (auto simp: standing_def idle_def split: if_splits)
qed

lemma references_finish:
  assumes ok: "references_ok k" shows "references_ok (finish_current k)"
proof -
  have sh: "shaped k" and valid: "pipes_ok (pipes k)" and eq: "end_count (pipes k) = all_held (tables k)"
    using ok by (simp_all add: references_ok_def)
  have cur: "current k < length (tables k)" "current k < length (processes k)"
    using shapedD(1) [OF sh] by simp_all
  have le: "held (tables k ! current k) e \<le> end_count (pipes k) e" for e
    using held_le_all [OF cur(1), of e] by (simp add: eq)
  have rel: "pipes_ok (pipes (finish_current k))"
    "\<And>e. end_count (pipes (finish_current k)) e = end_count (pipes k) e - held (tables k ! current k) e"
    using ends.release_all [OF valid, of "tables k ! current k"] le
    by (simp_all add: finish_current_parts held_def)
  have "end_count (pipes (finish_current k)) = all_held (tables (finish_current k))"
    using rel(2) by (simp add: fun_eq_iff eq finish_current_parts all_held_update [OF cur(1)] held_all_closed)
  then show ?thesis
    using ok rel(1) sh finish_current_nth [OF cur(2)]
    by (auto simp: references_ok_def shaped_def finish_current_parts nth_list_update held_all_closed
      dest!: set_update_subset_insert [THEN subsetD])
qed

lemma unique_pids_finish:
  "unique_pids (processes k) \<Longrightarrow> current k < length (processes k) \<Longrightarrow> unique_pids (processes (finish_current k))"
  using finish_current_nth [of k] by (auto simp: unique_pids_def)

definition kernel_ok :: "kernel \<Rightarrow> bool" where
  "kernel_ok k \<longleftrightarrow> references_ok k \<and> unique_pids (processes k)"

lemma same_references_kernel: "same_references k k' \<Longrightarrow> kernel_ok k \<Longrightarrow> kernel_ok k'"
  by (simp add: kernel_ok_def same_references_ok same_references_pids)

lemma kernel_okD: "kernel_ok k \<Longrightarrow> shaped k" "kernel_ok k \<Longrightarrow> references_ok k"
  by (simp_all add: kernel_ok_def references_ok_def)

lemma kernel_ok_switch:
  assumes "kernel_ok k" "pick_next k = Some c" "switch_to c k = (r, k')"
  shows "kernel_ok k' \<and> running k'"
proof -
  have c: "c < max_processes" "\<not> idle (processes k ! c)"
    using pick_next_Some [OF assms(2)] eligible_not_idle by auto
  have "tables k' = tables k \<and> pipes k' = pipes k \<and> processes k' = processes k \<and> current k' = c"
    using assms(3) by (auto simp: switch_to_def Let_def split: option.splits)
  then show ?thesis
    using assms(1) c by (auto simp: kernel_ok_def references_ok_def shaped_def running_def current_process_def)
qed

lemma kernel_ok_schedule:
  assumes ok: "kernel_ok k" and op: "schedule frame exiting k = (r, k')"
  shows "kernel_ok k' \<and> (r = Halted \<or> running k')"
proof -
  let ?s = "save_context frame k"
  let ?k = "if exiting then finish_current ?s else ?s"
  have "kernel_ok ?s" using same_references_kernel [OF same_references_save ok] .
  moreover from this have "current ?s < length (processes ?s)"
    using shapedD(1) [OF kernel_okD(1)] by blast
  ultimately have k1: "kernel_ok ?k"
    using unique_pids_finish [of ?s] by (simp add: kernel_ok_def references_finish)
  show ?thesis
  proof (cases "pick_next ?k")
    case None
    then show ?thesis using op k1 by (simp add: schedule_def Let_def)
  next
    case (Some c)
    then show ?thesis using op kernel_ok_switch [OF k1 Some] by (simp add: schedule_def Let_def)
  qed
qed

end
