(* ===== verification/Process_Invariants.thy ===== *)
theory Process_Invariants
  imports Pipe_References
begin

text \<open>
  The operations that create, replace and collect processes keep \<open>kernel_ok\<close>, and so does
  every interleaving of the kernel's operations from boot: \<open>kernel_step\<close> has one rule for each
  operation a process or an interrupt can start.
\<close>

section \<open>New processes\<close>

lemma free_slot_Some:
  assumes "kernel_ok k" "free_slot k = Some slot"
  shows "slot < max_processes" "\<not> pr_active (processes k ! slot)" "held (tables k ! slot) = (\<lambda>e. 0)"
proof -
  show s: "slot < max_processes" "\<not> pr_active (processes k ! slot)"
    using assms shapedD(1) [OF kernel_okD(1) [OF assms(1)]]
    by (auto simp: free_slot_def position_Some_iff)
  then show "held (tables k ! slot) = (\<lambda>e. 0)"
    using assms(1) by (simp add: kernel_ok_def references_ok_def idle_def)
qed

lemma fold_max_ge: "n \<le> fold max ns n \<and> (\<forall>m \<in> set ns. m \<le> fold max ns (n :: nat))"
proof (induction ns arbitrary: n)
  case (Cons a ns)
  from Cons.IH [of "max a n"] show ?case by auto
qed simp

lemma next_pid_fresh: "p \<in> set (processes k) \<Longrightarrow> pr_pid p < next_pid k"
  using fold_max_ge [of 0 "map pr_pid (processes k)"] by (auto simp: next_pid_def less_Suc_eq_le)

lemma unique_pids_new:
  assumes "unique_pids ps" "\<And>i. i < length ps \<Longrightarrow> pr_pid (ps ! i) < pr_pid p"
  shows "unique_pids (ps[slot := p])"
  unfolding unique_pids_def
proof (intro allI impI)
  fix i j
  assume ij: "i < length (ps[slot := p])" "j < length (ps[slot := p])"
    and act: "pr_active (ps[slot := p] ! i)" "pr_active (ps[slot := p] ! j)"
    and eq: "pr_pid (ps[slot := p] ! i) = pr_pid (ps[slot := p] ! j)"
  show "i = j"
  proof (cases "i = slot \<or> j = slot")
    case True
    then show ?thesis using ij eq assms(2) [of i] assms(2) [of j] by (auto simp: nth_list_update split: if_splits)
  next
    case False
    then show ?thesis using ij act eq assms(1) by (simp add: unique_pids_def)
  qed
qed

text \<open>A new process with its table in a free slot, the pipes changed by what the table holds.\<close>

lemma kernel_ok_new_process:
  assumes ok: "kernel_ok k" and slot: "free_slot k = Some slot" and len: "length t = max_open_fds"
    and valid: "pipes_ok ps" and counts: "\<And>e. end_count ps e = end_count (pipes k) e + held t e"
    and p: "\<not> idle p" "pr_pid p = next_pid k"
  shows "kernel_ok (k\<lparr>tables := (tables k)[slot := t], pipes := ps, processes := (processes k)[slot := p]\<rparr>)"
    (is "kernel_ok ?k")
proof -
  have sh: "shaped k" using ok by (rule kernel_okD)
  have s: "slot < length (tables k)" "slot < length (processes k)"
    using free_slot_Some(1) [OF ok slot] shapedD(1) [OF sh] by simp_all
  have "end_count ps e = all_held ((tables k)[slot := t]) e" for e
    using ok free_slot_Some(3) [OF ok slot]
    by (simp add: counts all_held_update [OF s(1)] kernel_ok_def references_ok_def)
  moreover have "shaped ?k"
    using sh len by (auto simp: shaped_def dest!: set_update_subset_insert [THEN subsetD])
  moreover have "held ((tables k)[slot := t] ! i) = (\<lambda>e. 0)"
    if "i < max_processes" "idle ((processes k)[slot := p] ! i)" for i
    using that p(1) s ok by (cases "i = slot") (auto simp: kernel_ok_def references_ok_def)
  moreover have "unique_pids ((processes k)[slot := p])"
    using ok p(2) next_pid_fresh [of _ k] by (intro unique_pids_new) (auto simp: kernel_ok_def)
  ultimately show ?thesis
    using valid by (auto simp: kernel_ok_def references_ok_def)
qed

lemma running_new_process:
  assumes "kernel_ok k" "running k" "free_slot k = Some slot"
  shows "running (k\<lparr>tables := ts, pipes := ps, processes := (processes k)[slot := p]\<rparr>)"
  using assms free_slot_Some(2) [OF assms(1,3)]
  by (cases "slot = current k") (auto simp: running_def current_process_def idle_def)

lemma kernel_ok_frame [simp]:
  "kernel_ok (set_rax a v k) = kernel_ok k" "kernel_ok (set_frame a tf k) = kernel_ok k"
  "kernel_ok (k\<lparr>mach := m\<rparr>) = kernel_ok k" "kernel_ok (k\<lparr>live_fpu := l\<rparr>) = kernel_ok k"
  "kernel_ok (k\<lparr>slot_count := n\<rparr>) = kernel_ok k"
  by (simp_all add: kernel_ok_def references_ok_def shaped_def set_rax_def set_frame_def)

lemma running_frame [simp]:
  "running (set_frame a tf k) = running k" "running (k\<lparr>live_fpu := l\<rparr>) = running k"
  "running (k\<lparr>slot_count := n\<rparr>) = running k"
  by (simp_all add: running_def current_process_def set_frame_def)

lemma fail_call_ok: "fail_call frame n k = (r, k') \<Longrightarrow> kernel_ok k \<Longrightarrow> running k \<Longrightarrow> kernel_ok k' \<and> running k'"
  by (auto simp: fail_call_def)

section \<open>Fork\<close>

lemma acquire_table:
  assumes ok: "kernel_ok k" and i: "i < max_processes"
  shows "pipes_ok (fold (\<lambda>d ps. snd (add_pipe_reference d ps)) (tables k ! i) (pipes k))"
    "end_count (fold (\<lambda>d ps. snd (add_pipe_reference d ps)) (tables k ! i) (pipes k)) e =
     end_count (pipes k) e + held (tables k ! i) e"
proof -
  have sh: "shaped k" and refs: "references_ok k" using ok by (simp_all add: kernel_okD)
  have len: "length (tables k ! i) = 24" using shapedD(2) [OF sh i] by (simp add: max_open_fds_def)
  have "0 < end_count (pipes k) e \<and> end_count (pipes k) e + length (tables k ! i) \<le> usize_max"
    if "0 < (\<Sum>d\<leftarrow>tables k ! i. of_bool (referenced_end d = Some e) :: nat)" for e
  proof -
    have "i < length (tables k)" using i shapedD(1) [OF sh] by simp
    from held_le_all [OF this, of e] have "0 < end_count (pipes k) e"
      using that refs by (simp add: held_def references_ok_def)
    then show ?thesis using references_room [OF refs, of e] len by simp
  qed
  then show "pipes_ok (fold (\<lambda>d ps. snd (add_pipe_reference d ps)) (tables k ! i) (pipes k))"
    "end_count (fold (\<lambda>d ps. snd (add_pipe_reference d ps)) (tables k ! i) (pipes k)) e =
     end_count (pipes k) e + held (tables k ! i) e"
    using ends.acquire_all [of "pipes k" "tables k ! i"] refs by (simp_all add: references_ok_def held_def)
qed

lemma free_slot_frame [simp]:
  "free_slot (k\<lparr>mach := m\<rparr>) = free_slot k" "free_slot (set_frame a tf k) = free_slot k"
  "free_slot (k\<lparr>live_fpu := l\<rparr>) = free_slot k"
  "next_pid (k\<lparr>mach := m\<rparr>) = next_pid k" "next_pid (set_frame a tf k) = next_pid k"
  "next_pid (k\<lparr>live_fpu := l\<rparr>) = next_pid k"
  "processes (set_frame a tf k) = processes k" "tables (set_frame a tf k) = tables k"
  "pipes (set_frame a tf k) = pipes k" "live_fpu (set_frame a tf k) = live_fpu k"
  "slot_count (set_frame a tf k) = slot_count k" "current (set_frame a tf k) = current k"
  by (simp_all add: free_slot_def next_pid_def set_frame_def)

lemma kernel_ok_fork:
  assumes ok: "kernel_ok k" and run: "running k" and op: "fork_current fninit frame k = (r, k')"
  shows "kernel_ok k' \<and> running k'"
proof (cases "frame = 0 \<or> free_slot k = None \<or> pr_space (processes k ! current k) = None")
  case True
  then have "k' = k \<or> (\<exists>n. fail_call frame n k = (r, k'))"
    using op by (cases "frame = 0"; cases "free_slot k") (auto simp: fork_current_def Let_def)
  then show ?thesis using ok run fail_call_ok by blast
next
  case False
  then obtain slot space where s: "frame \<noteq> 0" "free_slot k = Some slot"
    "pr_space (processes k ! current k) = Some space" by auto
  obtain cs m where c: "clone_user space (mach k) = (cs, m)" by fastforce
  show ?thesis
  proof (cases cs)
    case None
    then show ?thesis
      using op s c ok run by (auto simp: fork_current_def Let_def dest: fail_call_ok)
  next
    case (Some child_space)
    let ?k1 = "set_frame (top_of_slot k slot) ((trap_frames k frame)\<lparr>tf_rax := 0\<rparr>) (k\<lparr>mach := m\<rparr>)"
    let ?k2 = "?k1\<lparr>live_fpu := fninit (live_fpu k)\<rparr>"
    let ?ps = "fold (\<lambda>d ps. snd (add_pipe_reference d ps)) (tables k ! current k) (pipes k)"
    have cur: "current k < max_processes" using kernel_okD(1) [OF ok] by (simp add: shaped_def)
    have ok2: "kernel_ok ?k2" "running ?k2" "free_slot ?k2 = Some slot" using ok run s by simp_all
    have ps: "pipes_ok ?ps" "\<And>e. end_count ?ps e = end_count (pipes ?k2) e + held (tables k ! current k) e"
      using acquire_table [OF ok cur] by simp_all
    have len: "length (tables k ! current k) = max_open_fds"
      using shapedD(2) [OF kernel_okD(1) [OF ok] cur] .
    let ?child = "forked_process (processes k ! current k) (next_pid k) (top_of_slot k slot) child_space
      (fninit (live_fpu k))"
    let ?k3 = "?k2\<lparr>tables := (tables ?k2)[slot := tables k ! current k], pipes := ?ps,
           processes := (processes ?k2)[slot := ?child]\<rparr>"
    have child: "\<not> idle ?child" "pr_pid ?child = next_pid ?k2"
      by (simp_all add: forked_process_def idle_def)
    have "kernel_ok ?k3" "running ?k3"
      using kernel_ok_new_process [OF ok2(1,3) len ps child] running_new_process [OF ok2] by simp_all
    moreover have "k' = set_rax frame (word_of_nat (next_pid k)) (?k3\<lparr>slot_count := max (slot_count k) (slot + 1)\<rparr>)"
      using op s c Some by (auto simp: fork_current_def Let_def)
    ultimately show ?thesis by simp
  qed
qed

section \<open>Spawn and execve\<close>

text \<open>What the three redirections keep of the child's table and the pipes.\<close>

definition child_balanced :: "kernel \<Rightarrow> descriptor_table \<times> pipe_table \<Rightarrow> bool" where
  "child_balanced k state \<longleftrightarrow> length (fst state) = max_open_fds \<and> pipes_ok (snd state) \<and>
     (\<forall>e. end_count (snd state) e = end_count (pipes k) e + held (fst state) e)"

lemma child_balanced_redirection:
  assumes ok: "kernel_ok k" and inv: "child_balanced k state" and target: "target < max_open_fds"
    and vacant: "referenced_end (fst state ! target) = None"
  shows "child_balanced k (apply_redirection (tables k ! current k) (target, source) state) \<and>
    (\<forall>j. j \<noteq> target \<longrightarrow> fst (apply_redirection (tables k ! current k) (target, source) state) ! j = fst state ! j)"
proof (cases "source < 0 \<or> max_open_fds \<le> nat source \<or> fd_kind (tables k ! current k ! nat source) = Closed")
  case True
  then show ?thesis using inv by (auto simp: apply_redirection_def Let_def split: prod.splits)
next
  case False
  obtain child ps where st: "state = (child, ps)" by fastforce
  let ?d = "tables k ! current k ! nat source"
  have src: "nat source < max_open_fds" "source \<noteq> -1" using False by auto
  have refs: "references_ok k" and sh: "shaped k" using ok by (simp_all add: kernel_okD)
  have inv': "length child = max_open_fds" "pipes_ok ps"
    "\<And>e. end_count ps e = end_count (pipes k) e + held child e"
    using inv by (simp_all add: child_balanced_def st)
  have live: "0 < end_count ps e \<and> end_count ps e < usize_max" if "referenced_end ?d = Some e" for e
  proof -
    have "0 < end_count (pipes k) e"
      using held_end_live(1) [OF refs src(1)] that by (simp add: current_table_def)
    moreover have "end_count (pipes k) e \<le> 384"
      using all_held_bound [OF sh, of e] refs by (simp add: references_ok_def)
    moreover have "held child e \<le> 24"
      using held_le_length [of child e] inv'(1) by (simp add: max_open_fds_def)
    moreover have "65536 \<le> usize_max" by (rule usize_max_ge)
    ultimately show ?thesis unfolding inv'(3) by linarith
  qed
  have acq: "pipes_ok (snd (add_pipe_reference ?d ps))"
    "\<And>e. end_count (snd (add_pipe_reference ?d ps)) e = end_count ps e + of_bool (referenced_end ?d = Some e)"
    using ends.acquire_law [OF inv'(2), of ?d] live by auto
  have "apply_redirection (tables k ! current k) (target, source) state =
      (child[target := ?d], snd (add_pipe_reference ?d ps))"
    using False src by (simp add: apply_redirection_def Let_def st)
  then show ?thesis
    using target vacant inv' acq by (simp add: child_balanced_def st held_update)
qed

lemma held_new_table: "held new_table = (\<lambda>e. 0)"
  by (rule ext) (simp add: new_table_def max_open_fds_def held_def numeral_eq_Suc new_descriptor_def)

lemma length_new_table [simp]: "length new_table = max_open_fds"
  by (simp add: new_table_def)

lemma new_table_vacant:
  assumes "i < max_open_fds" shows "referenced_end (new_table ! i) = None"
proof (cases "referenced_end (new_table ! i)")
  case (Some e)
  then have "1 \<le> held new_table e" using held_nth_le [of i new_table e] assms by simp
  then show ?thesis by (simp add: held_new_table)
qed

lemma child_balanced_spawn:
  assumes ok: "kernel_ok k"
  shows "child_balanced k (apply_spawn_io io (tables k ! current k) (new_table, pipes k))"
proof -
  let ?step = "apply_redirection (tables k ! current k)"
  let ?s0 = "(new_table, pipes k)"
  let ?s1 = "?step (0, si_stdin io) ?s0" let ?s2 = "?step (1, si_stdout io) ?s1"
  have lt: "0 < max_open_fds" "1 < max_open_fds" "2 < max_open_fds" by (simp_all add: max_open_fds_def)
  have 0: "child_balanced k ?s0"
    using ok by (simp add: child_balanced_def held_new_table kernel_ok_def references_ok_def)
  have 1: "child_balanced k ?s1" "\<And>j. j \<noteq> 0 \<Longrightarrow> fst ?s1 ! j = new_table ! j"
    using child_balanced_redirection [OF ok 0 lt(1)] lt by (auto simp: new_table_vacant)
  have 2: "child_balanced k ?s2" "\<And>j. j \<noteq> 1 \<Longrightarrow> fst ?s2 ! j = fst ?s1 ! j"
    using child_balanced_redirection [OF ok 1(1) lt(2)] lt by (auto simp: new_table_vacant 1(2))
  have "child_balanced k (?step (2, si_stderr io) ?s2)"
    using child_balanced_redirection [OF ok 2(1) lt(3)] lt
    by (simp add: new_table_vacant 1(2) 2(2) del: One_nat_def)
  then show ?thesis by (simp add: apply_spawn_io_def)
qed

text \<open>The loader changes memory, the new frame and the floating-point state only.\<close>

lemma load_elf_at_frame:
  assumes "load_elf_at fninit img pid args env disk name frame k = (r, k')"
  shows "\<exists>m l tf. k' = k\<lparr>mach := m, trap_frames := tf, live_fpu := l\<rparr>"
    and "r = Inr p \<Longrightarrow> \<not> idle p \<and> pr_pid p = pid \<and> pr_space p \<noteq> None"
proof -
  obtain res m where l: "load_program img args env (mach k) = (res, m)" by fastforce
  show "\<exists>m l tf. k' = k\<lparr>mach := m, trap_frames := tf, live_fpu := l\<rparr>"
  proof (cases res)
    case (Inl e)
    then have "k' = k\<lparr>mach := m, trap_frames := trap_frames k, live_fpu := live_fpu k\<rparr>"
      using assms l by (clarsimp simp: load_elf_at_def)
    then show ?thesis by blast
  next
    case (Inr prog)
    then have "k' = k\<lparr>mach := m, trap_frames := (trap_frames k)(frame := entry_frame prog args env),
        live_fpu := fninit (live_fpu k)\<rparr>"
      using assms l by (auto simp: load_elf_at_def Let_def set_frame_def)
    then show ?thesis by blast
  qed
  show "r = Inr p \<Longrightarrow> \<not> idle p \<and> pr_pid p = pid \<and> pr_space p \<noteq> None"
    using assms l by (cases res) (auto simp: load_elf_at_def Let_def idle_def empty_process_def)
qed

lemma kernel_ok_trap_frames [simp]:
  "kernel_ok (k\<lparr>trap_frames := tf\<rparr>) = kernel_ok k" "running (k\<lparr>trap_frames := tf\<rparr>) = running k"
  "kernel_ok (k\<lparr>mach := m, trap_frames := tf\<rparr>) = kernel_ok k"
  "running (k\<lparr>mach := m, trap_frames := tf\<rparr>) = running k"
  by (simp_all add: kernel_ok_def references_ok_def shaped_def running_def current_process_def)

lemma kernel_ok_spawn:
  assumes ok: "kernel_ok k" and run: "running k"
    and op: "spawn_current_with_io fninit fs path args env io frame k = (r, k')" and r: "r \<noteq> Panicked" "r \<noteq> Halted"
  shows "kernel_ok k' \<and> running k'"
proof (cases "has_access fs path 1 k = Some True \<and> fv_read fs path \<noteq> None \<and> free_slot k \<noteq> None")
  case False
  then have "\<exists>n. fail_call frame n k = (r, k')"
    using op r(1) unfolding spawn_current_with_io_def
    by (cases "has_access fs path 1 k"; cases "fv_read fs path"; cases "free_slot k")
      (auto split: bool.splits)
  then show ?thesis using ok run fail_call_ok by blast
next
  case True
  then obtain img slot where h: "has_access fs path 1 k = Some True" "fv_read fs path = Some img"
    "free_slot k = Some slot" by auto
  obtain res k1 where l: "load_elf fninit img (next_pid k) slot args env (path = installer_path) path k = (res, k1)"
    by fastforce
  then obtain m tf fp where k1: "k1 = k\<lparr>mach := m, trap_frames := tf, live_fpu := fp\<rparr>"
    using load_elf_at_frame(1) unfolding load_elf_def by blast
  show ?thesis
  proof (cases res)
    case (Inl e)
    then have "fail_call frame 8 k1 = (r, k')" using op h l by (simp add: spawn_current_with_io_def)
    from fail_call_ok [OF this] show ?thesis using ok run by (simp add: k1)
  next
    case (Inr p)
    obtain child ps where io: "apply_spawn_io io (tables k ! current k) (new_table, pipes k) = (child, ps)"
      by fastforce
    have p: "\<not> idle p" "pr_pid p = next_pid k"
      using load_elf_at_frame(2) [of fninit img "next_pid k" args env] l Inr unfolding load_elf_def by auto
    let ?p = "inherit_identity (processes k ! current k) (p\<lparr>pr_parent := pr_pid (processes k ! current k)\<rparr>)"
    have p': "\<not> idle ?p" "pr_pid ?p = next_pid k1"
      using p by (simp_all add: inherit_identity_def idle_def k1 next_pid_def)
    have ok1: "kernel_ok k1" "running k1" "free_slot k1 = Some slot"
      using ok run h by (simp_all add: k1 free_slot_def)
    have b: "length child = max_open_fds" "pipes_ok ps" "\<And>e. end_count ps e = end_count (pipes k1) e + held child e"
      using child_balanced_spawn [OF ok, of io] by (simp_all add: io child_balanced_def k1)
    let ?k2 = "k1\<lparr>tables := (tables k1)[slot := child], pipes := ps, processes := (processes k1)[slot := ?p]\<rparr>"
    have k2: "kernel_ok ?k2" by (rule kernel_ok_new_process [OF ok1(1,3) b p'])
    have "schedule frame False (set_rax frame (word_of_nat (next_pid k))
        (?k2\<lparr>slot_count := max (slot_count k) (slot + 1)\<rparr>)) = (r, k')"
      using op h l Inr io by (simp add: spawn_current_with_io_def Let_def k1)
    from kernel_ok_schedule [OF _ this] k2 r(2) show ?thesis by simp
  qed
qed

lemma same_references_ok_running:
  "same_references k k' \<Longrightarrow> kernel_ok k \<Longrightarrow> running k \<Longrightarrow> kernel_ok k' \<and> running k'"
  using same_references_kernel same_references_running kernel_okD(1) by blast

lemma kernel_ok_execve:
  assumes ok: "kernel_ok k" and run: "running k"
    and op: "execve_current fninit fs path args env frame k = (r, k')" and r: "r \<noteq> Panicked"
  shows "kernel_ok k' \<and> running k'"
proof (cases "has_access fs path 1 k = Some True \<and> fv_read fs path \<noteq> None \<and> execve_frame_scratch k (current k) \<noteq> None")
  case False
  then have "\<exists>n. fail_call frame n k = (r, k')"
    using op r unfolding execve_current_def
    by (cases "has_access fs path 1 k"; cases "fv_read fs path"; cases "execve_frame_scratch k (current k)")
      (auto split: bool.splits)
  then show ?thesis using ok run fail_call_ok by blast
next
  case True
  then obtain img scratch where h: "has_access fs path 1 k = Some True" "fv_read fs path = Some img"
    "execve_frame_scratch k (current k) = Some scratch" by auto
  let ?p = "processes k ! current k"
  obtain res k1 where l: "load_elf_at fninit img (pr_pid ?p) args env (path = installer_path) path scratch k = (res, k1)"
    by fastforce
  then obtain m tf fp where k1: "k1 = k\<lparr>mach := m, trap_frames := tf, live_fpu := fp\<rparr>"
    using load_elf_at_frame(1) by blast
  show ?thesis
  proof (cases res)
    case (Inl e)
    then have "fail_call frame 8 k1 = (r, k')" using op h l by (simp add: execve_current_def)
    from fail_call_ok [OF this] show ?thesis using ok run by (simp add: k1)
  next
    case (Inr q)
    let ?q = "(inherit_identity ?p q)\<lparr>pr_parent := pr_parent ?p, pr_disk_install := pr_disk_install ?p,
      pr_actions := pr_actions ?p, pr_restorer := pr_restorer ?p\<rparr>"
    have q: "\<not> idle q" "pr_pid q = pr_pid ?p" "pr_space q \<noteq> None"
      using load_elf_at_frame(2) [OF l, of q] Inr by auto
    then obtain space where space: "pr_space q = Some space" by auto
    have k': "k' = k1\<lparr>processes := (processes k1)[current k := ?q], mach := switch_space space (mach k1)\<rparr>"
      using op h l Inr space by (auto simp: execve_current_def Let_def inherit_identity_def)
    have "standing ?q = standing ?p"
      using q run by (simp add: standing_def inherit_identity_def idle_def running_def current_process_def)
    then have "same_references k k'"
      by (simp add: same_references_def k' k1 map_update) (metis list_update_id list_update_beyond map_update not_le nth_map)
    then show ?thesis using ok run by (rule same_references_ok_running)
  qed
qed

section \<open>Waiting\<close>

lemma unique_pids_free:
  assumes "unique_pids ps" "\<not> pr_active p" shows "unique_pids (ps[slot := p])"
  unfolding unique_pids_def
proof (intro allI impI)
  fix i j
  assume ij: "i < length (ps[slot := p])" "j < length (ps[slot := p])"
    and act: "pr_active (ps[slot := p] ! i)" "pr_active (ps[slot := p] ! j)"
    and eq: "pr_pid (ps[slot := p] ! i) = pr_pid (ps[slot := p] ! j)"
  have "i \<noteq> slot" "j \<noteq> slot" using ij act assms(2) by auto
  then show "i = j" using ij act eq assms(1) by (simp add: unique_pids_def)
qed

lemma kernel_ok_collect:
  assumes ok: "kernel_ok k" and child: "child \<in> set (processes k)" "pr_active child" "pr_zombie child"
    and run: "running k"
    and slot: "position (\<lambda>p. pr_active p \<and> pr_pid p = pr_pid child) (processes k) = Some slot"
  shows "kernel_ok (k\<lparr>processes := (processes k)[slot := empty_process]\<rparr>) \<and>
    running (k\<lparr>processes := (processes k)[slot := empty_process]\<rparr>)"
proof -
  have sh: "shaped k" using ok by (rule kernel_okD)
  from child(1) obtain i where i: "i < length (processes k)" "processes k ! i = child"
    by (auto simp: in_set_conv_nth)
  have s: "slot < length (processes k)" "pr_active (processes k ! slot)" "pr_pid (processes k ! slot) = pr_pid child"
    using slot by (auto simp: position_Some_iff)
  then have "slot = i"
    using ok i child(2) by (auto simp: kernel_ok_def unique_pids_def)
  then have zombie: "idle (processes k ! slot)" using i child by (simp add: idle_def)
  have "idle empty_process" "\<not> pr_active empty_process" by (simp_all add: idle_def empty_process_def)
  then have "unique_pids ((processes k)[slot := empty_process])"
    using ok by (intro unique_pids_free) (simp_all add: kernel_ok_def)
  moreover have "held (tables k ! j) = (\<lambda>e. 0)"
    if "j < max_processes" "idle ((processes k)[slot := empty_process] ! j)" for j
    using ok zombie that s by (cases "j = slot") (auto simp: kernel_ok_def references_ok_def)
  moreover have "slot \<noteq> current k" using zombie run by (auto simp: running_def current_process_def)
  ultimately show ?thesis
    using ok run by (auto simp: kernel_ok_def references_ok_def shaped_def running_def current_process_def)
qed

lemma kernel_ok_reap:
  assumes ok: "kernel_ok k" and run: "running k" and op: "reap_child parent wanted ptr k = (res, k')"
  shows "kernel_ok k' \<and> running k' \<and> current k' = current k"
proof (cases "find (\<lambda>p. wanted_child parent wanted p \<and> pr_zombie p) (processes k)")
  case None
  then show ?thesis using op ok run by (simp add: reap_child_def)
next
  case (Some child)
  have child: "child \<in> set (processes k)" "pr_active child" "pr_zombie child"
    using find_SomeD [OF Some] by (auto simp: wanted_child_def)
  obtain slot where slot: "position (\<lambda>p. pr_active p \<and> pr_pid p = pr_pid child) (processes k) = Some slot"
    using child(1,2) by (cases "position (\<lambda>p. pr_active p \<and> pr_pid p = pr_pid child) (processes k)")
      (auto simp: position_None_iff)
  let ?copy = "copy_to_current_user ptr (to_le 4 (wait_status (pr_exit_status child))) k"
  obtain c k1 where c: "?copy = (c, k1)" by fastforce
  then obtain m where k1: "k1 = k\<lparr>mach := m\<rparr>" using copy_keeps by blast
  note collected = kernel_ok_collect [OF ok child run slot]
  have "k' = k \<or> k' = k1 \<or> k' = k\<lparr>processes := (processes k)[slot := empty_process]\<rparr> \<or>
      k' = k1\<lparr>processes := (processes k)[slot := empty_process]\<rparr>"
    using op Some slot c k1
    by (cases c) (auto simp: reap_child_def Let_def split: if_splits bool.splits option.splits)
  then show ?thesis
    using collected ok run
    by (auto simp: k1 kernel_ok_def references_ok_def shaped_def running_def current_process_def)
qed

lemma schedule_ex_result: "schedule_ex frame exiting k = ((r, s), k') \<Longrightarrow> schedule frame exiting k = (r, k')"
  by (auto simp: schedule_ex_def split: prod.splits)

lemma kernel_ok_update:
  assumes "kernel_ok k" "running k" "\<And>p. standing (f p) = standing p"
  shows "kernel_ok (update_process slot f k) \<and> running (update_process slot f k)"
  using same_references_ok_running [OF same_references_update] assms by blast

lemma kernel_ok_waitpid:
  assumes ok: "kernel_ok k" and run: "running k" and op: "waitpid_current frame pid ptr options k = (r, k')"
    and r: "r \<noteq> Halted" "r \<noteq> Panicked"
  shows "kernel_ok k' \<and> running k'"
proof -
  obtain res k1 where reap: "reap_child (pr_pid (processes k ! current k)) pid ptr k = (res, k1)" by fastforce
  have k1: "kernel_ok k1" "running k1" using kernel_ok_reap [OF ok run reap] by simp_all
  let ?w = "\<lambda>p. p\<lparr>pr_waiting_for := if 0 < pid then nat pid else usize_max\<rparr>"
  have k2: "kernel_ok (update_process (current k) ?w k1)"
    using kernel_ok_update [OF k1, of ?w] by (simp add: standing_def)
  show ?thesis
  proof (cases res)
    case None
    then show ?thesis using op reap r by (simp add: waitpid_current_def Let_def)
  next
    case (Some found)
    obtain child any where f: "found = (child, any)" by fastforce
    show ?thesis
    proof (cases "child = None \<and> any \<and> options AND 1 = 0")
      case True
      obtain r' s k3 where sch: "schedule_ex frame False (set_rax frame (errno 11) (update_process (current k) ?w k1)) = ((r', s), k3)"
        by (metis prod.collapse)
      have "r' = r" "k3 = k'"
        using op reap Some f True sch by (simp_all add: waitpid_current_def Let_def)
      then show ?thesis
        using kernel_ok_schedule [OF _ schedule_ex_result [OF sch]] k2 r by simp
    next
      case False
      then have "k' = set_rax frame 0 k1 \<or> (\<exists>c. k' = set_rax frame (word_of_nat c) k1) \<or> fail_call frame 10 k1 = (r, k')"
        using op reap Some f
        by (cases child; cases any) (auto simp: waitpid_current_def Let_def split: if_splits)
      then show ?thesis using k1 fail_call_ok by auto
    qed
  qed
qed

end
