(* ===== verification/Kernel_Runs.thy ===== *)
theory Kernel_Runs
  imports Process_Invariants
begin

text \<open>
  Runs of the kernel. \<open>kernel_step\<close> has one rule for every operation a system call, an
  interrupt or a fault can perform on the processes, their descriptors and the pipes (it leaves
  out the calls that only concern the display, see the comment there);
  \<open>kernel_run\<close> are the states reached from boot by any interleaving of them. A step ends in
  a frame to resume: the kernel does not continue after \<open>kernel_halt\<close> or a panic.
\<close>

section \<open>Signals and the timer\<close>

lemma kernel_ok_enter_handler:
  assumes ok: "kernel_ok k" and run: "running k"
    and op: "enter_handler frame signal handler k = (r, k')" and r: "r \<noteq> Halted"
  shows "kernel_ok k' \<and> running k'"
proof -
  have sched: "kernel_ok k'' \<and> running k''" if "schedule frame True k = (r, k'')" for k''
    using kernel_ok_schedule [OF ok that] r by simp
  have upd: "kernel_ok (set_frame frame tf (update_process (current k) (\<lambda>p. p\<lparr>pr_signal_frame := s\<rparr>) (k\<lparr>mach := m\<rparr>)))
      \<and> running (set_frame frame tf (update_process (current k) (\<lambda>p. p\<lparr>pr_signal_frame := s\<rparr>) (k\<lparr>mach := m\<rparr>)))" for tf s m
    using kernel_ok_update [of "k\<lparr>mach := m\<rparr>" "\<lambda>p. p\<lparr>pr_signal_frame := s\<rparr>"] ok run
    by (simp add: standing_def)
  show ?thesis
    using op sched upd by (auto simp: enter_handler_def Let_def split: option.splits)
qed

lemma kernel_ok_deliver_step:
  assumes ok: "kernel_ok k" and run: "running k" and op: "deliver_step frame k = (res, k1)"
  shows "res = None \<Longrightarrow> kernel_ok k1 \<and> running k1"
    and "res = Some (r, k') \<Longrightarrow> r \<noteq> Halted \<Longrightarrow> kernel_ok k' \<and> running k'"
proof -
  have upd: "kernel_ok (update_process i f k) \<and> running (update_process i f k)"
    if "\<And>p. standing (f p) = standing p" for i f
    by (rule kernel_ok_update [OF ok run that])
  note c = op [unfolded deliver_step_def Let_def]
  let ?k1 = "\<lambda>s. update_process (current k) (\<lambda>p. p\<lparr>pr_pending := pr_pending p AND NOT (signal_bit s)\<rparr>) k"
  have k1: "kernel_ok (?k1 s) \<and> running (?k1 s)" for s by (rule upd) (simp add: standing_def)
  have k2: "kernel_ok (update_process i (\<lambda>p. p\<lparr>pr_stopped := True\<rparr>) (?k1 s))" for i s
    using kernel_ok_update [of "?k1 s" "\<lambda>p. p\<lparr>pr_stopped := True\<rparr>"] k1 by (simp add: standing_def)
  show "res = None \<Longrightarrow> kernel_ok k1 \<and> running k1"
    using c k1 by (auto split: option.splits if_splits)
  assume res: "res = Some (r, k')" and r: "r \<noteq> Halted"
  have s1: "kernel_ok k'" "running k'" if "schedule frame b (?k1 s) = (r, k')" for b s
    using kernel_ok_schedule [OF _ that] k1 r by auto
  have s2: "kernel_ok k'" "running k'"
    if "schedule frame b (update_process i (\<lambda>p. p\<lparr>pr_stopped := True\<rparr>) (?k1 s)) = (r, k')" for b i s
    using kernel_ok_schedule [OF k2 that] r by auto
  have s3: "kernel_ok k'" "running k'" if "enter_handler frame s h (?k1 s) = (r, k')" for s h
    using kernel_ok_enter_handler [OF _ _ that r] k1 by auto
  show "kernel_ok k' \<and> running k'"
  proof (cases "next_pending_signal (pr_pending (current_process k))")
    case None
    then show ?thesis using c res ok run by (auto split: if_splits)
  next
    case (Some s)
    then have "(r, k') \<in> {(Resume frame, k), schedule frame True (?k1 s),
        schedule frame False (update_process (current (?k1 s)) (\<lambda>p. p\<lparr>pr_stopped := True\<rparr>) (?k1 s)),
        enter_handler frame s (pr_actions (current_process k) ! unat s) (?k1 s)}"
      using c res by (auto split: if_splits)
    then show ?thesis
      using ok run s1 s2 s3 by (auto dest: sym)
  qed
qed

lemma kernel_ok_deliver_loop:
  "kernel_ok k \<Longrightarrow> running k \<Longrightarrow> deliver_loop n frame k = Some (r, k') \<Longrightarrow> r \<noteq> Halted \<Longrightarrow> kernel_ok k' \<and> running k'"
proof (induction n frame k rule: deliver_loop.induct)
  case (2 turns frame k)
  obtain res k1 where s: "deliver_step frame k = (res, k1)" by fastforce
  show ?case
  proof (cases res)
    case None
    then have "deliver_loop turns frame k1 = Some (r, k')" using 2 s by simp
    moreover have "kernel_ok k1 \<and> running k1" using kernel_ok_deliver_step(1) [OF "2.prems"(1,2) s] None by simp
    ultimately show ?thesis using "2.IH" [OF s [symmetric]] None s "2.prems" by auto
  next
    case (Some a)
    then have "res = Some (r, k')" using 2 s by simp
    then show ?thesis using kernel_ok_deliver_step(2) [OF "2.prems"(1,2) s] "2.prems" by blast
  qed
qed simp

lemma kernel_ok_timer:
  assumes ok: "kernel_ok k" and run: "running k" and op: "timer_tick frame k = (r, k')" and r: "r \<noteq> Halted"
  shows "kernel_ok k' \<and> running k'"
proof -
  let ?k1 = "update_process (current k) (\<lambda>p. p\<lparr>pr_quantum := pr_quantum p + 1\<rparr>) k"
  let ?k2 = "update_process (current ?k1) (\<lambda>p. p\<lparr>pr_quantum := 0\<rparr>) ?k1"
  have k1: "kernel_ok ?k1 \<and> running ?k1" by (rule kernel_ok_update [OF ok run]) (simp add: standing_def)
  then have k2: "kernel_ok ?k2" using kernel_ok_update [of ?k1 "\<lambda>p. p\<lparr>pr_quantum := 0\<rparr>"] by (simp add: standing_def)
  have "(r, k') \<in> {(Resume frame, k), (Resume frame, ?k1), schedule frame False ?k2}"
    using op by (auto simp: timer_tick_def Let_def split: if_splits)
  then show ?thesis
    using ok run k1 kernel_ok_schedule [OF k2, of frame False r k'] r by auto
qed

section \<open>Reads and writes of a pipe\<close>

lemma end_count_read:
  assumes "read_pipe i out ps = (r, out', ps')" shows "end_count ps' = end_count ps"
proof -
  have loop: "readers (fst (read_loop n off p out)) = readers p \<and> writers (fst (read_loop n off p out)) = writers p" for n off p out
    by (induction n off p out rule: read_loop.induct) simp_all
  show ?thesis
    using assms
    by (auto simp: read_pipe_def get_pipe_def end_count_def fun_eq_iff Let_def nth_list_update
      split: if_splits sum.splits prod.splits) (metis fst_conv loop)+
qed

lemma end_count_write:
  assumes "write_pipe i input ps = (r, ps')" shows "end_count ps' = end_count ps"
  using assms
  by (auto simp: write_pipe_def get_pipe_def end_count_def fun_eq_iff Let_def nth_list_update
    split: if_splits sum.splits)

lemma kernel_ok_pipes:
  "kernel_ok k \<Longrightarrow> pipes_ok ps \<Longrightarrow> end_count ps = end_count (pipes k) \<Longrightarrow> kernel_ok (k\<lparr>pipes := ps\<rparr>)"
  by (simp add: kernel_ok_def references_ok_def shaped_def)

section \<open>Descriptor calls\<close>

lemma processes_descriptor_calls [simp]:
  "processes (snd (close_descriptor fd k)) = processes k"
  "processes (snd (allocate_descriptor d k)) = processes k"
  "processes (snd (update_descriptor fd d k)) = processes k"
  "processes (snd (duplicate_descriptor fd k)) = processes k"
  "processes (snd (duplicate_descriptor_to fd target k)) = processes k"
  "current (snd (close_descriptor fd k)) = current k"
  "current (snd (allocate_descriptor d k)) = current k"
  "current (snd (update_descriptor fd d k)) = current k"
  "current (snd (duplicate_descriptor fd k)) = current k"
  "current (snd (duplicate_descriptor_to fd target k)) = current k"
  by (auto simp: close_descriptor_def allocate_descriptor_def update_descriptor_def duplicate_descriptor_def
    duplicate_descriptor_to_def Let_def set_current_table_def split: prod.splits sum.splits option.splits)

lemma kernel_ok_descriptor_call:
  assumes "kernel_ok k" "running k" "references_ok k'" "processes k' = processes k" "current k' = current k"
  shows "kernel_ok k' \<and> running k'"
  using assms by (simp add: kernel_ok_def running_def current_process_def)

lemma kernel_ok_sys_pipe:
  assumes "kernel_ok k" "running k" "sys_pipe frame k = (r, k')"
  shows "kernel_ok k' \<and> running k'"
proof -
  have keep: "processes (rollback_end fd k) = processes k" for fd k
    by (cases fd) (simp_all add: rollback_end_def)
  have rax: "processes (set_rax a v k) = processes k" for a v k by (simp add: set_rax_def)
  obtain res ps where c: "create_pipe (pipes k) = (res, ps)" by fastforce
  obtain fd2 k2 where a2: "allocate_descriptor (pipe_descriptor PipeRead (projr res)) (k\<lparr>pipes := ps\<rparr>) = (fd2, k2)"
    by fastforce
  obtain fd3 k3 where a3: "allocate_descriptor (pipe_descriptor PipeWrite (projr res)) k2 = (fd3, k3)" by fastforce
  have "processes k2 = processes k"
    using processes_descriptor_calls(2) [of "pipe_descriptor PipeRead (projr res)" "k\<lparr>pipes := ps\<rparr>"] by (simp add: a2)
  moreover have "processes k3 = processes k2"
    using processes_descriptor_calls(2) [of "pipe_descriptor PipeWrite (projr res)" k2] by (simp add: a3)
  ultimately have k3: "processes k3 = processes k" by simp
  have "processes k' = processes k"
  proof (cases res)
    case (Inl e)
    then show ?thesis using assms(3) c by (auto simp: sys_pipe_def rax)
  next
    case (Inr n)
    note op = assms(3) [unfolded sys_pipe_def c Inr, simplified, unfolded a2 [unfolded Inr, simplified], simplified,
      unfolded a3 [unfolded Inr, simplified], simplified]
    show ?thesis
    proof (cases "fd2 = None \<or> fd3 = None")
      case True
      then show ?thesis using op by (cases fd2; cases fd3) (auto simp: fail_call_def rax keep k3 Let_def)
    next
      case False
      then obtain r1 w1 where rw: "fd2 = Some r1" "fd3 = Some w1" by auto
      obtain cp k4 where cp: "copy_to_current_user (tf_rdi (trap_frames k3 frame))
          (to_le 4 (word_of_nat r1 :: u32) @ to_le 4 (word_of_nat w1 :: u32)) k3 = (cp, k4)" by fastforce
      then have "processes k4 = processes k" using copy_keeps k3 by fastforce
      then show ?thesis
        using op rw cp by (cases cp) (auto simp: fail_call_def rax split: bool.splits)
    qed
  qed
  then show ?thesis
    using references_sys_pipe [OF _ assms(2,3)] assms(1) by (simp add: kernel_ok_def)
qed

section \<open>Steps and runs\<close>

text \<open>
  The steps are the calls on processes, descriptors, pipes, signals, the heap and identities, the
  timer, faults and the delivery of signals; \<open>store\<close> stands for every handler that only copies a
  result to the caller. \<open>SYS_FB_MAP\<close>, \<open>SYS_SURFACE_CREATE\<close> and \<open>SYS_SURFACE_SNAPSHOT\<close>, which map
  shared memory and touch no process record, descriptor or pipe, are not among them; theory
  \<open>Memory_Isolation\<close> has them as further steps.
\<close>

inductive kernel_step :: "cpu \<Rightarrow> kernel \<Rightarrow> kernel \<Rightarrow> bool" for fninit where
  fork: "fork_current fninit frame k = (Resume a, k') \<Longrightarrow> kernel_step fninit k k'"
| spawn: "spawn_current_with_io fninit fs path args env io frame k = (Resume a, k') \<Longrightarrow> kernel_step fninit k k'"
| execve: "execve_current fninit fs path args env frame k = (Resume a, k') \<Longrightarrow> kernel_step fninit k k'"
| waitpid: "waitpid_current frame pid ptr options k = (Resume a, k') \<Longrightarrow> kernel_step fninit k k'"
| yield: "yield_current frame k = (Resume a, k') \<Longrightarrow> kernel_step fninit k k'"
| exit: "exit_current frame status k = (Resume a, k') \<Longrightarrow> kernel_step fninit k k'"
| fault: "terminate_faulting_process k = (Resume a, k') \<Longrightarrow> kernel_step fninit k k'"
| timer: "timer_tick frame k = (Resume a, k') \<Longrightarrow> kernel_step fninit k k'"
| deliver: "deliver_pending_signal frame k = Some (Resume a, k') \<Longrightarrow> kernel_step fninit k k'"
| signal: "send_signal pid sig k = (r, k') \<Longrightarrow> kernel_step fninit k k'"
| action: "set_signal_action sig handler restorer k = (Some r, k') \<Longrightarrow> kernel_step fninit k k'"
| sigreturn: "restore_signal_context frame k = (ok, k') \<Longrightarrow> kernel_step fninit k k'"
| pipe: "sys_pipe frame k = (Resume a, k') \<Longrightarrow> kernel_step fninit k k'"
| pipe_read: "read_pipe i out (pipes k) = (r, out', ps) \<Longrightarrow> kernel_step fninit k (k\<lparr>pipes := ps\<rparr>)"
| pipe_write: "write_pipe i input (pipes k) = (r, ps) \<Longrightarrow> kernel_step fninit k (k\<lparr>pipes := ps\<rparr>)"
| close: "close_descriptor fd k = (r, k') \<Longrightarrow> kernel_step fninit k k'"
| dup: "duplicate_descriptor fd k = (r, k') \<Longrightarrow> kernel_step fninit k k'"
| dup2: "duplicate_descriptor_to fd target k = (r, k') \<Longrightarrow> kernel_step fninit k k'"
| open_file: "allocate_descriptor (file_descriptor path flags offset) k = (r, k') \<Longrightarrow> kernel_step fninit k k'"
| seek: "get_descriptor fd k = Some d \<Longrightarrow> fd_kind d' = fd_kind d \<Longrightarrow> fd_pipe d' = fd_pipe d \<Longrightarrow>
    update_descriptor fd d' k = (r, k') \<Longrightarrow> kernel_step fninit k k'"
| heap: "grow_heap increment k = (r, k') \<Longrightarrow> kernel_step fninit k k'"
| store: "copy_to_current_user address bytes k = (Some r, k') \<Longrightarrow> kernel_step fninit k k'"
| login: "authenticate_current users_db username password target k = (r, k') \<Longrightarrow> kernel_step fninit k k'"
| save_fpu: "kernel_step fninit k (save_current_fpu k)"
| restore_fpu: "kernel_step fninit k (restore_fpu_for frame k)"

lemma same_references_grow: "grow_heap increment k = (r, k') \<Longrightarrow> same_references k k'"
proof -
  have "same_references k (update_process i (\<lambda>p. p\<lparr>pr_heap_end := e\<rparr>) (k\<lparr>mach := m\<rparr>))" for i e m
    by (rule same_references_trans [OF _ same_references_update]) (simp_all add: standing_def)
  then show "grow_heap increment k = (r, k') \<Longrightarrow> same_references k k'"
    by (auto simp: grow_heap_def Let_def split: if_splits option.splits prod.splits bool.splits)
qed

lemma same_references_signal: "send_signal pid sig k = (r, k') \<Longrightarrow> same_references k k'"
  by (auto simp: send_signal_def Let_def standing_def split: if_splits option.splits intro!: same_references_update)

lemma same_references_action: "set_signal_action sig h rs k = (r, k') \<Longrightarrow> same_references k k'"
  by (auto simp: set_signal_action_def Let_def standing_def split: if_splits option.splits intro!: same_references_update)

lemma same_references_sigreturn: "restore_signal_context frame k = (ok, k') \<Longrightarrow> same_references k k'"
  by (auto simp: restore_signal_context_def standing_def split: option.splits
    intro!: same_references_trans [OF same_references_update same_references_frame(1)])

lemma same_references_login: "authenticate_current db u p target k = (r, k') \<Longrightarrow> same_references k k'"
  by (auto simp: authenticate_current_def become_def Let_def standing_def split: if_splits option.splits
    intro!: same_references_update)

lemma same_references_fpu: "same_references k (save_current_fpu k)" "same_references k (restore_fpu_for frame k)"
  unfolding save_current_fpu_def restore_fpu_for_def
  by (auto simp: standing_def intro!: same_references_update)

lemma referenced_end_cong:
  "fd_kind d' = fd_kind d \<Longrightarrow> fd_pipe d' = fd_pipe d \<Longrightarrow> referenced_end d' = referenced_end d"
  by (simp add: referenced_end_def split: descriptor_kind.split)

lemma kernel_step_ok: "kernel_step fninit k k' \<Longrightarrow> kernel_ok k \<Longrightarrow> running k \<Longrightarrow> kernel_ok k' \<and> running k'"
proof (induction rule: kernel_step.induct)
  case (fork frame k a k')
  then show ?case using kernel_ok_fork by blast
next
  case (spawn fs path args env io frame k a k')
  then show ?case using kernel_ok_spawn by blast
next
  case (execve fs path args env frame k a k')
  then show ?case using kernel_ok_execve by blast
next
  case (waitpid frame pid ptr options k a k')
  then show ?case using kernel_ok_waitpid by blast
next
  case (yield frame k a k')
  then show ?case using kernel_ok_schedule unfolding yield_current_def by blast
next
  case (exit frame status k a k')
  then show ?case
    using kernel_ok_schedule [of "update_process (current k) (\<lambda>p. p\<lparr>pr_exit_status := status\<rparr>) k" frame True "Resume a" k']
      kernel_ok_update [of k "\<lambda>p. p\<lparr>pr_exit_status := status\<rparr>" "current k"]
    by (simp add: exit_current_def standing_def)
next
  case (fault k a k')
  then show ?case using kernel_ok_schedule [of k _ True "Resume a" k']
    by (auto simp: terminate_faulting_process_def Let_def split: if_splits)
next
  case (timer frame k a k')
  then show ?case using kernel_ok_timer by blast
next
  case (deliver frame k a k')
  then show ?case using kernel_ok_deliver_loop [of k 8 frame "Resume a" k']
    by (auto simp: deliver_pending_signal_def split: if_splits)
next
  case (pipe frame k a k')
  then show ?case using kernel_ok_sys_pipe by blast
next
  case (pipe_read i out k r out' ps)
  then show ?case
    using end_count_read pipes_ok_read kernel_ok_pipes by (auto simp: kernel_ok_def references_ok_def shaped_def)
next
  case (pipe_write i input k r ps)
  then show ?case
    using end_count_write pipes_ok_write kernel_ok_pipes by (auto simp: kernel_ok_def references_ok_def shaped_def)
next
  case (close fd k r k')
  then show ?case
    using kernel_ok_descriptor_call [of k "snd (close_descriptor fd k)"] references_close [of k fd]
      processes_descriptor_calls(1,6) [of fd k]
    by (simp add: kernel_ok_def)
next
  case (dup fd k r k')
  then show ?case
    using kernel_ok_descriptor_call [of k "snd (duplicate_descriptor fd k)"] references_duplicate [of k fd]
      processes_descriptor_calls(4,9) [of fd k] by (simp add: kernel_ok_def)
next
  case (dup2 fd target k r k')
  then show ?case
    using kernel_ok_descriptor_call [of k "snd (duplicate_descriptor_to fd target k)"]
      references_duplicate_to [of k fd target] processes_descriptor_calls(5,10) [of fd target k]
    by (simp add: kernel_ok_def)
next
  case (open_file path flags offset k r k')
  have "referenced_end (file_descriptor path flags offset) = None"
    by (simp add: file_descriptor_def new_descriptor_def Let_def)
  then show ?case
    using open_file kernel_ok_descriptor_call [of k "snd (allocate_descriptor (file_descriptor path flags offset) k)"]
      references_allocate [of k "file_descriptor path flags offset"] processes_descriptor_calls(2,7) [of "file_descriptor path flags offset" k]
    by (simp add: kernel_ok_def)
next
  case (seek fd k d d' r k')
  then have "referenced_end d' = referenced_end (current_table k ! fd)"
    by (intro referenced_end_cong) (auto simp: get_descriptor_def split: if_splits)
  then show ?case
    using seek kernel_ok_descriptor_call [of k "snd (update_descriptor fd d' k)"]
      references_update [of k d' fd] processes_descriptor_calls(3,8) [of fd d' k]
    by (simp add: kernel_ok_def)
next
  case (store address bytes k r k')
  then show ?case using copy_keeps by fastforce
next
  case (signal pid sig k r k')
  from same_references_ok_running [OF same_references_signal [OF signal(1)] signal(2,3)] show ?case .
next
  case (action sig handler restorer k r k')
  from same_references_ok_running [OF same_references_action [OF action(1)] action(2,3)] show ?case .
next
  case (sigreturn frame k ok k')
  from same_references_ok_running [OF same_references_sigreturn [OF sigreturn(1)] sigreturn(2,3)] show ?case .
next
  case (heap increment k r k')
  from same_references_ok_running [OF same_references_grow [OF heap(1)] heap(2,3)] show ?case .
next
  case (login users_db username password target k r k')
  from same_references_ok_running [OF same_references_login [OF login(1)] login(2,3)] show ?case .
next
  case (save_fpu k)
  from same_references_ok_running [OF same_references_fpu(1) save_fpu(1,2)] show ?case .
next
  case (restore_fpu k frame)
  from same_references_ok_running [OF same_references_fpu(2) restore_fpu(1,2)] show ?case .
qed

section \<open>Boot\<close>

text \<open>
  A run starts in a state without pipes in which the current process is alive; \<open>booted_boot\<close>
  shows that what \<open>main\<close> does, \<open>init\<close> with \<open>/sbin/init\<close> as process 1 and \<open>start\<close>, ends in one.
\<close>

definition booted :: "kernel \<Rightarrow> bool" where
  "booted k \<longleftrightarrow> shaped k \<and> pipes k = initial_pipes \<and> running k \<and> unique_pids (processes k) \<and>
     (\<forall>t \<in> set (tables k). \<forall>d \<in> set t. referenced_end d = None)"

inductive kernel_run :: "cpu \<Rightarrow> kernel \<Rightarrow> bool" for fninit where
  start: "booted k \<Longrightarrow> kernel_run fninit k"
| step: "kernel_run fninit k \<Longrightarrow> kernel_step fninit k k' \<Longrightarrow> kernel_run fninit k'"

definition booting :: "kernel \<Rightarrow> kernel" where
  "booting k = k\<lparr>processes := replicate max_processes empty_process, slot_count := 0, current := 0,
     tables := replicate max_processes new_table\<rparr>"

lemma end_count_initial: "end_count initial_pipes = (\<lambda>e. 0)"
  by (auto simp: end_count_def initial_pipes_def fun_eq_iff)

lemma booted_ok:
  assumes "booted k" shows "kernel_ok k \<and> running k"
proof -
  have none: "held t = (\<lambda>e. 0)" if "t \<in> set (tables k)" for t
    using assms that by (auto simp: booted_def held_def fun_eq_iff)
  then have zero: "all_held (tables k) = (\<lambda>e. 0)" by (auto simp: all_held_def fun_eq_iff)
  have b: "shaped k" "pipes k = initial_pipes" "running k" "unique_pids (processes k)"
    using assms by (simp_all add: booted_def)
  have "held (tables k ! slot) = (\<lambda>e. 0)" if "slot < max_processes" for slot
    using that shapedD(1) [OF b(1)] by (intro none nth_mem) simp
  then show ?thesis
    using b by (simp add: kernel_ok_def references_ok_def pipes_ok_initial end_count_initial zero)
qed

lemma kernel_ok_booting:
  assumes "pipes k = initial_pipes" shows "kernel_ok (booting k)"
proof -
  have "end_count initial_pipes = (\<lambda>e. 0)" by (rule end_count_initial)
  moreover have "all_held (replicate n new_table) = (\<lambda>e. 0)" for n
    by (rule ext) (simp add: all_held_def held_new_table sum_list_replicate)
  ultimately show ?thesis
    using assms
    by (auto simp: kernel_ok_def references_ok_def shaped_def booting_def pipes_ok_initial held_new_table
      unique_pids_def empty_process_def max_processes_def)
qed

lemma position_first: "position P (x # xs) = (if P x then Some 0 else map_option Suc (position P xs))"
  by (cases "position P xs") simp_all

lemma booting_free: "free_slot (booting k) = Some 0" "next_pid (booting k) = 1"
proof -
  have "replicate max_processes x = x # replicate 15 x" for x :: process
    by (simp add: max_processes_def numeral_eq_Suc)
  then show "free_slot (booting k) = Some 0"
    by (simp add: free_slot_def booting_def position_first empty_process_def)
  have "fold max (replicate n 0) (0 :: nat) = 0" for n by (induction n) simp_all
  then show "next_pid (booting k) = 1" by (simp add: next_pid_def booting_def map_replicate_const empty_process_def)
qed

lemma new_table_no_ends: "\<forall>d \<in> set new_table. referenced_end d = None"
  using new_table_vacant by (auto simp: in_set_conv_nth)

lemma booted_boot:
  assumes fresh: "pipes k0 = initial_pipes" and init: "init_processes fninit [(img, 1)] k0 = (Inr (), k1)"
    and start: "start_processes k1 = (Resume a, k)"
  shows "booted k"
proof -
  let ?b = "booting k0"
  have take1: "take max_processes [x] = [x]" for x :: "u8 list \<times> nat" by (simp add: max_processes_def)
  obtain res kl where l: "load_elf fninit img 1 0 [init_path] [] False init_path ?b = (res, kl)" by fastforce
  then have l': "load_elf_at fninit img 1 [init_path] [] False init_path (top_of_slot ?b 0) ?b = (res, kl)"
    by (simp add: load_elf_def)
  obtain p where res: "res = Inr p"
    using init l by (cases res) (auto simp: init_processes_def Let_def take1 booting_def)
  obtain m tf fp where kl: "kl = ?b\<lparr>mach := m, trap_frames := tf, live_fpu := fp\<rparr>"
    using load_elf_at_frame(1) [OF l'] by blast
  have p: "\<not> idle p" "pr_pid p = 1" using load_elf_at_frame(2) [OF l', of p] res by auto
  let ?k2 = "kl\<lparr>tables := (tables kl)[0 := new_table], pipes := pipes kl, processes := (processes kl)[0 := p]\<rparr>"
  have kl_ok: "kernel_ok kl" using kernel_ok_booting [OF fresh] by (simp add: kl)
  have "free_slot kl = Some 0" "next_pid kl = 1"
    using booting_free [of k0] by (simp_all add: kl free_slot_def next_pid_def)
  then have "kernel_ok ?k2"
    using kernel_ok_new_process [OF kl_ok, of 0 new_table "pipes kl" p] p kl_ok
    by (simp add: held_new_table kernel_ok_def references_ok_def)
  moreover have "(tables kl)[0 := new_table] = tables kl" by (simp add: kl booting_def list_update_same_conv max_processes_def)
  ultimately have k2: "kernel_ok (kl\<lparr>processes := (processes kl)[0 := p]\<rparr>)" by simp
  have k1: "k1 = kl\<lparr>processes := (processes kl)[0 := p], slot_count := 1\<rparr>"
    using init l res by (auto simp: init_processes_def Let_def take1 booting_def kl)
  have "k = k1\<lparr>current := 0, kernel_stack := stack_top (k1\<lparr>current := 0\<rparr>) 0,
      mach := switch_space (the (pr_space (processes k1 ! 0))) (mach k1)\<rparr>"
    using start by (auto simp: start_processes_def Let_def split: option.splits)
  moreover have "current k1 = 0" by (simp add: k1 kl booting_def)
  moreover have "processes k1 ! 0 = p" by (simp add: k1 kl booting_def max_processes_def)
  ultimately show ?thesis
    using k2 p fresh new_table_no_ends
    by (auto simp: booted_def k1 kl booting_def kernel_ok_def references_ok_def shaped_def running_def
      current_process_def)
qed

lemma kernel_run_ok: "kernel_run fninit k \<Longrightarrow> kernel_ok k \<and> running k"
  by (induction rule: kernel_run.induct) (use booted_ok kernel_step_ok in blast)+

section \<open>The properties\<close>

text \<open>How many descriptors of all processes name one end of a pipe.\<close>

definition end_descriptors :: "descriptor_kind \<Rightarrow> nat \<Rightarrow> kernel \<Rightarrow> nat" where
  "end_descriptors kd i k = length (filter (\<lambda>d. fd_kind d = kd \<and> fd_pipe d = i) (concat (tables k)))"

lemma all_held_descriptors:
  "end_descriptors PipeRead i k = all_held (tables k) (True, i)"
  "end_descriptors PipeWrite i k = all_held (tables k) (False, i)"
proof -
  have one: "(referenced_end d = Some (True, i)) = (fd_kind d = PipeRead \<and> fd_pipe d = i)"
    "(referenced_end d = Some (False, i)) = (fd_kind d = PipeWrite \<and> fd_pipe d = i)" for d
    by (auto simp: referenced_end_def split: descriptor_kind.splits)
  have table: "held t (True, i) = length (filter (\<lambda>d. fd_kind d = PipeRead \<and> fd_pipe d = i) t)"
    "held t (False, i) = length (filter (\<lambda>d. fd_kind d = PipeWrite \<and> fd_pipe d = i) t)" for t
    by (induction t) (simp_all add: one)
  have "length (filter (\<lambda>d. fd_kind d = PipeRead \<and> fd_pipe d = i) (concat ts)) = all_held ts (True, i)"
    "length (filter (\<lambda>d. fd_kind d = PipeWrite \<and> fd_pipe d = i) (concat ts)) = all_held ts (False, i)" for ts
    by (induction ts) (simp_all add: all_held_def table)
  then show "end_descriptors PipeRead i k = all_held (tables k) (True, i)"
    "end_descriptors PipeWrite i k = all_held (tables k) (False, i)"
    by (simp_all add: end_descriptors_def)
qed

text \<open>
  C3. In every run of the kernel, whatever processes fork, spawn, execute, duplicate, close,
  die or are collected, the readers and writers of each pipe are the numbers of descriptors
  that name its ends in the tables of all processes, and a pipe's slot is in use exactly while
  there is such a descriptor; so a read of an empty pipe reports end of file exactly when no
  process can write to it any more.
\<close>

theorem pipe_ends_counted:
  assumes "kernel_run fninit k" and "i < max_pipes"
  shows "readers (pipes k ! i) = end_descriptors PipeRead i k \<and>
    writers (pipes k ! i) = end_descriptors PipeWrite i k \<and>
    pipe_open (pipes k ! i) = (0 < end_descriptors PipeRead i k + end_descriptors PipeWrite i k) \<and>
    (pipe_open (pipes k ! i) \<longrightarrow> ring_length (pipes k ! i) = 0 \<longrightarrow>
      fst (read_pipe i out (pipes k)) =
        (if end_descriptors PipeWrite i k = 0 then Inr 0 else Inl WouldBlock))"
proof -
  have ok: "pipes_ok (pipes k)" "end_count (pipes k) = all_held (tables k)"
    using kernel_run_ok [OF assms(1)] by (simp_all add: kernel_ok_def references_ok_def)
  then have i: "i < length (pipes k)" using assms(2) by (simp add: pipes_ok_length)
  have "readers (pipes k ! i) = end_descriptors PipeRead i k"
    "writers (pipes k ! i) = end_descriptors PipeWrite i k"
    using i by (simp_all add: all_held_descriptors flip: ok(2)) (simp_all add: end_count_def)
  then show ?thesis
    using i closed_pipe_counts [OF ok(1) i] by (simp add: read_pipe_def get_pipe_def)
qed

text \<open>
  C6. In every run of the kernel the process that runs is alive, no two live processes or
  zombies share a pid, and a zombie or free slot holds no end of any pipe.
\<close>

theorem processes_well_formed:
  assumes "kernel_run fninit k"
  shows "pr_active (current_process k) \<and> \<not> pr_zombie (current_process k) \<and>
    (\<forall>i < max_processes. \<forall>j < max_processes. pr_active (processes k ! i) \<longrightarrow> pr_active (processes k ! j) \<longrightarrow>
      pr_pid (processes k ! i) = pr_pid (processes k ! j) \<longrightarrow> i = j) \<and>
    (\<forall>i < max_processes. \<not> pr_active (processes k ! i) \<or> pr_zombie (processes k ! i) \<longrightarrow>
      (\<forall>d \<in> set (tables k ! i). fd_kind d \<noteq> PipeRead \<and> fd_kind d \<noteq> PipeWrite))"
proof -
  have ok: "kernel_ok k" "running k" using kernel_run_ok [OF assms] by simp_all
  have len: "length (processes k) = max_processes" using shapedD(1) [OF kernel_okD(1) [OF ok(1)]] by simp
  have none: "fd_kind d \<noteq> PipeRead \<and> fd_kind d \<noteq> PipeWrite" if "held t = (\<lambda>e. 0)" "d \<in> set t" for t d
  proof -
    have "held t e = 0" for e using that(1) by simp
    then have "referenced_end d \<noteq> Some e" for e using that(2) by (fastforce simp: held_def)
    then have "referenced_end d = None" by (cases "referenced_end d") auto
    then show ?thesis by (auto simp: referenced_end_def)
  qed
  show ?thesis
    using ok none len
    by (auto simp: running_def idle_def kernel_ok_def unique_pids_def references_ok_def)
qed

section \<open>Examples\<close>

text \<open>A machine whose one page table maps every page to itself, for the examples.\<close>

definition looped_machine :: machine where
  "looped_machine = \<lparr>allocator = fresh_allocator 0,
     ram = (\<lambda>a. if a AND 7 = 0 then 7 else if a AND 7 = 1 then 0x10 else 0), cr3 = 0x1000\<rparr>"

lemma looped_translate: "translate looped_machine \<lparr>root_physical = 0x1000\<rparr> 0 = Some 0x1000"
proof -
  have upt: "[0..<8] = [0, 1, 2, 3, 4, 5, 6, 7 :: nat]" by (simp add: upt_rec)
  have "load_entry looped_machine 0x1000 0 = 0x1007"
    by (simp add: load_entry_def load_u64_def load_bytes_def entry_pointer_def looped_machine_def upt)
  moreover have "table_pointer looped_machine 0x1000 = Some 0x1000"
    by (simp add: table_pointer_def phys_to_virt_def looped_machine_def fresh_allocator_def checked_add_def)
  moreover have "table_indices 0 = [0, 0, 0, 0]" by (simp add: table_indices_def)
  ultimately show ?thesis
    by (simp add: translate_def present_def entry_present_def entry_user_def address_mask_def table_pointer_def)
qed

definition zero_frame :: trap_frame where
  "zero_frame = entry_frame \<lparr>prog_space = \<lparr>root_physical = 0x1000\<rparr>, prog_entry = 0, prog_stack = 0, prog_argv = 0,
     prog_envp = 0\<rparr> [] []"

definition sample_process :: process where
  "sample_process = empty_process\<lparr>pr_pid := 1, pr_active := True, pr_space := Some \<lparr>root_physical = 0x1000\<rparr>\<rparr>"

definition sample_kernel :: kernel where
  "sample_kernel = \<lparr>processes = sample_process # replicate 15 empty_process, slot_count = 1, current = 0,
     tables = replicate max_processes new_table, pipes = initial_pipes, surface_state = initial_surfaces,
     input_state = new_input_queue, mach = looped_machine, trap_frames = (\<lambda>a. zero_frame),
     live_fpu = [], kernel_stack = 0, console_active = True, stacks_base = 0x100000\<rparr>"

lemma booted_sample: "booted sample_kernel"
proof -
  have "unique_pids (processes sample_kernel)"
    by (auto simp: unique_pids_def sample_kernel_def nth_Cons' empty_process_def split: if_splits)
  then show ?thesis
    using new_table_no_ends
    by (auto simp: booted_def shaped_def sample_kernel_def max_processes_def running_def current_process_def
      idle_def sample_process_def empty_process_def)
qed


lemma sample_pipe: "fst (sys_pipe 8 sample_kernel) = Resume 8 \<and> pipe_open (pipes (snd (sys_pipe 8 sample_kernel)) ! 0)"
proof -
  let ?ps = "initial_pipes[0 := empty_pipe\<lparr>pipe_open := True, readers := 1, writers := 1\<rparr>]"
  have c: "create_pipe (pipes sample_kernel) = (Inr 0, ?ps)"
    by (simp add: create_pipe_def sample_kernel_def initial_pipes_def max_pipes_def numeral_eq_Suc)
  have r: "allocate_in d new_table = (Some 3, new_table[3 := d])" for d
    by (simp add: allocate_in_def new_table_def max_open_fds_def upt_rec)
  have w: "allocate_in d (new_table[3 := pipe_descriptor PipeRead 0]) = (Some 4, new_table[3 := pipe_descriptor PipeRead 0, 4 := d])" for d
    by (simp add: allocate_in_def new_table_def max_open_fds_def upt_rec pipe_descriptor_def new_descriptor_def)
  define k1 where "k1 = sample_kernel\<lparr>pipes := ?ps\<rparr>"
  define k2 where "k2 = set_current_table (new_table[3 := pipe_descriptor PipeRead 0]) k1"
  define k3 where "k3 = set_current_table (new_table[3 := pipe_descriptor PipeRead 0, 4 := pipe_descriptor PipeWrite 0]) k2"
  have a1: "allocate_descriptor (pipe_descriptor PipeRead 0) k1 = (Some 3, k2)"
    by (simp add: allocate_descriptor_def k2_def k1_def r current_table_def sample_kernel_def max_processes_def)
  have "current_table k2 = new_table[3 := pipe_descriptor PipeRead 0]"
    by (simp add: k2_def k1_def current_table_def set_current_table_def sample_kernel_def max_processes_def)
  then have a2: "allocate_descriptor (pipe_descriptor PipeWrite 0) k2 = (Some 4, k3)"
    by (simp add: allocate_descriptor_def k3_def w)
  have c3: "mach k3 = looped_machine" "pr_space (current_process k3) = Some \<lparr>root_physical = 0x1000\<rparr>"
    "trap_frames k3 8 = zero_frame" "pipes k3 = ?ps"
    by (simp_all add: k3_def k2_def k1_def set_current_table_def current_process_def sample_kernel_def sample_process_def)
  have loop: "fst (copy_in_loop \<lparr>root_physical = 0x1000\<rparr> 0 bs 0 looped_machine)" if "length bs = 8" for bs
    using that by (simp add: copy_in_loop.simps [of _ _ _ 0] copy_in_loop.simps [of _ _ _ "min x y" for x y] checked_add_def looped_translate page_room_unat)
      (simp add: copy_in_loop.simps)
  obtain m where m: "copy_to_current_user 0 (to_le 4 (3 :: u32) @ to_le 4 (4 :: u32)) k3 = (Some True, k3\<lparr>mach := m\<rparr>)"
    using loop [of "to_le 4 (3 :: u32) @ to_le 4 (4 :: u32)"]
    by (cases "copy_in_loop \<lparr>root_physical = 0x1000\<rparr> 0 (to_le 4 (3 :: u32) @ to_le 4 (4 :: u32)) 0 looped_machine")
      (auto simp: copy_to_current_user_def c3)
  have "sys_pipe 8 sample_kernel = (Resume 8, set_rax 8 0 (k3\<lparr>mach := m\<rparr>))"
    using m by (simp add: sys_pipe_def c a1 [unfolded k1_def] a2 c3 zero_frame_def entry_frame_def del: One_nat_def)
  then show ?thesis by (simp add: set_rax_def set_frame_def c3 initial_pipes_def max_pipes_def)
qed

lemma sample_run: "kernel_run (\<lambda>l. l) (snd (sys_pipe 8 sample_kernel))"
proof (rule kernel_run.step [OF kernel_run.start [OF booted_sample]])
  show "kernel_step (\<lambda>l. l) sample_kernel (snd (sys_pipe 8 sample_kernel))"
    using sample_pipe by (intro kernel_step.pipe [of 8 _ 8]) (simp add: prod_eq_iff)
qed

theorem pipe_ends_counted_witness:
  "\<exists>k. kernel_run (\<lambda>l. l) k \<and> 0 < max_pipes \<and> pipe_open (pipes k ! 0) \<and>
     0 < end_descriptors PipeRead 0 k + end_descriptors PipeWrite 0 k"
proof (intro exI conjI)
  show pos: "0 < max_pipes" by (simp add: max_pipes_def)
  show "pipe_open (pipes (snd (sys_pipe 8 sample_kernel)) ! 0)" using sample_pipe by simp
  then show "0 < end_descriptors PipeRead 0 (snd (sys_pipe 8 sample_kernel)) +
      end_descriptors PipeWrite 0 (snd (sys_pipe 8 sample_kernel))"
    using pipe_ends_counted [OF sample_run pos, THEN conjunct2, THEN conjunct2, THEN conjunct1] by simp
qed (rule sample_run)

theorem processes_well_formed_witness:
  "kernel_run (\<lambda>l. l) (snd (sys_pipe 8 sample_kernel)) \<and>
   pr_active (current_process (snd (sys_pipe 8 sample_kernel)))"
  using processes_well_formed [OF sample_run] sample_run by blast

end
