(* ===== verification/Isolation.thy ===== *)
theory Isolation
  imports Kernel_Runs
begin

text \<open>
  Isolation of the processes: what one process does leaves the record and the descriptors of
  every other live process alone, but for the signals it sends and for waking a process that
  waits for it.
\<close>

section \<open>What may change\<close>

definition kept :: "nat \<Rightarrow> process \<Rightarrow> process \<Rightarrow> bool" where
  "kept pid p p' \<longleftrightarrow> p' = p \<or> pr_waiting_for p = pid \<and> p' = p\<lparr>pr_waiting_for := 0\<rparr>"

definition others_kept :: "kernel \<Rightarrow> kernel \<Rightarrow> bool" where
  "others_kept k k' \<longleftrightarrow> length (processes k') = length (processes k) \<and>
     (\<forall>slot < length (processes k). slot \<noteq> current k \<longrightarrow> \<not> idle (processes k ! slot) \<longrightarrow>
        kept (current_pid k) (processes k ! slot) (processes k' ! slot) \<and>
        tables k' ! slot = tables k ! slot)"

lemma kept_refl [simp]: "kept pid p p"
  by (simp add: kept_def)

lemma kept_trans: "kept pid p q \<Longrightarrow> kept pid q r \<Longrightarrow> kept pid p r"
  by (auto simp: kept_def)

lemma kept_idle: "kept pid p p' \<Longrightarrow> idle p' = idle p"
  by (auto simp: kept_def idle_def)

lemma others_kept_refl [simp]: "others_kept k k"
  by (simp add: others_kept_def)

lemma others_kept_trans:
  assumes "others_kept k k1" "current k1 = current k" "current_pid k1 = current_pid k" "others_kept k1 k2"
  shows "others_kept k k2"
  unfolding others_kept_def
proof (intro conjI allI impI)
  show "length (processes k2) = length (processes k)" using assms by (simp add: others_kept_def)
  fix slot assume s: "slot < length (processes k)" "slot \<noteq> current k" "\<not> idle (processes k ! slot)"
  then have 1: "kept (current_pid k) (processes k ! slot) (processes k1 ! slot)" "tables k1 ! slot = tables k ! slot"
    using assms(1) by (simp_all add: others_kept_def)
  then have "\<not> idle (processes k1 ! slot)" using s(3) kept_idle by metis
  then have 2: "kept (current_pid k) (processes k1 ! slot) (processes k2 ! slot)" "tables k2 ! slot = tables k1 ! slot"
    using assms s by (simp_all add: others_kept_def)
  show "kept (current_pid k) (processes k ! slot) (processes k2 ! slot)" using 1(1) 2(1) by (rule kept_trans)
  show "tables k2 ! slot = tables k ! slot" using 1(2) 2(2) by simp
qed

text \<open>Changes to the current slot, to free slots and to the rest of the state.\<close>

lemma others_kept_own:
  assumes "processes k' = (processes k)[current k := p]" "tables k' = (tables k)[current k := t] \<or> tables k' = tables k"
  shows "others_kept k k'"
proof -
  have "tables k' ! slot = tables k ! slot" if "slot \<noteq> current k" for slot using assms(2) that by auto
  then show ?thesis using assms(1) by (simp add: others_kept_def)
qed

lemma others_kept_same: "processes k' = processes k \<Longrightarrow> tables k' = tables k \<Longrightarrow> others_kept k k'"
  by (simp add: others_kept_def)

lemma others_kept_new:
  assumes "idle (processes k ! i)" "processes k' = (processes k)[i := p]"
    "tables k' = (tables k)[i := t] \<or> tables k' = tables k"
  shows "others_kept k k'"
proof -
  have "processes k' ! slot = processes k ! slot \<and> tables k' ! slot = tables k ! slot"
    if "\<not> idle (processes k ! slot)" for slot
  proof -
    have "slot \<noteq> i" using that assms(1) by auto
    then show ?thesis using assms(2,3) by auto
  qed
  then show ?thesis using assms(2) by (simp add: others_kept_def)
qed

lemma others_kept_update_own: "others_kept k (update_process (current k) f k)"
  by (rule others_kept_own) (auto simp: update_process_def)

lemma current_pid_update:
  assumes "current k < length (processes k)" "\<And>p. pr_pid (f p) = pr_pid p"
  shows "current_pid (update_process i f k) = current_pid k"
  using assms by (cases "i = current k") (simp_all add: current_pid_def current_process_def update_process_def)

lemma others_kept_cong:
  "processes k1 = processes k \<Longrightarrow> tables k1 = tables k \<Longrightarrow> current k1 = current k \<Longrightarrow>
   others_kept k1 k' = others_kept k k'"
  by (simp add: others_kept_def current_pid_def current_process_def)

section \<open>Context switches\<close>

lemma others_kept_save: "others_kept k (save_context frame k)"
  unfolding save_context_def by (rule others_kept_update_own)

lemma others_kept_finish:
  assumes cur: "current k < length (processes k)" shows "others_kept k (finish_current k)"
proof -
  let ?f = "\<lambda>p. p\<lparr>pr_zombie := True, pr_stopped := False, pr_waiting_for := 0\<rparr>"
  have p: "processes (finish_current k) = wake_waiters (current_pid k) ((processes k)[current k := ?f (processes k ! current k)])"
    using cur
    by (simp add: finish_current_def Let_def release_descriptors_def current_pid_def current_process_def update_process_def)
  have t: "tables (finish_current k) = (tables k)[current k := map (\<lambda>d. closed_descriptor) (tables k ! current k)]"
    by (simp add: finish_current_def Let_def release_descriptors_def update_process_def)
  show ?thesis
    unfolding others_kept_def p t by (simp add: wake_waiters_def kept_def)
qed

lemma others_kept_switch: "switch_to c k = (r, k') \<Longrightarrow> others_kept k k'"
  by (auto simp: switch_to_def Let_def split: option.splits intro!: others_kept_same)

lemma others_kept_schedule:
  assumes cur: "current k < length (processes k)" and op: "schedule frame exiting k = (r, k')"
  shows "others_kept k k'"
proof -
  let ?s = "save_context frame k"
  let ?k = "if exiting then finish_current ?s else ?s"
  have s: "current ?s = current k" "current_pid ?s = current_pid k" "length (processes ?s) = length (processes k)"
    using cur by (simp_all add: save_context_def current_pid_update) (simp_all add: update_process_def)
  have fin: "others_kept ?s (finish_current ?s)" using others_kept_finish [of ?s] cur s by simp
  have 1: "others_kept k ?k"
    using others_kept_trans [OF others_kept_save s(1,2) fin] by (cases exiting) (simp_all add: others_kept_save)
  have "processes k' = processes ?k \<and> tables k' = tables ?k"
    using op by (cases "pick_next ?k") (auto simp: schedule_def Let_def switch_to_def split: option.splits)
  then show ?thesis using 1 by (simp add: others_kept_def)
qed

section \<open>The operations\<close>

lemma processes_frame [simp]:
  "processes (set_rax a v k) = processes k" "tables (set_rax a v k) = tables k" "current (set_rax a v k) = current k"
  by (simp_all add: set_rax_def)

lemma others_kept_fail: "fail_call frame n k = (r, k') \<Longrightarrow> others_kept k k'"
  by (auto simp: fail_call_def intro: others_kept_same)

lemma others_kept_table:
  assumes "processes k' = processes k" "tables k' = (tables k)[current k := t] \<or> tables k' = tables k"
  shows "others_kept k k'"
  using others_kept_own [of k' k "processes k ! current k" t] assms by simp

text \<open>A descriptor call changes the caller's table and the pipes.\<close>

definition own_table :: "kernel \<Rightarrow> kernel \<Rightarrow> bool" where
  "own_table k k' \<longleftrightarrow> processes k' = processes k \<and> current k' = current k \<and>
     (\<forall>slot. slot \<noteq> current k \<longrightarrow> tables k' ! slot = tables k ! slot)"

lemma own_table_kept: "own_table k k' \<Longrightarrow> others_kept k k'"
  by (simp add: own_table_def others_kept_def)

lemma own_table_trans: "own_table a b \<Longrightarrow> own_table b c \<Longrightarrow> own_table a c"
  by (simp add: own_table_def)

lemma own_table_same: "processes k' = processes k \<Longrightarrow> current k' = current k \<Longrightarrow> tables k' = tables k \<Longrightarrow> own_table k k'"
  by (simp add: own_table_def)

lemma own_table_set: "processes k1 = processes k \<Longrightarrow> current k1 = current k \<Longrightarrow> tables k1 = tables k \<Longrightarrow>
  own_table k (set_current_table t k1)"
  by (simp add: own_table_def set_current_table_def)

lemma own_table_calls:
  "own_table k (snd (close_descriptor fd k))"
  "own_table k (snd (allocate_descriptor d k))"
  "own_table k (snd (update_descriptor fd d k))"
  "own_table k (snd (duplicate_descriptor_to fd target k))"
  by (auto simp: close_descriptor_def allocate_descriptor_def update_descriptor_def duplicate_descriptor_to_def Let_def
    own_table_def set_current_table_def split: prod.splits sum.splits)

lemma own_table_duplicate: "own_table k (snd (duplicate_descriptor fd k))"
proof -
  let ?d = "current_table k ! fd"
  obtain r ps where a: "add_pipe_reference ?d (pipes k) = (r, ps)" by fastforce
  obtain slot k2 where b: "allocate_descriptor ?d (k\<lparr>pipes := ps\<rparr>) = (slot, k2)" by fastforce
  have 1: "own_table k (k\<lparr>pipes := ps\<rparr>)" by (rule own_table_same) simp_all
  have 2: "own_table k k2" using own_table_trans [OF 1 own_table_calls(2)] b by (metis snd_conv)
  then have "own_table k (k2\<lparr>pipes := qs\<rparr>)" for qs by (simp add: own_table_def)
  then show ?thesis
    using 1 2 a b by (auto simp: duplicate_descriptor_def Let_def own_table_same split: sum.splits option.splits)
qed

lemma own_table_copy: "copy_to_current_user a bs k = (r, k') \<Longrightarrow> own_table k k'"
  using copy_keeps by (fastforce intro: own_table_same)

lemma own_table_pipes: "own_table k k' \<Longrightarrow> own_table k (k'\<lparr>pipes := ps\<rparr>)"
  by (simp add: own_table_def)

lemma own_table_rax: "own_table k k' \<Longrightarrow> own_table k (set_rax a v k')"
  by (simp add: own_table_def)

lemma own_table_rollback: "own_table k k' \<Longrightarrow> own_table k (rollback_end fd k')"
  by (cases fd) (auto simp: rollback_end_def intro: own_table_trans own_table_calls)

lemma own_table_sys_pipe:
  assumes "sys_pipe frame k = (r, k')" shows "own_table k k'"
proof -
  obtain res ps where c: "create_pipe (pipes k) = (res, ps)" by fastforce
  obtain fd2 k2 where a2: "allocate_descriptor (pipe_descriptor PipeRead (projr res)) (k\<lparr>pipes := ps\<rparr>) = (fd2, k2)"
    by fastforce
  obtain fd3 k3 where a3: "allocate_descriptor (pipe_descriptor PipeWrite (projr res)) k2 = (fd3, k3)" by fastforce
  have 1: "own_table k (k\<lparr>pipes := ps\<rparr>)" by (rule own_table_same) simp_all
  have 2: "own_table k k2" using own_table_trans [OF 1 own_table_calls(2)] a2 by (metis snd_conv)
  have 3: "own_table k k3" using own_table_trans [OF 2 own_table_calls(2)] a3 by (metis snd_conv)
  show ?thesis
  proof (cases res)
    case (Inl e)
    then show ?thesis using assms c 1 by (auto simp: sys_pipe_def own_table_rax)
  next
    case (Inr n)
    note op = assms [unfolded sys_pipe_def c Inr, simplified, unfolded a2 [unfolded Inr, simplified], simplified,
      unfolded a3 [unfolded Inr, simplified], simplified]
    show ?thesis
    proof (cases "fd2 = None \<or> fd3 = None")
      case True
      then have "k' = snd (fail_call frame 24 ((rollback_end fd3 (rollback_end fd2 k3))
          \<lparr>pipes := close_writer n (close_reader n (pipes (rollback_end fd3 (rollback_end fd2 k3))))\<rparr>))"
        using op by (cases fd2; cases fd3) (auto simp: Let_def)
      then show ?thesis using 3 by (simp add: fail_call_def own_table_rax own_table_pipes own_table_rollback)
    next
      case False
      then obtain r1 w1 where rw: "fd2 = Some r1" "fd3 = Some w1" by auto
      obtain cp k4 where cp: "copy_to_current_user (tf_rdi (trap_frames k3 frame))
          (to_le 4 (word_of_nat r1 :: u32) @ to_le 4 (word_of_nat w1 :: u32)) k3 = (cp, k4)" by fastforce
      have 4: "own_table k k4" using own_table_trans [OF 3 own_table_copy [OF cp]] .
      have 5: "own_table k (snd (close_descriptor w1 (snd (close_descriptor r1 k4))))"
        using 4 own_table_calls(1) own_table_trans by meson
      show ?thesis
        using op rw cp 4 5 by (cases cp) (auto simp: fail_call_def own_table_rax split: bool.splits)
    qed
  qed
qed

text \<open>An operation that keeps the others and leaves the same process current.\<close>

definition steady :: "kernel \<Rightarrow> kernel \<Rightarrow> bool" where
  "steady k k' \<longleftrightarrow> others_kept k k' \<and> current k' = current k \<and> current_pid k' = current_pid k"

lemma steady_then: "steady k k1 \<Longrightarrow> others_kept k1 k2 \<Longrightarrow> others_kept k k2"
  unfolding steady_def by (blast intro: others_kept_trans)

lemma steady_trans: "steady k k1 \<Longrightarrow> steady k1 k2 \<Longrightarrow> steady k k2"
  unfolding steady_def using others_kept_trans by auto

lemma steady_refl [simp]: "steady k k"
  by (simp add: steady_def)

lemma steady_update:
  assumes "current k < length (processes k)" "\<And>p. pr_pid (f p) = pr_pid p"
  shows "steady k (update_process (current k) f k)"
  using assms current_pid_update [of k f "current k"]
  by (simp add: steady_def others_kept_update_own) (simp add: update_process_def)

lemma steady_same:
  "processes k' = processes k \<Longrightarrow> tables k' = tables k \<Longrightarrow> current k' = current k \<Longrightarrow> steady k k'"
  by (simp add: steady_def others_kept_same current_pid_def current_process_def)

lemma steady_rax: "steady k (set_rax a v k)" "steady k (set_frame a tf k)" "steady k (k\<lparr>mach := m\<rparr>)"
  by (simp_all add: steady_same)

lemma length_update [simp]: "length (processes (update_process i f k)) = length (processes k)"
  by (simp add: update_process_def)

lemma steady_length: "steady k k' \<Longrightarrow> length (processes k') = length (processes k)"
  by (simp add: steady_def others_kept_def)

lemma steady_schedule:
  assumes "current k < length (processes k)" "steady k k1" "schedule frame exiting k1 = (r, k')"
  shows "others_kept k k'"
proof -
  have "current k1 < length (processes k1)" using assms(1,2) steady_length [OF assms(2)] by (simp add: steady_def)
  from others_kept_schedule [OF this assms(3)] show ?thesis using assms(2) by (rule steady_then [rotated])
qed

section \<open>Creating and replacing processes\<close>

lemma steady_new:
  assumes "kernel_ok k" "running k" "free_slot k = Some slot"
  shows "steady k (k\<lparr>tables := (tables k)[slot := t], pipes := ps, processes := (processes k)[slot := p]\<rparr>)" (is "steady k ?k")
proof -
  have s: "idle (processes k ! slot)" using free_slot_Some(2) [OF assms(1,3)] by (simp add: idle_def)
  then have "slot \<noteq> current k" using assms(2) by (auto simp: running_def current_process_def)
  then have "current_pid ?k = current_pid k" by (simp add: current_pid_def current_process_def)
  then show ?thesis using others_kept_new [OF s, of ?k p t] by (simp add: steady_def)
qed

lemma others_kept_fork:
  assumes ok: "kernel_ok k" "running k" and op: "fork_current fninit frame k = (r, k')"
  shows "others_kept k k'"
proof (cases "\<exists>n m. fail_call frame n (k\<lparr>mach := m\<rparr>) = (r, k') \<or> fail_call frame n k = (r, k') \<or> k' = k")
  case True
  then show ?thesis by (auto simp: fail_call_def intro: others_kept_same)
next
  case False
  then obtain slot space child_space m where s: "frame \<noteq> 0" "free_slot k = Some slot"
    "pr_space (processes k ! current k) = Some space" "clone_user space (mach k) = (Some child_space, m)"
    using op by (auto simp: fork_current_def Let_def split: if_splits option.splits prod.splits)
  have "processes k' = (processes k)[slot := forked_process (processes k ! current k) (next_pid k) (top_of_slot k slot)
        child_space (fninit (live_fpu k))]" "tables k' = (tables k)[slot := tables k ! current k]"
    using op s by (auto simp: fork_current_def Let_def)
  then show ?thesis
    using free_slot_Some(2) [OF ok(1) s(2)] by (intro others_kept_new [of k slot]) (auto simp: idle_def)
qed

lemma others_kept_spawn:
  assumes ok: "kernel_ok k" and run: "running k"
    and op: "spawn_current_with_io fninit fs path args env io frame k = (Resume r, k')"
  shows "others_kept k k'"
proof (cases "has_access fs path 1 k = Some True \<and> fv_read fs path \<noteq> None \<and> free_slot k \<noteq> None")
  case False
  then have "\<exists>n. fail_call frame n k = (Resume r, k')"
    using op unfolding spawn_current_with_io_def
    by (cases "has_access fs path 1 k"; cases "fv_read fs path"; cases "free_slot k")
      (auto split: bool.splits)
  then show ?thesis using others_kept_fail by blast
next
  case True
  then obtain img slot where h: "has_access fs path 1 k = Some True" "fv_read fs path = Some img"
    "free_slot k = Some slot" by auto
  obtain res k1 where l: "load_elf fninit img (next_pid k) slot args env (path = installer_path) path k = (res, k1)"
    by fastforce
  then obtain m tf fp where k1: "k1 = k\<lparr>mach := m, trap_frames := tf, live_fpu := fp\<rparr>"
    using load_elf_at_frame(1) unfolding load_elf_def by blast
  have s1: "steady k k1" by (rule steady_same) (simp_all add: k1)
  show ?thesis
  proof (cases res)
    case (Inl e)
    then have "fail_call frame 8 k1 = (Resume r, k')" using op h l by (simp add: spawn_current_with_io_def)
    then show ?thesis using steady_then [OF s1 others_kept_fail] by blast
  next
    case (Inr p)
    obtain child ps where io: "apply_spawn_io io (tables k ! current k) (new_table, pipes k) = (child, ps)"
      by fastforce
    let ?p = "inherit_identity (processes k ! current k) (p\<lparr>pr_parent := pr_pid (processes k ! current k)\<rparr>)"
    let ?k2 = "k1\<lparr>tables := (tables k1)[slot := child], pipes := ps, processes := (processes k1)[slot := ?p]\<rparr>"
    let ?k3 = "set_rax frame (word_of_nat (next_pid k)) (?k2\<lparr>slot_count := max (slot_count k) (slot + 1)\<rparr>)"
    have sched: "schedule frame False ?k3 = (Resume r, k')"
      using op h l Inr io by (simp add: spawn_current_with_io_def Let_def k1)
    have "steady k1 ?k2" using ok run h by (intro steady_new) (simp_all add: k1 free_slot_def)
    moreover have "steady ?k2 ?k3" by (rule steady_same) simp_all
    ultimately have "steady k ?k3" using s1 steady_trans by blast
    moreover have "current k < length (processes k)" using shapedD(1) [OF kernel_okD(1) [OF ok]] by simp
    ultimately show ?thesis using steady_schedule sched by blast
  qed
qed

lemma others_kept_execve:
  assumes op: "execve_current fninit fs path args env frame k = (Resume r, k')"
  shows "others_kept k k'"
proof (cases "has_access fs path 1 k = Some True \<and> fv_read fs path \<noteq> None \<and> execve_frame_scratch k (current k) \<noteq> None")
  case False
  then have "\<exists>n. fail_call frame n k = (Resume r, k')"
    using op unfolding execve_current_def
    by (cases "has_access fs path 1 k"; cases "fv_read fs path"; cases "execve_frame_scratch k (current k)")
      (auto split: bool.splits)
  then show ?thesis using others_kept_fail by blast
next
  case True
  then obtain img scratch where h: "has_access fs path 1 k = Some True" "fv_read fs path = Some img"
    "execve_frame_scratch k (current k) = Some scratch" by auto
  obtain res k1 where l: "load_elf_at fninit img (pr_pid (processes k ! current k)) args env
      (path = installer_path) path scratch k = (res, k1)" by fastforce
  then obtain m tf fp where k1: "k1 = k\<lparr>mach := m, trap_frames := tf, live_fpu := fp\<rparr>"
    using load_elf_at_frame(1) by blast
  show ?thesis
  proof (cases res)
    case (Inl e)
    then have "fail_call frame 8 k1 = (Resume r, k')" using op h l by (simp add: execve_current_def)
    then show ?thesis by (auto simp: fail_call_def k1 intro!: others_kept_same)
  next
    case (Inr q)
    obtain q' where "processes k' = (processes k)[current k := q']" "tables k' = tables k"
      using op h l Inr by (auto simp: execve_current_def Let_def k1 split: option.splits)
    then show ?thesis by (intro others_kept_own) simp_all
  qed
qed

section \<open>Waiting, signals and the timer\<close>

lemma zombie_slot:
  assumes ok: "kernel_ok k" and child: "child \<in> set (processes k)" "pr_active child" "pr_zombie child"
    and slot: "position (\<lambda>p. pr_active p \<and> pr_pid p = pr_pid child) (processes k) = Some slot"
  shows "idle (processes k ! slot)"
proof -
  from child(1) obtain i where i: "i < length (processes k)" "processes k ! i = child"
    by (auto simp: in_set_conv_nth)
  have "slot < length (processes k)" "pr_active (processes k ! slot)" "pr_pid (processes k ! slot) = pr_pid child"
    using slot by (auto simp: position_Some_iff)
  then have "slot = i" using ok i child(2) by (auto simp: kernel_ok_def unique_pids_def)
  then show ?thesis using i child by (simp add: idle_def)
qed

lemma steady_copy: "copy_to_current_user a bs k = (r, k') \<Longrightarrow> steady k k'"
  using copy_keeps by (fastforce intro: steady_same)

lemma steady_reap:
  assumes ok: "kernel_ok k" "running k" and op: "reap_child parent wanted ptr k = (res, k')"
  shows "steady k k'"
proof (cases "find (\<lambda>p. wanted_child parent wanted p \<and> pr_zombie p) (processes k)")
  case None
  then show ?thesis using op by (simp add: reap_child_def Let_def)
next
  case (Some child)
  then have child: "child \<in> set (processes k)" "pr_active child" "pr_zombie child"
    by (auto dest: find_SomeD simp: wanted_child_def)
  obtain slot where slot: "position (\<lambda>p. pr_active p \<and> pr_pid p = pr_pid child) (processes k) = Some slot"
    using child(1,2) by (cases "position (\<lambda>p. pr_active p \<and> pr_pid p = pr_pid child) (processes k)")
      (auto simp: position_None_iff)
  have i: "idle (processes k ! slot)" by (rule zombie_slot [OF ok(1) child slot])
  then have cur: "slot \<noteq> current k" using ok(2) by (auto simp: running_def current_process_def)
  obtain c k1 where c: "copy_to_current_user ptr (to_le 4 (wait_status (pr_exit_status child))) k = (c, k1)" by fastforce
  then obtain m where k1: "k1 = k\<lparr>mach := m\<rparr>" using copy_keeps by blast
  have "k' = k \<or> k' = k1 \<or> k' = k\<lparr>processes := (processes k)[slot := empty_process]\<rparr> \<or>
      k' = k1\<lparr>processes := (processes k)[slot := empty_process]\<rparr>"
    using op Some slot c k1
    by (cases c) (auto simp: reap_child_def Let_def split: if_splits bool.splits option.splits)
  then consider "processes k' = processes k" "tables k' = tables k" "current k' = current k"
    | "processes k' = (processes k)[slot := empty_process]" "tables k' = tables k" "current k' = current k"
    by (auto simp: k1)
  then show ?thesis
  proof cases
    case 2
    then have "others_kept k k'" using i by (intro others_kept_new) simp_all
    then show ?thesis using 2 cur by (simp add: steady_def current_pid_def current_process_def)
  qed (rule steady_same)
qed

lemma waitpid_result:
  assumes op: "waitpid_current frame pid ptr options k = (r, k')"
    and reap: "reap_child (pr_pid (processes k ! current k)) pid ptr k = (res, k1)"
  shows "(r, k') = schedule frame False (set_rax frame (errno 11) (update_process (current k)
      (\<lambda>p. p\<lparr>pr_waiting_for := if 0 < pid then nat pid else usize_max\<rparr>) k1)) \<or>
    (\<exists>n. fail_call frame n k1 = (r, k')) \<or> (\<exists>v. k' = set_rax frame v k1) \<or> (r = Panicked \<and> k' = k1)"
proof (cases res)
  case None
  then show ?thesis using op reap by (simp add: waitpid_current_def)
next
  case (Some found)
  obtain child any where f: "found = (child, any)" by fastforce
  show ?thesis
  proof (cases "child = None \<and> any \<and> options AND 1 = 0")
    case True
    let ?k = "set_rax frame (errno 11) (update_process (current k)
      (\<lambda>p. p\<lparr>pr_waiting_for := if 0 < pid then nat pid else usize_max\<rparr>) k1)"
    obtain r' s k3 where sch: "schedule_ex frame False ?k = ((r', s), k3)" by (metis prod.collapse)
    then have "r' = r" "k3 = k'" using op reap Some f True by (simp_all add: waitpid_current_def Let_def)
    then show ?thesis using schedule_ex_result [OF sch] by simp
  next
    case False
    then show ?thesis
      using op reap Some f by (cases child; cases any) (auto simp: waitpid_current_def Let_def split: if_splits)
  qed
qed

lemma others_kept_waitpid:
  assumes ok: "kernel_ok k" "running k" and op: "waitpid_current frame pid ptr options k = (Resume r, k')"
  shows "others_kept k k'"
proof -
  obtain res k1 where reap: "reap_child (pr_pid (processes k ! current k)) pid ptr k = (res, k1)" by fastforce
  have s1: "steady k k1" using steady_reap [OF ok reap] .
  have cur: "current k < length (processes k)" using shapedD(1) [OF kernel_okD(1) [OF ok(1)]] by simp
  have cur1: "current k1 = current k" "current k1 < length (processes k1)"
    using s1 cur steady_length [OF s1] by (simp_all add: steady_def)
  let ?k2 = "update_process (current k) (\<lambda>p. p\<lparr>pr_waiting_for := if 0 < pid then nat pid else usize_max\<rparr>) k1"
  have s2: "steady k (set_rax frame v ?k2)" for v
    using steady_update [OF cur1(2), of "\<lambda>p. p\<lparr>pr_waiting_for := if 0 < pid then nat pid else usize_max\<rparr>"]
      steady_trans [OF s1] steady_trans steady_rax(1) cur1(1) by (metis (no_types, lifting) process.select_convs(1) process.update_convs(7) process.surjective)
  have "(Resume r, k') = schedule frame False (set_rax frame (errno 11) ?k2) \<or> (\<exists>n. fail_call frame n k1 = (Resume r, k'))
     \<or> (\<exists>v. k' = set_rax frame v k1)"
    using waitpid_result [OF op reap] by simp
  moreover have "schedule frame False (set_rax frame (errno 11) ?k2) = (Resume r, k') \<Longrightarrow> others_kept k k'"
    by (rule steady_schedule [OF cur s2])
  ultimately show ?thesis
    using steady_then [OF s1 others_kept_fail]
      steady_trans [OF s1 steady_rax(1)] by (metis steady_def)
qed

lemma steady_own:
  assumes "steady k k1" "current k < length (processes k)" "\<And>p. pr_pid (f p) = pr_pid p"
  shows "steady k (update_process (current k) f k1)"
proof -
  have "current k1 = current k" "current k1 < length (processes k1)"
    using assms(1,2) steady_length [OF assms(1)] by (simp_all add: steady_def)
  then show ?thesis using steady_trans [OF assms(1) steady_update [of k1 f]] assms(3) by simp
qed

lemma others_kept_enter_handler:
  assumes cur: "current k < length (processes k)" and s: "steady k k1"
    and op: "enter_handler frame sig handler k1 = (r, k')"
  shows "others_kept k k'"
proof -
  have c: "current k1 = current k" using s by (simp add: steady_def)
  have sched: "schedule frame True k1 = (r, k') \<Longrightarrow> others_kept k k'" using steady_schedule [OF cur s] .
  have "steady k (set_frame frame tf (update_process (current k1) (\<lambda>p. p\<lparr>pr_signal_frame := x\<rparr>) (k1\<lparr>mach := m\<rparr>)))" for tf x m
    using steady_trans [OF steady_own [OF steady_trans [OF s steady_rax(3)] cur] steady_rax(2)]
    unfolding c by simp
  then show ?thesis
    using op sched by (auto simp: enter_handler_def Let_def steady_def split: option.splits)
qed

lemma steady_deliver_step:
  assumes cur: "current k < length (processes k)" and op: "deliver_step frame k = (res, k1)"
  shows "res = None \<Longrightarrow> steady k k1" and "res = Some (r, k') \<Longrightarrow> others_kept k k'"
proof -
  note c = op [unfolded deliver_step_def Let_def]
  let ?k1 = "\<lambda>s. update_process (current k) (\<lambda>p. p\<lparr>pr_pending := pr_pending p AND NOT (signal_bit s)\<rparr>) k"
  have k1: "steady k (?k1 s)" for s by (rule steady_own [OF steady_refl cur]) simp
  have k2: "steady k (update_process (current (?k1 s)) (\<lambda>p. p\<lparr>pr_stopped := True\<rparr>) (?k1 s))" for s
    using steady_own [OF k1 cur, of "\<lambda>p. p\<lparr>pr_stopped := True\<rparr>" s] by (simp add: update_process_def)
  show "res = None \<Longrightarrow> steady k k1"
    using c k1 by (auto split: option.splits if_splits)
  assume res: "res = Some (r, k')"
  have s1: "others_kept k k'" if "schedule frame b (?k1 s) = (r, k')" for b s
    using steady_schedule [OF cur k1 that] .
  have s2: "others_kept k k'"
    if "schedule frame b (update_process (current (?k1 s)) (\<lambda>p. p\<lparr>pr_stopped := True\<rparr>) (?k1 s)) = (r, k')" for b s
    using steady_schedule [OF cur k2 that] .
  have s3: "others_kept k k'" if "enter_handler frame s h (?k1 s) = (r, k')" for s h
    using others_kept_enter_handler [OF cur k1 that] .
  show "others_kept k k'"
  proof (cases "next_pending_signal (pr_pending (current_process k))")
    case None
    then show ?thesis using c res by (auto split: if_splits)
  next
    case (Some s)
    then have "(r, k') \<in> {(Resume frame, k), schedule frame True (?k1 s),
        schedule frame False (update_process (current (?k1 s)) (\<lambda>p. p\<lparr>pr_stopped := True\<rparr>) (?k1 s)),
        enter_handler frame s (pr_actions (current_process k) ! unat s) (?k1 s)}"
      using c res by (auto split: if_splits)
    then show ?thesis using s1 s2 s3 by (auto dest: sym)
  qed
qed

lemma others_kept_deliver:
  "current k < length (processes k) \<Longrightarrow> deliver_loop n frame k = Some (r, k') \<Longrightarrow> others_kept k k'"
proof (induction n frame k rule: deliver_loop.induct)
  case (2 turns frame k)
  obtain res k1 where s: "deliver_step frame k = (res, k1)" by fastforce
  show ?case
  proof (cases res)
    case None
    have k1: "steady k k1" using steady_deliver_step(1) [OF "2.prems"(1) s] None by simp
    have "current k1 < length (processes k1)" using k1 steady_length [OF k1] "2.prems" by (simp add: steady_def)
    moreover have "deliver_loop turns frame k1 = Some (r, k')" using 2 s None by simp
    ultimately have "others_kept k1 k'" using "2.IH" [OF s [symmetric]] None by simp
    then show ?thesis by (rule steady_then [OF k1])
  next
    case (Some a)
    then have "res = Some (r, k')" using "2.prems" s by simp
    then show ?thesis using steady_deliver_step(2) [OF "2.prems"(1) s] by blast
  qed
qed simp

lemma others_kept_timer:
  assumes cur: "current k < length (processes k)" and op: "timer_tick frame k = (r, k')"
  shows "others_kept k k'"
proof -
  let ?k1 = "update_process (current k) (\<lambda>p. p\<lparr>pr_quantum := pr_quantum p + 1\<rparr>) k"
  let ?k2 = "update_process (current ?k1) (\<lambda>p. p\<lparr>pr_quantum := 0\<rparr>) ?k1"
  have k1: "steady k ?k1" by (rule steady_own [OF steady_refl cur]) simp
  have "steady k (update_process (current k) (\<lambda>p. p\<lparr>pr_quantum := 0\<rparr>) ?k1)" by (rule steady_own [OF k1 cur]) simp
  then have k2: "steady k ?k2" using k1 by (simp add: steady_def)
  have "(r, k') \<in> {(Resume frame, k), (Resume frame, ?k1), schedule frame False ?k2}"
    using op by (auto simp: timer_tick_def Let_def split: if_splits)
  then show ?thesis
    using k1 steady_schedule [OF cur k2, of frame False r k'] by (auto simp: steady_def)
qed

section \<open>Steps\<close>

lemma steady_grow: 
  assumes "current k < length (processes k)" "grow_heap increment k = (r, k')" shows "steady k k'"
proof -
  have "steady k (update_process (current k) (\<lambda>p. p\<lparr>pr_heap_end := e\<rparr>) (k\<lparr>mach := m\<rparr>))" for e m
    by (rule steady_own [OF steady_rax(3) assms(1)]) simp
  then show ?thesis
    using assms(2) steady_rax(3) by (auto simp: grow_heap_def Let_def split: if_splits option.splits prod.splits bool.splits)
qed

lemma steady_action:
  assumes "current k < length (processes k)" "set_signal_action sig handler restorer k = (r, k')" shows "steady k k'"
proof -
  have "steady k (update_process (current k) (\<lambda>p. let p = p\<lparr>pr_actions := (pr_actions p)[unat sig := handler]\<rparr>
            in if signal_ignore < handler then p\<lparr>pr_restorer := restorer\<rparr> else p) k)"
    by (rule steady_own [OF steady_refl assms(1)]) (simp add: Let_def)
  then show ?thesis using assms(2) by (auto simp: set_signal_action_def Let_def split: if_splits option.splits)
qed

lemma steady_sigreturn:
  assumes "current k < length (processes k)" "restore_signal_context frame k = (ok, k')" shows "steady k k'"
proof -
  have "steady k (update_process (current k) (\<lambda>p. p\<lparr>pr_signal_frame := None\<rparr>) k)"
    by (rule steady_own [OF steady_refl assms(1)]) simp
  then show ?thesis
    using assms(2) steady_trans steady_rax(2) by (fastforce simp: restore_signal_context_def split: option.splits)
qed

lemma steady_login:
  assumes "current k < length (processes k)" "authenticate_current db name password target k = (r, k')" shows "steady k k'"
proof -
  have "steady k (become a b c d e k)" for a b c d e
    unfolding become_def by (rule steady_own [OF steady_refl assms(1)]) simp
  then show ?thesis using assms(2) by (auto simp: authenticate_current_def Let_def split: if_splits option.splits)
qed

lemma steady_fpu:
  assumes "current k < length (processes k)" shows "steady k (save_current_fpu k)" "steady k (restore_fpu_for frame k)"
  using steady_own [OF steady_refl assms, of "\<lambda>p. p\<lparr>pr_fpu := live_fpu k\<rparr>"]
  by (auto simp: save_current_fpu_def restore_fpu_for_def intro: steady_same)

text \<open>A signal reaches one process, with the sender's permission checked.\<close>

definition signalled :: "process \<Rightarrow> process \<Rightarrow> process \<Rightarrow> bool" where
  "signalled sender p p' \<longleftrightarrow> (pr_uid sender = 0 \<or> pr_uid sender = pr_uid p) \<and> pr_pid p \<noteq> 1 \<and>
     (\<exists>signal. valid_signal signal \<and> p' = p\<lparr>pr_pending := pr_pending p OR signal_bit signal,
        pr_stopped := pr_stopped p \<and> signal \<noteq> signal_cont \<and> signal \<noteq> signal_kill\<rparr>)"

lemma process_update_stopped [simp]: "p\<lparr>pr_stopped := pr_stopped p\<rparr> = p" "p\<lparr>pr_pending := a, pr_stopped := pr_stopped p\<rparr> = p\<lparr>pr_pending := a\<rparr>"
  by simp_all

lemma send_signal_effect:
  assumes "send_signal pid signal k = (r, k')"
  shows "k' = k \<or> (\<exists>slot p'. processes k' = (processes k)[slot := p'] \<and> tables k' = tables k \<and>
    signalled (current_process k) (processes k ! slot) p')"
proof (cases "r = 0")
  case False
  then show ?thesis using assms by (auto simp: send_signal_def Let_def split: if_splits option.splits)
next
  case True
  then obtain slot where s: "valid_signal signal"
    "\<not> (pr_uid (current_process k) \<noteq> 0 \<and> pr_uid (current_process k) \<noteq> pr_uid (processes k ! slot))"
    "pr_pid (processes k ! slot) \<noteq> 1"
    "k' = update_process slot (\<lambda>p. let p = p\<lparr>pr_pending := pr_pending p OR signal_bit signal\<rparr>
               in if signal = signal_cont \<or> signal = signal_kill then p\<lparr>pr_stopped := False\<rparr> else p) k"
    using assms by (auto simp: send_signal_def Let_def split: if_splits option.splits)
  let ?p = "processes k ! slot"
  have "signalled (current_process k) ?p (?p\<lparr>pr_pending := pr_pending ?p OR signal_bit signal,
      pr_stopped := pr_stopped ?p \<and> signal \<noteq> signal_cont \<and> signal \<noteq> signal_kill\<rparr>)"
    using s(1-3) by (auto simp: signalled_def)
  moreover have "processes k' = (processes k)[slot := ?p\<lparr>pr_pending := pr_pending ?p OR signal_bit signal,
      pr_stopped := pr_stopped ?p \<and> signal \<noteq> signal_cont \<and> signal \<noteq> signal_kill\<rparr>]" "tables k' = tables k"
    by (auto simp: s(4) update_process_def Let_def)
  ultimately show ?thesis by blast
qed

lemma kernel_step_others:
  assumes "kernel_step fninit k k'" "kernel_ok k" "running k"
  shows "others_kept k k' \<or> (\<exists>slot p'. processes k' = (processes k)[slot := p'] \<and> tables k' = tables k \<and>
    signalled (current_process k) (processes k ! slot) p')"
proof -
  have cur: "current k < length (processes k)" using shapedD(1) [OF kernel_okD(1) [OF assms(2)]] by simp
  have st: "steady k a \<Longrightarrow> others_kept k a" for a by (simp add: steady_def)
  from assms(1) show ?thesis
  proof cases
    case (fork frame a)
    then show ?thesis using others_kept_fork assms by blast
  next
    case (spawn fs path args env io frame a)
    then show ?thesis using others_kept_spawn assms by blast
  next
    case (execve fs path args env frame a)
    then show ?thesis using others_kept_execve by blast
  next
    case (waitpid frame pid ptr options a)
    then show ?thesis using others_kept_waitpid assms by blast
  next
    case (yield frame a)
    then show ?thesis using others_kept_schedule [OF cur] unfolding yield_current_def by blast
  next
    case (exit frame status a)
    have "steady k (update_process (current k) (\<lambda>p. p\<lparr>pr_exit_status := status\<rparr>) k)"
      by (rule steady_own [OF steady_refl cur]) simp
    then show ?thesis using exit steady_schedule [OF cur] unfolding exit_current_def by blast
  next
    case (fault a)
    then show ?thesis using others_kept_schedule [OF cur]
      by (auto simp: terminate_faulting_process_def Let_def split: if_splits)
  next
    case (timer frame a)
    then show ?thesis using others_kept_timer [OF cur] by blast
  next
    case (deliver frame a)
    then show ?thesis using others_kept_deliver [OF cur]
      by (auto simp: deliver_pending_signal_def split: if_splits)
  next
    case (signal pid sig r)
    then show ?thesis using send_signal_effect by (metis others_kept_refl)
  next
    case (action sig handler restorer r)
    then show ?thesis using steady_action [OF cur] st by blast
  next
    case (sigreturn frame ok)
    then show ?thesis using steady_sigreturn [OF cur] st by blast
  next
    case (pipe frame a)
    then show ?thesis using own_table_sys_pipe own_table_kept by blast
  next
    case (close fd r)
    then show ?thesis using own_table_kept [OF own_table_calls(1) [of k fd]] by simp
  next
    case (dup fd r)
    then show ?thesis using own_table_kept [OF own_table_duplicate [of k fd]] by simp
  next
    case (dup2 fd target r)
    then show ?thesis using own_table_kept [OF own_table_calls(4) [of k fd target]] by simp
  next
    case (open_file path flags offset r)
    then show ?thesis using own_table_kept [OF own_table_calls(2) [of k "file_descriptor path flags offset"]] by simp
  next
    case (seek fd d d' r)
    then show ?thesis using own_table_kept [OF own_table_calls(3) [of k fd d']] by simp
  next
    case (heap increment r)
    then show ?thesis using steady_grow [OF cur] st by blast
  next
    case (store address bytes r)
    then show ?thesis using steady_copy st by blast
  next
    case (login users_db username password target r)
    then show ?thesis using steady_login [OF cur] st by blast
  next
    case save_fpu
    then show ?thesis using steady_fpu(1) [OF cur] st by simp
  next
    case (restore_fpu frame)
    then show ?thesis using steady_fpu(2) [OF cur] st by simp
  qed (auto intro: others_kept_same)
qed

text \<open>
  C4. In every run of the kernel, one step of the running process leaves the record and the
  descriptors of every other live process as they are, up to two changes: a process that waited
  for the one that ran may be woken, and a process other than \<open>init\<close> may get a signal, if the
  sender is root or has the same user; the signal sets one pending bit, and only CONT and KILL
  resume a stopped process.
\<close>

theorem process_isolation:
  assumes "kernel_run fninit k" and "kernel_step fninit k k'"
    and "slot < max_processes" and "slot \<noteq> current k"
    and "pr_active (processes k ! slot)" and "\<not> pr_zombie (processes k ! slot)"
  shows "tables k' ! slot = tables k ! slot \<and>
    (let p = processes k ! slot; p' = processes k' ! slot; runner = current_process k in
     p' = p \<or>
     pr_waiting_for p = pr_pid runner \<and> p' = p\<lparr>pr_waiting_for := 0\<rparr> \<or>
     (pr_uid runner = 0 \<or> pr_uid runner = pr_uid p) \<and> pr_pid p \<noteq> 1 \<and>
       (\<exists>signal. valid_signal signal \<and> p' = p\<lparr>pr_pending := pr_pending p OR signal_bit signal,
          pr_stopped := pr_stopped p \<and> signal \<noteq> signal_cont \<and> signal \<noteq> signal_kill\<rparr>))"
proof -
  have ok: "kernel_ok k" "running k" using kernel_run_ok [OF assms(1)] by simp_all
  have len: "length (processes k) = max_processes" using shapedD(1) [OF kernel_okD(1) [OF ok(1)]] by simp
  from kernel_step_others [OF assms(2) ok] show ?thesis
  proof (elim disjE exE)
    assume "others_kept k k'"
    then show ?thesis
      using assms(3-6) len by (auto simp: others_kept_def kept_def idle_def Let_def current_pid_def)
  next
    fix s p' assume s: "processes k' = (processes k)[s := p'] \<and> tables k' = tables k \<and>
      signalled (current_process k) (processes k ! s) p'"
    then show ?thesis
      using assms(3) len by (cases "s = slot") (auto simp: Let_def signalled_def)
  qed
qed

section \<open>Example\<close>

text \<open>Two processes of root; the first sends TERM to the second.\<close>

definition pair_kernel :: kernel where
  "pair_kernel = sample_kernel\<lparr>processes := sample_process # sample_process\<lparr>pr_pid := 2\<rparr> # replicate 14 empty_process\<rparr>"

lemma booted_pair: "booted pair_kernel"
proof -
  have "unique_pids (processes pair_kernel)"
    by (auto simp: unique_pids_def pair_kernel_def nth_Cons' empty_process_def sample_process_def split: if_splits)
  then show ?thesis
    using new_table_no_ends
    by (auto simp: booted_def shaped_def pair_kernel_def sample_kernel_def max_processes_def running_def current_process_def
      idle_def sample_process_def empty_process_def)
qed

lemma pair_signal:
  "send_signal 2 signal_term pair_kernel = (0, update_process 1 (\<lambda>p. p\<lparr>pr_pending := pr_pending p OR signal_bit signal_term\<rparr>) pair_kernel)"
  by (simp add: send_signal_def valid_signal_def signal_defs pair_kernel_def position_first sample_process_def
    empty_process_def current_process_def sample_kernel_def Let_def update_process_def)

theorem process_isolation_witness:
  "\<exists>k'. kernel_step id pair_kernel k' \<and> pr_pending (processes k' ! 1) = signal_bit signal_term \<and>
     tables k' ! 1 = tables pair_kernel ! 1 \<and>
     (let p = processes pair_kernel ! 1; p' = processes k' ! 1; runner = current_process pair_kernel in
     p' = p \<or>
     pr_waiting_for p = pr_pid runner \<and> p' = p\<lparr>pr_waiting_for := 0\<rparr> \<or>
     (pr_uid runner = 0 \<or> pr_uid runner = pr_uid p) \<and> pr_pid p \<noteq> 1 \<and>
       (\<exists>signal. valid_signal signal \<and> p' = p\<lparr>pr_pending := pr_pending p OR signal_bit signal,
          pr_stopped := pr_stopped p \<and> signal \<noteq> signal_cont \<and> signal \<noteq> signal_kill\<rparr>))"
proof -
  let ?k = "snd (send_signal 2 signal_term pair_kernel)"
  have step: "kernel_step id pair_kernel ?k" by (rule kernel_step.signal [OF surjective_pairing])
  have "pr_pending (processes ?k ! 1) = signal_bit signal_term"
    by (simp add: pair_signal) (simp add: update_process_def pair_kernel_def sample_process_def empty_process_def)
  moreover have slot: "1 < max_processes" "1 \<noteq> current pair_kernel"
    "pr_active (processes pair_kernel ! 1)" "\<not> pr_zombie (processes pair_kernel ! 1)"
    by (simp_all add: max_processes_def pair_kernel_def sample_kernel_def sample_process_def empty_process_def)
  ultimately show ?thesis
    using step process_isolation [OF kernel_run.start [OF booted_pair] step slot] by blast
qed

end
