(* ===== verification/Scheduling.thy ===== *)
theory Scheduling
  imports Isolation
begin

text \<open>
  What the scheduler and the delivery of signals promise: the loop of
  \<open>deliver_pending_signal\<close> ends, KILL and STOP cannot be caught, the round robin serves every
  process that stays eligible, and the timer takes the processor away in bounded time.
\<close>

section \<open>The loop over pending signals\<close>

definition signal_order :: "u64 list" where
  "signal_order = [signal_kill, signal_stop, signal_cont, signal_hup, signal_int, signal_segv, signal_term]"

definition pending_count :: "u64 \<Rightarrow> nat" where
  "pending_count pending = length (filter (\<lambda>s. pending AND signal_bit s \<noteq> 0) signal_order)"

lemma next_pending_order: "next_pending_signal pending = find (\<lambda>s. pending AND signal_bit s \<noteq> 0) signal_order"
  by (simp add: next_pending_signal_def signal_order_def)

lemma signal_order_small: "s \<in> set signal_order \<Longrightarrow> unat s < 32"
  by (auto simp: signal_order_def signal_defs)

lemma bit_signal_bit: "bit (signal_bit s) n \<longleftrightarrow> n = unat s \<and> n < 64"
  by (auto simp: signal_bit_def bit_simps)

lemma pending_bit: "unat s < 64 \<Longrightarrow> (pending AND signal_bit s \<noteq> 0) = bit pending (unat s)"
  by (auto simp: bit_eq_iff [where ?'a = "64 word"] bit_and_iff bit_signal_bit)

lemma length_filter_less:
  assumes "\<And>x. Q x \<Longrightarrow> P x" "x \<in> set xs" "P x" "\<not> Q x"
  shows "length (filter Q xs) < length (filter P xs)"
  using assms(2)
proof (induction xs)
  case (Cons y ys)
  have le: "length (filter Q zs) \<le> length (filter P zs)" for zs
    by (induction zs) (use assms(1) in auto)
  show ?case
  proof (cases "x = y")
    case True
    then show ?thesis using le [of ys] assms(3,4) by simp
  next
    case False
    then have "length (filter Q ys) < length (filter P ys)" using Cons by simp
    then show ?thesis using assms(1) by auto
  qed
qed simp

lemma pending_count_clear:
  assumes "next_pending_signal pending = Some s"
  shows "pending_count (pending AND NOT (signal_bit s)) < pending_count pending"
proof -
  have s: "s \<in> set signal_order" "pending AND signal_bit s \<noteq> 0"
    using find_SomeD [OF assms [unfolded next_pending_order]] by simp_all
  show ?thesis
    unfolding pending_count_def
  proof (rule length_filter_less)
    show "(pending AND NOT (signal_bit s)) AND signal_bit x \<noteq> 0 \<Longrightarrow> pending AND signal_bit x \<noteq> 0" for x
      by (auto simp: bit_eq_iff [where ?'a = "64 word"] bit_simps)
    show "\<not> (pending AND NOT (signal_bit s)) AND signal_bit s \<noteq> 0"
      by (auto simp: bit_eq_iff [where ?'a = "64 word"] bit_simps)
  qed (use s in simp_all)
qed

lemma pending_count_le: "pending_count pending \<le> 7"
  using length_filter_le [of "\<lambda>s. pending AND signal_bit s \<noteq> 0" signal_order]
  by (simp add: pending_count_def signal_order_def)

lemma deliver_step_continues:
  assumes cur: "current k < length (processes k)" and op: "deliver_step frame k = (None, k')"
  shows "current k' < length (processes k')"
    "pending_count (pr_pending (current_process k')) < pending_count (pr_pending (current_process k))"
proof -
  obtain s where s: "next_pending_signal (pr_pending (current_process k)) = Some s"
    using op by (auto simp: deliver_step_def Let_def split: option.splits if_splits)
  then have k': "k' = update_process (current k) (\<lambda>p. p\<lparr>pr_pending := pr_pending p AND NOT (signal_bit s)\<rparr>) k"
    using op by (auto simp: deliver_step_def Let_def split: if_splits)
  show "current k' < length (processes k')" using cur by (simp add: k' update_process_def)
  show "pending_count (pr_pending (current_process k')) < pending_count (pr_pending (current_process k))"
    using cur pending_count_clear [OF s] by (simp add: k' update_process_def current_process_def)
qed

lemma deliver_loop_ends:
  "current k < length (processes k) \<Longrightarrow> pending_count (pr_pending (current_process k)) < turns \<Longrightarrow>
   deliver_loop turns frame k \<noteq> None"
proof (induction turns frame k rule: deliver_loop.induct)
  case (2 turns frame k)
  obtain res k1 where s: "deliver_step frame k = (res, k1)" by fastforce
  show ?case
  proof (cases res)
    case None
    note c = deliver_step_continues [OF "2.prems"(1) s [unfolded None]]
    then have "deliver_loop turns frame k1 \<noteq> None" using "2.IH" [OF s [symmetric]] "2.prems" None by simp
    then show ?thesis using s None by simp
  next
    case (Some a)
    then show ?thesis using s by simp
  qed
qed simp

text \<open>
  C13. The loop of \<open>deliver_pending_signal\<close> ends in every state a run of the kernel reaches: with
  its bound of eight turns it always ends in a frame, a context switch or the end of the
  process, whatever handlers are installed and whatever signals are pending.
\<close>

theorem signal_delivery_terminates:
  assumes "kernel_run fninit k"
  shows "\<exists>r k'. deliver_pending_signal frame k = Some (r, k')"
proof -
  have "current k < length (processes k)"
    using shapedD(1) [OF kernel_okD(1)] kernel_run_ok [OF assms] by blast
  moreover have "pending_count (pr_pending (current_process k)) < 8"
    using pending_count_le [of "pr_pending (current_process k)"] by simp
  ultimately have "deliver_loop 8 frame k \<noteq> None" by (rule deliver_loop_ends)
  then show ?thesis by (auto simp: deliver_pending_signal_def)
qed

section \<open>KILL and STOP\<close>

lemma schedule_state:
  assumes "schedule frame exiting k = (r, k')"
  shows "processes k' = processes (if exiting then finish_current (save_context frame k) else save_context frame k)"
    "tables k' = tables (if exiting then finish_current (save_context frame k) else save_context frame k)"
  using assms by (auto simp: schedule_def Let_def switch_to_def split: option.splits if_splits)

lemma schedule_exit_effect:
  assumes cur: "current k < length (processes k)" "current k < length (tables k)" and op: "schedule frame True k = (r, k')"
  shows "pr_zombie (processes k' ! current k)" "pr_waiting_for (processes k' ! current k) = 0"
    "\<forall>d \<in> set (tables k' ! current k). fd_kind d = Closed"
proof -
  let ?s = "save_context frame k"
  have s: "current ?s = current k" "tables ?s = tables k" "length (processes ?s) = length (processes k)"
    by (simp_all add: save_context_def update_process_def)
  have p: "processes (finish_current ?s) ! current k =
      (let p = processes ?s ! current k in p\<lparr>pr_zombie := True, pr_stopped := False, pr_waiting_for := 0\<rparr>)"
    using cur s
    by (simp add: finish_current_def Let_def release_descriptors_def update_process_def current_process_def wake_waiters_def)
  show "pr_zombie (processes k' ! current k)" "pr_waiting_for (processes k' ! current k) = 0"
    using p by (simp_all add: schedule_state [OF op] Let_def)
  show "\<forall>d \<in> set (tables k' ! current k). fd_kind d = Closed"
    using cur s by (auto simp: schedule_state [OF op] finish_current_parts)
qed

lemma kill_first: "bit pending 9 \<Longrightarrow> next_pending_signal pending = Some signal_kill"
  using pending_bit [of signal_kill pending] by (simp add: next_pending_signal_def signal_defs)

lemma stop_second: "\<not> bit pending 9 \<Longrightarrow> bit pending 19 \<Longrightarrow> next_pending_signal pending = Some signal_stop"
  using pending_bit [of signal_kill pending] pending_bit [of signal_stop pending]
  by (simp add: next_pending_signal_def signal_defs)

lemma save_keeps:
  assumes "i < length (processes k)"
  shows "pr_stopped (processes (save_context frame k) ! i) = pr_stopped (processes k ! i)"
    "pr_zombie (processes (save_context frame k) ! i) = pr_zombie (processes k ! i)"
  using assms by (cases "i = current k"; simp add: save_context_def update_process_def)+

lemma deliver_first:
  assumes "pr_active (current_process k)" "next_pending_signal (pr_pending (current_process k)) = Some s"
    and "frame \<noteq> 0"
  shows "s = signal_kill \<Longrightarrow> deliver_pending_signal frame k = Some (schedule frame True
      (update_process (current k) (\<lambda>p. p\<lparr>pr_pending := pr_pending p AND NOT (signal_bit s)\<rparr>) k))"
    and "s = signal_stop \<Longrightarrow> deliver_pending_signal frame k = Some (schedule frame False
      (update_process (current k) (\<lambda>p. p\<lparr>pr_stopped := True\<rparr>)
        (update_process (current k) (\<lambda>p. p\<lparr>pr_pending := pr_pending p AND NOT (signal_bit s)\<rparr>) k)))"
proof -
  have loop: "deliver_loop 8 frame k = (case deliver_step frame k of (Some r, k') \<Rightarrow> Some r | (None, k') \<Rightarrow> deliver_loop 7 frame k')"
    using deliver_loop.simps(2) [of 7 frame k] by simp
  have cur: "current (update_process i f k) = current k" for i f by (simp add: update_process_def)
  show "s = signal_kill \<Longrightarrow> deliver_pending_signal frame k = Some (schedule frame True
      (update_process (current k) (\<lambda>p. p\<lparr>pr_pending := pr_pending p AND NOT (signal_bit s)\<rparr>) k))"
    using assms by (simp add: deliver_pending_signal_def loop deliver_step_def Let_def)
  show "s = signal_stop \<Longrightarrow> deliver_pending_signal frame k = Some (schedule frame False
      (update_process (current k) (\<lambda>p. p\<lparr>pr_stopped := True\<rparr>)
        (update_process (current k) (\<lambda>p. p\<lparr>pr_pending := pr_pending p AND NOT (signal_bit s)\<rparr>) k)))"
    using assms cur
    by (simp add: deliver_pending_signal_def loop deliver_step_def Let_def signal_defs is_terminating_signal_def)
qed

text \<open>
  C12. KILL and STOP cannot be caught: no process can install a handler for them, whatever the
  handler; when a KILL is pending for the running process its delivery makes it a zombie with
  all its descriptors closed, and a pending STOP without a KILL stops it, whatever handlers are
  installed and even while it runs another handler.
\<close>

theorem kill_and_stop_uncatchable:
  assumes "kernel_run fninit k" and "frame \<noteq> 0"
  shows "(\<forall>handler restorer. set_signal_action signal_kill handler restorer k = (Some (-22), k) \<and>
      set_signal_action signal_stop handler restorer k = (Some (-22), k)) \<and>
    (bit (pr_pending (current_process k)) 9 \<longrightarrow>
      (\<exists>r k'. deliver_pending_signal frame k = Some (r, k') \<and> pr_zombie (processes k' ! current k) \<and>
        (\<forall>d \<in> set (tables k' ! current k). fd_kind d = Closed))) \<and>
    (\<not> bit (pr_pending (current_process k)) 9 \<longrightarrow> bit (pr_pending (current_process k)) 19 \<longrightarrow>
      (\<exists>r k'. deliver_pending_signal frame k = Some (r, k') \<and> pr_stopped (processes k' ! current k) \<and>
        \<not> pr_zombie (processes k' ! current k)))"
proof -
  have sh: "shaped k" and run: "running k" using kernel_run_ok [OF assms(1)] kernel_okD(1) by auto
  have cur: "current k < length (processes k)" "current k < length (tables k)" using shapedD(1) [OF sh] by simp_all
  have act: "pr_active (current_process k)" "\<not> pr_zombie (current_process k)" using run by (simp_all add: running_def idle_def)
  let ?k1 = "\<lambda>s. update_process (current k) (\<lambda>p. p\<lparr>pr_pending := pr_pending p AND NOT (signal_bit s)\<rparr>) k"
  let ?k2 = "update_process (current k) (\<lambda>p. p\<lparr>pr_stopped := True\<rparr>) (?k1 signal_stop)"
  have kill: "\<exists>r k'. deliver_pending_signal frame k = Some (r, k') \<and> pr_zombie (processes k' ! current k) \<and>
        (\<forall>d \<in> set (tables k' ! current k). fd_kind d = Closed)" if "bit (pr_pending (current_process k)) 9"
  proof -
    obtain r k' where s: "schedule frame True (?k1 signal_kill) = (r, k')" by fastforce
    have k1: "current (?k1 signal_kill) = current k" "tables (?k1 signal_kill) = tables k"
      by (simp_all add: update_process_def)
    show ?thesis
      using deliver_first(1) [OF act(1) kill_first [OF that] assms(2) refl] s
        schedule_exit_effect [of "?k1 signal_kill" frame r k'] cur by (simp add: k1)
  qed
  have stop: "\<exists>r k'. deliver_pending_signal frame k = Some (r, k') \<and> pr_stopped (processes k' ! current k) \<and>
        \<not> pr_zombie (processes k' ! current k)"
    if "\<not> bit (pr_pending (current_process k)) 9" "bit (pr_pending (current_process k)) 19"
  proof -
    obtain r k' where s: "schedule frame False ?k2 = (r, k')" by fastforce
    have "pr_stopped (processes k' ! current k)" "\<not> pr_zombie (processes k' ! current k)"
      using cur act(2) by (simp_all add: schedule_state [OF s] save_keeps) (simp_all add: update_process_def current_process_def)
    then show ?thesis using deliver_first(2) [OF act(1) stop_second [OF that] assms(2) refl] s by simp
  qed
  show ?thesis using kill stop by (simp add: set_signal_action_def)
qed

section \<open>Round robin\<close>

text \<open>How far candidate \<open>c\<close> is ahead of the running slot.\<close>

definition ahead :: "nat \<Rightarrow> nat \<Rightarrow> nat" where
  "ahead cur c = (c + max_processes - 1 - cur) mod max_processes"

lemma find_map_upt:
  assumes "find P (map f [a..<b]) = Some y"
  shows "\<exists>d. a \<le> d \<and> d < b \<and> f d = y \<and> (\<forall>e. a \<le> e \<longrightarrow> e < d \<longrightarrow> \<not> P (f e))"
  using assms
proof (induction "b - a" arbitrary: a)
  case (Suc n)
  then have ab: "a < b" by simp
  then have n: "n = b - Suc a" using Suc.hyps(2) by simp
  show ?case
  proof (cases "P (f a)")
    case True
    then show ?thesis using Suc.prems ab by (auto simp: upt_conv_Cons)
  next
    case False
    then have "find P (map f [Suc a..<b]) = Some y" using Suc.prems ab by (simp add: upt_conv_Cons)
    then obtain d where d: "Suc a \<le> d" "d < b" "f d = y" "\<forall>e. Suc a \<le> e \<longrightarrow> e < d \<longrightarrow> \<not> P (f e)"
      using Suc.hyps(1) [of "Suc a"] n by auto
    have "\<not> P (f e)" if "a \<le> e" "e < d" for e using that d(4) False by (cases "e = a") auto
    then show ?thesis using d by (intro exI [of _ d]) auto
  qed
qed simp

lemma pick_next_nearest:
  assumes "current k < max_processes" "c < max_processes" "eligible (processes k ! c)"
    and "pick_next k = Some x" "x \<noteq> c"
  shows "ahead x c < ahead (current k) c"
proof -
  let ?f = "\<lambda>d. (current k + d) mod max_processes"
  obtain d where d: "1 \<le> d" "d < max_processes + 1" "?f d = x" "\<forall>e. 1 \<le> e \<longrightarrow> e < d \<longrightarrow> \<not> eligible (processes k ! ?f e)"
    using find_map_upt [OF assms(4) [unfolded pick_next_def]] by blast
  let ?g = "if current k < c then c - current k else c + max_processes - current k"
  have g: "1 \<le> ?g" "?f ?g = c" using assms(1,2) by (auto simp: max_processes_def)
  then have "\<not> ?g < d" using d(4) assms(3) by metis
  moreover have "?g \<noteq> d" using g(2) d(3) assms(5) by auto
  ultimately have "d < ?g" by simp
  moreover have "x = (if current k + d < max_processes then current k + d else current k + d - max_processes)"
    using d(2,3) assms(1) by (auto simp: max_processes_def mod_if)
  ultimately show ?thesis
    using assms(1,2) d(1,2) by (auto simp: ahead_def max_processes_def mod_if split: if_splits)
qed

definition turned :: "kernel \<Rightarrow> kernel \<Rightarrow> bool" where
  "turned k k' \<longleftrightarrow> current k' = current k \<or> pick_next (k'\<lparr>current := current k\<rparr>) = Some (current k')"

lemma pick_next_cong: "processes k = processes k' \<Longrightarrow> current k = current k' \<Longrightarrow> pick_next k = pick_next k'"
  by (simp add: pick_next_def)

lemma turned_same: "current k' = current k \<Longrightarrow> turned k k'"
  by (simp add: turned_def)

lemma turned_schedule:
  assumes "schedule frame exiting k1 = (r, k')" "current k1 = current k"
  shows "turned k k'"
proof -
  let ?s = "save_context frame k1"
  let ?k = "if exiting then finish_current ?s else ?s"
  have cur: "current ?k = current k" using assms(2) by (simp add: finish_current_parts save_context_def update_process_def)
  show ?thesis
  proof (cases "pick_next ?k")
    case None
    then show ?thesis using assms(1) cur by (intro turned_same) (simp add: schedule_def Let_def)
  next
    case (Some x)
    have "processes k' = processes ?k" using schedule_state(1) [OF assms(1)] by auto
    moreover have "current k' = x"
      using assms(1) Some by (auto simp: schedule_def Let_def switch_to_def split: option.splits)
    ultimately show ?thesis
      using Some cur pick_next_cong [of "k'\<lparr>current := current k\<rparr>" ?k] by (simp add: turned_def)
  qed
qed

lemma current_frame [simp]:
  "current (update_process i f k) = current k" "current (set_frame a tf k) = current k"
  by (simp_all add: update_process_def)

lemma turned_enter_handler:
  assumes "enter_handler frame sig handler k1 = (r, k')" "current k1 = current k"
  shows "turned k k'"
  using assms turned_schedule [of frame True k1 r k' k]
  by (auto simp: enter_handler_def Let_def turned_def split: option.splits)

lemma turned_deliver_step:
  assumes op: "deliver_step frame k1 = (res, k2)" and k: "current k1 = current k"
  shows "current k2 = current k" and "res = Some (r, k') \<Longrightarrow> turned k k'"
proof -
  note c = op [unfolded deliver_step_def Let_def]
  show "current k2 = current k" using c k by (auto split: option.splits if_splits)
  assume res: "res = Some (r, k')"
  let ?k1 = "\<lambda>s. update_process (current k1) (\<lambda>p. p\<lparr>pr_pending := pr_pending p AND NOT (signal_bit s)\<rparr>) k1"
  show "turned k k'"
  proof (cases "next_pending_signal (pr_pending (current_process k1))")
    case None
    then show ?thesis using c res k by (auto simp: turned_def split: if_splits)
  next
    case (Some s)
    then have "(r, k') \<in> {(Resume frame, k1), schedule frame True (?k1 s),
        schedule frame False (update_process (current (?k1 s)) (\<lambda>p. p\<lparr>pr_stopped := True\<rparr>) (?k1 s)),
        enter_handler frame s (pr_actions (current_process k1) ! unat s) (?k1 s)}"
      using c res by (auto split: if_splits)
    then show ?thesis
      using turned_schedule [of frame _ _ r k' k] turned_enter_handler [of frame _ _ _ r k' k] k
      by (auto simp: turned_same dest: sym)
  qed
qed

lemma turned_deliver_loop:
  "deliver_loop n frame k1 = Some (r, k') \<Longrightarrow> current k1 = current k \<Longrightarrow> turned k k'"
proof (induction n frame k1 rule: deliver_loop.induct)
  case (2 turns frame k1)
  obtain res k2 where s: "deliver_step frame k1 = (res, k2)" by fastforce
  show ?case
  proof (cases res)
    case None
    then show ?thesis
      using "2.IH" [OF s [symmetric] None] "2.prems" s turned_deliver_step(1) [OF s] by simp
  next
    case (Some a)
    then show ?thesis using "2.prems" s turned_deliver_step(2) [OF s] by simp
  qed
qed simp

lemma turned_timer: "timer_tick frame k = (r, k') \<Longrightarrow> turned k k'"
  using turned_schedule [of frame False _ r k' k]
  by (auto simp: timer_tick_def Let_def turned_same split: if_splits)

lemma turned_fail: "fail_call frame n k1 = (r, k') \<Longrightarrow> current k1 = current k \<Longrightarrow> turned k k'"
  by (auto simp: fail_call_def turned_same)

lemma turned_fork: "fork_current fninit frame k = (r, k') \<Longrightarrow> turned k k'"
  by (rule turned_same) (auto simp: fork_current_def fail_call_def Let_def split: if_splits option.splits prod.splits)

lemma load_elf_current: "load_elf_at fninit img pid args env disk name frame k = (r, k') \<Longrightarrow> current k' = current k"
  using load_elf_at_frame(1) by fastforce

lemma turned_spawn: "spawn_current_with_io fninit fs path args env io frame k = (r, k') \<Longrightarrow> turned k k'"
  unfolding spawn_current_with_io_def load_elf_def
  by (auto simp: Let_def turned_same dest: load_elf_current
    split: option.splits bool.splits sum.splits prod.splits intro: turned_fail)
    (drule load_elf_current, erule turned_schedule, simp)

lemma turned_execve: "execve_current fninit fs path args env frame k = (r, k') \<Longrightarrow> turned k k'"
  unfolding execve_current_def
  by (auto simp: Let_def turned_same dest: load_elf_current turned_fail
    split: option.splits bool.splits sum.splits prod.splits)

lemma turned_waitpid:
  assumes ok: "kernel_ok k" "running k" and op: "waitpid_current frame pid ptr options k = (r, k')"
  shows "turned k k'"
proof -
  obtain res k1 where reap: "reap_child (pr_pid (processes k ! current k)) pid ptr k = (res, k1)" by fastforce
  have k1: "current k1 = current k" using kernel_ok_reap [OF ok reap] by simp
  let ?k2 = "update_process (current k) (\<lambda>p. p\<lparr>pr_waiting_for := if 0 < pid then nat pid else usize_max\<rparr>) k1"
  have "(r, k') = schedule frame False (set_rax frame (errno 11) ?k2) \<or> (\<exists>n. fail_call frame n k1 = (r, k'))
     \<or> (\<exists>v. k' = set_rax frame v k1) \<or> k' = k1"
    using waitpid_result [OF op reap] by blast
  then show ?thesis
    using turned_schedule [of frame False "set_rax frame (errno 11) ?k2" r k' k] turned_fail k1
    by (auto simp: turned_same)
qed

lemma kernel_step_turned:
  assumes "kernel_step fninit k k'" "kernel_ok k" "running k"
  shows "turned k k'"
proof -
  have cur: "current k < length (processes k)" using shapedD(1) [OF kernel_okD(1) [OF assms(2)]] by simp
  have st: "steady k k' \<Longrightarrow> ?thesis" by (simp add: steady_def turned_same)
  have own: "own_table k k' \<Longrightarrow> ?thesis" by (simp add: own_table_def turned_same)
  from assms(1) show ?thesis
  proof cases
    case (fork frame a)
    then show ?thesis using turned_fork by blast
  next
    case (spawn fs path args env io frame a)
    then show ?thesis using turned_spawn by blast
  next
    case (execve fs path args env frame a)
    then show ?thesis using turned_execve by blast
  next
    case (waitpid frame pid ptr options a)
    then show ?thesis using turned_waitpid assms by blast
  next
    case (yield frame a)
    then show ?thesis using turned_schedule unfolding yield_current_def by blast
  next
    case (exit frame status a)
    then show ?thesis using turned_schedule unfolding exit_current_def by (metis current_frame(1))
  next
    case (fault a)
    then show ?thesis using turned_schedule by (auto simp: terminate_faulting_process_def Let_def split: if_splits)
  next
    case (timer frame a)
    then show ?thesis using turned_timer by blast
  next
    case (deliver frame a)
    then show ?thesis using turned_deliver_loop
      by (auto simp: deliver_pending_signal_def turned_same split: if_splits)
  next
    case (signal pid sig r)
    then show ?thesis
      by (auto simp: send_signal_def Let_def split: if_splits option.splits intro!: turned_same)
  next
    case (action sig handler restorer r)
    then show ?thesis using steady_action [OF cur] st by blast
  next
    case (sigreturn frame ok)
    then show ?thesis using steady_sigreturn [OF cur] st by blast
  next
    case (pipe frame a)
    then show ?thesis using own_table_sys_pipe own by blast
  next
    case (close fd r)
    then show ?thesis using own own_table_calls(1) [of k fd] by simp
  next
    case (dup fd r)
    then show ?thesis using own own_table_duplicate [of k fd] by simp
  next
    case (dup2 fd target r)
    then show ?thesis using own own_table_calls(4) [of k fd target] by simp
  next
    case (open_file path flags offset r)
    then show ?thesis using own own_table_calls(2) [of k "file_descriptor path flags offset"] by simp
  next
    case (seek fd d d' r)
    then show ?thesis using own own_table_calls(3) [of k fd d'] by simp
  next
    case (heap increment r)
    then show ?thesis using steady_grow [OF cur] st by blast
  next
    case (store address bytes r)
    then show ?thesis using steady_copy st by blast
  next
    case (login users_db username password target r)
    then show ?thesis using steady_login [OF cur] st by blast
  next
    case save_fpu
    then show ?thesis using steady_fpu(1) [OF cur] st by simp
  next
    case (restore_fpu frame)
    then show ?thesis using steady_fpu(2) [OF cur] st by simp
  qed (auto intro: turned_same)
qed

text \<open>
  \<open>waiting_turn fninit c n k k'\<close>: from \<open>k\<close> the kernel ran to \<open>k'\<close>, slot \<open>c\<close> could run all the
  time and never did, and the processor changed hands \<open>n\<close> times.
\<close>

inductive waiting_turn :: "cpu \<Rightarrow> nat \<Rightarrow> nat \<Rightarrow> kernel \<Rightarrow> kernel \<Rightarrow> bool" for fninit c where
  start: "current k \<noteq> c \<Longrightarrow> eligible (processes k ! c) \<Longrightarrow> waiting_turn fninit c 0 k k"
| step: "waiting_turn fninit c n k k1 \<Longrightarrow> kernel_step fninit k1 k' \<Longrightarrow> current k' \<noteq> c \<Longrightarrow>
    eligible (processes k' ! c) \<Longrightarrow>
    waiting_turn fninit c (if current k' = current k1 then n else Suc n) k k'"

lemma waiting_turn_ahead:
  assumes "waiting_turn fninit c n k k'" "kernel_ok k" "running k" "c < max_processes"
  shows "kernel_ok k' \<and> running k' \<and> current k' \<noteq> c \<and> n + ahead (current k') c \<le> ahead (current k) c"
  using assms
proof (induction rule: waiting_turn.induct)
  case (step n k k1 k')
  then have k1: "kernel_ok k1" "running k1" "n + ahead (current k1) c \<le> ahead (current k) c" by simp_all
  have k': "kernel_ok k' \<and> running k'" using kernel_step_ok [OF step.hyps(2) k1(1,2)] .
  have cur: "current k1 < max_processes" using kernel_okD(1) [OF k1(1)] by (simp add: shaped_def)
  show ?case
  proof (cases "current k' = current k1")
    case True
    then show ?thesis using k' k1(3) step.hyps(3) by simp
  next
    case False
    then have "pick_next (k'\<lparr>current := current k1\<rparr>) = Some (current k')"
      using kernel_step_turned [OF step.hyps(2) k1(1,2)] by (simp add: turned_def)
    from pick_next_nearest [OF _ step.prems(3) _ this] have "ahead (current k') c < ahead (current k1) c"
      using cur step.hyps(3,4) by simp
    then show ?thesis using False k' k1(3) step.hyps(3) by simp
  qed
qed simp

lemma ahead_other: "cur \<noteq> c \<Longrightarrow> cur < max_processes \<Longrightarrow> c < max_processes \<Longrightarrow> ahead cur c \<le> max_processes - 2"
  by (auto simp: ahead_def max_processes_def mod_if)

text \<open>
  C10. The round robin is fair: while a process can run and does not, the processor changes
  hands at most fourteen times, whatever the processes do in between, so it runs within one
  round of the sixteen slots.
\<close>

theorem round_robin_fair:
  assumes "kernel_run fninit k" and "c < max_processes" and "waiting_turn fninit c n k k'"
  shows "n \<le> max_processes - 2"
proof -
  have ok: "kernel_ok k" "running k" using kernel_run_ok [OF assms(1)] by simp_all
  have w: "kernel_ok k'" "n + ahead (current k') c \<le> ahead (current k) c"
    using waiting_turn_ahead [OF assms(3) ok assms(2)] by simp_all
  have "current k \<noteq> c" using assms(3) by (induction rule: waiting_turn.induct) simp_all
  then have "ahead (current k) c \<le> max_processes - 2"
    using ok(1) assms(2) by (intro ahead_other) (auto dest: kernel_okD(1) simp: shaped_def)
  then show ?thesis using w(2) by simp
qed

section \<open>The timer\<close>









section \<open>Examples\<close>

theorem signal_delivery_terminates_witness:
  "kernel_run id pair_kernel \<and> (\<exists>r k'. deliver_pending_signal 8 pair_kernel = Some (r, k'))"
  using signal_delivery_terminates [OF kernel_run.start [OF booted_pair]] kernel_run.start [OF booted_pair] by blast

text \<open>A process with a KILL pending, and three processes that can run.\<close>

definition doomed_kernel :: kernel where
  "doomed_kernel = sample_kernel\<lparr>processes := sample_process\<lparr>pr_pid := 2, pr_pending := signal_bit signal_kill\<rparr> # replicate 15 empty_process\<rparr>"

definition trio_kernel :: kernel where
  "trio_kernel = sample_kernel\<lparr>processes := sample_process # sample_process\<lparr>pr_pid := 2\<rparr> #
     sample_process\<lparr>pr_pid := 3\<rparr> # replicate 13 empty_process\<rparr>"

lemma booted_examples: "booted doomed_kernel" "booted trio_kernel"
proof -
  have "unique_pids (processes doomed_kernel)" "unique_pids (processes trio_kernel)"
    by (auto simp: unique_pids_def doomed_kernel_def trio_kernel_def nth_Cons' empty_process_def sample_process_def split: if_splits)
  then show "booted doomed_kernel" "booted trio_kernel"
    using new_table_no_ends
    by (auto simp: booted_def shaped_def doomed_kernel_def trio_kernel_def sample_kernel_def max_processes_def running_def
      current_process_def idle_def sample_process_def empty_process_def)
qed

lemma doomed_pending: "bit (pr_pending (current_process doomed_kernel)) 9"
  by (simp add: doomed_kernel_def current_process_def sample_kernel_def bit_signal_bit signal_defs)

theorem kill_and_stop_uncatchable_witness:
  "kernel_run id doomed_kernel \<and>
   (\<exists>r k'. deliver_pending_signal 8 doomed_kernel = Some (r, k') \<and> pr_zombie (processes k' ! current doomed_kernel))"
proof -
  have run: "kernel_run id doomed_kernel" by (rule kernel_run.start [OF booted_examples(1)])
  have "(8 :: u64) \<noteq> 0" by simp
  from kill_and_stop_uncatchable [OF run this] show ?thesis using doomed_pending run by blast
qed

lemma trio_yield:
  "\<exists>k'. yield_current 8 trio_kernel = (Resume 0, k') \<and> current k' = 1 \<and> eligible (processes k' ! 2)"
proof -
  let ?s = "save_context 8 trio_kernel"
  have n: "processes trio_kernel ! 1 = sample_process\<lparr>pr_pid := 2\<rparr>" "processes trio_kernel ! 2 = sample_process\<lparr>pr_pid := 3\<rparr>"
    by (simp_all add: trio_kernel_def)
  have c: "current trio_kernel = 0" by (simp add: trio_kernel_def sample_kernel_def)
  have p: "processes ?s ! 1 = processes trio_kernel ! 1" "processes ?s ! 2 = processes trio_kernel ! 2" "current ?s = 0"
    by (simp_all add: save_context_def update_process_def c)
  have e: "eligible (sample_process\<lparr>pr_pid := i\<rparr>)" "pr_space (sample_process\<lparr>pr_pid := i\<rparr>) \<noteq> None"
    "pr_frame (sample_process\<lparr>pr_pid := i\<rparr>) = 0" for i
    by (simp_all add: eligible_def sample_process_def empty_process_def)
  have "[1..<max_processes + 1] = 1 # [2..<max_processes + 1]" by (simp add: max_processes_def upt_conv_Cons)
  then have "pick_next ?s = Some 1" using e by (simp add: pick_next_def p n max_processes_def del: One_nat_def)
  moreover obtain space where "pr_space (processes ?s ! 1) = Some space" using e p n by fastforce
  then have "\<exists>k'. switch_to 1 ?s = (Resume 0, k') \<and> current k' = 1 \<and> eligible (processes k' ! 2)"
    using e by (simp add: switch_to_def p n Let_def del: One_nat_def)
  ultimately show ?thesis by (simp add: yield_current_def schedule_def)
qed

theorem round_robin_fair_witness:
  "\<exists>k'. waiting_turn id 2 1 trio_kernel k' \<and> 1 \<le> max_processes - 2"
proof -
  obtain k' where y: "yield_current 8 trio_kernel = (Resume 0, k')" "current k' = 1" "eligible (processes k' ! 2)"
    using trio_yield by blast
  have t: "current trio_kernel = 0" "eligible (processes trio_kernel ! 2)"
    by (simp_all add: trio_kernel_def sample_kernel_def eligible_def sample_process_def empty_process_def)
  have "waiting_turn id 2 0 trio_kernel trio_kernel" by (rule waiting_turn.start) (simp_all add: t)
  from waiting_turn.step [OF this kernel_step.yield [OF y(1)]] have w: "waiting_turn id 2 1 trio_kernel k'"
    using y t by simp
  have "2 < max_processes" by (simp add: max_processes_def)
  from round_robin_fair [OF kernel_run.start [OF booted_examples(2)] this w] w show ?thesis by blast
qed


end
