(* ===== verification/Address_Spaces.thy ===== *)
theory Address_Spaces
  imports User_Memory
begin

text \<open>
  Separation of the address spaces that \<open>kernel/src/arch/x86_64/paging.rs\<close> builds. A ghost map
  gives each page frame in use its owner: the root of the space it belongs to and the indices
  that lead from the root to it. \<open>spaces_ok\<close> says that the page tables in memory agree with
  the map; every operation keeps it and writes only to frames of the space it works on and to
  frames nobody owned.
\<close>

section \<open>Page frames in memory\<close>

definition virt :: "machine \<Rightarrow> u64 \<Rightarrow> u64" where
  "virt m f = f + hhdm_offset (allocator m)"

definition frame_ok :: "machine \<Rightarrow> u64 \<Rightarrow> bool" where
  "frame_ok m f \<longleftrightarrow> page_aligned f \<and> f AND address_mask = f \<and>
     unat f + unat (hhdm_offset (allocator m)) + 4096 \<le> 2 ^ 64"

definition page_bytes :: "machine \<Rightarrow> u64 \<Rightarrow> u64 set" where
  "page_bytes m f = (\<lambda>i. virt m f + word_of_nat i) ` {..<4096}"

definition entry :: "machine \<Rightarrow> u64 \<Rightarrow> nat \<Rightarrow> u64" where
  "entry m f i = load_entry m (virt m f) i"

lemma virt_cong: "hhdm_offset (allocator m') = hhdm_offset (allocator m) \<Longrightarrow> virt m' f = virt m f"
  by (simp add: virt_def)

lemma frame_ok_cong: "hhdm_offset (allocator m') = hhdm_offset (allocator m) \<Longrightarrow> frame_ok m' f = frame_ok m f"
  by (simp add: frame_ok_def)

lemma unat_virt:
  assumes "frame_ok m f" "i < 4096"
  shows "unat (virt m f + word_of_nat i) = unat f + unat (hhdm_offset (allocator m)) + i"
proof -
  have "unat f + unat (hhdm_offset (allocator m)) + i < 18446744073709551616"
    using assms by (simp add: frame_ok_def)
  then show ?thesis using assms(2) by (simp add: virt_def unat_word_ariths unat_of_nat take_bit_eq_mod)
qed

lemma table_pointer_frame: "frame_ok m f \<Longrightarrow> table_pointer m f = Some (virt m f)"
  by (simp add: table_pointer_def phys_to_virt_def checked_add_def frame_ok_def virt_def)

lemma in_page: "i < 4096 \<Longrightarrow> virt m f + word_of_nat i \<in> page_bytes m f"
  unfolding page_bytes_def by (rule imageI) simp

lemma pages_disjoint:
  assumes "frame_ok m f" "frame_ok m g" "f \<noteq> g" "x \<in> page_bytes m f"
  shows "x \<notin> page_bytes m g"
proof
  assume "x \<in> page_bytes m g"
  then obtain i j where ij: "i < 4096" "j < 4096" "x = virt m f + word_of_nat i" "x = virt m g + word_of_nat j"
    using assms(4) by (auto simp: page_bytes_def)
  then have "unat f + i = unat g + j" using unat_virt [OF assms(1) ij(1)] unat_virt [OF assms(2) ij(2)] by simp
  moreover obtain a b where "unat f = 4096 * a" "unat g = 4096 * b"
    using assms(1,2) by (auto simp: frame_ok_def page_aligned_iff elim!: dvdE)
  ultimately have "4096 * a + i = 4096 * b + j" by simp
  then have "(4096 * a + i) div 4096 = (4096 * b + j) div 4096" by simp
  then have "a = b" using ij(1,2) by simp
  then have "f = g" using \<open>unat f = 4096 * a\<close> \<open>unat g = 4096 * b\<close> by (simp add: word_unat_eq_iff)
  then show False using assms(3) by simp
qed

lemma store_outside:
  assumes f: "frame_ok m f" and len: "i + length bs \<le> 4096" and x: "x \<notin> page_bytes m f"
  shows "ram (store_bytes (virt m f + word_of_nat i) bs m) x = ram m x"
proof -
  have "\<not> unat (x - (virt m f + word_of_nat i)) < length bs"
  proof
    assume lt: "unat (x - (virt m f + word_of_nat i)) < length bs"
    let ?d = "unat (x - (virt m f + word_of_nat i))"
    have "x = virt m f + word_of_nat i + word_of_nat ?d" by simp
    then have "x = virt m f + word_of_nat (i + ?d)" by simp
    moreover have "i + ?d < 4096" using lt len by simp
    ultimately show False using x unfolding page_bytes_def by blast
  qed
  then show ?thesis by (simp add: store_bytes_def)
qed

lemma store_frame [simp]:
  "allocator (store_bytes p bs m) = allocator m" "cr3 (store_bytes p bs m) = cr3 m"
  "virt (store_bytes p bs m) = virt m" "page_bytes (store_bytes p bs m) = page_bytes m"
  "frame_ok (store_bytes p bs m) = frame_ok m"
  by (simp_all add: store_bytes_def virt_def page_bytes_def frame_ok_def fun_eq_iff)

text \<open>Loads inside a page depend on its bytes only.\<close>

lemma load_bytes_page:
  assumes "\<And>x. x \<in> page_bytes m f \<Longrightarrow> ram m' x = ram m x" "i + n \<le> 4096"
  shows "load_bytes m' (virt m f + word_of_nat i) n = load_bytes m (virt m f + word_of_nat i) n"
proof -
  have "ram m' (virt m f + word_of_nat i + word_of_nat j) = ram m (virt m f + word_of_nat i + word_of_nat j)"
    if "j < n" for j
  proof -
    have "virt m f + word_of_nat (i + j) \<in> page_bytes m f" using that assms(2) by (intro in_page) simp
    from assms(1) [OF this] show ?thesis by (simp add: add.assoc)
  qed
  then show ?thesis by (simp add: load_bytes_def)
qed

lemma entry_cong:
  assumes "\<And>x. x \<in> page_bytes m f \<Longrightarrow> ram m' x = ram m x" "virt m' f = virt m f" "i < 512"
  shows "entry m' f i = entry m f i"
  using load_bytes_page [OF assms(1), of f "8 * i" 8] assms(2,3)
  by (simp add: entry_def load_entry_def load_u64_def entry_pointer_def)

text \<open>A load from a page that a store has changed in part.\<close>

lemma load_store_page:
  assumes f: "frame_ok m f" and a: "a + length bs \<le> 4096" and i: "i + n \<le> 4096"
  shows "load_bytes (store_bytes (virt m f + word_of_nat a) bs m) (virt m f + word_of_nat i) n =
    map (\<lambda>j. if a \<le> i + j \<and> i + j < a + length bs then bs ! (i + j - a)
      else ram m (virt m f + word_of_nat (i + j))) [0..<n]"
proof -
  have "ram (store_bytes (virt m f + word_of_nat a) bs m) (virt m f + word_of_nat i + word_of_nat j) =
      (if a \<le> i + j \<and> i + j < a + length bs then bs ! (i + j - a) else ram m (virt m f + word_of_nat (i + j)))"
    if j: "j < n" for j
  proof -
    let ?x = "virt m f + word_of_nat (i + j)"
    have x: "unat ?x = unat f + unat (hhdm_offset (allocator m)) + (i + j)"
      using j i by (intro unat_virt [OF f]) simp
    have d: "unat (?x - (virt m f + word_of_nat a)) = i + j - a" if "a \<le> i + j"
    proof -
      have "?x - (virt m f + word_of_nat a) = word_of_nat (i + j) - word_of_nat a" by simp
      also have "\<dots> = word_of_nat (i + j - a)" using that by simp
      finally show ?thesis using j i by (simp add: unat_of_nat take_bit_eq_mod)
    qed
    have no: "\<not> unat (?x - (virt m f + word_of_nat a)) < length bs" if "i + j < a"
    proof
      let ?d = "unat (?x - (virt m f + word_of_nat a))"
      assume lt: "?d < length bs"
      have "?x = virt m f + word_of_nat a + word_of_nat ?d" by simp
      then have "?x = virt m f + word_of_nat (a + ?d)" by simp
      then have "i + j = a + ?d" using x unat_virt [OF f, of "a + ?d"] lt a by simp
      then show False using that by simp
    qed
    show ?thesis
      using d no by (cases "a \<le> i + j") (auto simp: store_bytes_def add.assoc)
  qed
  then show ?thesis by (simp add: load_bytes_def)
qed

lemma store_entry_frame [simp]:
  "allocator (store_entry p i v m) = allocator m" "cr3 (store_entry p i v m) = cr3 m"
  "virt (store_entry p i v m) = virt m" "page_bytes (store_entry p i v m) = page_bytes m"
  "frame_ok (store_entry p i v m) = frame_ok m"
  by (simp_all add: store_entry_def store_u64_def)

lemma store_entry_outside:
  "frame_ok m f \<Longrightarrow> i < 512 \<Longrightarrow> x \<notin> page_bytes m f \<Longrightarrow> ram (store_entry (virt m f) i v m) x = ram m x"
  using store_outside [of m f "8 * i" "to_le 8 v" x] by (simp add: store_entry_def store_u64_def entry_pointer_def)

lemma nth_to_le_list: "map (\<lambda>j. to_le 8 (v :: u64) ! j) [0..<8] = to_le 8 v"
  by (rule nth_equalityI) simp_all

lemma entry_store_same:
  assumes "frame_ok m f" "i < 512" shows "entry (store_entry (virt m f) i v m) f i = v"
proof -
  have "load_bytes (store_entry (virt m f) i v m) (virt m f + word_of_nat (8 * i)) 8 =
      map (\<lambda>j. to_le 8 v ! j) [0..<8]"
    using load_store_page [OF assms(1), of "8 * i" "to_le 8 v" "8 * i" 8] assms(2)
    by (simp add: store_entry_def store_u64_def entry_pointer_def)
  then show ?thesis
    by (simp add: entry_def load_entry_def load_u64_def entry_pointer_def nth_to_le_list)
qed

lemma entry_store_other:
  assumes "frame_ok m f" "i < 512" "j < 512" "j \<noteq> i"
  shows "entry (store_entry (virt m f) i v m) f j = entry m f j"
proof -
  have no: "\<not> (8 * i \<le> 8 * j + t \<and> 8 * j + t < 8 * i + 8)" if "t < 8" for t
    using that assms(4) by presburger
  have "load_bytes (store_entry (virt m f) i v m) (virt m f + word_of_nat (8 * j)) 8 =
      load_bytes m (virt m f + word_of_nat (8 * j)) 8"
    using load_store_page [OF assms(1), of "8 * i" "to_le 8 v" "8 * j" 8] assms(2,3) no
    by (simp add: store_entry_def store_u64_def entry_pointer_def load_bytes_def add.assoc)
  then show ?thesis by (simp add: entry_def load_entry_def load_u64_def entry_pointer_def)
qed

lemma from_le_zeros: "from_le (replicate n 0) = (0 :: u64)"
  by (induction n) simp_all

lemma zero_page_frame [simp]:
  "allocator (zero_page p m) = allocator m" "cr3 (zero_page p m) = cr3 m"
  "virt (zero_page p m) = virt m" "page_bytes (zero_page p m) = page_bytes m" "frame_ok (zero_page p m) = frame_ok m"
  by (simp_all add: zero_page_def)

lemma entry_zero_page:
  assumes "frame_ok m f" "i < 512" shows "entry (zero_page (virt m f) m) f i = 0"
proof -
  have "load_bytes (zero_page (virt m f) m) (virt m f + word_of_nat (8 * i)) 8 = replicate 8 0"
  proof -
    have "load_bytes (zero_page (virt m f) m) (virt m f + word_of_nat (8 * i)) 8 =
        map (\<lambda>j. 0 :: u8) [0..<8]"
      using load_store_page [OF assms(1), of 0 "replicate 4096 0" "8 * i" 8] assms(2)
      by (simp add: zero_page_def del: map_replicate_const)
    then show ?thesis by (simp add: map_replicate_const)
  qed
  then show ?thesis by (simp add: entry_def load_entry_def load_u64_def entry_pointer_def from_le_zeros)
qed

lemma zero_page_outside: "frame_ok m f \<Longrightarrow> x \<notin> page_bytes m f \<Longrightarrow> ram (zero_page (virt m f) m) x = ram m x"
  using store_outside [of m f 0 "replicate 4096 0" x] by (simp add: zero_page_def)

section \<open>Ownership\<close>

text \<open>
  A frame's owner is the root of its space and the path of indices from the root. Paths of up
  to three indices lead to tables, those of four to pages; a frame that must never change, as
  the boot loader's root table, owns itself under the path \<open>reserved_path\<close>.
\<close>

type_synonym owners = "u64 \<Rightarrow> (u64 \<times> nat list) option"

definition reserved_path :: "nat list" where
  "reserved_path = [0, 0, 0, 0, 0]"

definition user_index :: "nat list \<Rightarrow> nat \<Rightarrow> bool" where
  "user_index path i \<longleftrightarrow> i < 512 \<and> (path = [] \<longrightarrow> i < 256)"

text \<open>The upper half of a root table belongs to the kernel: no entry is open to user mode.\<close>

definition kernel_half :: "machine \<Rightarrow> u64 \<Rightarrow> bool" where
  "kernel_half m f \<longleftrightarrow> (\<forall>i. 256 \<le> i \<longrightarrow> i < 512 \<longrightarrow> present (entry m f i) \<longrightarrow> entry m f i AND entry_user = 0)"

definition spaces_ok :: "owners \<Rightarrow> machine \<Rightarrow> bool" where
  "spaces_ok own m \<longleftrightarrow>
     allocator_ok (allocator m) \<and> page_aligned (hhdm_offset (allocator m)) \<and>
     (\<forall>f \<in> free_pages (allocator m). f AND address_mask = f) \<and>
     (\<forall>f r path. own f = Some (r, path) \<longrightarrow> frame_ok m f \<and> f \<notin> free_pages (allocator m) \<and> length path \<le> 5 \<and>
        own r \<noteq> None) \<and>
     (\<forall>f r path i. own f = Some (r, path) \<longrightarrow> length path < 4 \<longrightarrow> user_index path i \<longrightarrow> present (entry m f i) \<longrightarrow>
        entry m f i AND entry_user \<noteq> 0 \<and> own (entry m f i AND address_mask) = Some (r, path @ [i])) \<and>
     (\<forall>f r. own f = Some (r, []) \<longrightarrow> kernel_half m f) \<and>
     (\<exists>r path. own (cr3 m AND address_mask) = Some (r, path) \<and> path \<in> {[], reserved_path} \<and>
        kernel_half m (cr3 m AND address_mask))"

lemma spaces_okD:
  assumes "spaces_ok own m"
  shows "allocator_ok (allocator m)" "page_aligned (hhdm_offset (allocator m))"
    "f \<in> free_pages (allocator m) \<Longrightarrow> f AND address_mask = f"
    "own f = Some (r, path) \<Longrightarrow> frame_ok m f" "own f = Some (r, path) \<Longrightarrow> f \<notin> free_pages (allocator m)"
    "own f = Some (r, path) \<Longrightarrow> length path < 4 \<Longrightarrow> user_index path i \<Longrightarrow> present (entry m f i) \<Longrightarrow>
      entry m f i AND entry_user \<noteq> 0 \<and> own (entry m f i AND address_mask) = Some (r, path @ [i])"
    "own f = Some (r, []) \<Longrightarrow> kernel_half m f" "own f = Some (r, path) \<Longrightarrow> own r \<noteq> None"
  using assms unfolding spaces_ok_def by blast+

lemma kernel_half_cong:
  assumes "\<And>i. 256 \<le> i \<Longrightarrow> i < 512 \<Longrightarrow> entry m' f i = entry m f i"
  shows "kernel_half m' f = kernel_half m f"
  using assms by (simp add: kernel_half_def)

text \<open>
  What an operation on the space with root \<open>r\<close> may do: hand out more frames, and change the
  bytes of frames of \<open>r\<close> and of frames nobody owned.
\<close>

definition confined :: "u64 \<Rightarrow> owners \<Rightarrow> machine \<Rightarrow> owners \<Rightarrow> machine \<Rightarrow> bool" where
  "confined r own m own' m' \<longleftrightarrow> spaces_ok own' m' \<and> own \<subseteq>\<^sub>m own' \<and>
     hhdm_offset (allocator m') = hhdm_offset (allocator m) \<and>
     (\<forall>f root path. own f = Some (root, path) \<longrightarrow> root \<noteq> r \<longrightarrow> (\<forall>x \<in> page_bytes m f. ram m' x = ram m x))"

lemma confined_refl: "spaces_ok own m \<Longrightarrow> confined r own m own m"
  by (simp add: confined_def)

lemma confined_trans:
  assumes "confined r own m own1 m1" "confined r own1 m1 own2 m2" shows "confined r own m own2 m2"
proof -
  have "page_bytes m1 = page_bytes m"
    using assms(1) by (simp add: confined_def page_bytes_def virt_def fun_eq_iff)
  moreover have "own f = Some x \<Longrightarrow> own1 f = Some x" for f x
    using assms(1) by (auto simp: confined_def map_le_def dom_def)
  ultimately show ?thesis
    using assms map_le_trans unfolding confined_def by metis
qed

section \<open>The primitive changes\<close>

lemma page_aligned_room:
  assumes "page_aligned f" "page_aligned h" "checked_add f h = Some v"
  shows "unat f + unat h + 4096 \<le> 2 ^ 64"
proof -
  obtain a b where ab: "unat f = 4096 * a" "unat h = 4096 * b"
    using assms(1,2) by (auto simp: page_aligned_iff elim!: dvdE)
  have "unat f + unat h < 2 ^ 64" using assms(3) by (simp add: checked_add_def split: if_splits)
  then have "4096 * (a + b) < 4096 * 2 ^ 52" by (simp add: ab)
  then have "a + b < 2 ^ 52" by simp
  then show ?thesis by (simp add: ab)
qed

lemma spaces_ok_new_frame:
  assumes ok: "spaces_ok own m" and op: "new_frame m = (res, m1)"
  shows "spaces_ok own m1" "ram m1 = ram m" "cr3 m1 = cr3 m" "virt m1 = virt m" "frame_ok m1 = frame_ok m"
    "hhdm_offset (allocator m1) = hhdm_offset (allocator m)"
    "res = Some fr \<Longrightarrow> frame_ok m (physical_address fr) \<and> virtual_address fr = virt m (physical_address fr) \<and>
      own (physical_address fr) = None \<and> physical_address fr \<notin> free_pages (allocator m1)"
proof -
  obtain al where a: "allocate_frame (allocator m) = (res, al)" "m1 = m\<lparr>allocator := al\<rparr>"
    using op by (auto simp: new_frame_def split: prod.splits)
  have al: "allocator_ok al" "free_pages al \<subseteq> free_pages (allocator m)" "hhdm_offset al = hhdm_offset (allocator m)"
    "res = Some fr \<Longrightarrow> physical_address fr \<in> free_pages (allocator m) - free_pages al \<and>
      checked_add (physical_address fr) (hhdm_offset (allocator m)) = Some (virtual_address fr)" for fr
    using allocate_frame_ok [OF spaces_okD(1) [OF ok] a(1)] by auto
  show same: "ram m1 = ram m" "cr3 m1 = cr3 m" "virt m1 = virt m" "frame_ok m1 = frame_ok m"
    "hhdm_offset (allocator m1) = hhdm_offset (allocator m)"
    using al(3) by (simp_all add: a(2) virt_def frame_ok_def fun_eq_iff)
  have e: "entry m1 f i = entry m f i" for f i
    unfolding entry_def same(3) by (simp add: a(2) load_entry_def load_u64_def load_bytes_def)
  then have kh: "kernel_half m1 f = kernel_half m f" for f by (simp add: kernel_half_def)
  have alm: "allocator m1 = al" by (simp add: a(2))
  show "spaces_ok own m1"
    unfolding spaces_ok_def e kh same alm al(3)
    using ok al(1,2) unfolding spaces_ok_def by blast
  assume "res = Some fr"
  note fr = al(4) [OF this]
  have aligned: "page_aligned (physical_address fr)"
    using fr by (auto simp: free_pages_def region_pages_def)
  have "frame_ok m (physical_address fr)"
    using fr spaces_okD(2,3) [OF ok] aligned page_aligned_room [OF aligned] by (auto simp: frame_ok_def)
  moreover have "virtual_address fr = virt m (physical_address fr)"
    using fr by (simp add: virt_def checked_add_def split: if_splits)
  moreover have "own (physical_address fr) = None"
    using fr spaces_okD(5) [OF ok] by (cases "own (physical_address fr)") auto
  ultimately show "frame_ok m (physical_address fr) \<and> virtual_address fr = virt m (physical_address fr) \<and>
      own (physical_address fr) = None \<and> physical_address fr \<notin> free_pages (allocator m1)"
    using fr alm by simp
qed

lemma spaces_ok_ram:
  assumes ok: "spaces_ok own m" and al: "allocator m' = allocator m" "cr3 m' = cr3 m"
    and f: "frame_ok m f" and same: "\<And>x. x \<notin> page_bytes m f \<Longrightarrow> ram m' x = ram m x"
    and page: "own f = None \<or> (\<exists>r path. own f = Some (r, path) \<and> length path = 4)"
  shows "spaces_ok own m'"
proof -
  have v: "virt m' = virt m" "frame_ok m' = frame_ok m" by (simp_all add: virt_def frame_ok_def al fun_eq_iff)
  have bytes: "ram m' x = ram m x" if "frame_ok m g" "g \<noteq> f" "x \<in> page_bytes m g" for g x
    using pages_disjoint [OF that(1) f that(2,3)] same by blast
  have e: "entry m' g i = entry m g i" if "frame_ok m g" "g \<noteq> f" "i < 512" for g i
    using bytes [OF that(1,2)] v that(3) by (intro entry_cong) auto
  have short: "g \<noteq> f" if "own g = Some (r, path)" "length path \<noteq> 4" for g r path using that page by auto
  have kh: "kernel_half m' g = kernel_half m g" if "own g = Some (r, path)" "length path \<noteq> 4" for g r path
    using e [OF spaces_okD(4) [OF ok that(1)] short [OF that]] by (intro kernel_half_cong) simp
  have ui: "i < 512" if "user_index path i" for path i using that by (simp add: user_index_def)
  have tables: "entry m' g i AND entry_user \<noteq> 0 \<and> own (entry m' g i AND address_mask) = Some (r, path @ [i])"
    if "own g = Some (r, path)" "length path < 4" "user_index path i" "present (entry m' g i)" for g r path i
    using spaces_okD(6) [OF ok that(1-3)] that(4) e [OF spaces_okD(4) [OF ok that(1)] short [OF that(1)] ui [OF that(3)]] that(2)
    by simp
  have roots: "kernel_half m' g" if "own g = Some (r, [])" for g r
    using spaces_okD(7) [OF ok that] kh [OF that] by simp
  obtain r path where c: "own (cr3 m AND address_mask) = Some (r, path)" "path \<in> {[], reserved_path}"
    "kernel_half m (cr3 m AND address_mask)" using ok unfolding spaces_ok_def by blast
  have "length path \<noteq> 4" using c(2) by (auto simp: reserved_path_def)
  then have "kernel_half m' (cr3 m AND address_mask)" using kh [OF c(1)] c(3) by simp
  then show ?thesis
    using ok tables roots c unfolding spaces_ok_def v al by blast
qed

lemma spaces_ok_adopt:
  assumes ok: "spaces_ok own m" and f: "own f = None" "frame_ok m f" "f \<notin> free_pages (allocator m)"
    and path: "length path \<le> 4" "length path < 4 \<Longrightarrow> \<forall>i. user_index path i \<longrightarrow> \<not> present (entry m f i)"
    "path = [] \<Longrightarrow> kernel_half m f" "r = f \<or> own r \<noteq> None"
  shows "spaces_ok (own(f \<mapsto> (r, path))) m"
proof -
  have other: "own g = Some x \<Longrightarrow> (own(f \<mapsto> (r, path))) g = Some x" for g x using f(1) by auto
  have tables: "entry m g i AND entry_user \<noteq> 0 \<and> (own(f \<mapsto> (r, path))) (entry m g i AND address_mask) = Some (q, p @ [i])"
    if "(own(f \<mapsto> (r, path))) g = Some (q, p)" "length p < 4" "user_index p i" "present (entry m g i)" for g q p i
  proof (cases "g = f")
    case True
    then show ?thesis using that path(2) by auto
  next
    case False
    then have "own g = Some (q, p)" using that(1) by simp
    from spaces_okD(6) [OF ok this that(2-4)] show ?thesis using other by blast
  qed
  have frames: "frame_ok m g \<and> g \<notin> free_pages (allocator m) \<and> length p \<le> 5 \<and> (own(f \<mapsto> (r, path))) q \<noteq> None"
    if "(own(f \<mapsto> (r, path))) g = Some (q, p)" for g q p
    using that ok f path(1,4) by (cases "g = f") (auto simp: spaces_ok_def)
  have roots: "kernel_half m g" if "(own(f \<mapsto> (r, path))) g = Some (q, [])" for g q
    using that path(3) spaces_okD(7) [OF ok] by (cases "g = f") auto
  obtain q p where c: "own (cr3 m AND address_mask) = Some (q, p)" "p \<in> {[], reserved_path}"
    "kernel_half m (cr3 m AND address_mask)" using ok unfolding spaces_ok_def by blast
  have cr3: "\<exists>q p. (own(f \<mapsto> (r, path))) (cr3 m AND address_mask) = Some (q, p) \<and> p \<in> {[], reserved_path} \<and>
        kernel_half m (cr3 m AND address_mask)" using other [OF c(1)] c(2,3) by blast
  have aok: "allocator_ok (allocator m)" "page_aligned (hhdm_offset (allocator m))"
    "\<forall>f \<in> free_pages (allocator m). f AND address_mask = f" using ok unfolding spaces_ok_def by blast+
  show ?thesis unfolding spaces_ok_def using aok frames tables roots cr3 by blast
qed

lemma spaces_ok_link:
  assumes ok: "spaces_ok own m" and f: "own f = Some (r, path)" "length path < 4" "user_index path i"
    and v: "present v \<Longrightarrow> v AND entry_user \<noteq> 0 \<and> own (v AND address_mask) = Some (r, path @ [i])"
  shows "spaces_ok own (store_entry (virt m f) i v m)" "confined r own m own (store_entry (virt m f) i v m)"
proof -
  let ?m = "store_entry (virt m f) i v m"
  have i: "i < 512" "path = [] \<Longrightarrow> i < 256" using f(3) by (auto simp: user_index_def)
  note fok = spaces_okD(4) [OF ok f(1)]
  have bytes: "ram ?m x = ram m x" if "frame_ok m g" "g \<noteq> f" "x \<in> page_bytes m g" for g x
    using store_entry_outside [OF fok i(1)] pages_disjoint [OF that(1) fok that(2,3)] by blast
  have e: "entry ?m g j = entry m g j" if "frame_ok m g" "g \<noteq> f \<or> j \<noteq> i" "j < 512" for g j
  proof (cases "g = f")
    case True
    then show ?thesis using that entry_store_other [OF fok i(1) that(3)] by simp
  next
    case False
    then show ?thesis using bytes [OF that(1) False] that(3) by (intro entry_cong) auto
  qed
  have tables: "entry ?m g j AND entry_user \<noteq> 0 \<and> own (entry ?m g j AND address_mask) = Some (q, p @ [j])"
    if "own g = Some (q, p)" "length p < 4" "user_index p j" "present (entry ?m g j)" for g q p j
  proof (cases "g = f \<and> j = i")
    case True
    then show ?thesis using that f(1) v entry_store_same [OF fok i(1), of v] by simp
  next
    case False
    have "j < 512" using that(3) by (simp add: user_index_def)
    then have "entry ?m g j = entry m g j" using e [OF spaces_okD(4) [OF ok that(1)]] False by blast
    then show ?thesis using spaces_okD(6) [OF ok that(1-3)] that(4) by simp
  qed
  have kh: "kernel_half ?m g = kernel_half m g" if "own g = Some (q, p)" "p = [] \<or> p = reserved_path" for g q p
  proof (rule kernel_half_cong)
    fix j :: nat assume j: "256 \<le> j" "j < 512"
    have "g \<noteq> f \<or> j \<noteq> i" using that f i(2) j(1) by (auto simp: reserved_path_def)
    then show "entry ?m g j = entry m g j" using e [OF spaces_okD(4) [OF ok that(1)]] j(2) by blast
  qed
  obtain q p where c: "own (cr3 m AND address_mask) = Some (q, p)" "p \<in> {[], reserved_path}"
    "kernel_half m (cr3 m AND address_mask)" using ok unfolding spaces_ok_def by blast
  have roots: "kernel_half ?m g" if "own g = Some (q, [])" for g q
    using spaces_okD(7) [OF ok that] kh [OF that] by simp
  have cr3: "kernel_half ?m (cr3 m AND address_mask)" using kh [OF c(1)] c(2,3) by blast
  have aok: "allocator_ok (allocator m)" "page_aligned (hhdm_offset (allocator m))"
    "\<forall>f \<in> free_pages (allocator m). f AND address_mask = f"
    "\<forall>f r path. own f = Some (r, path) \<longrightarrow> frame_ok m f \<and> f \<notin> free_pages (allocator m) \<and> length path \<le> 5 \<and> own r \<noteq> None"
    using ok unfolding spaces_ok_def by blast+
  show "spaces_ok own ?m" unfolding spaces_ok_def using aok tables roots c(1,2) cr3 by auto
  then show "confined r own m own ?m"
    using bytes spaces_okD(4) [OF ok] f(1) by (fastforce simp: confined_def)
qed

lemma confined_page:
  assumes ok: "spaces_ok own m" and al: "allocator m' = allocator m" "cr3 m' = cr3 m"
    and f: "frame_ok m f" and same: "\<And>x. x \<notin> page_bytes m f \<Longrightarrow> ram m' x = ram m x"
    and page: "own f = None \<or> (\<exists>path. own f = Some (r, path) \<and> length path = 4)"
  shows "confined r own m own m'"
proof -
  have "spaces_ok own m'" using page by (intro spaces_ok_ram [OF ok al f same]) auto
  moreover have "ram m' x = ram m x" if "own g = Some (q, p)" "q \<noteq> r" "x \<in> page_bytes m g" for g q p x
  proof -
    have "g \<noteq> f" using that page by auto
    then show ?thesis using same pages_disjoint [OF spaces_okD(4) [OF ok that(1)] f _ that(3)] by blast
  qed
  ultimately show ?thesis by (auto simp: confined_def al)
qed

lemma confined_new_frame:
  assumes "spaces_ok own m" "new_frame m = (res, m1)" shows "confined r own m own m1"
  using spaces_ok_new_frame [OF assms] by (simp add: confined_def)

lemma confined_adopt:
  "spaces_ok (own(f \<mapsto> x)) m \<Longrightarrow> own f = None \<Longrightarrow> confined r own m (own(f \<mapsto> x)) m"
  by (auto simp: confined_def map_le_def)

lemma confined_ok: "confined r own m own' m' \<Longrightarrow> spaces_ok own' m'"
  by (simp add: confined_def)

lemma confined_own: "confined r own m own' m' \<Longrightarrow> own f = Some x \<Longrightarrow> own' f = Some x"
  by (auto simp: confined_def map_le_def dom_def)

lemma confined_virt: "confined r own m own' m' \<Longrightarrow> virt m' = virt m"
  by (simp add: confined_def virt_def fun_eq_iff)

text \<open>Entries the kernel writes.\<close>

lemmas entry_flags = entry_present_def entry_writable_def entry_user_def entry_huge_def address_mask_def present_def

lemma bit_address_mask: "bit address_mask n \<longleftrightarrow> 12 \<le> n \<and> n < 52"
proof -
  have m: "address_mask = push_bit 12 (mask 40)" by (simp add: address_mask_def mask_eq_exp_minus_1)
  then show ?thesis unfolding m by (auto simp: bit_simps)
qed

lemma low_bits:
  "bit entry_present n \<longleftrightarrow> n = 0" "bit entry_writable n \<longleftrightarrow> n = 1" "bit entry_user n \<longleftrightarrow> n = 2"
  by (auto simp only: entry_present_def entry_writable_def entry_user_def bit_push_bit_iff bit_1_iff) simp_all

lemma table_entry_mask:
  assumes "p AND address_mask = p"
  shows "(p OR entry_present OR entry_writable OR entry_user) AND address_mask = p"
proof (rule bit_word_eqI)
  fix n assume "n < LENGTH(64)"
  have "bit p n = bit (p AND address_mask) n" using assms by simp
  then show "bit ((p OR entry_present OR entry_writable OR entry_user) AND address_mask) n = bit p n"
    by (auto simp: bit_simps bit_address_mask low_bits)
qed

lemma more_flags_mask: "(e OR (entry_writable OR entry_user)) AND address_mask = e AND address_mask"
  by (rule bit_word_eqI) (auto simp: bit_simps bit_address_mask low_bits)

lemma flag_set: "bit x n \<Longrightarrow> bit y n \<Longrightarrow> x AND y \<noteq> (0 :: u64)"
  using bit_and_iff [of x y n] by auto

lemma table_entry_flags:
  "present (p OR entry_present OR entry_writable OR entry_user)"
  "(p OR entry_present OR entry_writable OR entry_user) AND entry_user \<noteq> 0"
  "present e \<Longrightarrow> present (e OR (entry_writable OR entry_user))"
  "(e OR (entry_writable OR entry_user)) AND entry_user \<noteq> 0"
proof -
  show "present (p OR entry_present OR entry_writable OR entry_user)"
    unfolding present_def by (rule flag_set [of _ 0]) (simp_all add: bit_or_iff low_bits)
  show "(p OR entry_present OR entry_writable OR entry_user) AND entry_user \<noteq> 0"
    "(e OR (entry_writable OR entry_user)) AND entry_user \<noteq> 0"
    by (rule flag_set [of _ 2], simp_all add: bit_or_iff low_bits)+
  have p: "present x \<longleftrightarrow> bit x 0" for x by (simp add: present_def entry_present_def and_one_eq odd_iff_mod_2_eq_one bit_0)
  show "present e \<Longrightarrow> present (e OR (entry_writable OR entry_user))" by (simp add: p bit_or_iff)
qed

section \<open>Mapping\<close>

definition valid_path :: "nat list \<Rightarrow> bool" where
  "valid_path path \<longleftrightarrow> (\<forall>i < length path. user_index (take i path) (path ! i))"

lemma valid_path_snoc: "valid_path (path @ i # rest) \<Longrightarrow> user_index path i"
  unfolding valid_path_def by (drule spec [of _ "length path"]) simp

text \<open>A fresh cleared frame linked into entry \<open>i\<close> of a table.\<close>

lemma confined_new_table:
  assumes ok: "spaces_ok own m" and f: "own f = Some (r, path)" "length path < 4" "user_index path i"
    and new: "new_frame m = (Some fr, m1)"
  defines "e \<equiv> physical_address fr OR entry_present OR entry_writable OR entry_user"
  shows "confined r own m (own(physical_address fr \<mapsto> (r, path @ [i])))
      (store_entry (virt m f) i e (zero_page (virtual_address fr) m1))"
    "e AND address_mask = physical_address fr"
proof -
  let ?p = "physical_address fr" and ?own = "own(physical_address fr \<mapsto> (r, path @ [i]))"
  let ?m2 = "zero_page (virtual_address fr) m1"
  note n = spaces_ok_new_frame [OF ok new]
  have fr: "frame_ok m1 ?p" "virtual_address fr = virt m1 ?p" "own ?p = None" "?p \<notin> free_pages (allocator m1)"
    using n(7) [OF refl] n(4,5) by simp_all
  have mask: "?p AND address_mask = ?p" using fr(1) by (simp add: frame_ok_def)
  then show em: "e AND address_mask = ?p" unfolding e_def by (rule table_entry_mask)
  have 1: "confined r own m own m1" by (rule confined_new_frame [OF ok new])
  have 2: "confined r own m1 own ?m2"
    using fr zero_page_outside [OF fr(1)] by (intro confined_page [OF n(1) _ _ fr(1)]) simp_all
  have z: "\<not> present (entry ?m2 ?p j)" if "j < 512" for j
    using entry_zero_page [OF fr(1) that] by (simp add: fr(2) present_def)
  have "spaces_ok ?own ?m2"
    using fr f(2) z spaces_okD(8) [OF ok f(1)]
    by (intro spaces_ok_adopt [OF confined_ok [OF 2]]) (simp_all add: user_index_def)
  then have 3: "confined r own ?m2 ?own ?m2" using fr(3) by (rule confined_adopt)
  have "f \<noteq> ?p" using f(1) fr(3) by auto
  then have f': "?own f = Some (r, path)" using f(1) by simp
  have 4: "confined r ?own ?m2 ?own (store_entry (virt ?m2 f) i e ?m2)"
    using em table_entry_flags(2) [of ?p] by (intro spaces_ok_link(2) [OF confined_ok [OF 3] f' f(2,3)]) (simp add: e_def)
  have "virt ?m2 f = virt m f" using n(4) by simp
  then show "confined r own m ?own (store_entry (virt m f) i e ?m2)"
    using confined_trans [OF confined_trans [OF confined_trans [OF 1 2] 3] 4] by simp
qed

lemma make_tables_confined:
  assumes "spaces_ok own m" "own f = Some (r, path)" "length path + length idxs \<le> 4" "valid_path (path @ idxs)"
    and "make_tables idxs f m = (res, m')"
  shows "\<exists>own'. confined r own m own' m' \<and> (\<forall>t. res = Some t \<longrightarrow> own' t = Some (r, path @ idxs))"
  using assms
proof (induction idxs arbitrary: own f path m)
  case Nil
  then show ?case using confined_refl by fastforce
next
  case (Cons i rest)
  note ok = Cons.prems(1)
  have t: "table_pointer m f = Some (virt m f)" using table_pointer_frame spaces_okD(4) [OF ok Cons.prems(2)] by blast
  have len: "length path < 4" using Cons.prems(3) by simp
  have ui: "user_index path i" using Cons.prems(4) by (rule valid_path_snoc)
  let ?e = "load_entry m (virt m f) i"
  have next_step: "\<exists>own'. confined r own m own' m' \<and> (\<forall>t. res = Some t \<longrightarrow> own' t = Some (r, path @ i # rest))"
    if c: "confined r own m own1 m1" and o: "own1 t1 = Some (r, path @ [i])" and op: "make_tables rest t1 m1 = (res, m')"
    for own1 m1 t1
  proof -
    obtain own' where "confined r own1 m1 own' m'" "\<forall>t. res = Some t \<longrightarrow> own' t = Some (r, (path @ [i]) @ rest)"
      using Cons.IH [OF confined_ok [OF c] o _ _ op] Cons.prems(3,4) by auto
    then show ?thesis using confined_trans [OF c] by (metis append.assoc append_Cons append_Nil)
  qed
  show ?case
  proof (cases "present ?e")
    case True
    let ?v = "?e OR (entry_writable OR entry_user)"
    have e: "?e = entry m f i" by (simp add: entry_def)
    have o: "own (?v AND address_mask) = Some (r, path @ [i])"
      using spaces_okD(6) [OF ok Cons.prems(2) len ui] True by (simp add: more_flags_mask e)
    have c: "confined r own m own (store_entry (virt m f) i ?v m)"
      using o table_entry_flags(4) by (intro spaces_ok_link(2) [OF ok Cons.prems(2) len ui]) blast
    have "make_tables rest (?v AND address_mask) (store_entry (virt m f) i ?v m) = (res, m')"
      using Cons.prems(5) True by (simp add: t Let_def)
    from next_step [OF c o this] show ?thesis .
  next
    case False
    obtain fr m1 where n: "new_frame m = (fr, m1)" by fastforce
    show ?thesis
    proof (cases fr)
      case None
      then have "res = None" "m' = m1" using Cons.prems(5) False n by (simp_all add: t Let_def)
      then show ?thesis using confined_new_frame [OF ok] n by blast
    next
      case (Some fr')
      let ?v = "physical_address fr' OR entry_present OR entry_writable OR entry_user"
      note c = confined_new_table [OF ok Cons.prems(2) len ui n [unfolded Some]]
      have "make_tables rest (?v AND address_mask)
          (store_entry (virt m f) i ?v (zero_page (virtual_address fr') m1)) = (res, m')"
        using Cons.prems(5) False n Some by (simp add: t Let_def)
      from next_step [OF c(1) _ this] c(2) show ?thesis by simp
    qed
  qed
qed

lemma valid_path_four: "a < 256 \<Longrightarrow> b < 512 \<Longrightarrow> c < 512 \<Longrightarrow> d < 512 \<Longrightarrow> valid_path [a, b, c, d]"
  by (auto simp: valid_path_def user_index_def less_Suc_eq)

lemma table_indices_valid:
  assumes "va < user_max" shows "valid_path (table_indices va)"
proof -
  have "unat (drop_bit 39 va AND 0x1ff) < 256"
  proof -
    have "unat va < 2 ^ 47" using assms by (simp add: user_max_def word_less_nat_alt)
    then have "unat va div 2 ^ 39 < 256" by simp
    then have "unat (drop_bit 39 va) < 256" by (simp add: drop_bit_eq_div unat_div)
    moreover have "drop_bit 39 va AND 0x1ff \<le> drop_bit 39 va" by (rule word_and_le2)
    ultimately show ?thesis by (simp add: word_le_nat_alt)
  qed
  moreover have "unat (x AND 0x1ff :: u64) < 512" for x :: u64
  proof -
    have "x AND 0x1ff \<le> 0x1ff" by (rule word_and_le1)
    then show ?thesis by (simp add: word_le_nat_alt)
  qed
  ultimately show ?thesis unfolding table_indices_def list.map by (intro valid_path_four)
qed

lemma user_align: "va < user_max \<Longrightarrow> align_down va < user_max"
  using align_down_le [of va] by simp

lemma length_table_indices [simp]: "length (table_indices a) = 4"
  by (simp add: table_indices_def)

lemma valid_path_take: "valid_path path \<Longrightarrow> valid_path (take n path)"
  by (simp add: valid_path_def min_def)

lemma take_3_snoc: "length xs = 4 \<Longrightarrow> take 3 xs @ [xs ! 3] = xs"
  by (auto simp: numeral_eq_Suc length_Suc_conv)

text \<open>Whatever its outcome, mapping a page stays within the space; the page is fresh and cleared.\<close>

lemma map_user_page_confined:
  assumes ok: "spaces_ok own m" and root: "own (root_physical space) = Some (root_physical space, [])"
    and op: "map_user_page space va m = (res, m')"
  shows "\<exists>own'. confined (root_physical space) own m own' m' \<and> (\<forall>v. res = Inr v \<longrightarrow>
    (\<exists>f. own f = None \<and> own' f = Some (root_physical space, table_indices (align_down va)) \<and> v = virt m f \<and>
      (\<forall>i < 4096. ram m' (v + word_of_nat i) = 0)))"
proof (cases "va < user_min \<or> user_max \<le> va")
  case True
  then show ?thesis using op confined_refl [OF ok] by (auto simp: map_user_page_def)
next
  case False
  let ?r = "root_physical space" and ?idx = "table_indices (align_down va)"
  have valid: "valid_path ?idx" using False by (intro table_indices_valid user_align) (simp add: not_le)
  obtain t m1 where mk: "make_tables (take 3 ?idx) ?r m = (t, m1)" by fastforce
  have "valid_path ([] @ take 3 ?idx)" using valid_path_take [OF valid] by simp
  from make_tables_confined [OF ok root _ this mk] obtain own1 where c1: "confined ?r own m own1 m1"
    and t1: "\<forall>t'. t = Some t' \<longrightarrow> own1 t' = Some (?r, take 3 ?idx)" by auto
  show ?thesis
  proof (cases t)
    case None
    then show ?thesis using op False mk c1 by (auto simp: map_user_page_def Let_def)
  next
    case (Some table)
    then have own1: "own1 table = Some (?r, take 3 ?idx)" using t1 by simp
    note ok1 = confined_ok [OF c1]
    have tp: "table_pointer m1 table = Some (virt m1 table)"
      using table_pointer_frame spaces_okD(4) [OF ok1 own1] by blast
    obtain fr m2 where n: "new_frame m1 = (fr, m2)" by fastforce
    show ?thesis
    proof (cases "present (load_entry m1 (virt m1 table) (?idx ! 3)) \<or> fr = None")
      case True
      then have "(\<exists>e. res = Inl e) \<and> (m' = m1 \<or> m' = m2)"
        using op False mk Some tp n by (auto simp: map_user_page_def Let_def split: if_splits)
      then show ?thesis
        using c1 confined_trans [OF c1 confined_new_frame [OF ok1 n]] by auto
    next
      case go: False
      then obtain fr' where fr': "fr = Some fr'" by auto
      let ?v = "physical_address fr' OR entry_present OR entry_writable OR entry_user"
      let ?m3 = "zero_page (virtual_address fr') m2"
      have ui: "user_index (take 3 ?idx) (?idx ! 3)"
        using valid by (simp add: valid_path_def)
      note c2 = confined_new_table [OF ok1 own1 _ ui n [unfolded fr']]
      have res: "res = Inr (virtual_address fr')" "m' = store_entry (virt m1 table) (?idx ! 3) ?v ?m3"
        using op False mk Some tp n go fr' by (simp_all add: map_user_page_def Let_def)
      note nf = spaces_ok_new_frame [OF ok1 n]
      have fr: "virtual_address fr' = virt m (physical_address fr')" "own1 (physical_address fr') = None"
        "frame_ok m1 (physical_address fr')"
        using nf(7) [OF fr'] confined_virt [OF c1] by simp_all
      have "own (physical_address fr') = None"
        using confined_own [OF c1, of "physical_address fr'"] fr(2) by (cases "own (physical_address fr')") auto
      moreover have "take 3 ?idx @ [?idx ! 3] = ?idx" by (rule take_3_snoc) simp
      moreover have "ram m' (virtual_address fr' + word_of_nat i) = 0" if i: "i < 4096" for i
      proof -
        let ?x = "virtual_address fr' + word_of_nat i"
        have x: "?x \<in> page_bytes m1 (physical_address fr')"
          using in_page [OF i, of m1] fr(1) confined_virt [OF c1] by simp
        have "table \<noteq> physical_address fr'" using own1 fr(2) by auto
        then have out: "?x \<notin> page_bytes m1 table"
          using pages_disjoint [OF fr(3) spaces_okD(4) [OF ok1 own1] _ x] by auto
        have "page_bytes ?m3 = page_bytes m1" "frame_ok ?m3 = frame_ok m1" "virt ?m3 = virt m1"
          using nf(4,5) by (simp_all add: page_bytes_def fun_eq_iff)
        then have "ram m' ?x = ram ?m3 ?x"
          using store_entry_outside [of ?m3 table "?idx ! 3" ?x ?v] spaces_okD(4) [OF ok1 own1] out ui
          by (simp add: res user_index_def)
        also have "\<dots> = 0"
          using i by (simp add: zero_page_def store_bytes_def unat_of_nat take_bit_eq_mod)
        finally show ?thesis .
      qed
      moreover have "confined ?r own m (own1(physical_address fr' \<mapsto> (?r, take 3 ?idx @ [?idx ! 3]))) m'"
        using confined_trans [OF c1 c2(1)] by (simp add: res)
      ultimately show ?thesis
        using res(1) fr(1)
        by (intro exI [of _ "own1(physical_address fr' \<mapsto> (?r, ?idx))"] conjI allI impI
          exI [of _ "physical_address fr'"]) simp_all
    qed
  qed
qed

section \<open>Translation\<close>

lemma walk_user_owned:
  assumes "spaces_ok own m" "own f = Some (r, path)" "length path + length idxs \<le> 4" "valid_path (path @ idxs)"
    and "walk_user m idxs f = Some t"
  shows "own t = Some (r, path @ idxs)"
  using assms
proof (induction idxs arbitrary: f path)
  case (Cons i rest)
  have t: "table_pointer m f = Some (virt m f)" using table_pointer_frame spaces_okD(4) [OF Cons.prems(1,2)] by blast
  have "user_index path i" using Cons.prems(4) by (rule valid_path_snoc)
  moreover have "present (entry m f i)" using Cons.prems(5) t by (auto simp: Let_def entry_def split: if_splits)
  ultimately have "own (entry m f i AND address_mask) = Some (r, path @ [i])"
    using spaces_okD(6) [OF Cons.prems(1,2)] Cons.prems(3) by simp
  moreover have "walk_user m rest (entry m f i AND address_mask) = Some t"
    using Cons.prems(5) t by (auto simp: Let_def entry_def split: if_splits)
  ultimately show ?case using Cons.IH [OF Cons.prems(1)] Cons.prems(3,4) by fastforce
qed simp

lemma nine_bits: "unat (x AND 0x1ff :: u64) < 512"
proof -
  have "x AND 0x1ff \<le> 0x1ff" by (rule word_and_le1)
  then show ?thesis by (simp add: word_le_nat_alt)
qed

lemma walk_user_root:
  assumes ok: "spaces_ok own m" and root: "own r = Some (r, [])" and w: "walk_user m (table_indices va) r = Some t"
  shows "own t = Some (r, table_indices va)"
proof (cases "unat (drop_bit 39 va AND 0x1ff) < 256")
  case True
  then have "valid_path ([] @ table_indices va)"
    using nine_bits by (simp add: table_indices_def valid_path_four)
  from walk_user_owned [OF ok root _ this w] show ?thesis by simp
next
  case False
  have tp: "table_pointer m r = Some (virt m r)" using table_pointer_frame spaces_okD(4) [OF ok root] by blast
  let ?e = "entry m r (unat (drop_bit 39 va AND 0x1ff))"
  have "present ?e \<Longrightarrow> ?e AND entry_user = 0"
    using spaces_okD(7) [OF ok root] False nine_bits by (simp add: kernel_half_def)
  then have "walk_user m (table_indices va) r = None"
    by (auto simp: table_indices_def tp Let_def entry_def)
  then show ?thesis using w by simp
qed

lemma or_page_offset:
  assumes "page_aligned f" shows "f OR (va AND (page_size - 1)) = f + word_of_nat (unat va mod 4096)"
proof -
  have m: "page_size - 1 = (mask 12 :: u64)" by (simp add: page_size_def mask_eq_exp_minus_1)
  have "f = push_bit 12 (drop_bit 12 f)" using assms by (simp add: page_aligned_def align_down_eq)
  then have "\<not> bit f n \<or> \<not> n < 12" for n by (metis bit_push_bit_iff not_le)
  then have "f OR (va AND mask 12) = f + (va AND mask 12)"
    by (intro disjunctive_add_eq_or [symmetric]) (auto simp: bit_eq_iff bit_simps)
  moreover have "va AND mask 12 = word_of_nat (unat va mod 4096)"
  proof -
    have e: "unat (va AND mask 12) = unat va mod 4096"
      by (simp add: take_bit_eq_mask [symmetric] take_bit_eq_mod unat_mod)
    have "word_of_nat (unat (va AND mask 12)) = va AND mask 12" by simp
    then show ?thesis by (simp only: e)
  qed
  ultimately show ?thesis by (simp add: m)
qed

lemma translate_owned:
  assumes ok: "spaces_ok own m" and root: "own (root_physical s) = Some (root_physical s, [])"
    and t: "translate m s va = Some p"
  shows "\<exists>f. own f = Some (root_physical s, table_indices va) \<and> p = virt m f + word_of_nat (unat va mod 4096)"
proof -
  obtain f where w: "walk_user m (table_indices va) (root_physical s) = Some f"
    and p: "phys_to_virt (allocator m) (f OR (va AND (page_size - 1))) = Some p"
    using t by (auto simp: translate_def split: option.splits)
  note own = walk_user_root [OF ok root w]
  have "page_aligned f" using spaces_okD(4) [OF ok own] by (simp add: frame_ok_def)
  from or_page_offset [OF this, of va]
  have "p = f + word_of_nat (unat va mod 4096) + hhdm_offset (allocator m)"
    using checked_add_SomeD [OF p [unfolded phys_to_virt_def]] by simp
  also have "\<dots> = virt m f + word_of_nat (unat va mod 4096)"
    unfolding virt_def by (simp only: add.assoc add.commute add.left_commute)
  finally show ?thesis using own by blast
qed

text \<open>A walk reads only tables of its own space.\<close>

lemma walk_user_cong:
  assumes "spaces_ok own m" "own f = Some (r, path)" "length path + length idxs \<le> 4" "valid_path (path @ idxs)"
    and same: "\<And>g p x. own g = Some (r, p) \<Longrightarrow> x \<in> page_bytes m g \<Longrightarrow> ram m' x = ram m x"
    and off: "hhdm_offset (allocator m') = hhdm_offset (allocator m)"
  shows "walk_user m' idxs f = walk_user m idxs f"
  using assms(1-4)
proof (induction idxs arbitrary: f path)
  case (Cons i rest)
  have fok: "frame_ok m f" by (rule spaces_okD(4) [OF Cons.prems(1,2)])
  have t: "table_pointer m f = Some (virt m f)" "table_pointer m' f = Some (virt m f)"
    using table_pointer_frame [OF fok] table_pointer_frame [of m' f] fok frame_ok_cong [OF off] virt_cong [OF off] by simp_all
  have ui: "user_index path i" using Cons.prems(4) by (rule valid_path_snoc)
  have e: "entry m' f i = entry m f i"
    using same [OF Cons.prems(2)] ui virt_cong [OF off] by (intro entry_cong) (auto simp: user_index_def)
  then have e': "load_entry m' (virt m f) i = load_entry m (virt m f) i"
    by (simp add: entry_def virt_cong [OF off])
  show ?case
  proof (cases "present (entry m f i)")
    case True
    then have "own (entry m f i AND address_mask) = Some (r, path @ [i])"
      using spaces_okD(6) [OF Cons.prems(1,2) _ ui] Cons.prems(3) by simp
    then have "walk_user m' rest (entry m f i AND address_mask) = walk_user m rest (entry m f i AND address_mask)"
      using Cons.IH [OF Cons.prems(1)] Cons.prems(3,4) by fastforce
    then show ?thesis by (simp add: t e' entry_def Let_def)
  next
    case False
    then show ?thesis by (simp add: t e' entry_def Let_def)
  qed
qed simp

lemma translate_cong:
  assumes ok: "spaces_ok own m" and root: "own (root_physical s) = Some (root_physical s, [])"
    and same: "\<And>g p x. own g = Some (root_physical s, p) \<Longrightarrow> x \<in> page_bytes m g \<Longrightarrow> ram m' x = ram m x"
    and off: "hhdm_offset (allocator m') = hhdm_offset (allocator m)"
  shows "translate m' s va = translate m s va"
proof -
  let ?r = "root_physical s"
  have "walk_user m' (table_indices va) ?r = walk_user m (table_indices va) ?r"
  proof (cases "unat (drop_bit 39 va AND 0x1ff) < 256")
    case True
    then have "valid_path ([] @ table_indices va)"
      using nine_bits by (simp add: table_indices_def valid_path_four)
    from walk_user_cong [OF ok root _ this same off] show ?thesis by simp
  next
    case False
    let ?i = "unat (drop_bit 39 va AND 0x1ff)"
    have fok: "frame_ok m ?r" by (rule spaces_okD(4) [OF ok root])
    have t: "table_pointer m ?r = Some (virt m ?r)" "table_pointer m' ?r = Some (virt m ?r)"
      using table_pointer_frame [OF fok] table_pointer_frame [of m' ?r] fok frame_ok_cong [OF off] virt_cong [OF off] by simp_all
    have "entry m' ?r ?i = entry m ?r ?i"
      using same [OF root] nine_bits virt_cong [OF off] by (intro entry_cong) auto
    then have e: "load_entry m' (virt m ?r) ?i = load_entry m (virt m ?r) ?i"
      by (simp add: entry_def virt_cong [OF off])
    have "present (entry m ?r ?i) \<Longrightarrow> entry m ?r ?i AND entry_user = 0"
      using spaces_okD(7) [OF ok root] False nine_bits by (simp add: kernel_half_def)
    then have "walk_user m (table_indices va) ?r = None" "walk_user m' (table_indices va) ?r = None"
      using e by (auto simp: table_indices_def t Let_def entry_def)
    then show ?thesis by simp
  qed
  then show ?thesis by (simp add: translate_def phys_to_virt_def off split: option.splits)
qed

text \<open>A store through a translation, within the page.\<close>

lemma confined_store:
  assumes ok: "spaces_ok own m" and root: "own (root_physical s) = Some (root_physical s, [])"
    and t: "translate m s va = Some p" and len: "unat va mod 4096 + length bs \<le> 4096"
  shows "confined (root_physical s) own m own (store_bytes p bs m)"
proof -
  obtain f where f: "own f = Some (root_physical s, table_indices va)"
    and p: "p = virt m f + word_of_nat (unat va mod 4096)"
    using translate_owned [OF ok root t] by blast
  note fok = spaces_okD(4) [OF ok f]
  show ?thesis
    using store_outside [OF fok len] f
    by (intro confined_page [OF ok _ _ fok]) (auto simp: p)
qed

end
