(* ===== verification/Space_Operations.thy ===== *)
theory Space_Operations
  imports Address_Spaces
begin

text \<open>
  The operations that build and fill whole address spaces, \<open>new_user\<close>, \<open>clone_user\<close>, the
  copies to user memory and the program loader: each stays within the space it works on, and a
  new space has a root nobody owned before.
\<close>

section \<open>New spaces\<close>

lemma entry_kernel_copy:
  assumes f: "frame_ok m f" and g: "frame_ok m g" and i: "i < 512"
  defines "m' \<equiv> store_bytes (virt m f + 2048) (load_bytes m (virt m g + 2048) 2048) m"
  shows "entry m' f i = (if i < 256 then entry m f i else entry m g i)"
proof -
  have v: "virt m' = virt m" by (simp add: m'_def)
  have c: "(2048 :: u64) = word_of_nat 2048" by simp
  have len: "length (load_bytes m (virt m g + 2048) 2048) = 2048" by (simp add: load_bytes_def)
  have nth: "load_bytes m (virt m g + 2048) 2048 ! k = ram m (virt m g + word_of_nat (2048 + k))" if "k < 2048" for k
    using that by (simp add: load_bytes_def add.assoc)
  have "load_bytes m' (virt m f + word_of_nat (8 * i)) 8 =
      load_bytes m (virt m (if i < 256 then f else g) + word_of_nat (8 * i)) 8"
  proof (rule nth_equalityI)
    show "length (load_bytes m' (virt m f + word_of_nat (8 * i)) 8) =
      length (load_bytes m (virt m (if i < 256 then f else g) + word_of_nat (8 * i)) 8)"
      by (simp add: load_bytes_def)
    fix j assume "j < length (load_bytes m' (virt m f + word_of_nat (8 * i)) 8)"
    then have j: "j < 8" by (simp add: load_bytes_def)
    have "load_bytes m' (virt m f + word_of_nat (8 * i)) 8 ! j =
      (if 2048 \<le> 8 * i + j \<and> 8 * i + j < 2048 + 2048 then load_bytes m (virt m g + 2048) 2048 ! (8 * i + j - 2048)
       else ram m (virt m f + word_of_nat (8 * i + j)))"
      using load_store_page [OF f, of 2048 "load_bytes m (virt m g + 2048) 2048" "8 * i" 8] i j
      unfolding m'_def c [symmetric] len by simp
    also have "\<dots> = ram m (virt m (if i < 256 then f else g) + word_of_nat (8 * i + j))"
    proof (cases "i < 256")
      case True
      then show ?thesis using j by simp
    next
      case False
      then have ge: "2048 \<le> 8 * i + j" "8 * i + j < 2048 + 2048" using i j by simp_all
      then have k: "8 * i + j - 2048 < 2048" "2048 + (8 * i + j - 2048) = 8 * i + j" by simp_all
      show ?thesis using nth [OF k(1)] ge False unfolding k(2) by simp
    qed
    also have "\<dots> = load_bytes m (virt m (if i < 256 then f else g) + word_of_nat (8 * i)) 8 ! j"
      using j by (simp add: load_bytes_def add.assoc)
    finally show "load_bytes m' (virt m f + word_of_nat (8 * i)) 8 ! j =
      load_bytes m (virt m (if i < 256 then f else g) + word_of_nat (8 * i)) 8 ! j" .
  qed
  then show ?thesis by (simp add: entry_def load_entry_def load_u64_def entry_pointer_def v)
qed

lemma new_user_confined:
  assumes ok: "spaces_ok own m" and op: "new_user m = (res, m')"
  shows "\<exists>own'. (\<forall>r. confined r own m own' m') \<and>
    (\<forall>s. res = Some s \<longrightarrow> own (root_physical s) = None \<and> own' (root_physical s) = Some (root_physical s, []))"
proof -
  obtain fr m1 where n: "new_frame m = (fr, m1)" by fastforce
  note c1 = confined_new_frame [OF ok n]
  show ?thesis
  proof (cases fr)
    case None
    then have "res = None" "m' = m1" using op n by (simp_all add: new_user_def Let_def)
    then show ?thesis using c1 by blast
  next
    case (Some fr')
    note nf = spaces_ok_new_frame [OF ok n]
    let ?p = "physical_address fr'" and ?c = "cr3 m AND address_mask"
    let ?m2 = "zero_page (virtual_address fr') m1"
    have fr: "frame_ok m1 ?p" "virtual_address fr' = virt m1 ?p" "own ?p = None" "?p \<notin> free_pages (allocator m1)"
      using nf(7) [OF Some] nf(4,5) by simp_all
    obtain q path where c: "own ?c = Some (q, path)" "path \<in> {[], reserved_path}" "kernel_half m ?c"
      using ok unfolding spaces_ok_def by blast
    have ck: "frame_ok m1 ?c" using spaces_okD(4) [OF ok c(1)] nf(5) by simp
    have cp: "?c \<noteq> ?p" using c(1) fr(3) by auto
    have c2: "confined r own m1 own ?m2" for r
      using fr zero_page_outside [OF fr(1)] by (intro confined_page [OF nf(1) _ _ fr(1)]) simp_all
    have m': "m' = store_bytes (virt ?m2 ?p + 2048) (load_bytes ?m2 (virt ?m2 ?c + 2048) 2048) ?m2"
      and res: "res = Some \<lparr>root_physical = ?p\<rparr>"
      using op n Some table_pointer_frame [of ?m2 ?c] ck fr(2)
      by (simp_all add: new_user_def Let_def entry_pointer_def)
    have "confined r own ?m2 own m'" for r
    proof (rule confined_page [OF confined_ok [OF c2]])
      show "allocator m' = allocator ?m2" "cr3 m' = cr3 ?m2" by (simp_all add: m')
      show "frame_ok ?m2 ?p" using fr(1) by simp
      show "ram m' x = ram ?m2 x" if "x \<notin> page_bytes ?m2 ?p" for x
        using store_outside [of ?m2 ?p 2048 "load_bytes ?m2 (virt ?m2 ?c + 2048) 2048" x] that fr(1)
        by (simp add: m' load_bytes_def)
    qed (use fr(3) in simp)
    then have c3: "confined r own m own m'" for r using confined_trans [OF confined_trans [OF c1 c2]] by blast
    have e: "entry m' ?p i = (if i < 256 then entry ?m2 ?p i else entry ?m2 ?c i)" if "i < 512" for i
      unfolding m' using fr(1) ck that by (intro entry_kernel_copy) simp_all
    have low: "\<not> present (entry m' ?p i)" if "i < 256" for i
      using e [of i] that entry_zero_page [OF fr(1), of i] by (simp add: fr(2) present_def)
    have high: "entry m' ?p i = entry m ?c i" if "256 \<le> i" "i < 512" for i
    proof -
      have "entry ?m2 ?c i = entry m ?c i"
        using that zero_page_outside [OF fr(1)] pages_disjoint [OF ck fr(1) cp] nf(2,4) fr(2)
        by (intro entry_cong) (auto simp: page_bytes_def)
      then show ?thesis using e [of i] that by simp
    qed
    have kh: "kernel_half m' ?p" using c(3) high by (simp add: kernel_half_def)
    have "spaces_ok (own(?p \<mapsto> (?p, []))) m'"
      using fr low kh by (intro spaces_ok_adopt [OF confined_ok [OF c3]]) (simp_all add: m' user_index_def)
    then have "confined r own m' (own(?p \<mapsto> (?p, []))) m'" for r using fr(3) by (rule confined_adopt)
    then have "confined r own m (own(?p \<mapsto> (?p, []))) m'" for r using confined_trans [OF c3] by blast
    then show ?thesis using res fr(3) by (intro exI [of _ "own(?p \<mapsto> (?p, []))"]) simp
  qed
qed

section \<open>Copying a space\<close>

text \<open>A fresh frame filled with anything, linked as a page.\<close>

lemma confined_new_page:
  assumes ok: "spaces_ok own m" and f: "own f = Some (r, path)" "length path = 3" "user_index path i"
    and new: "new_frame m = (Some fr, m1)" and len: "length bs = 4096"
    and v: "v AND entry_user \<noteq> 0" "v AND address_mask = physical_address fr"
  shows "confined r own m (own(physical_address fr \<mapsto> (r, path @ [i])))
      (store_entry (virt m f) i v (store_bytes (virtual_address fr) bs m1))"
proof -
  let ?p = "physical_address fr" and ?own = "own(physical_address fr \<mapsto> (r, path @ [i]))"
  let ?m2 = "store_bytes (virtual_address fr) bs m1"
  note n = spaces_ok_new_frame [OF ok new]
  have fr: "frame_ok m1 ?p" "virtual_address fr = virt m1 ?p" "own ?p = None" "?p \<notin> free_pages (allocator m1)"
    using n(7) [OF refl] n(4,5) by simp_all
  have 1: "confined r own m own m1" by (rule confined_new_frame [OF ok new])
  have 2: "confined r own m1 own ?m2"
    using fr store_outside [OF fr(1), of 0 bs] len by (intro confined_page [OF n(1) _ _ fr(1)]) simp_all
  have "spaces_ok ?own ?m2"
    using fr f(2) spaces_okD(8) [OF ok f(1)] by (intro spaces_ok_adopt [OF confined_ok [OF 2]]) simp_all
  then have 3: "confined r own ?m2 ?own ?m2" using fr(3) by (rule confined_adopt)
  have "f \<noteq> ?p" using f(1) fr(3) by auto
  then have f': "?own f = Some (r, path)" using f(1) by simp
  have 4: "confined r ?own ?m2 ?own (store_entry (virt ?m2 f) i v ?m2)"
    using v f(2) by (intro spaces_ok_link(2) [OF confined_ok [OF 3] f' _ f(3)]) simp_all
  have "virt ?m2 f = virt m f" using n(4) by simp
  then show ?thesis
    using confined_trans [OF confined_trans [OF confined_trans [OF 1 2] 3] 4] by simp
qed

lemma copied_entry:
  assumes "p AND address_mask = p" "e AND entry_user \<noteq> 0"
  shows "((e AND NOT address_mask) OR p) AND address_mask = p" "((e AND NOT address_mask) OR p) AND entry_user \<noteq> 0"
proof -
  have p: "bit p n \<longleftrightarrow> bit p n \<and> 12 \<le> n \<and> n < 52" for n
    using assms(1) by (metis bit_address_mask bit_and_iff)
  show "((e AND NOT address_mask) OR p) AND address_mask = p"
    by (rule bit_word_eqI) (use p in \<open>auto simp: bit_and_iff bit_or_iff bit_not_iff bit_address_mask\<close>)
  have "bit e 2"
  proof (rule ccontr)
    assume "\<not> bit e 2"
    then have "e AND entry_user = 0" by (intro bit_word_eqI) (auto simp: bit_and_iff low_bits)
    then show False using assms(2) by simp
  qed
  then show "((e AND NOT address_mask) OR p) AND entry_user \<noteq> 0"
    by (intro flag_set [of _ 2]) (simp_all add: bit_and_iff bit_or_iff bit_not_iff bit_address_mask low_bits)
qed

lemma fold_confined:
  assumes "spaces_ok own m"
    and "\<And>i own1 m1 n m2. i \<in> set xs \<Longrightarrow> confined r own m own1 m1 \<Longrightarrow> f i m1 = (n, m2) \<Longrightarrow>
      \<exists>own2. confined r own1 m1 own2 m2"
    and "fold (\<lambda>i (c, m). let (n, m) = f i m in (c + n, m)) xs (c0, m) = (c', m')"
  shows "\<exists>own'. confined r own m own' m'"
proof -
  have "\<exists>own'. confined r own m own' m'"
    if "confined r own m own1 m1" "fold (\<lambda>i (c, m). let (n, m) = f i m in (c + n, m)) ys (c1, m1) = (c', m')" "set ys \<subseteq> set xs"
    for ys own1 m1 c1
    using that
  proof (induction ys arbitrary: own1 m1 c1)
    case Nil
    then show ?case by auto
  next
    case (Cons y ys)
    obtain n m2 where s: "f y m1 = (n, m2)" by fastforce
    obtain own2 where o: "confined r own1 m1 own2 m2" using assms(2) [OF _ Cons.prems(1) s] Cons.prems(3) by auto
    show ?case
      using Cons.IH [OF confined_trans [OF Cons.prems(1) o]] Cons.prems(2,3) s by simp
  qed
  from this [OF confined_refl [OF assms(1)] assms(3)] show ?thesis by simp
qed

lemma copy_table_confined:
  assumes "spaces_ok own m" "own source = Some (q, spath)" "own destination = Some (r, path)"
    and "length spath = length path" "length path + level = 4" "user_index spath index" "user_index path index"
    and "copy_table level source destination index m = (n, m')"
  shows "\<exists>own'. confined r own m own' m'"
  using assms
proof (induction level arbitrary: own m source destination spath path index n m')
  case 0
  then show ?case using confined_refl by auto
next
  case (Suc level)
  note ok = Suc.prems(1)
  have sp: "table_pointer m source = Some (virt m source)" "table_pointer m destination = Some (virt m destination)"
    using table_pointer_frame spaces_okD(4) [OF ok] Suc.prems(2,3) by blast+
  let ?e = "load_entry m (virt m source) index"
  have e: "?e = entry m source index" by (simp add: entry_def)
  show ?case
  proof (cases "present ?e")
    case False
    then have "m' = m" using Suc.prems(8) sp by (simp add: Let_def)
    then show ?thesis using confined_refl [OF ok] by blast
  next
    case pres: True
    have src: "?e AND entry_user \<noteq> 0" "own (?e AND address_mask) = Some (q, spath @ [index])"
      using spaces_okD(6) [OF ok Suc.prems(2) _ Suc.prems(6)] pres Suc.prems(4,5) by (simp_all add: e)
    obtain fr m1 where nf: "new_frame m = (fr, m1)" by fastforce
    note c1 = confined_new_frame [OF ok nf]
    show ?thesis
    proof (cases "level = 0")
      case True
      show ?thesis
      proof (cases "fr = None \<or> table_pointer m1 (?e AND address_mask) = None")
        case True
        then have "m' = m1" using Suc.prems(8) sp pres nf \<open>level = 0\<close> by (auto simp: Let_def split: option.splits)
        then show ?thesis using c1 by blast
      next
        case False
        then obtain fr' page where f: "fr = Some fr'" "table_pointer m1 (?e AND address_mask) = Some page" by auto
        let ?v = "(?e AND NOT address_mask) OR physical_address fr'"
        have "physical_address fr' AND address_mask = physical_address fr'"
          using spaces_ok_new_frame(7) [OF ok nf f(1)] by (simp add: frame_ok_def)
        note v = copied_entry [OF this src(1)]
        have "m' = store_entry (virt m destination) index ?v (store_bytes (virtual_address fr') (load_bytes m1 page 4096) m1)"
          using Suc.prems(8) sp pres nf f \<open>level = 0\<close> by (simp add: Let_def copy_page_def)
        then show ?thesis
          using confined_new_page [OF ok Suc.prems(3) _ Suc.prems(7) nf [unfolded f(1)] _ v(2,1), of "load_bytes m1 page 4096"]
            Suc.prems(5) \<open>level = 0\<close> by (auto simp: load_bytes_def)
      qed
    next
      case deep: False
      have len: "length path < 4" using Suc.prems(5) deep by simp
      let ?d = "load_entry m (virt m destination) index" and ?vd = "virt m destination"
      have ready: "\<exists>own2. confined r own m own2 m2 \<and>
          own2 (load_entry m2 (virt m destination) index AND address_mask) = Some (r, path @ [index])"
        if r: "(if \<not> present ?d then
              (case new_frame m of (None, m) \<Rightarrow> (False, m)
               | (Some frame, m) \<Rightarrow> (True, store_entry ?vd index
                   (physical_address frame OR entry_present OR entry_writable OR entry_user)
                   (zero_page (virtual_address frame) m)))
            else (True, m)) = (True, m2)" for m2
      proof (cases "present ?d")
        case True
        then have "own (?d AND address_mask) = Some (r, path @ [index])"
          using spaces_okD(6) [OF ok Suc.prems(3) len Suc.prems(7)] by (simp add: entry_def)
        moreover have "m2 = m" using r True by simp
        ultimately show ?thesis using confined_refl [OF ok] by blast
      next
        case False
        then obtain fr' where f: "fr = Some fr'" using r nf by (cases fr) auto
        let ?v = "physical_address fr' OR entry_present OR entry_writable OR entry_user"
        have v1: "virt m1 = virt m" by (rule spaces_ok_new_frame(4) [OF ok nf])
        have m2: "m2 = store_entry (virt m destination) index ?v (zero_page (virtual_address fr') m1)"
          using r False nf f by simp
        note t = confined_new_table [OF ok Suc.prems(3) len Suc.prems(7) nf [unfolded f]]
        have "frame_ok (zero_page (virtual_address fr') m1) destination" "index < 512"
          using spaces_okD(4) [OF ok Suc.prems(3)] spaces_ok_new_frame(5) [OF ok nf] Suc.prems(7)
          by (simp_all add: user_index_def)
        from entry_store_same [OF this, of ?v] have "load_entry m2 (virt m destination) index = ?v"
          by (simp add: m2 entry_def v1)
        then show ?thesis using t by (auto simp: m2)
      qed
      show ?thesis
      proof (cases "?e AND entry_huge \<noteq> 0")
        case True
        then have "m' = m" using Suc.prems(8) sp pres deep by (simp add: Let_def)
        then show ?thesis using confined_refl [OF ok] by blast
      next
        case False
        obtain ok2 m2 where r: "(if \<not> present ?d then
              (case new_frame m of (None, m) \<Rightarrow> (False, m)
               | (Some frame, m) \<Rightarrow> (True, store_entry ?vd index
                   (physical_address frame OR entry_present OR entry_writable OR entry_user)
                   (zero_page (virtual_address frame) m)))
            else (True, m)) = (ok2, m2)" by fastforce
        let ?ns = "?e AND address_mask" and ?nd = "load_entry m2 (virt m destination) index AND address_mask"
        have op: "(if \<not> ok2 then (0, m2) else fold (\<lambda>child (c, m). let (n, m) = copy_table level ?ns ?nd child m
              in (c + n, m)) [0..<512] (0, m2)) = (n, m')"
          using Suc.prems(8) r sp pres deep False
          by (cases "present ?d"; cases "new_frame m"; cases "fst (new_frame m)") (auto simp: Let_def)
        show ?thesis
        proof (cases ok2)
          case no: False
          then have "m' = m2" using op r by simp
          moreover have "m2 = m1" using r no nf by (auto split: if_splits option.splits)
          ultimately show ?thesis using c1 by blast
        next
          case yes: True
          then obtain own2 where c2: "confined r own m own2 m2"
            and d2: "own2 (load_entry m2 (virt m destination) index AND address_mask) = Some (r, path @ [index])"
            using ready r by auto
          have fold: "fold (\<lambda>child (c, m). let (n, m) = copy_table level ?ns ?nd child m in (c + n, m))
              [0..<512] (0, m2) = (n, m')"
            using op yes by simp
          have "\<exists>own'. confined r own2 m2 own' m'"
          proof (rule fold_confined [OF confined_ok [OF c2] _ fold])
            fix child own3 m3 n3 m4
            assume ch: "child \<in> set [0..<512]" and c3: "confined r own2 m2 own3 m3"
              and op: "copy_table level (?e AND address_mask)
                (load_entry m2 (virt m destination) index AND address_mask) child m3 = (n3, m4)"
            have o3: "own3 (?e AND address_mask) = Some (q, spath @ [index])"
              using confined_own [OF c3 confined_own [OF c2 src(2)]] .
            have d3: "own3 (load_entry m2 (virt m destination) index AND address_mask) = Some (r, path @ [index])"
              using confined_own [OF c3 d2] .
            have "child < 512" using ch by simp
            then show "\<exists>own4. confined r own3 m3 own4 m4"
              using Suc.IH [OF confined_ok [OF c3] o3 d3 _ _ _ _ op] Suc.prems(4,5) by (simp add: user_index_def)
          qed
          then show ?thesis using confined_trans [OF c2] by blast
        qed
      qed
    qed
  qed
qed

lemma copy_user_pages_confined:
  assumes ok: "spaces_ok own m"
    and roots: "own (root_physical s) = Some (q, [])" "own (root_physical d) = Some (root_physical d, [])"
    and op: "copy_user_pages s d m = (n, m')"
  shows "\<exists>own'. confined (root_physical d) own m own' m'"
proof (rule fold_confined [OF ok _ op [unfolded copy_user_pages_def]])
  fix i own1 m1 n1 m2
  assume i: "i \<in> set [0..<256]" and c: "confined (root_physical d) own m own1 m1"
    and s: "copy_table 4 (root_physical s) (root_physical d) i m1 = (n1, m2)"
  show "\<exists>own2. confined (root_physical d) own1 m1 own2 m2"
    using copy_table_confined [OF confined_ok [OF c] confined_own [OF c roots(1)] confined_own [OF c roots(2)] _ _ _ _ s] i
    by (simp add: user_index_def)
qed

lemma confined_other:
  assumes "\<And>r. confined r own m own1 m1" "confined d own1 m1 own2 m2" "own d = None"
    and ok: "spaces_ok own m"
  shows "confined r own m own2 m2"
proof -
  have pb: "page_bytes m1 = page_bytes m" using confined_virt [OF assms(1)] by (simp add: page_bytes_def fun_eq_iff)
  have "ram m2 x = ram m x" if o: "own f = Some (q, p)" and x: "x \<in> page_bytes m f" for f q p x
  proof -
    have "ram m2 x = ram m1 x"
    proof -
      have "q \<noteq> d" using assms(3) spaces_okD(8) [OF ok o] by auto
      moreover have "x \<in> page_bytes m1 f" using x pb by simp
      ultimately show ?thesis using assms(2) confined_own [OF assms(1) o] unfolding confined_def by blast
    qed
    moreover have "ram m1 x = ram m x"
    proof -
      have "q \<noteq> q + 1" by simp
      then show ?thesis using assms(1) [of "q + 1"] o x unfolding confined_def by blast
    qed
    ultimately show ?thesis by simp
  qed
  then show ?thesis
    using assms(1) [of r] assms(2) map_le_trans by (auto simp: confined_def)
qed

lemma clone_user_confined:
  assumes ok: "spaces_ok own m" and root: "own (root_physical s) = Some (root_physical s, [])"
    and op: "clone_user s m = (res, m')"
  shows "\<exists>own'. (\<forall>r. confined r own m own' m') \<and>
    (\<forall>c. res = Some c \<longrightarrow> own (root_physical c) = None \<and> own' (root_physical c) = Some (root_physical c, []))"
proof -
  obtain nu m1 where n: "new_user m = (nu, m1)" by fastforce
  obtain own1 where c1: "\<And>r. confined r own m own1 m1"
    and r1: "\<And>c. nu = Some c \<Longrightarrow> own (root_physical c) = None \<and> own1 (root_physical c) = Some (root_physical c, [])"
    using new_user_confined [OF ok n] by blast
  show ?thesis
  proof (cases nu)
    case None
    then have "res = None" "m' = m1" using op n by (simp_all add: clone_user_def)
    then show ?thesis using c1 by blast
  next
    case (Some c)
    obtain k m2 where cp: "copy_user_pages s c m1 = (k, m2)" by fastforce
    have "own1 (root_physical s) = Some (root_physical s, [])" using confined_own [OF c1 root] .
    from copy_user_pages_confined [OF confined_ok [OF c1] this _ cp] obtain own2
      where c2: "confined (root_physical c) own1 m1 own2 m2" using r1 [OF Some] by blast
    have "confined r own m own2 m2" for r
      using confined_other [OF c1 c2 _ ok] r1 [OF Some] by blast
    moreover have "m' = m2" "res = None \<or> res = Some c"
      using op n Some cp by (auto simp: clone_user_def split: if_splits)
    moreover have "own2 (root_physical c) = Some (root_physical c, [])"
      using confined_own [OF c2] r1 [OF Some] by blast
    ultimately show ?thesis using r1 [OF Some] by blast
  qed
qed

section \<open>Copies and loading\<close>

definition confined_io :: "u64 \<Rightarrow> (machine, 'e, 'a) io \<Rightarrow> bool" where
  "confined_io r f \<longleftrightarrow> (\<forall>own m res m'. spaces_ok own m \<longrightarrow> own r = Some (r, []) \<longrightarrow> f m = (res, m') \<longrightarrow>
     (\<exists>own'. confined r own m own' m'))"

lemma confined_ioD:
  "confined_io r f \<Longrightarrow> spaces_ok own m \<Longrightarrow> own r = Some (r, []) \<Longrightarrow> f m = (res, m') \<Longrightarrow> \<exists>own'. confined r own m own' m'"
  by (simp add: confined_io_def)

lemma confined_io_pure [simp]:
  "confined_io r (ok_io x)" "confined_io r (fail_io e)" "confined_io r (lift_io y)"
  using confined_refl by (auto simp: confined_io_def ok_io_def fail_io_def lift_io_def)

lemma confined_io_try:
  assumes "confined_io r f" "\<And>x. confined_io r (g x)" shows "confined_io r (try_io f g)"
  unfolding confined_io_def
proof (intro allI impI)
  fix own m res m'
  assume ok: "spaces_ok own m" "own r = Some (r, [])" and op: "try_io f g m = (res, m')"
  obtain x m1 where f: "f m = (x, m1)" by fastforce
  obtain own1 where c: "confined r own m own1 m1" using confined_ioD [OF assms(1) ok f] by blast
  show "\<exists>own'. confined r own m own' m'"
  proof (cases x)
    case (Inl e)
    then show ?thesis using op f c by (auto simp: try_io_def)
  next
    case (Inr y)
    then have "g y m1 = (res, m')" using op f by (simp add: try_io_def)
    then show ?thesis
      using confined_ioD [OF assms(2) confined_ok [OF c] confined_own [OF c ok(2)]] confined_trans [OF c] by blast
  qed
qed

lemma confined_io_for: "(\<And>x. confined_io r (body x)) \<Longrightarrow> confined_io r (for_io xs body)"
  by (induction xs) (simp_all add: confined_io_try)

lemma copy_in_confined:
  assumes "spaces_ok own m" "own (root_physical s) = Some (root_physical s, [])" "copy_in_loop s a bs n m = (res, m')"
  shows "\<exists>own'. confined (root_physical s) own m own' m'"
  using assms
proof (induction s a bs n m arbitrary: res rule: copy_in_loop.induct)
  case (1 s a bs n m)
  note ok = "1.prems"(1,2)
  show ?case
  proof (cases "n < length bs")
    case False
    then show ?thesis using "1.prems"(3) confined_refl [OF ok(1)] by (auto simp: copy_in_loop.simps [of s a bs n])
  next
    case lt: True
    show ?thesis
    proof (cases "checked_add a (word_of_nat n)")
      case None
      then show ?thesis using "1.prems"(3) lt confined_refl [OF ok(1)] by (auto simp: copy_in_loop.simps [of s a bs n])
    next
      case (Some c)
      show ?thesis
      proof (cases "translate m s c")
        case None
        then show ?thesis
          using "1.prems"(3) lt Some confined_refl [OF ok(1)] by (auto simp: copy_in_loop.simps [of s a bs n])
      next
        case t: (Some p)
        let ?av = "min (unat (page_room c)) (length bs - n)"
        let ?m1 = "store_bytes p (take ?av (drop n bs)) m"
        have "unat c mod 4096 + length (take ?av (drop n bs)) \<le> 4096"
          using mod_less_divisor [of 4096 "unat c"] by (auto simp: page_room_unat min_def simp del: mod_less_divisor)
        note c1 = confined_store [OF ok t this]
        have "copy_in_loop s a bs (n + ?av) ?m1 = (res, m')"
          using "1.prems"(3) lt Some t by (simp add: copy_in_loop.simps [of s a bs n] Let_def)
        from "1.IH" [OF lt Some t refl confined_ok [OF c1] ok(2) this]
        show ?thesis using confined_trans [OF c1] by blast
      qed
    qed
  qed
qed

lemma confined_io_copy: "confined_io (root_physical s) (copy_to_user s a bs)"
  using copy_in_confined
  by (fastforce simp: confined_io_def copy_to_user_def split: prod.splits bool.splits)

lemma zero_confined:
  assumes "spaces_ok own m" "own (root_physical s) = Some (root_physical s, [])" "zero_loop s c e m = (res, m')"
  shows "\<exists>own'. confined (root_physical s) own m own' m'"
  using assms
proof (induction s c e m arbitrary: res rule: zero_loop.induct)
  case (1 s c e m)
  note ok = "1.prems"(1,2)
  show ?case
  proof (cases "c < e \<and> translate m s c \<noteq> None")
    case False
    then show ?thesis
      using "1.prems"(3) confined_refl [OF ok(1)] by (auto simp: zero_loop.simps [of s c e] split: if_splits option.splits)
  next
    case True
    then obtain p where lt: "c < e" and t: "translate m s c = Some p" by auto
    let ?av = "min (page_room c) (e - c)"
    let ?m1 = "store_bytes p (replicate (unat ?av) 0) m"
    have "?av \<le> page_room c" by simp
    then have "unat ?av \<le> 4096 - unat c mod 4096" by (simp add: word_le_nat_alt page_room_unat)
    moreover have "unat c mod 4096 < 4096" by simp
    ultimately have "unat c mod 4096 + length (replicate (unat ?av) (0 :: u8)) \<le> 4096" by simp
    note c1 = confined_store [OF ok t this]
    have "zero_loop s (c + ?av) e ?m1 = (res, m')"
      using "1.prems"(3) lt t by (simp add: zero_loop.simps [of s c e] Let_def)
    from "1.IH" [OF lt t refl confined_ok [OF c1] ok(2) this]
    show ?thesis using confined_trans [OF c1] by blast
  qed
qed

lemma confined_io_zero: "confined_io (root_physical s) (zero_user_range s a n)"
  unfolding zero_user_range_def
proof (intro confined_io_try confined_io_pure)
  show "confined_io (root_physical s) (zero_loop s a e)" for e using zero_confined by (auto simp: confined_io_def)
qed

lemma confined_io_pages:
  "confined_io (root_physical s) (map_segment_page s page)" "confined_io (root_physical s) (map_stack_page s page)"
proof -
  have "\<exists>own'. confined (root_physical s) own m own' m'"
    if "spaces_ok own m" "own (root_physical s) = Some (root_physical s, [])" "map_user_page s page m = (r, m')"
    for own m r m' using map_user_page_confined [OF that] by blast
  then show "confined_io (root_physical s) (map_segment_page s page)" "confined_io (root_physical s) (map_stack_page s page)"
    by (auto simp: confined_io_def map_segment_page_def map_stack_page_def split: prod.splits sum.splits map_error.splits)
qed

lemmas confined_io_rules = confined_io_try confined_io_for confined_io_copy confined_io_zero confined_io_pages

lemma confined_io_strings: "confined_io (root_physical s) (push_strings s items sp ps)"
  by (induction items arbitrary: sp ps) (simp_all add: confined_io_rules)

lemma confined_io_pointers: "confined_io (root_physical s) (write_pointers s v i ps)"
  by (induction ps arbitrary: i) (simp_all add: confined_io_rules)

lemma confined_io_stack: "confined_io (root_physical s) (prepare_user_stack s args env)"
  unfolding prepare_user_stack_def Let_def
  by (auto intro!: confined_io_try simp: confined_io_strings confined_io_pointers split: prod.splits)

lemma confined_io_index: "confined_io (root_physical s) (load_index elf s i)"
  unfolding load_index_def load_segment_def Let_def
  by (auto intro!: confined_io_rules split: option.splits)

lemma load_program_confined:
  assumes ok: "spaces_ok own m" and op: "load_program img args env m = (res, m')"
  shows "\<exists>own'. (\<forall>r. confined r own m own' m') \<and> (\<forall>prog. res = Inr prog \<longrightarrow>
    own (root_physical (prog_space prog)) = None \<and>
    own' (root_physical (prog_space prog)) = Some (root_physical (prog_space prog), []))"
proof (cases "elf_parse img")
  case (Inl e)
  then have "m' = m" "\<exists>e. res = Inl e" using op by (auto simp: load_program_def try_io_def lift_io_def)
  then show ?thesis using confined_refl [OF ok] by blast
next
  case (Inr elf)
  obtain nu m1 where n: "new_user m = (nu, m1)" by fastforce
  obtain own1 where c1: "\<And>r. confined r own m own1 m1"
    and r1: "\<And>c. nu = Some c \<Longrightarrow> own (root_physical c) = None \<and> own1 (root_physical c) = Some (root_physical c, [])"
    using new_user_confined [OF ok n] by blast
  show ?thesis
  proof (cases nu)
    case None
    then have "m' = m1" "\<exists>e. res = Inl e" using op Inr n by (auto simp: load_program_def try_io_def lift_io_def)
    then show ?thesis using c1 by blast
  next
    case (Some space)
    let ?rest = "try_io (for_io [0..<elf_header_count elf] (load_index elf space)) (\<lambda>_.
     try_io (lift_io (ok_or InvalidMapping (checked_sub user_stack_top user_stack_size))) (\<lambda>stack_start.
     try_io (for_io (page_list stack_start user_stack_top) (map_stack_page space)) (\<lambda>_.
     try_io (prepare_user_stack space args env) (\<lambda>(user_stack, user_argv, user_envp) m.
     if translate m space (elf_entry elf) = None then (Inl InvalidMapping, m)
     else (Inr \<lparr>prog_space = space, prog_entry = elf_entry elf, prog_stack = user_stack,
             prog_argv = user_argv, prog_envp = user_envp\<rparr>, m)))))"
    have rest: "?rest m1 = (res, m')" using op Inr n Some by (simp add: load_program_def try_io_def lift_io_def)
    have "confined_io (root_physical space) ?rest"
      using confined_refl
      by (intro confined_io_rules confined_io_index confined_io_stack confined_io_pure)
        (auto simp: confined_io_def split: prod.splits)
    from confined_ioD [OF this confined_ok [OF c1] _ rest] r1 [OF Some] obtain own2
      where c2: "confined (root_physical space) own1 m1 own2 m'" by blast
    have "confined r own m own2 m'" for r using confined_other [OF c1 c2 _ ok] r1 [OF Some] by blast
    moreover have "prog_space prog = space" if "res = Inr prog" for prog
      using rest that by (auto simp: try_io_def split: prod.splits sum.splits if_splits)
    moreover have "own2 (root_physical space) = Some (root_physical space, [])"
      using confined_own [OF c2] r1 [OF Some] by blast
    ultimately show ?thesis using r1 [OF Some] by blast
  qed
qed

end
