(* ===== verification/Display_Calls.thy ===== *)
theory Display_Calls
  imports Process_Ops
begin

text \<open>
  The system calls of the display, \<open>kernel/src/abi/syscall.rs\<close> over \<open>kernel/src/surface.rs\<close>:
  those that map video memory or the buffer of a surface into the calling process, with what
  they do to memory, and those that only use the registry and the event queues. The
  description of the framebuffer is an argument. The map calls share memory between processes on
  purpose; the isolation of memory is stated for runs without them.
\<close>

section \<open>The framebuffer\<close>

record description =
  ds_physical_address :: u64
  ds_width :: nat
  ds_height :: nat
  ds_pitch :: nat
  ds_red_shift :: u8
  ds_green_shift :: u8
  ds_blue_shift :: u8

definition fb_base :: u64 where
  "fb_base = 0x400000000000"

definition usize_saturating_mul :: "nat \<Rightarrow> nat \<Rightarrow> nat" where
  "usize_saturating_mul a b = min (a * b) (2 ^ 64 - 1)"

text \<open>\<open>FramebufferInfo\<close> as it lies in memory.\<close>

definition framebuffer_info_bytes :: "u64 \<Rightarrow> description \<Rightarrow> u8 list" where
  "framebuffer_info_bytes address ds =
     to_le 8 address @ to_le 8 (ds_physical_address ds) @ to_le 4 (word_of_nat (ds_width ds) :: u32) @
     to_le 4 (word_of_nat (ds_height ds) :: u32) @ to_le 4 (word_of_nat (ds_pitch ds) :: u32) @
     [ds_red_shift ds, ds_green_shift ds, ds_blue_shift ds, 0]"

text \<open>The end of a handler that gives bytes to the caller: \<open>rax\<close> is \<open>code\<close>, or EFAULT.\<close>

definition give_bytes :: "u64 \<Rightarrow> u64 \<Rightarrow> u8 list \<Rightarrow> kernel \<Rightarrow> resume \<times> kernel" where
  "give_bytes frame code bytes k =
     (case copy_to_current_user (tf_rdi (trap_frames k frame)) bytes k of
        (None, k) \<Rightarrow> (Panicked, k)
      | (Some True, k) \<Rightarrow> (Resume frame, set_rax frame code k)
      | (Some False, k) \<Rightarrow> fail_call frame 14 k)"

definition framebuffer_map :: "description option \<Rightarrow> u64 \<Rightarrow> kernel \<Rightarrow> resume \<times> kernel" where
  "framebuffer_map fb frame k = (case fb of
     None \<Rightarrow> fail_call frame 19 k
   | Some ds \<Rightarrow> (case pr_space (current_process k) of
       None \<Rightarrow> (Panicked, k)
     | Some space \<Rightarrow>
         (case map_framebuffer_range space fb_base (ds_physical_address ds)
             (usize_saturating_mul (ds_pitch ds) (ds_height ds)) (mach k) of
            (None, m) \<Rightarrow> fail_call frame 12 (k\<lparr>mach := m\<rparr>)
          | (Some address, m) \<Rightarrow> give_bytes frame 0 (framebuffer_info_bytes address ds) (k\<lparr>mach := m\<rparr>))))"

text \<open>The arm of \<open>SYS_FB_MAP\<close>: the pointer is kept on the screen.\<close>

definition sys_fb_map :: "description option \<Rightarrow> u64 \<Rightarrow> kernel \<Rightarrow> resume \<times> kernel" where
  "sys_fb_map fb frame k =
     (let (r, k) = framebuffer_map fb frame k
      in (r, case fb of
          None \<Rightarrow> k
        | Some ds \<Rightarrow> k\<lparr>input_state := clamp_pointer (sint (word_of_nat (ds_width ds) :: u32))
            (sint (word_of_nat (ds_height ds) :: u32)) (input_state k)\<rparr>))"

section \<open>Surfaces with memory\<close>

definition surface_info_bytes :: "surface_info \<Rightarrow> u8 list" where
  "surface_info_bytes i = to_le 4 (si_id i) @ to_le 4 (si_width i) @ to_le 4 (si_height i) @
     to_le 4 (si_pitch i) @ to_le 8 (si_address i)"

definition surface_info_of :: "u8 list \<Rightarrow> surface_info" where
  "surface_info_of bs = \<lparr>si_id = from_le (slice 0 4 bs), si_width = from_le (slice 4 8 bs),
     si_height = from_le (slice 8 12 bs), si_pitch = from_le (slice 12 16 bs), si_address = from_le (slice 16 24 bs)\<rparr>"

definition snapshot_bytes :: "surface_snapshot \<Rightarrow> u8 list" where
  "snapshot_bytes s = to_le 4 (sn_id s) @ to_le 4 (sn_width s) @ to_le 4 (sn_height s) @
     to_le 4 (sn_pitch s) @ to_le 8 (sn_address s)"

text \<open>
  \<open>surface::create\<close> with the frame it takes, the bytes it clears from there and the pages it
  maps; the registry part is \<open>create_surface\<close>. \<open>None\<close> is the panic of a process without a space.
\<close>

definition create_in_memory :: "surface_info \<Rightarrow> kernel \<Rightarrow> (surface_error + surface_info) option \<times> kernel" where
  "create_in_memory info k =
     (let pid = pr_pid (current_process k); s = surface_state k;
          wrong = si_width info = 0 \<or> si_height info = 0 \<or> si_width info > surface_max_width \<or>
            si_height info > surface_max_height
      in case (if wrong then None else position (\<lambda>surface. sf_physical surface = 0) (slots s)) of
        None \<Rightarrow> (Some (fst (create_surface pid None False info s)), k)
      | Some slot \<Rightarrow> (case new_frame (mach k) of
          (None, m) \<Rightarrow> (Some (fst (create_surface pid None False info s)), k\<lparr>mach := m\<rparr>)
        | (Some f, m) \<Rightarrow>
            let m = store_bytes (virtual_address f) (replicate (surface_max_pixels * 4) 0) m
            in (case pr_space (current_process k) of
                None \<Rightarrow> (None, k\<lparr>mach := m\<rparr>)
              | Some space \<Rightarrow>
                  let (mapped, m) = map_framebuffer_range space
                        (surface_region_base + word_of_nat slot * surface_region_stride)
                        (physical_address f) (surface_max_pixels * 4) m;
                      (r, zeroed, s) = create_surface pid (Some (physical_address f, virtual_address f))
                        (mapped \<noteq> None) info s
                  in (Some r, k\<lparr>mach := m, surface_state := s\<rparr>))))"

definition sys_surface_create :: "u64 \<Rightarrow> kernel \<Rightarrow> resume \<times> kernel" where
  "sys_surface_create frame k =
     (case copy_from_current_user (tf_rdi (trap_frames k frame)) 24 k of
        None \<Rightarrow> (Panicked, k)
      | Some None \<Rightarrow> fail_call frame 14 k
      | Some (Some bytes) \<Rightarrow>
          (case create_in_memory (surface_info_of bytes) k of
             (None, k) \<Rightarrow> (Panicked, k)
           | (Some (Inl e), k) \<Rightarrow> (Resume frame, set_rax frame (word_of_int (surface_errno e)) k)
           | (Some (Inr info), k) \<Rightarrow> give_bytes frame 0 (surface_info_bytes info) k))"

fun map_snapshots ::
  "address_space \<Rightarrow> nat \<Rightarrow> (nat \<times> surface) list \<Rightarrow> machine \<Rightarrow> surface_snapshot list \<times> machine" where
  "map_snapshots space room [] m = ([], m)"
| "map_snapshots space room ((slot, surface) # rest) m =
     (if sf_physical surface = 0 \<or> \<not> sf_shown surface \<or> room = 0 then map_snapshots space room rest m
      else
        let address = 0x500000000000 + word_of_nat slot * 0x100000 in
        (case map_framebuffer_range space address (sf_physical surface) (surface_max_pixels * 4) m of
           (None, m) \<Rightarrow> map_snapshots space room rest m
         | (Some a, m) \<Rightarrow>
             let (output', m) = map_snapshots space (room - 1) rest m
             in (\<lparr>sn_id = word_of_nat slot, sn_width = sf_width surface, sn_height = sf_height surface,
                  sn_pitch = sf_pitch surface, sn_address = address\<rparr> # output', m)))"

definition sys_surface_snapshot :: "u64 \<Rightarrow> kernel \<Rightarrow> resume \<times> kernel" where
  "sys_surface_snapshot frame k =
     (let tf = trap_frames k frame; capacity = min (unat (tf_rsi tf)) max_surfaces
      in if tf_rdi tf = 0 \<or> capacity = 0 then fail_call frame 22 k
         else (case pr_space (current_process k) of
             None \<Rightarrow> (Panicked, k)
           | Some space \<Rightarrow>
               let ss = slots (surface_state k);
                   (output', m) = map_snapshots space capacity (zip [0..<length ss] ss) (mach k)
               in give_bytes frame (word_of_nat (length output')) (concat (map snapshot_bytes output'))
                    (k\<lparr>mach := m\<rparr>)))"

section \<open>Calls of the registry\<close>

definition registry_result :: "u64 \<Rightarrow> (surface_error + unit) \<times> surfaces \<Rightarrow> kernel \<Rightarrow> resume \<times> kernel" where
  "registry_result frame r k =
     (Resume frame, set_rax frame (case fst r of Inl e \<Rightarrow> word_of_int (surface_errno e) | Inr u \<Rightarrow> 0)
        (k\<lparr>surface_state := snd r\<rparr>))"

definition sys_surface_present :: "u64 \<Rightarrow> kernel \<Rightarrow> resume \<times> kernel" where
  "sys_surface_present frame k =
     (let tf = trap_frames k frame in
      registry_result frame (present_surface (pr_pid (current_process k)) (ucast (tf_rdi tf)) (tf_rsi tf \<noteq> 0) (surface_state k)) k)"

definition sys_surface_flush :: "u64 \<Rightarrow> kernel \<Rightarrow> resume \<times> kernel" where
  "sys_surface_flush frame k =
     registry_result frame (flush_surface (pr_pid (current_process k)) (ucast (tf_rdi (trap_frames k frame))) (surface_state k)) k"

definition sys_surface_destroy :: "u64 \<Rightarrow> kernel \<Rightarrow> resume \<times> kernel" where
  "sys_surface_destroy frame k =
     registry_result frame (destroy_surface (pr_pid (current_process k)) (ucast (tf_rdi (trap_frames k frame))) (surface_state k)) k"

definition surface_event_bytes :: "surface_event \<Rightarrow> u8 list" where
  "surface_event_bytes e = concat (map (to_le 4)
     [se_surface e, se_kind e, se_x e, se_y e, se_button e, se_pressed e, se_key e])"

definition surface_event_of :: "u8 list \<Rightarrow> surface_event" where
  "surface_event_of bs = \<lparr>se_surface = from_le (slice 0 4 bs), se_kind = from_le (slice 4 8 bs),
     se_x = from_le (slice 8 12 bs), se_y = from_le (slice 12 16 bs), se_button = from_le (slice 16 20 bs),
     se_pressed = from_le (slice 20 24 bs), se_key = from_le (slice 24 28 bs)\<rparr>"

definition sys_surface_poll :: "u64 \<Rightarrow> kernel \<Rightarrow> resume \<times> kernel" where
  "sys_surface_poll frame k =
     (case pop_event (pr_pid (current_process k)) (surface_state k) of
        (None, s) \<Rightarrow> (Resume frame, set_rax frame 0 (k\<lparr>surface_state := s\<rparr>))
      | (Some event, s) \<Rightarrow> give_bytes frame 1 (surface_event_bytes event) (k\<lparr>surface_state := s\<rparr>))"

definition sys_surface_send_event :: "u64 \<Rightarrow> kernel \<Rightarrow> resume \<times> kernel" where
  "sys_surface_send_event frame k =
     (case copy_from_current_user (tf_rdi (trap_frames k frame)) 28 k of
        None \<Rightarrow> (Panicked, k)
      | Some None \<Rightarrow> fail_call frame 14 k
      | Some (Some bytes) \<Rightarrow>
          let event = surface_event_of bytes in
          (case push_event_to_surface (se_surface event) event (surface_state k) of
             (True, s) \<Rightarrow> (Resume frame, set_rax frame 0 (k\<lparr>surface_state := s\<rparr>))
           | (False, s) \<Rightarrow> fail_call frame 2 (k\<lparr>surface_state := s\<rparr>)))"

section \<open>What they touch\<close>

lemma from_le_slices:
  "surface_info_of (surface_info_bytes i) = i" "surface_event_of (surface_event_bytes e) = e"
  by (simp_all add: surface_info_of_def surface_info_bytes_def surface_event_of_def surface_event_bytes_def slice_def)

text \<open>
  A surface clears 256000 bytes from the one frame it took: every byte of the 61 frames behind
  it is zero afterwards, whoever owns them.
\<close>

lemma create_clears_neighbours:
  assumes "create_in_memory info k = (Some (Inr info'), k')" "new_frame (mach k) = (Some f, m)"
  shows "\<exists>space mapped. pr_space (current_process k) = Some space \<and>
    map_framebuffer_range space (si_address info') (physical_address f) 256000
      (store_bytes (virtual_address f) (replicate 256000 0) m) = (mapped, mach k')"
  using assms
  by (auto simp: create_in_memory_def create_surface_def Let_def surface_max_pixels_def abi_simps
      split: if_splits option.splits prod.splits)

end
