(* ===== verification/Memory_Isolation.thy ===== *)
theory Memory_Isolation
  imports Scheduling Space_Operations Display_Calls
begin

text \<open>
  Memory isolation of the processes. As long as no process has called \<open>SYS_FB_MAP\<close>,
  \<open>SYS_SURFACE_CREATE\<close> or \<open>SYS_SURFACE_SNAPSHOT\<close>, the live processes have address spaces with
  disjoint page frames, and a step of the running process changes neither a translation nor a
  byte of another process's memory. The three display calls share pages between processes on
  purpose (and \<open>SYS_SURFACE_CREATE\<close> also clears frames that are not its own), so \<open>memory_step\<close>
  has them as steps with a mark, and the property is about runs without marked steps.
\<close>

section \<open>Spaces of the processes\<close>

definition space_root :: "process \<Rightarrow> u64" where
  "space_root p = root_physical (the (pr_space p))"

definition memory_ok :: "owners \<Rightarrow> kernel \<Rightarrow> bool" where
  "memory_ok own k \<longleftrightarrow> spaces_ok own (mach k) \<and> length (processes k) = max_processes \<and>
     (\<forall>i < max_processes. \<not> idle (processes k ! i) \<longrightarrow> pr_space (processes k ! i) \<noteq> None \<and>
        own (space_root (processes k ! i)) = Some (space_root (processes k ! i), [])) \<and>
     (\<forall>i < max_processes. \<forall>j < max_processes. \<not> idle (processes k ! i) \<longrightarrow> \<not> idle (processes k ! j) \<longrightarrow>
        space_root (processes k ! i) = space_root (processes k ! j) \<longrightarrow> i = j)"

text \<open>No process came to life and no space was exchanged.\<close>

definition same_spaces :: "kernel \<Rightarrow> kernel \<Rightarrow> bool" where
  "same_spaces k k' \<longleftrightarrow> length (processes k') = length (processes k) \<and>
     (\<forall>i < length (processes k). \<not> idle (processes k' ! i) \<longrightarrow>
        \<not> idle (processes k ! i) \<and> pr_space (processes k' ! i) = pr_space (processes k ! i))"

definition mem_step :: "u64 \<Rightarrow> owners \<Rightarrow> kernel \<Rightarrow> owners \<Rightarrow> kernel \<Rightarrow> bool" where
  "mem_step r own k own' k' \<longleftrightarrow> confined r own (mach k) own' (mach k') \<and> same_spaces k k'"

lemma same_spaces_trans: "same_spaces a b \<Longrightarrow> same_spaces b c \<Longrightarrow> same_spaces a c"
  by (simp add: same_spaces_def)

lemma same_spaces_eq: "processes k' = processes k \<Longrightarrow> same_spaces k k'"
  by (simp add: same_spaces_def)

lemma mem_step_trans: "mem_step r own k own1 k1 \<Longrightarrow> mem_step r own1 k1 own2 k2 \<Longrightarrow> mem_step r own k own2 k2"
  unfolding mem_step_def using confined_trans same_spaces_trans by blast

lemma memory_okD:
  assumes "memory_ok own k"
  shows "spaces_ok own (mach k)" "length (processes k) = max_processes"
    "i < max_processes \<Longrightarrow> \<not> idle (processes k ! i) \<Longrightarrow> pr_space (processes k ! i) \<noteq> None"
    "i < max_processes \<Longrightarrow> \<not> idle (processes k ! i) \<Longrightarrow>
      own (space_root (processes k ! i)) = Some (space_root (processes k ! i), [])"
  using assms unfolding memory_ok_def by blast+

lemma memory_ok_step:
  assumes ok: "memory_ok own k" and step: "mem_step r own k own' k'" shows "memory_ok own' k'"
proof -
  have c: "confined r own (mach k) own' (mach k')" and s: "same_spaces k k'" using step by (simp_all add: mem_step_def)
  have len: "length (processes k') = max_processes" using s memory_okD(2) [OF ok] by (simp add: same_spaces_def)
  have live: "\<not> idle (processes k ! i)" "space_root (processes k' ! i) = space_root (processes k ! i)"
    "pr_space (processes k' ! i) = pr_space (processes k ! i)"
    if "i < max_processes" "\<not> idle (processes k' ! i)" for i
    using s that memory_okD(2) [OF ok] by (simp_all add: same_spaces_def space_root_def)
  show ?thesis
    unfolding memory_ok_def
  proof (intro conjI allI impI)
    fix i assume i: "i < max_processes" "\<not> idle (processes k' ! i)"
    then show "pr_space (processes k' ! i) \<noteq> None" using live memory_okD(3) [OF ok] by simp
    show "own' (space_root (processes k' ! i)) = Some (space_root (processes k' ! i), [])"
      using live [OF i] confined_own [OF c memory_okD(4) [OF ok i(1)]] by simp
    fix j assume "j < max_processes" "\<not> idle (processes k' ! j)" "space_root (processes k' ! i) = space_root (processes k' ! j)"
    then show "i = j" using i live ok by (simp add: memory_ok_def)
  qed (use c len in \<open>simp_all add: confined_def\<close>)
qed

lemma mem_step_quiet: "spaces_ok own (mach k) \<Longrightarrow> mach k' = mach k \<Longrightarrow> same_spaces k k' \<Longrightarrow> mem_step r own k own k'"
  by (simp add: mem_step_def confined_refl)

lemma mem_step_update:
  assumes "spaces_ok own (mach k)" "\<And>p. pr_space (f p) = pr_space p" "\<And>p. \<not> idle (f p) \<Longrightarrow> \<not> idle p"
  shows "mem_step r own k own (update_process i f k)"
proof -
  have "same_spaces k (update_process i f k)"
    unfolding same_spaces_def
  proof (intro conjI allI impI)
    fix j assume j: "j < length (processes k)" "\<not> idle (processes (update_process i f k) ! j)"
    then show "\<not> idle (processes k ! j)"
      using assms(3) by (cases "j = i") (auto simp: update_process_def)
    show "pr_space (processes (update_process i f k) ! j) = pr_space (processes k ! j)"
      using j assms(2) by (cases "j = i") (auto simp: update_process_def)
  qed simp
  then show ?thesis using assms(1) by (intro mem_step_quiet) (simp_all add: update_process_def)
qed

section \<open>Context switches\<close>

lemma confined_switch:
  assumes ok: "spaces_ok own m" and root: "own (root_physical s) = Some (root_physical s, [])"
  shows "confined r own m own (switch_space s m)"
proof -
  let ?m = "switch_space s m"
  have same: "allocator ?m = allocator m" "ram ?m = ram m" by (simp_all add: switch_space_def)
  have v: "virt ?m = virt m" "frame_ok ?m = frame_ok m" "page_bytes ?m = page_bytes m"
    by (simp_all add: virt_def frame_ok_def page_bytes_def same fun_eq_iff)
  have e: "entry ?m f i = entry m f i" for f i
    by (simp add: entry_def v load_entry_def load_u64_def load_bytes_def same)
  then have kh: "kernel_half ?m f = kernel_half m f" for f by (simp add: kernel_half_def)
  have c: "cr3 ?m AND address_mask = root_physical s"
    using spaces_okD(4) [OF ok root] by (simp add: switch_space_def frame_ok_def)
  have "spaces_ok own ?m"
    unfolding spaces_ok_def c e kh v same
    using ok root spaces_okD(7) [OF ok root] unfolding spaces_ok_def by blast
  then show ?thesis by (simp add: confined_def same)
qed

lemma finish_spaces:
  assumes "current k < length (processes k)" shows "same_spaces k (finish_current k)"
proof -
  have "idle (processes (finish_current k) ! i) = (i = current k \<or> idle (processes k ! i))" if "i < length (processes k)" for i
    using finish_current_nth(4) [OF assms that] .
  moreover have "pr_space (processes (finish_current k) ! i) = pr_space (processes k ! i)" if "i < length (processes k)" for i
    using that by (cases "i = current k")
      (simp_all add: finish_current_def Let_def release_descriptors_def update_process_def current_process_def wake_waiters_def)
  moreover have "length (processes (finish_current k)) = length (processes k)"
    using finish_current_nth(1) [OF assms assms] .
  ultimately show ?thesis by (simp add: same_spaces_def)
qed

lemma switch_to_state:
  "switch_to c k = (res, k') \<Longrightarrow> pr_space (processes k ! c) = Some s \<Longrightarrow>
   mach k' = switch_space s (mach k) \<and> processes k' = processes k"
  by (auto simp: switch_to_def Let_def)

lemma mem_schedule:
  assumes ok: "memory_ok own k" and cur: "current k < max_processes" and op: "schedule frame exiting k = (res, k')"
  shows "\<exists>own'. mem_step r own k own' k'"
proof -
  let ?s = "save_context frame k"
  let ?k = "if exiting then finish_current ?s else ?s"
  have 1: "mem_step r own k own ?s"
    unfolding save_context_def by (rule mem_step_update [OF memory_okD(1) [OF ok]]) (simp_all add: idle_def)
  have ok1: "memory_ok own ?s" by (rule memory_ok_step [OF ok 1])
  have cur1: "current ?s < length (processes ?s)" using cur memory_okD(2) [OF ok1] by (simp add: save_context_def)
  have "mem_step r own ?s own (finish_current ?s)"
    using finish_spaces [OF cur1] memory_okD(1) [OF ok1]
    by (intro mem_step_quiet) (simp_all add: finish_current_def Let_def release_descriptors_def update_process_def)
  then have 2: "mem_step r own k own ?k" using 1 mem_step_trans by (cases exiting) auto
  have ok2: "memory_ok own ?k" by (rule memory_ok_step [OF ok 2])
  show ?thesis
  proof (cases "pick_next ?k")
    case None
    then have "k' = ?k" using op by (simp add: schedule_def Let_def)
    then show ?thesis using 2 by blast
  next
    case (Some c)
    have c: "c < max_processes" "\<not> idle (processes ?k ! c)"
      using pick_next_Some [OF Some] eligible_not_idle by auto
    obtain s where s: "pr_space (processes ?k ! c) = Some s" using memory_okD(3) [OF ok2 c] by auto
    then have root: "own (root_physical s) = Some (root_physical s, [])"
      using memory_okD(4) [OF ok2 c] by (simp add: space_root_def)
    have "mach k' = switch_space s (mach ?k)" "processes k' = processes ?k"
      using switch_to_state [OF _ s] op Some by (auto simp: schedule_def Let_def)
    then have "mem_step r own ?k own k'"
      using confined_switch [OF memory_okD(1) [OF ok2] root] same_spaces_eq by (simp add: mem_step_def)
    then show ?thesis using mem_step_trans [OF 2] by blast
  qed
qed

lemma mem_schedule_after:
  assumes "memory_ok own k" "mem_step r own k own1 k1" "current k1 < max_processes" "schedule frame exiting k1 = (res, k')"
  shows "\<exists>own'. mem_step r own k own' k'"
  using mem_schedule [OF memory_ok_step [OF assms(1,2)] assms(3,4)] mem_step_trans [OF assms(2)] by blast

section \<open>New spaces\<close>

lemma memory_ok_new:
  assumes ok: "memory_ok own k" and c: "\<And>r. confined r own (mach k) own' (mach k')"
    and s: "own (root_physical s) = None" "own' (root_physical s) = Some (root_physical s, [])"
    and p: "processes k' = (processes k)[slot := p]" "pr_space p = Some s"
  shows "memory_ok own' k'"
proof -
  have len: "length (processes k') = max_processes" using p memory_okD(2) [OF ok] by simp
  have old: "processes k' ! i = processes k ! i" if "i \<noteq> slot" for i using p that by simp
  have new: "processes k' ! slot = p" "space_root p = root_physical s" if "slot < max_processes"
    using p that memory_okD(2) [OF ok] by (simp_all add: space_root_def)
  have fresh: "space_root (processes k ! i) \<noteq> root_physical s" if "i < max_processes" "\<not> idle (processes k ! i)" for i
    using memory_okD(4) [OF ok that] s(1) by auto
  show ?thesis
    unfolding memory_ok_def
  proof (intro conjI allI impI)
    fix i assume i: "i < max_processes" "\<not> idle (processes k' ! i)"
    show "pr_space (processes k' ! i) \<noteq> None"
      using i new old p(2) memory_okD(3) [OF ok] by (cases "i = slot") auto
    show "own' (space_root (processes k' ! i)) = Some (space_root (processes k' ! i), [])"
      using i new old s(2) confined_own [OF c memory_okD(4) [OF ok]] by (cases "i = slot") auto
    fix j assume j: "j < max_processes" "\<not> idle (processes k' ! j)" "space_root (processes k' ! i) = space_root (processes k' ! j)"
    show "i = j"
    proof (cases "i = slot \<or> j = slot")
      case True
      then show ?thesis using i j new old fresh by (cases "i = slot"; cases "j = slot") auto
    next
      case False
      then show ?thesis using i j old ok by (simp add: memory_ok_def)
    qed
  qed (use c [of 0] len in \<open>simp_all add: confined_def\<close>)
qed

section \<open>The operations\<close>

text \<open>A step keeps the spaces apart and touches only memory of the running process and fresh frames.\<close>

definition safe_step :: "owners \<Rightarrow> kernel \<Rightarrow> kernel \<Rightarrow> bool" where
  "safe_step own k k' \<longleftrightarrow> (\<exists>own'. memory_ok own' k' \<and>
     confined (space_root (current_process k)) own (mach k) own' (mach k'))"

lemma safe_step_mem: "memory_ok own k \<Longrightarrow> mem_step (space_root (current_process k)) own k own' k' \<Longrightarrow> safe_step own k k'"
  using memory_ok_step unfolding safe_step_def mem_step_def by blast

lemma safe_step_quiet: "memory_ok own k \<Longrightarrow> mach k' = mach k \<Longrightarrow> same_spaces k k' \<Longrightarrow> safe_step own k k'"
  using safe_step_mem mem_step_quiet memory_okD(1) by blast

lemma safe_step_update:
  "memory_ok own k \<Longrightarrow> (\<And>p. pr_space (f p) = pr_space p) \<Longrightarrow> (\<And>p. \<not> idle (f p) \<Longrightarrow> \<not> idle p) \<Longrightarrow>
   safe_step own k (update_process i f k)"
  using safe_step_mem mem_step_update memory_okD(1) by blast

lemma safe_step_schedule:
  assumes "memory_ok own k" "mem_step (space_root (current_process k)) own k own1 k1" "current k1 < max_processes"
    "schedule frame exiting k1 = (res, k')"
  shows "safe_step own k k'"
  using mem_schedule_after [OF assms] safe_step_mem [OF assms(1)] by blast

lemma current_root:
  assumes "memory_ok own k" "kernel_ok k" "running k" "pr_space (current_process k) = Some s"
  shows "own (root_physical s) = Some (root_physical s, [])" "space_root (current_process k) = root_physical s"
proof -
  have "current k < max_processes" using kernel_okD(1) [OF assms(2)] by (simp add: shaped_def)
  then show "own (root_physical s) = Some (root_physical s, [])" "space_root (current_process k) = root_physical s"
    using memory_okD(4) [OF assms(1), of "current k"] assms(3,4)
    by (simp_all add: running_def current_process_def space_root_def)
qed

lemma mem_step_copy:
  assumes ok: "memory_ok own k" "kernel_ok k" "running k" and op: "copy_to_current_user a bs k = (res, k')"
  shows "\<exists>own'. mem_step (space_root (current_process k)) own k own' k'"
proof (cases "pr_space (current_process k)")
  case None
  then have "k' = k" using op by (simp add: copy_to_current_user_def)
  then show ?thesis
    using mem_step_quiet [OF memory_okD(1) [OF ok(1)] refl same_spaces_eq [OF refl]] by blast
next
  case (Some s)
  obtain c m where l: "copy_in_loop s a bs 0 (mach k) = (c, m)" by fastforce
  have "k' = k\<lparr>mach := m\<rparr>" using op Some l by (simp add: copy_to_current_user_def)
  then show ?thesis
    using copy_in_confined [OF memory_okD(1) [OF ok(1)] _ l] current_root [OF ok Some] same_spaces_eq
    by (simp add: mem_step_def)
qed

lemma grow_pages_confined:
  assumes "spaces_ok own m" "own (root_physical s) = Some (root_physical s, [])" "grow_pages s pages m = (res, m')"
  shows "\<exists>own'. confined (root_physical s) own m own' m'"
  using assms
proof (induction pages arbitrary: own m)
  case (Cons page rest)
  obtain r m1 where p: "map_user_page s page m = (r, m1)" by fastforce
  obtain own1 where c: "confined (root_physical s) own m own1 m1"
    using map_user_page_confined [OF Cons.prems(1,2) p] by blast
  have "m' = m1 \<or> grow_pages s rest m1 = (res, m')"
    using Cons.prems(3) p by (auto split: sum.splits map_error.splits if_splits)
  then show ?case
    using c Cons.IH [OF confined_ok [OF c] confined_own [OF c Cons.prems(2)]] confined_trans [OF c] by blast
qed (use confined_refl in auto)

lemma safe_step_heap:
  assumes ok: "memory_ok own k" "kernel_ok k" "running k" and op: "grow_heap increment k = (res, k')"
  shows "safe_step own k k'"
proof (cases "k' = k")
  case True
  then show ?thesis using safe_step_quiet [OF ok(1)] same_spaces_eq by blast
next
  case False
  then obtain s pages r m where s: "pr_space (current_process k) = Some s" and g: "grow_pages s pages (mach k) = (r, m)"
    and k': "k' = k\<lparr>mach := m\<rparr> \<or> (\<exists>e. k' = update_process (current k) (\<lambda>p. p\<lparr>pr_heap_end := e\<rparr>) (k\<lparr>mach := m\<rparr>))"
    using op unfolding grow_heap_def Let_def
    by (auto split: if_splits option.splits prod.splits bool.splits) blast+
  note root = current_root [OF ok s]
  obtain own1 where c: "confined (root_physical s) own (mach k) own1 m"
    using grow_pages_confined [OF memory_okD(1) [OF ok(1)] root(1) g] by blast
  then have 1: "mem_step (root_physical s) own k own1 (k\<lparr>mach := m\<rparr>)" by (simp add: mem_step_def same_spaces_eq)
  have "mem_step (root_physical s) own k own1 (update_process (current k) (\<lambda>p. p\<lparr>pr_heap_end := e\<rparr>) (k\<lparr>mach := m\<rparr>))" for e
    using confined_ok [OF c] by (intro mem_step_trans [OF 1 mem_step_update]) (simp_all add: idle_def)
  then show ?thesis using k' 1 safe_step_mem [OF ok(1)] root(2) by auto
qed

text \<open>Descriptor calls and pipes do not touch memory.\<close>

lemma mach_descriptor_calls [simp]:
  "mach (snd (close_descriptor fd k)) = mach k"
  "mach (snd (allocate_descriptor d k)) = mach k"
  "mach (snd (update_descriptor fd d k)) = mach k"
  "mach (snd (duplicate_descriptor fd k)) = mach k"
  "mach (snd (duplicate_descriptor_to fd target k)) = mach k"
  by (auto simp: close_descriptor_def allocate_descriptor_def update_descriptor_def duplicate_descriptor_def
    duplicate_descriptor_to_def Let_def set_current_table_def split: prod.splits sum.splits option.splits)

lemma mach_frame [simp]: "mach (set_rax a v k) = mach k" "mach (set_frame a tf k) = mach k"
  "mach (update_process i f k) = mach k" "mach (rollback_end fd k) = mach k"
  by (simp_all add: set_rax_def set_frame_def update_process_def rollback_end_def split: option.split)

lemma mem_step_rax: "mem_step r own k own' k' \<Longrightarrow> mem_step r own k own' (set_rax a v k')"
  by (simp add: mem_step_def same_spaces_def)

lemma safe_step_sys_pipe:
  assumes ok: "memory_ok own k" "kernel_ok k" "running k" and op: "sys_pipe frame k = (res, k')"
  shows "safe_step own k k'"
proof -
  have keep: "processes (rollback_end fd k) = processes k" for fd k
    by (cases fd) (simp_all add: rollback_end_def)
  obtain cres ps where c: "create_pipe (pipes k) = (cres, ps)" by fastforce
  obtain fd2 k2 where a2: "allocate_descriptor (pipe_descriptor PipeRead (projr cres)) (k\<lparr>pipes := ps\<rparr>) = (fd2, k2)"
    by fastforce
  obtain fd3 k3 where a3: "allocate_descriptor (pipe_descriptor PipeWrite (projr cres)) k2 = (fd3, k3)" by fastforce
  have k2: "processes k2 = processes k" "mach k2 = mach k" "current k2 = current k"
    using processes_descriptor_calls(2,7) [of "pipe_descriptor PipeRead (projr cres)" "k\<lparr>pipes := ps\<rparr>"]
      mach_descriptor_calls(2) [of "pipe_descriptor PipeRead (projr cres)" "k\<lparr>pipes := ps\<rparr>"] by (simp_all add: a2)
  have k3: "processes k3 = processes k" "mach k3 = mach k" "current k3 = current k"
    using processes_descriptor_calls(2,7) [of "pipe_descriptor PipeWrite (projr cres)" k2]
      mach_descriptor_calls(2) [of "pipe_descriptor PipeWrite (projr cres)" k2] k2 by (simp_all add: a3)
  have quiet: "safe_step own k x" if "processes x = processes k" "mach x = mach k" for x
    using safe_step_quiet [OF ok(1) that(2)] same_spaces_eq [OF that(1)] by blast
  show ?thesis
  proof (cases cres)
    case (Inl e)
    then show ?thesis using op c quiet [of k'] by (auto simp: sys_pipe_def)
  next
    case (Inr n)
    note o = op [unfolded sys_pipe_def c Inr, simplified, unfolded a2 [unfolded Inr, simplified], simplified,
      unfolded a3 [unfolded Inr, simplified], simplified]
    show ?thesis
    proof (cases "fd2 = None \<or> fd3 = None")
      case True
      then show ?thesis
        using o by (intro quiet) (cases fd2; cases fd3; auto simp: fail_call_def keep k3 Let_def)+
    next
      case False
      then obtain r1 w1 where rw: "fd2 = Some r1" "fd3 = Some w1" by auto
      obtain cp k4 where cp: "copy_to_current_user (tf_rdi (trap_frames k3 frame))
          (to_le 4 (word_of_nat r1 :: u32) @ to_le 4 (word_of_nat w1 :: u32)) k3 = (cp, k4)" by fastforce
      have cu: "current_process k3 = current_process k" by (simp add: current_process_def k3)
      let ?bs = "to_le 4 (word_of_nat r1 :: u32) @ to_le 4 (word_of_nat w1 :: u32)"
      have "copy_to_current_user (tf_rdi (trap_frames k3 frame)) ?bs k = (cp, k\<lparr>mach := mach k4\<rparr>)"
        using cp k3(2) by (cases "pr_space (current_process k)")
          (auto simp: copy_to_current_user_def cu split: prod.splits)
      from mem_step_copy [OF ok this] obtain own' where
        "mem_step (space_root (current_process k)) own k own' (k\<lparr>mach := mach k4\<rparr>)" by blast
      moreover have "processes k4 = processes k" using cp copy_keeps k3 by fastforce
      ultimately have step: "mem_step (space_root (current_process k)) own k own' x"
        if "processes x = processes k" "mach x = mach k4" for x using that by (simp add: mem_step_def same_spaces_def)
      have "processes k' = processes k \<and> mach k' = mach k4"
        using o rw cp \<open>processes k4 = processes k\<close> by (cases cp) (auto simp: fail_call_def split: bool.splits)
      then show ?thesis using safe_step_mem [OF ok(1) step] by simp
    qed
  qed
qed

section \<open>Signals, the timer and waiting\<close>

lemma handler_slot_room:
  assumes "checked_sub (align16 a) 8 = Some b" shows "unat b mod 4096 + 8 \<le> 4096"
proof -
  have b: "unat b = unat (align16 a) - 8" "8 \<le> unat (align16 a)" using checked_sub_SomeD [OF assms] by auto
  have "align16 a = push_bit 4 (drop_bit 4 a)"
  proof -
    have m: "(0xf :: u64) = mask 4" by (simp add: mask_eq_exp_minus_1)
    show ?thesis unfolding align16_def m by (rule bit_word_eqI) (auto simp: bit_simps)
  qed
  then have "unat (align16 a) = take_bit 64 (push_bit 4 (unat (drop_bit 4 a)))"
    by (simp only: unsigned_push_bit_eq) simp
  also have "\<dots> = take_bit 60 (unat (drop_bit 4 a)) * 16"
    by (simp only: take_bit_push_bit) (simp add: push_bit_eq_mult)
  finally obtain j where "unat (align16 a) = j * 16" by blast
  then have "unat b = (j - 1) * 16 + 8" using b by (cases j) simp_all
  then have "unat b mod 16 = 8" by simp
  moreover have "unat b mod 4096 mod 16 = unat b mod 16" by (rule mod_mod_cancel) simp
  ultimately have "unat b mod 4096 = 16 * (unat b mod 4096 div 16) + 8"
    using mult_div_mod_eq [of 16 "unat b mod 4096"] by simp
  moreover have "unat b mod 4096 div 16 < 256" by (rule less_mult_imp_div_less) simp
  ultimately show ?thesis by linarith
qed

lemma mem_step_enter_handler:
  assumes ok: "memory_ok own k" "kernel_ok k" "running k" and s: "mem_step r own0 k0 own k"
    and r: "r = space_root (current_process k)"
    and op: "enter_handler frame sig handler k = (res, k')"
  shows "\<exists>own'. mem_step r own0 k0 own' k'"
proof -
  have cur: "current k < max_processes" using kernel_okD(1) [OF ok(2)] by (simp add: shaped_def)
  have sched: "\<exists>own'. mem_step r own0 k0 own' k'" if "schedule frame True k = (res, k')"
    using mem_schedule [OF ok(1) cur that] mem_step_trans [OF s] by blast
  have store: "\<exists>own'. mem_step r own0 k0 own' (set_frame frame tf (update_process (current k)
      (\<lambda>p. p\<lparr>pr_signal_frame := x\<rparr>) (k\<lparr>mach := store_u64 d v (mach k)\<rparr>)))"
    if "pr_space (current_process k) = Some sp" "checked_sub (align16 a) 8 = Some slot" "translate (mach k) sp slot = Some d"
    for tf x d v sp slot a
  proof -
    note root = current_root [OF ok that(1)]
    have c: "confined r own (mach k) own (store_u64 d v (mach k))"
      using confined_store [OF memory_okD(1) [OF ok(1)] root(1) that(3), of "to_le 8 v"] handler_slot_room [OF that(2)]
      by (simp add: store_u64_def r root(2))
    then have 1: "mem_step r own k own (k\<lparr>mach := store_u64 d v (mach k)\<rparr>)" by (simp add: mem_step_def same_spaces_eq)
    have 2: "mem_step r own (k\<lparr>mach := store_u64 d v (mach k)\<rparr>) own
        (update_process (current k) (\<lambda>p. p\<lparr>pr_signal_frame := x\<rparr>) (k\<lparr>mach := store_u64 d v (mach k)\<rparr>))"
      using confined_ok [OF c] by (intro mem_step_update) (simp_all add: idle_def)
    have "mem_step r own0 k0 own (update_process (current k) (\<lambda>p. p\<lparr>pr_signal_frame := x\<rparr>) (k\<lparr>mach := store_u64 d v (mach k)\<rparr>))"
      using mem_step_trans [OF s mem_step_trans [OF 1 2]] .
    then show ?thesis by (auto simp: mem_step_def same_spaces_def)
  qed
  show ?thesis
    using op sched store by (auto simp: enter_handler_def Let_def split: option.splits)
qed

lemma mem_step_deliver_step:
  assumes ok: "memory_ok own k" "kernel_ok k" "running k" and op: "deliver_step frame k = (res, k1)"
  shows "res = None \<Longrightarrow> mem_step (space_root (current_process k)) own k own k1"
    and "res = Some (r, k') \<Longrightarrow> \<exists>own'. mem_step (space_root (current_process k)) own k own' k'"
proof -
  let ?r = "space_root (current_process k)"
  note sok = memory_okD(1) [OF ok(1)]
  have cur: "current k < max_processes" "current k < length (processes k)"
    using kernel_okD(1) [OF ok(2)] by (simp_all add: shaped_def)
  note c = op [unfolded deliver_step_def Let_def]
  let ?k1 = "\<lambda>s. update_process (current k) (\<lambda>p. p\<lparr>pr_pending := pr_pending p AND NOT (signal_bit s)\<rparr>) k"
  let ?k2 = "\<lambda>s. update_process (current (?k1 s)) (\<lambda>p. p\<lparr>pr_stopped := True\<rparr>) (?k1 s)"
  have k1: "mem_step ?r own k own (?k1 s)" for s by (rule mem_step_update [OF sok]) (simp_all add: idle_def)
  have ok1: "memory_ok own (?k1 s)" for s by (rule memory_ok_step [OF ok(1) k1])
  have ko1: "kernel_ok (?k1 s)" "running (?k1 s)" for s
    using kernel_ok_update [OF ok(2,3), of "\<lambda>p. p\<lparr>pr_pending := pr_pending p AND NOT (signal_bit s)\<rparr>" "current k"]
    by (simp_all add: standing_def)
  have "mem_step ?r own (?k1 s) own (?k2 s)" for s
    using memory_okD(1) [OF ok1] by (intro mem_step_update) (simp_all add: idle_def)
  then have k2: "mem_step ?r own k own (?k2 s)" for s using mem_step_trans [OF k1] by blast
  have root: "?r = space_root (current_process (?k1 s))" for s
    using cur by (simp add: current_process_def update_process_def space_root_def)
  show "res = None \<Longrightarrow> mem_step ?r own k own k1"
    using c k1 by (auto split: option.splits if_splits)
  assume res: "res = Some (r, k')"
  show "\<exists>own'. mem_step ?r own k own' k'"
  proof (cases "next_pending_signal (pr_pending (current_process k))")
    case None
    then have "k' = k" using c res by (auto split: if_splits)
    then show ?thesis using mem_step_quiet [OF sok refl same_spaces_eq [OF refl]] by blast
  next
    case (Some s)
    then have "(r, k') \<in> {(Resume frame, k), schedule frame True (?k1 s), schedule frame False (?k2 s),
        enter_handler frame s (pr_actions (current_process k) ! unat s) (?k1 s)}"
      using c res by (auto split: if_splits)
    then consider "k' = k" | "schedule frame True (?k1 s) = (r, k')" | "schedule frame False (?k2 s) = (r, k')"
      | "enter_handler frame s (pr_actions (current_process k) ! unat s) (?k1 s) = (r, k')" by auto
    then show ?thesis
    proof cases
      case 1
      then show ?thesis using mem_step_quiet [OF sok refl same_spaces_eq [OF refl]] by blast
    next
      case 2
      then show ?thesis using mem_schedule_after [OF ok(1) k1 _ 2] cur by simp
    next
      case 3
      then show ?thesis using mem_schedule_after [OF ok(1) k2 _ 3] cur by simp
    next
      case 4
      show ?thesis by (rule mem_step_enter_handler [OF ok1 ko1 k1 root 4])
    qed
  qed
qed

lemma mem_step_deliver:
  "memory_ok own k \<Longrightarrow> kernel_ok k \<Longrightarrow> running k \<Longrightarrow> deliver_loop n frame k = Some (r, k') \<Longrightarrow>
   \<exists>own'. mem_step (space_root (current_process k)) own k own' k'"
proof (induction n frame k rule: deliver_loop.induct)
  case (2 turns frame k)
  obtain res k1 where s: "deliver_step frame k = (res, k1)" by fastforce
  show ?case
  proof (cases res)
    case None
    note step = mem_step_deliver_step(1) [OF "2.prems"(1-3) s None]
    have "kernel_ok k1 \<and> running k1" using kernel_ok_deliver_step(1) [OF "2.prems"(2,3) s None] .
    moreover have "deliver_loop turns frame k1 = Some (r, k')" using "2.prems"(4) s None by simp
    moreover have "space_root (current_process k1) = space_root (current_process k)"
    proof -
      have "current k1 = current k" using turned_deliver_step(1) [OF s refl] .
      moreover have "\<not> idle (processes k1 ! current k)"
        using \<open>kernel_ok k1 \<and> running k1\<close> \<open>current k1 = current k\<close> by (simp add: running_def current_process_def)
      moreover have "current k < length (processes k)" using kernel_okD(1) [OF "2.prems"(2)] by (simp add: shaped_def)
      ultimately show ?thesis
        using step by (simp add: mem_step_def same_spaces_def space_root_def current_process_def)
    qed
    ultimately show ?thesis
      using "2.IH" [OF s [symmetric] None] memory_ok_step [OF "2.prems"(1) step] mem_step_trans [OF step] by metis
  next
    case (Some a)
    then have "res = Some (r, k')" using "2.prems"(4) s by simp
    then show ?thesis using mem_step_deliver_step(2) [OF "2.prems"(1-3) s] by blast
  qed
qed simp

lemma safe_step_timer:
  assumes ok: "memory_ok own k" and cur: "current k < max_processes" and op: "timer_tick frame k = (r, k')"
  shows "safe_step own k k'"
proof -
  let ?k1 = "update_process (current k) (\<lambda>p. p\<lparr>pr_quantum := pr_quantum p + 1\<rparr>) k"
  let ?k2 = "update_process (current ?k1) (\<lambda>p. p\<lparr>pr_quantum := 0\<rparr>) ?k1"
  note sok = memory_okD(1) [OF ok]
  have k1: "mem_step q own k own ?k1" for q by (rule mem_step_update [OF sok]) (simp_all add: idle_def)
  have "mem_step q own ?k1 own ?k2" for q using sok by (intro mem_step_update) (simp_all add: idle_def)
  then have k2: "mem_step q own k own ?k2" for q using mem_step_trans [OF k1] by blast
  have "(r, k') \<in> {(Resume frame, k), (Resume frame, ?k1), schedule frame False ?k2}"
    using op by (auto simp: timer_tick_def Let_def split: if_splits)
  then consider "k' = k" | "k' = ?k1" | "schedule frame False ?k2 = (r, k')" by auto
  then show ?thesis
  proof cases
    case 1
    then show ?thesis using safe_step_quiet [OF ok refl same_spaces_eq [OF refl]] by simp
  next
    case 2
    then show ?thesis using safe_step_mem [OF ok k1] by simp
  next
    case 3
    have "current ?k2 < max_processes" using cur by simp
    then show ?thesis using safe_step_schedule [OF ok k2 _ 3] by simp
  qed
qed

lemma mem_step_reap:
  assumes ok: "memory_ok own k" "kernel_ok k" "running k" and op: "reap_child parent wanted ptr k = (res, k')"
  shows "\<exists>own'. mem_step (space_root (current_process k)) own k own' k'"
proof (cases "find (\<lambda>p. wanted_child parent wanted p \<and> pr_zombie p) (processes k)")
  case None
  then have "k' = k" using op by (simp add: reap_child_def)
  then show ?thesis using mem_step_quiet [OF memory_okD(1) [OF ok(1)] refl same_spaces_eq [OF refl]] by blast
next
  case (Some child)
  then have child: "child \<in> set (processes k)" "pr_active child" "pr_zombie child"
    by (auto dest: find_SomeD simp: wanted_child_def)
  obtain slot where slot: "position (\<lambda>p. pr_active p \<and> pr_pid p = pr_pid child) (processes k) = Some slot"
    using child(1,2) by (cases "position (\<lambda>p. pr_active p \<and> pr_pid p = pr_pid child) (processes k)")
      (auto simp: position_None_iff)
  obtain c k1 where c: "copy_to_current_user ptr (to_le 4 (wait_status (pr_exit_status child))) k = (c, k1)" by fastforce
  then obtain m where k1: "k1 = k\<lparr>mach := m\<rparr>" using copy_keeps by blast
  obtain own1 where s1: "mem_step (space_root (current_process k)) own k own1 k1" using mem_step_copy [OF ok c] by blast
  have s0: "mem_step (space_root (current_process k)) own k own k"
    by (rule mem_step_quiet [OF memory_okD(1) [OF ok(1)] refl same_spaces_eq [OF refl]])
  have collect: "mem_step q own2 k own3 (x\<lparr>processes := (processes k)[slot := empty_process]\<rparr>)"
    if "mem_step q own2 k own3 x" "processes x = processes k" for q own2 own3 x
  proof -
    have "same_spaces k (x\<lparr>processes := (processes k)[slot := empty_process]\<rparr>)"
      unfolding same_spaces_def
    proof (intro conjI allI impI)
      fix i assume i: "i < length (processes k)"
        "\<not> idle (processes (x\<lparr>processes := (processes k)[slot := empty_process]\<rparr>) ! i)"
      have "idle empty_process" by (simp add: idle_def empty_process_def)
      then have "i \<noteq> slot" using i by auto
      then show "\<not> idle (processes k ! i)"
        "pr_space (processes (x\<lparr>processes := (processes k)[slot := empty_process]\<rparr>) ! i) = pr_space (processes k ! i)"
        using i by simp_all
    qed simp
    then show ?thesis using that by (simp add: mem_step_def)
  qed
  have "k' = k \<or> k' = k1 \<or> k' = k\<lparr>processes := (processes k)[slot := empty_process]\<rparr> \<or>
      k' = k1\<lparr>processes := (processes k)[slot := empty_process]\<rparr>"
    using op Some slot c k1
    by (cases c) (auto simp: reap_child_def Let_def split: if_splits bool.splits option.splits)
  then show ?thesis using s0 s1 collect [OF s0 refl] collect [OF s1] k1 by auto
qed

lemma safe_step_waitpid:
  assumes ok: "memory_ok own k" "kernel_ok k" "running k" and op: "waitpid_current frame pid ptr options k = (res, k')"
  shows "safe_step own k k'"
proof -
  let ?r = "space_root (current_process k)"
  obtain rr k1 where reap: "reap_child (pr_pid (processes k ! current k)) pid ptr k = (rr, k1)" by fastforce
  obtain own1 where s1: "mem_step ?r own k own1 k1" using mem_step_reap [OF ok reap] by blast
  note ok1 = memory_ok_step [OF ok(1) s1]
  have cur: "current k1 < max_processes"
    using kernel_ok_reap [OF ok(2,3) reap] kernel_okD(1) [of k1] by (simp add: shaped_def)
  let ?k2 = "update_process (current k) (\<lambda>p. p\<lparr>pr_waiting_for := if 0 < pid then nat pid else usize_max\<rparr>) k1"
  have "mem_step ?r own1 k1 own1 ?k2"
    by (rule mem_step_update [OF memory_okD(1) [OF ok1]]) (simp_all add: idle_def)
  then have s2: "mem_step ?r own k own1 (set_rax frame (errno 11) ?k2)" using mem_step_trans [OF s1] mem_step_rax by blast
  from waitpid_result [OF op reap]
  consider "schedule frame False (set_rax frame (errno 11) ?k2) = (res, k')" | n where "fail_call frame n k1 = (res, k')"
    | v where "k' = set_rax frame v k1" | "k' = k1" by force
  then show ?thesis
  proof cases
    case 1
    show ?thesis using safe_step_schedule [OF ok(1) s2 _ 1] cur by simp
  next
    case (2 n)
    then have "k' = set_rax frame (errno n) k1" by (simp add: fail_call_def)
    then show ?thesis using safe_step_mem [OF ok(1) mem_step_rax [OF s1]] by simp
  next
    case (3 v)
    then show ?thesis using safe_step_mem [OF ok(1) mem_step_rax [OF s1]] by simp
  next
    case 4
    then show ?thesis using safe_step_mem [OF ok(1) s1] by simp
  qed
qed

section \<open>Fork, spawn and execve\<close>

lemma safe_step_fail: "memory_ok own k \<Longrightarrow> fail_call frame n k = (r, k') \<Longrightarrow> safe_step own k k'"
  using safe_step_quiet by (auto simp: fail_call_def same_spaces_eq)

lemma safe_step_confined:
  assumes "memory_ok own k" "\<And>r. confined r own (mach k) own' (mach k')" "processes k' = processes k"
  shows "safe_step own k k'"
  using assms by (intro safe_step_mem [of own k own']) (simp_all add: mem_step_def same_spaces_eq)

lemma safe_step_new:
  assumes ok: "memory_ok own k" and c: "\<And>r. confined r own (mach k) own' (mach k')"
    and s: "own (root_physical s) = None" "own' (root_physical s) = Some (root_physical s, [])"
    and p: "processes k' = (processes k)[slot := p]" "pr_space p = Some s"
  shows "safe_step own k k'"
  using memory_ok_new [OF assms] c unfolding safe_step_def by blast

lemma safe_step_fork:
  assumes ok: "memory_ok own k" "kernel_ok k" "running k" and op: "fork_current fninit frame k = (r, k')"
  shows "safe_step own k k'"
proof (cases "frame = 0 \<or> free_slot k = None \<or> pr_space (processes k ! current k) = None")
  case True
  then have "k' = k \<or> (\<exists>n. fail_call frame n k = (r, k'))"
    using op by (cases "frame = 0"; cases "free_slot k") (auto simp: fork_current_def Let_def)
  then show ?thesis using safe_step_fail [OF ok(1)] safe_step_quiet [OF ok(1) refl same_spaces_eq [OF refl]] by auto
next
  case False
  then obtain slot space where s: "frame \<noteq> 0" "free_slot k = Some slot"
    "pr_space (processes k ! current k) = Some space" by auto
  obtain cs m where c: "clone_user space (mach k) = (cs, m)" by fastforce
  have root: "own (root_physical space) = Some (root_physical space, [])"
    using current_root(1) [OF ok] s(3) by (simp add: current_process_def)
  obtain own' where o: "\<And>r. confined r own (mach k) own' m"
    "\<And>c. cs = Some c \<Longrightarrow> own (root_physical c) = None \<and> own' (root_physical c) = Some (root_physical c, [])"
    using clone_user_confined [OF memory_okD(1) [OF ok(1)] root c] by blast
  show ?thesis
  proof (cases cs)
    case None
    then have "mach k' = m" "processes k' = processes k"
      using op s c by (auto simp: fork_current_def Let_def fail_call_def)
    then show ?thesis by (intro safe_step_confined [OF ok(1), of own']) (simp_all add: o(1))
  next
    case (Some child)
    let ?p = "forked_process (processes k ! current k) (next_pid k) (top_of_slot k slot) child (fninit (live_fpu k))"
    have k': "mach k' = m" "processes k' = (processes k)[slot := ?p]" "pr_space ?p = Some child"
      using op s c Some by (auto simp: fork_current_def Let_def forked_process_def)
    have "\<And>r. confined r own (mach k) own' (mach k')" using o(1) k'(1) by simp
    then show ?thesis using safe_step_new [OF ok(1) _ _ _ k'(2,3)] o(2) [OF Some] by blast
  qed
qed

lemma load_elf_at_confined:
  assumes ok: "spaces_ok own (mach k)" and op: "load_elf_at fninit img pid args env disk name frame k = (res, k1)"
  shows "\<exists>own'. (\<forall>r. confined r own (mach k) own' (mach k1)) \<and> (\<forall>p. res = Inr p \<longrightarrow> (\<exists>s. pr_space p = Some s \<and>
    own (root_physical s) = None \<and> own' (root_physical s) = Some (root_physical s, [])))"
proof -
  obtain r m where l: "load_program img args env (mach k) = (r, m)" by fastforce
  have "mach k1 = m" "\<And>p. res = Inr p \<Longrightarrow> \<exists>prog. r = Inr prog \<and> pr_space p = Some (prog_space prog)"
    using op l by (cases r; auto simp: load_elf_at_def Let_def)+
  then show ?thesis using load_program_confined [OF ok l] by fastforce
qed

lemma safe_step_spawn:
  assumes ok: "memory_ok own k" "kernel_ok k" "running k"
    and op: "spawn_current_with_io fninit fs path args env io frame k = (Resume r, k')"
  shows "safe_step own k k'"
proof (cases "has_access fs path 1 k = Some True \<and> fv_read fs path \<noteq> None \<and> free_slot k \<noteq> None")
  case False
  then have "\<exists>n. fail_call frame n k = (Resume r, k')"
    using op unfolding spawn_current_with_io_def
    by (cases "has_access fs path 1 k"; cases "fv_read fs path"; cases "free_slot k")
      (auto split: bool.splits)
  then show ?thesis using safe_step_fail [OF ok(1)] by blast
next
  case True
  then obtain img slot where h: "has_access fs path 1 k = Some True" "fv_read fs path = Some img"
    "free_slot k = Some slot" by auto
  obtain res k1 where l: "load_elf fninit img (next_pid k) slot args env (path = installer_path) path k = (res, k1)"
    by fastforce
  then obtain m tf fp where k1: "k1 = k\<lparr>mach := m, trap_frames := tf, live_fpu := fp\<rparr>"
    using load_elf_at_frame(1) unfolding load_elf_def by blast
  obtain own' where o: "\<And>r. confined r own (mach k) own' (mach k1)" "\<And>p. res = Inr p \<Longrightarrow> \<exists>s. pr_space p = Some s \<and>
    own (root_physical s) = None \<and> own' (root_physical s) = Some (root_physical s, [])"
    using load_elf_at_confined [OF memory_okD(1) [OF ok(1)] l [unfolded load_elf_def]] by blast
  show ?thesis
  proof (cases res)
    case (Inl e)
    then have "fail_call frame 8 k1 = (Resume r, k')" using op h l by (simp add: spawn_current_with_io_def)
    then have "mach k' = mach k1" "processes k' = processes k" by (auto simp: fail_call_def k1)
    then show ?thesis by (intro safe_step_confined [OF ok(1), of own']) (simp_all add: o(1))
  next
    case (Inr p)
    then obtain s where s: "pr_space p = Some s" "own (root_physical s) = None" "own' (root_physical s) = Some (root_physical s, [])"
      using o(2) by blast
    obtain child ps where io: "apply_spawn_io io (tables k ! current k) (new_table, pipes k) = (child, ps)"
      by fastforce
    let ?p = "inherit_identity (processes k ! current k) (p\<lparr>pr_parent := pr_pid (processes k ! current k)\<rparr>)"
    let ?k2 = "set_rax frame (word_of_nat (next_pid k)) (k1\<lparr>tables := (tables k1)[slot := child], pipes := ps,
      processes := (processes k1)[slot := ?p], slot_count := max (slot_count k) (slot + 1)\<rparr>)"
    have sched: "schedule frame False ?k2 = (Resume r, k')"
      using op h l Inr io by (simp add: spawn_current_with_io_def Let_def k1)
    have k2: "mach ?k2 = mach k1" "processes ?k2 = (processes k)[slot := ?p]" "pr_space ?p = Some s"
      using s(1) by (simp_all add: k1 inherit_identity_def)
    have "\<And>r. confined r own (mach k) own' (mach ?k2)" unfolding k2(1) by (rule o(1))
    from memory_ok_new [OF ok(1) this s(2,3) k2(2,3)] have ok2: "memory_ok own' ?k2" .
    have "current ?k2 < max_processes" using kernel_okD(1) [OF ok(2)] by (simp add: shaped_def k1)
    from mem_schedule [OF ok2 this sched] obtain own2
      where m: "mem_step (space_root (current_process k)) own' ?k2 own2 k'" by blast
    have "confined (space_root (current_process k)) own (mach k) own2 (mach k')"
      using confined_trans [OF o(1)] m k2(1) by (simp add: mem_step_def)
    then show ?thesis using memory_ok_step [OF ok2 m] unfolding safe_step_def by blast
  qed
qed

lemma safe_step_execve:
  assumes ok: "memory_ok own k" and op: "execve_current fninit fs path args env frame k = (Resume r, k')"
  shows "safe_step own k k'"
proof (cases "has_access fs path 1 k = Some True \<and> fv_read fs path \<noteq> None \<and> execve_frame_scratch k (current k) \<noteq> None")
  case False
  then have "\<exists>n. fail_call frame n k = (Resume r, k')"
    using op unfolding execve_current_def
    by (cases "has_access fs path 1 k"; cases "fv_read fs path"; cases "execve_frame_scratch k (current k)")
      (auto split: bool.splits)
  then show ?thesis using safe_step_fail [OF ok] by blast
next
  case True
  then obtain img scratch where h: "has_access fs path 1 k = Some True" "fv_read fs path = Some img"
    "execve_frame_scratch k (current k) = Some scratch" by auto
  obtain res k1 where l: "load_elf_at fninit img (pr_pid (processes k ! current k)) args env
      (path = installer_path) path scratch k = (res, k1)" by fastforce
  then obtain m tf fp where k1: "k1 = k\<lparr>mach := m, trap_frames := tf, live_fpu := fp\<rparr>"
    using load_elf_at_frame(1) by blast
  obtain own' where o: "\<And>r. confined r own (mach k) own' (mach k1)" "\<And>p. res = Inr p \<Longrightarrow> \<exists>s. pr_space p = Some s \<and>
    own (root_physical s) = None \<and> own' (root_physical s) = Some (root_physical s, [])"
    using load_elf_at_confined [OF memory_okD(1) [OF ok] l] by blast
  show ?thesis
  proof (cases res)
    case (Inl e)
    then have "fail_call frame 8 k1 = (Resume r, k')" using op h l by (simp add: execve_current_def)
    then have "mach k' = mach k1" "processes k' = processes k" by (auto simp: fail_call_def k1)
    then show ?thesis by (intro safe_step_confined [OF ok, of own']) (simp_all add: o(1))
  next
    case (Inr q)
    then obtain s where s: "pr_space q = Some s" "own (root_physical s) = None" "own' (root_physical s) = Some (root_physical s, [])"
      using o(2) by blast
    obtain q' where k': "processes k' = (processes k)[current k := q']" "pr_space q' = Some s" "mach k' = switch_space s (mach k1)"
      using op h l Inr s(1) by (auto simp: execve_current_def Let_def k1 inherit_identity_def)
    have c: "\<And>r. confined r own (mach k) own' (mach k')"
      using confined_trans [OF o(1) confined_switch [OF confined_ok [OF o(1)] s(3)]] by (simp add: k'(3))
    from safe_step_new [OF ok c s(2,3) k'(1,2)] show ?thesis .
  qed
qed

section \<open>Steps and runs\<close>

lemma safe_step_set_frame: "memory_ok own k \<Longrightarrow> safe_step own k k1 \<Longrightarrow> safe_step own k (set_frame a tf k1)"
  unfolding safe_step_def memory_ok_def by (simp add: set_frame_def)

lemma safe_step_refl: "memory_ok own k \<Longrightarrow> safe_step own k k"
  using safe_step_quiet [OF _ refl same_spaces_eq [OF refl]] .

lemma safe_step_signal:
  assumes ok: "memory_ok own k" and op: "send_signal pid sig k = (r, k')"
  shows "safe_step own k k'"
proof -
  have "safe_step own k (update_process slot (\<lambda>p. let p = p\<lparr>pr_pending := pr_pending p OR signal_bit sig\<rparr>
               in if sig = signal_cont \<or> sig = signal_kill then p\<lparr>pr_stopped := False\<rparr> else p) k)" for slot
    by (rule safe_step_update [OF ok]) (simp_all add: Let_def idle_def split: if_splits)
  then show ?thesis
    using op safe_step_refl [OF ok] unfolding send_signal_def
    by (auto simp: Let_def split: if_split_asm option.split_asm)
qed

lemma safe_step_action:
  assumes ok: "memory_ok own k" and op: "set_signal_action sig handler restorer k = (r, k')"
  shows "safe_step own k k'"
proof -
  have "safe_step own k (update_process (current k) (\<lambda>p. let p = p\<lparr>pr_actions := (pr_actions p)[unat sig := handler]\<rparr>
            in if signal_ignore < handler then p\<lparr>pr_restorer := restorer\<rparr> else p) k)"
    by (rule safe_step_update [OF ok]) (simp_all add: Let_def idle_def split: if_splits)
  then show ?thesis
    using op safe_step_refl [OF ok] unfolding set_signal_action_def
    by (auto simp: Let_def split: if_split_asm option.split_asm)
qed

lemma kernel_step_memory:
  assumes "kernel_step fninit k k'" "kernel_ok k" "running k" "memory_ok own k"
  shows "safe_step own k k'"
proof -
  note ok = assms(4,2,3)
  have cur: "current k < max_processes" using kernel_okD(1) [OF assms(2)] by (simp add: shaped_def)
  have refl_step: "mem_step r own k own k" for r
    by (rule mem_step_quiet [OF memory_okD(1) [OF ok(1)] refl same_spaces_eq [OF refl]])
  have quiet: ?thesis if "mach k' = mach k" "processes k' = processes k"
    using safe_step_quiet [OF ok(1) that(1)] same_spaces_eq [OF that(2)] by blast
  have sched: ?thesis if "schedule frame b k = (r, k')" for frame b r
    using safe_step_schedule [OF ok(1) refl_step cur that] .
  from assms(1) show ?thesis
  proof cases
    case (fork frame a)
    then show ?thesis using safe_step_fork [OF ok] by blast
  next
    case (spawn fs path args env io frame a)
    then show ?thesis using safe_step_spawn [OF ok] by blast
  next
    case (execve fs path args env frame a)
    then show ?thesis using safe_step_execve [OF ok(1)] by blast
  next
    case (waitpid frame pid ptr options a)
    then show ?thesis using safe_step_waitpid [OF ok] by blast
  next
    case (yield frame a)
    then show ?thesis using sched unfolding yield_current_def by blast
  next
    case (exit frame status a)
    let ?k = "update_process (current k) (\<lambda>p. p\<lparr>pr_exit_status := status\<rparr>) k"
    have "mem_step (space_root (current_process k)) own k own ?k"
      by (rule mem_step_update [OF memory_okD(1) [OF ok(1)]]) (simp_all add: idle_def)
    from safe_step_schedule [OF ok(1) this] show ?thesis using exit cur unfolding exit_current_def by simp
  next
    case (fault a)
    then show ?thesis using sched by (auto simp: terminate_faulting_process_def Let_def split: if_splits)
  next
    case (timer frame a)
    then show ?thesis using safe_step_timer [OF ok(1) cur] by blast
  next
    case (deliver frame a)
    then show ?thesis
      using mem_step_deliver [OF ok] safe_step_mem [OF ok(1)] safe_step_mem [OF ok(1) refl_step]
      by (fastforce simp: deliver_pending_signal_def split: if_splits)
  next
    case (signal pid sig r)
    then show ?thesis using safe_step_signal [OF ok(1)] by blast
  next
    case (action sig handler restorer r)
    then show ?thesis using safe_step_action [OF ok(1)] by blast
  next
    case (sigreturn frame ok2)
    have "safe_step own k (update_process (current k) (\<lambda>p. p\<lparr>pr_signal_frame := None\<rparr>) k)"
      by (rule safe_step_update [OF ok(1)]) (simp_all add: idle_def)
    note a = safe_step_set_frame [OF ok(1) this]
    from sigreturn show ?thesis
      using a safe_step_refl [OF ok(1)] unfolding restore_signal_context_def by (simp split: option.split_asm) auto
  next
    case (pipe frame a)
    then show ?thesis using safe_step_sys_pipe [OF ok] by blast
  next
    case (close fd r)
    then show ?thesis using quiet mach_descriptor_calls(1) [of fd k] processes_descriptor_calls(1) [of fd k] by simp
  next
    case (dup fd r)
    then show ?thesis using quiet mach_descriptor_calls(4) [of fd k] processes_descriptor_calls(4) [of fd k] by simp
  next
    case (dup2 fd target r)
    then show ?thesis using quiet mach_descriptor_calls(5) [of fd target k] processes_descriptor_calls(5) [of fd target k] by simp
  next
    case (open_file path flags offset r)
    then show ?thesis
      using quiet mach_descriptor_calls(2) [of "file_descriptor path flags offset" k]
        processes_descriptor_calls(2) [of "file_descriptor path flags offset" k] by simp
  next
    case (seek fd d d' r)
    then show ?thesis using quiet mach_descriptor_calls(3) [of fd d' k] processes_descriptor_calls(3) [of fd d' k] by simp
  next
    case (heap increment r)
    then show ?thesis using safe_step_heap [OF ok] by blast
  next
    case (store address bytes r)
    then show ?thesis using mem_step_copy [OF ok] safe_step_mem [OF ok(1)] by blast
  next
    case (login users_db username password target r)
    have "safe_step own k (become a b c d e k)" for a b c d e
      unfolding become_def by (rule safe_step_update [OF ok(1)]) (simp_all add: idle_def)
    then show ?thesis
      using login safe_step_mem [OF ok(1) refl_step] by (auto simp: authenticate_current_def Let_def split: if_splits option.splits)
  next
    case save_fpu
    have "safe_step own k (update_process (current k) (\<lambda>p. p\<lparr>pr_fpu := live_fpu k\<rparr>) k)"
      by (rule safe_step_update [OF ok(1)]) (simp_all add: idle_def)
    then show ?thesis using save_fpu by (simp add: save_current_fpu_def)
  next
    case (restore_fpu frame)
    then show ?thesis by (intro quiet) (simp_all add: restore_fpu_for_def)
  qed (use quiet in simp_all)
qed

text \<open>
  The calls of the surface registry, and the steps of the whole kernel: \<open>memory_step\<close> says of a
  step whether it is one of the three display calls that map shared memory.
\<close>

inductive registry_call :: "kernel \<Rightarrow> kernel \<Rightarrow> bool" where
  present: "sys_surface_present frame k = (Resume a, k') \<Longrightarrow> registry_call k k'"
| flush: "sys_surface_flush frame k = (Resume a, k') \<Longrightarrow> registry_call k k'"
| destroy: "sys_surface_destroy frame k = (Resume a, k') \<Longrightarrow> registry_call k k'"
| poll: "sys_surface_poll frame k = (Resume a, k') \<Longrightarrow> registry_call k k'"
| send: "sys_surface_send_event frame k = (Resume a, k') \<Longrightarrow> registry_call k k'"

inductive memory_step :: "cpu \<Rightarrow> bool \<Rightarrow> kernel \<Rightarrow> kernel \<Rightarrow> bool" for fninit where
  basic: "kernel_step fninit k k' \<Longrightarrow> memory_step fninit False k k'"
| registry: "registry_call k k' \<Longrightarrow> memory_step fninit False k k'"
| fb_map: "sys_fb_map fb frame k = (Resume a, k') \<Longrightarrow> memory_step fninit True k k'"
| surface_create: "sys_surface_create frame k = (Resume a, k') \<Longrightarrow> memory_step fninit True k k'"
| surface_snapshot: "sys_surface_snapshot frame k = (Resume a, k') \<Longrightarrow> memory_step fninit True k k'"

text \<open>Runs from a kernel, with the marks of their steps, the latest first.\<close>

inductive memory_run :: "cpu \<Rightarrow> kernel \<Rightarrow> bool list \<Rightarrow> kernel \<Rightarrow> bool" for fninit k0 where
  start: "memory_run fninit k0 [] k0"
| step: "memory_run fninit k0 marks k \<Longrightarrow> memory_step fninit shared k k' \<Longrightarrow> memory_run fninit k0 (shared # marks) k'"

definition separated :: "kernel \<Rightarrow> bool" where
  "separated k \<longleftrightarrow> (\<exists>own. memory_ok own k)"

lemma same_references_registry:
  "same_references k (set_rax a v (k\<lparr>surface_state := s\<rparr>))" "same_references k (set_rax a v (k\<lparr>surface_state := s, mach := m\<rparr>))"
  by (simp_all add: same_references_def set_rax_def set_frame_def)

lemma same_references_lives: "same_references k k' \<Longrightarrow> kernel_ok k \<Longrightarrow> running k \<Longrightarrow> kernel_ok k' \<and> running k'"
  using same_references_kernel same_references_running kernel_okD(1) by blast

lemma registry_call_cases:
  assumes "registry_call k k'"
  shows "\<exists>s a v. k' = set_rax a v (k\<lparr>surface_state := s\<rparr>) \<or>
    (\<exists>b bs r k1. copy_to_current_user b bs (k\<lparr>surface_state := s\<rparr>) = (r, k1) \<and> k' = set_rax a v k1)"
  using assms
proof cases
  case (present frame a)
  then show ?thesis by (auto simp: sys_surface_present_def registry_result_def Let_def)
next
  case (flush frame a)
  then show ?thesis by (auto simp: sys_surface_flush_def registry_result_def)
next
  case (destroy frame a)
  then show ?thesis by (auto simp: sys_surface_destroy_def registry_result_def)
next
  case (poll frame a)
  then show ?thesis
    by (auto simp: sys_surface_poll_def give_bytes_def fail_call_def split: prod.splits option.splits bool.splits) blast+
next
  case (send frame a)
  have k: "k = k\<lparr>surface_state := surface_state k\<rparr>" by simp
  from send show ?thesis
    by (auto simp: sys_surface_send_event_def fail_call_def Let_def split: prod.splits option.splits bool.splits)
      (metis k)
qed

lemma registry_call_safe:
  assumes "registry_call k k'" and ok: "memory_ok own k" "kernel_ok k" "running k"
  shows "kernel_ok k' \<and> running k' \<and> safe_step own k k'"
proof -
  obtain s a v where c: "k' = set_rax a v (k\<lparr>surface_state := s\<rparr>) \<or>
    (\<exists>b bs r k1. copy_to_current_user b bs (k\<lparr>surface_state := s\<rparr>) = (r, k1) \<and> k' = set_rax a v k1)"
    using registry_call_cases [OF assms(1)] by blast
  let ?k = "k\<lparr>surface_state := s\<rparr>"
  have same: "same_references k ?k" by (simp add: same_references_def)
  have k: "memory_ok own ?k" "kernel_ok ?k" "running ?k"
    using ok same_references_lives [OF same] by (simp_all add: memory_ok_def)
  have here: "space_root (current_process ?k) = space_root (current_process k)" by (simp add: current_process_def)
  have quiet: "mem_step r own k own ?k" for r
    by (rule mem_step_quiet [OF memory_okD(1) [OF ok(1)]]) (simp_all add: same_spaces_eq)
  from c show ?thesis
  proof (elim disjE exE conjE)
    assume k': "k' = set_rax a v ?k"
    have "mem_step r own k own k'" for r unfolding k' by (rule mem_step_rax [OF quiet])
    from safe_step_mem [OF ok(1) this] show ?thesis
      using same_references_lives [OF same_references_registry(1) ok(2,3)] unfolding k' by simp
  next
    fix b bs r k1 assume op: "copy_to_current_user b bs ?k = (r, k1)" and k': "k' = set_rax a v k1"
    obtain own' where m: "mem_step (space_root (current_process k)) own ?k own' k1"
      using mem_step_copy [OF k op] unfolding here by blast
    have "safe_step own k k'"
      unfolding k' by (rule safe_step_mem [OF ok(1) mem_step_rax [OF mem_step_trans [OF quiet m]]])
    moreover obtain mm where "k1 = ?k\<lparr>mach := mm\<rparr>" using copy_keeps [OF op] by blast
    then have "same_references k k'" unfolding k' by (simp only: same_references_registry(2))
    from same_references_lives [OF this ok(2,3)] have "kernel_ok k' \<and> running k'" .
    ultimately show ?thesis by simp
  qed
qed

lemma memory_step_safe:
  assumes "memory_step fninit False k k'" "memory_ok own k" "kernel_ok k" "running k"
  shows "kernel_ok k' \<and> running k' \<and> safe_step own k k'"
  using assms(1)
proof cases
  case basic
  then show ?thesis using kernel_step_ok kernel_step_memory assms(2-4) by blast
next
  case registry
  then show ?thesis using registry_call_safe assms(2-4) by blast
qed simp_all

lemma separated_run:
  assumes "memory_run fninit k0 marks k" "True \<notin> set marks" "booted k0" "separated k0"
  shows "kernel_ok k \<and> running k \<and> separated k"
  using assms
proof (induction rule: memory_run.induct)
  case start
  then show ?case using booted_ok by blast
next
  case (step marks k shared k')
  then have ok: "kernel_ok k" "running k" "separated k" and s: "memory_step fninit False k k'" by auto
  obtain own where "memory_ok own k" using ok(3) unfolding separated_def by blast
  from memory_step_safe [OF s this ok(1,2)] show ?case unfolding safe_step_def separated_def by blast
qed

text \<open>Before the first process exists the only frame in use is the boot loader's root table.\<close>

lemma separated_boot:
  assumes own: "spaces_ok own (mach k0)" and init: "init_processes fninit [(img, 1)] k0 = (Inr (), k1)"
    and start: "start_processes k1 = (Resume a, k)"
  shows "separated k"
proof -
  let ?b = "booting k0"
  have take1: "take max_processes [x] = [x]" for x :: "u8 list \<times> nat" by (simp add: max_processes_def)
  obtain res kl where l: "load_elf fninit img 1 0 [init_path] [] False init_path ?b = (res, kl)" by fastforce
  obtain p where res: "res = Inr p"
    using init l by (cases res) (auto simp: init_processes_def Let_def take1 booting_def)
  obtain m tf fp where kl: "kl = ?b\<lparr>mach := m, trap_frames := tf, live_fpu := fp\<rparr>"
    using load_elf_at_frame(1) l unfolding load_elf_def by blast
  have b: "mach ?b = mach k0" "processes ?b = replicate max_processes empty_process" by (simp_all add: booting_def)
  have ok: "memory_ok own ?b" using own by (simp add: memory_ok_def b idle_def empty_process_def)
  obtain own' s where o: "\<And>r. confined r own (mach ?b) own' (mach kl)" "pr_space p = Some s"
    "own (root_physical s) = None" "own' (root_physical s) = Some (root_physical s, [])"
    using load_elf_at_confined [OF memory_okD(1) [OF ok] l [unfolded load_elf_def]] res by blast
  have k1: "k1 = kl\<lparr>processes := (processes kl)[0 := p], slot_count := 1\<rparr>"
    using init l res by (auto simp: init_processes_def Let_def take1 booting_def kl)
  have "current k1 = 0" "processes k1 ! 0 = p" by (simp_all add: k1 kl booting_def max_processes_def)
  then have k: "k = k1\<lparr>current := 0, kernel_stack := stack_top (k1\<lparr>current := 0\<rparr>) 0, mach := switch_space s (mach k1)\<rparr>"
    using start o(2) by (auto simp: start_processes_def Let_def split: option.splits)
  have k': "mach k = switch_space s (mach kl)" "processes k = (processes ?b)[0 := p]" by (simp_all add: k k1 kl)
  have c: "\<And>r. confined r own (mach ?b) own' (mach k)"
    unfolding k'(1) by (rule confined_trans [OF o(1) confined_switch [OF confined_ok [OF o(1)] o(4)]])
  from memory_ok_new [OF ok c o(3,4) k'(2) o(2)] show ?thesis unfolding separated_def by blast
qed

section \<open>Isolation of memory\<close>

lemma live_root:
  assumes "memory_ok own k" "slot < max_processes" "\<not> idle (processes k ! slot)"
    "pr_space (processes k ! slot) = Some s"
  shows "own (root_physical s) = Some (root_physical s, [])" "space_root (processes k ! slot) = root_physical s"
  using assms by (auto simp: memory_ok_def space_root_def)

lemma live_roots_differ:
  assumes ok: "memory_ok own k" and i: "i < max_processes" "\<not> idle (processes k ! i)" "pr_space (processes k ! i) = Some s"
    and j: "j < max_processes" "\<not> idle (processes k ! j)" "pr_space (processes k ! j) = Some t" and "i \<noteq> j"
  shows "root_physical s \<noteq> root_physical t"
proof
  assume "root_physical s = root_physical t"
  then have "space_root (processes k ! i) = space_root (processes k ! j)"
    using live_root(2) [OF ok i] live_root(2) [OF ok j] by simp
  then show False using ok i j \<open>i \<noteq> j\<close> unfolding memory_ok_def by blast
qed

lemma translations_apart:
  assumes ok: "spaces_ok own m" and s: "own (root_physical s) = Some (root_physical s, [])"
    and t: "own (root_physical t) = Some (root_physical t, [])" and "root_physical s \<noteq> root_physical t"
    and p: "translate m s va = Some p" and q: "translate m t vb = Some p"
  shows False
proof -
  obtain f where f: "own f = Some (root_physical s, table_indices va)" "p = virt m f + word_of_nat (unat va mod 4096)"
    using translate_owned [OF ok s p] by blast
  obtain g where g: "own g = Some (root_physical t, table_indices vb)" "p = virt m g + word_of_nat (unat vb mod 4096)"
    using translate_owned [OF ok t q] by blast
  have "f \<noteq> g" using f(1) g(1) assms(4) by auto
  moreover have "p \<in> page_bytes m f" unfolding f(2) by (rule in_page) simp
  moreover have "p \<in> page_bytes m g" unfolding g(2) by (rule in_page) simp
  ultimately show False using pages_disjoint spaces_okD(4) [OF ok f(1)] spaces_okD(4) [OF ok g(1)] by blast
qed

lemma step_leaves_space:
  assumes ok: "memory_ok own k" "kernel_ok k" "running k" and step: "memory_step fninit False k k'"
    and slot: "slot < max_processes" "\<not> idle (processes k ! slot)" "pr_space (processes k ! slot) = Some s"
    and other: "slot \<noteq> current k"
  shows "translate (mach k') s va = translate (mach k) s va"
    and "translate (mach k) s va = Some p \<Longrightarrow> ram (mach k') p = ram (mach k) p"
proof -
  let ?r = "space_root (current_process k)"
  have cur: "current k < max_processes" using kernel_okD(1) [OF ok(2)] by (simp add: shaped_def)
  have alive: "\<not> idle (processes k ! current k)" using ok(3) by (simp add: running_def current_process_def)
  obtain t where t: "pr_space (processes k ! current k) = Some t" using ok(1) cur alive unfolding memory_ok_def by blast
  have r: "?r = root_physical t" using live_root(2) [OF ok(1) cur alive t] by (simp add: current_process_def)
  note root = live_root(1) [OF ok(1) slot]
  have differ: "root_physical s \<noteq> ?r" unfolding r by (rule live_roots_differ [OF ok(1) slot cur alive t other])
  obtain own' where c: "confined ?r own (mach k) own' (mach k')"
    using memory_step_safe [OF step ok(1,2,3)] unfolding safe_step_def by blast
  have same: "ram (mach k') x = ram (mach k) x" if "own g = Some (root_physical s, q)" "x \<in> page_bytes (mach k) g" for g q x
    using c differ that unfolding confined_def by blast
  have sp: "spaces_ok own (mach k)" by (rule memory_okD(1) [OF ok(1)])
  show "translate (mach k') s va = translate (mach k) s va"
    by (rule translate_cong [OF sp root same]) (use c in \<open>simp_all add: confined_def\<close>)
  show "ram (mach k') p = ram (mach k) p" if p: "translate (mach k) s va = Some p"
  proof -
    obtain f where f: "own f = Some (root_physical s, table_indices va)"
      "p = virt (mach k) f + word_of_nat (unat va mod 4096)" using translate_owned [OF sp root p] by blast
    show ?thesis by (rule same [OF f(1)]) (unfold f(2), rule in_page, simp)
  qed
qed

text \<open>
  C2. Memory of processes that do not use the display's shared memory is isolated. Take a run
  from a booted kernel whose address spaces are apart in which no step maps the framebuffer
  (\<open>SYS_FB_MAP\<close>), creates a surface (\<open>SYS_SURFACE_CREATE\<close>) or takes a snapshot of the surfaces
  (\<open>SYS_SURFACE_SNAPSHOT\<close>): these three calls put shared pages into a process, and every other
  call of the model, a fault, the timer, the delivery of a signal, a fork and a program loaded in a
  fresh space are steps the run may make. Then such a step of the running process neither changes
  what another live process has mapped nor a byte it can reach, and no byte is reachable from two
  live processes.
\<close>

theorem memory_isolation:
  assumes "booted k0" "separated k0" "memory_run fninit k0 marks k" and step: "memory_step fninit shared k k'"
    and unshared: "\<not> shared" "True \<notin> set marks"
    and slot: "slot < max_processes" "\<not> idle (processes k ! slot)" "pr_space (processes k ! slot) = Some s"
    and other: "slot \<noteq> current k"
  shows "translate (mach k') s va = translate (mach k) s va \<and>
    (\<forall>p. translate (mach k) s va = Some p \<longrightarrow> ram (mach k') p = ram (mach k) p \<and>
      (\<forall>j t vb. j < max_processes \<longrightarrow> j \<noteq> slot \<longrightarrow> \<not> idle (processes k ! j) \<longrightarrow> pr_space (processes k ! j) = Some t \<longrightarrow>
         translate (mach k) t vb \<noteq> Some p))"
proof -
  have run: "kernel_ok k" "running k" "separated k" using separated_run [OF assms(3) unshared(2) assms(1,2)] by blast+
  obtain own where ok: "memory_ok own k" using run(3) unfolding separated_def by blast
  have "memory_step fninit False k k'" using step unshared(1) by simp
  note leaves = step_leaves_space [OF ok run(1,2) this slot other]
  have "translate (mach k) t vb \<noteq> Some p"
    if "translate (mach k) s va = Some p" "j < max_processes" "j \<noteq> slot" "\<not> idle (processes k ! j)" "pr_space (processes k ! j) = Some t"
    for p j t vb
  proof
    assume q: "translate (mach k) t vb = Some p"
    have "root_physical s \<noteq> root_physical t" using live_roots_differ [OF ok slot that(2,4,5)] that(3) by blast
    from translations_apart [OF memory_okD(1) [OF ok] live_root(1) [OF ok slot] live_root(1) [OF ok that(2,4,5)] this that(1) q]
    show False .
  qed
  then show ?thesis using leaves by blast
qed

section \<open>Example\<close>

text \<open>
  Two processes of root on a machine with two chains of tables, from the root at 0x1000 to the
  page at 0x5000 and from the root at 0x6000 to the page at 0xa000.
\<close>

definition chained :: "nat \<Rightarrow> bool" where
  "chained n \<longleftrightarrow> n \<in> {1, 2, 3, 4, 6, 7, 8, 9}"

definition chain_ram :: "u64 \<Rightarrow> u8" where
  "chain_ram a = (let n = unat a div 4096; i = unat a mod 4096
     in if \<not> chained n then 0 else if i = 0 then 7 else if i = 1 then word_of_nat (16 * (n + 1)) else 0)"

definition chain_machine :: machine where
  "chain_machine = \<lparr>allocator = fresh_allocator 0, ram = chain_ram, cr3 = 0x1000\<rparr>"

definition chain_own :: owners where
  "chain_own = map_of [(0x1000, 0x1000, []), (0x2000, 0x1000, [0]), (0x3000, 0x1000, [0, 0]), (0x4000, 0x1000, [0, 0, 0]),
     (0x5000, 0x1000, [0, 0, 0, 0]), (0x6000, 0x6000, []), (0x7000, 0x6000, [0]), (0x8000, 0x6000, [0, 0]),
     (0x9000, 0x6000, [0, 0, 0]), (0xa000, 0x6000, [0, 0, 0, 0])]"

definition chain_kernel :: kernel where
  "chain_kernel = sample_kernel\<lparr>mach := chain_machine, processes :=
     sample_process # sample_process\<lparr>pr_pid := 2, pr_space := Some \<lparr>root_physical = 0x6000\<rparr>\<rparr> # replicate 14 empty_process\<rparr>"

lemma chain_frame:
  assumes "chain_own f = Some (r, path)"
  shows "frame_ok chain_machine f" "length path \<le> 4" "chain_own r = Some (r, [])"
  using map_of_SomeD [OF assms [unfolded chain_own_def]]
  by (auto simp: frame_ok_def chain_machine_def fresh_allocator_def page_aligned_def align_down_def page_size_def
    address_mask_def chain_own_def)

lemma chain_entry_zero:
  "entry chain_machine 0x1000 0 = 0x2007" "entry chain_machine 0x2000 0 = 0x3007" "entry chain_machine 0x3000 0 = 0x4007"
  "entry chain_machine 0x4000 0 = 0x5007" "entry chain_machine 0x6000 0 = 0x7007" "entry chain_machine 0x7000 0 = 0x8007"
  "entry chain_machine 0x8000 0 = 0x9007" "entry chain_machine 0x9000 0 = 0xa007"
  by (simp_all add: entry_def load_entry_def load_u64_def load_bytes_def entry_pointer_def chain_machine_def virt_def
    fresh_allocator_def chain_ram_def chained_def upt_rec [of _ 8] upt_rec Let_def)

lemma chain_entry:
  assumes f: "frame_ok chain_machine f" and i: "0 < i" "i < 512"
  shows "entry chain_machine f i = 0"
proof -
  have "chain_ram (virt chain_machine f + word_of_nat (8 * i + j)) = 0" if j: "j < 8" for j
  proof -
    have u: "unat (virt chain_machine f + word_of_nat (8 * i + j)) = unat f + (8 * i + j)"
      using unat_virt [OF f, of "8 * i + j"] i j by (simp add: chain_machine_def fresh_allocator_def)
    obtain n where "unat f = 4096 * n" using f by (auto simp: frame_ok_def page_aligned_iff elim!: dvdE)
    then have "unat (virt chain_machine f + word_of_nat (8 * i + j)) mod 4096 = 8 * i + j" using u i j by simp
    moreover have "8 * i + j \<noteq> 0" "8 * i + j \<noteq> 1" using i by presburger+
    ultimately show ?thesis by (simp only: chain_ram_def Let_def if_False) simp
  qed
  then have "load_bytes chain_machine (entry_pointer (virt chain_machine f) i) 8 = replicate 8 0"
    by (simp add: load_bytes_def entry_pointer_def chain_machine_def add.assoc list_eq_iff_nth_eq del: of_nat_add)
      (simp add: add.assoc)
  then show ?thesis by (simp add: entry_def load_entry_def load_u64_def from_le_zeros)
qed

lemma chain_spaces_ok: "spaces_ok chain_own chain_machine"
proof -
  have al: "allocator_ok (allocator chain_machine)" "free_pages (allocator chain_machine) = {}"
    "page_aligned (hhdm_offset (allocator chain_machine))"
    by (simp_all add: allocator_ok_def free_pages_def chain_machine_def fresh_allocator_def max_regions_def page_aligned_def align_down_def)
  have half: "kernel_half chain_machine f" if "frame_ok chain_machine f" for f
    using chain_entry [OF that] by (simp add: kernel_half_def present_def entry_present_def)
  have links: "entry chain_machine f i AND entry_user \<noteq> 0 \<and> chain_own (entry chain_machine f i AND address_mask) = Some (r, path @ [i])"
    if o: "chain_own f = Some (r, path)" and l: "length path < 4" and p: "present (entry chain_machine f i)" and u: "user_index path i"
    for f r path i
  proof -
    have "i = 0" using chain_entry [OF chain_frame(1) [OF o], of i] p u
      by (cases "i = 0") (auto simp: present_def entry_present_def user_index_def)
    moreover have "entry chain_machine f 0 AND entry_user \<noteq> 0 \<and> chain_own (entry chain_machine f 0 AND address_mask) = Some (r, path @ [0])"
      using map_of_SomeD [OF o [unfolded chain_own_def]] l
      by (auto simp: chain_entry_zero entry_user_def address_mask_def chain_own_def)
    ultimately show ?thesis by simp
  qed
  have root: "chain_own (cr3 chain_machine AND address_mask) = Some (0x1000, [])"
    by (simp add: chain_machine_def address_mask_def chain_own_def)
  have frames: "frame_ok chain_machine f \<and> f \<notin> {} \<and> length path \<le> 5 \<and> chain_own r \<noteq> None"
    if "chain_own f = Some (r, path)" for f r path using chain_frame [OF that] by simp
  have top: "kernel_half chain_machine f" if "chain_own f = Some (r, [])" for f r by (rule half [OF chain_frame(1) [OF that]])
  show ?thesis
    unfolding spaces_ok_def al(2)
  proof (intro conjI)
    show "\<exists>r path. chain_own (cr3 chain_machine AND address_mask) = Some (r, path) \<and> path \<in> {[], reserved_path} \<and>
        kernel_half chain_machine (cr3 chain_machine AND address_mask)"
      using root top [OF root] by blast
    show "\<forall>f r path i. chain_own f = Some (r, path) \<longrightarrow> length path < 4 \<longrightarrow> user_index path i \<longrightarrow> present (entry chain_machine f i) \<longrightarrow>
        entry chain_machine f i AND entry_user \<noteq> 0 \<and> chain_own (entry chain_machine f i AND address_mask) = Some (r, path @ [i])"
      using links by blast
    show "\<forall>f r path. chain_own f = Some (r, path) \<longrightarrow> frame_ok chain_machine f \<and> f \<notin> {} \<and> length path \<le> 5 \<and> chain_own r \<noteq> None"
      using frames by blast
    show "\<forall>f r. chain_own f = Some (r, []) \<longrightarrow> kernel_half chain_machine f" using top by blast
  qed (use al in simp_all)
qed

lemma chain_kernel_start: "booted chain_kernel" "separated chain_kernel"
proof -
  have "unique_pids (processes chain_kernel)"
    by (auto simp: unique_pids_def chain_kernel_def nth_Cons' empty_process_def sample_process_def split: if_splits)
  then show "booted chain_kernel"
    using new_table_no_ends
    by (auto simp: booted_def shaped_def chain_kernel_def sample_kernel_def max_processes_def running_def current_process_def
      idle_def sample_process_def empty_process_def)
  have "memory_ok chain_own chain_kernel"
    using chain_spaces_ok
    by (auto simp: memory_ok_def chain_kernel_def sample_kernel_def max_processes_def nth_Cons' idle_def space_root_def
      sample_process_def empty_process_def chain_own_def split: if_splits)
  then show "separated chain_kernel" unfolding separated_def by blast
qed

lemma chain_translate: "translate chain_machine \<lparr>root_physical = 0x6000\<rparr> 0 = Some 0xa000"
proof -
  have "table_indices 0 = [0, 0, 0, 0]" by (simp add: table_indices_def)
  moreover have "table_pointer chain_machine f = Some (virt chain_machine f)" if "frame_ok chain_machine f" for f
    by (rule table_pointer_frame [OF that])
  moreover have "frame_ok chain_machine 0x6000" "frame_ok chain_machine 0x7000" "frame_ok chain_machine 0x8000" "frame_ok chain_machine 0x9000"
    by (rule chain_frame(1), simp add: chain_own_def)+
  ultimately show ?thesis
    using chain_entry_zero(5-8) unfolding entry_def
    by (simp add: translate_def present_def entry_present_def entry_user_def address_mask_def phys_to_virt_def checked_add_def
      chain_machine_def fresh_allocator_def)
qed

theorem memory_isolation_witness:
  "\<exists>k'. memory_step id False chain_kernel k' \<and> current chain_kernel = 0 \<and> pr_active (processes chain_kernel ! 1) \<and>
     pr_space (processes chain_kernel ! 1) = Some \<lparr>root_physical = 0x6000\<rparr> \<and>
     translate (mach chain_kernel) \<lparr>root_physical = 0x6000\<rparr> 0 = Some 0xa000 \<and>
     translate (mach k') \<lparr>root_physical = 0x6000\<rparr> 0 = Some 0xa000 \<and> ram (mach k') 0xa000 = ram (mach chain_kernel) 0xa000"
proof -
  let ?s = "\<lparr>root_physical = 0x1000\<rparr>"
  let ?k = "snd (copy_to_current_user 0 [1, 2, 3] chain_kernel)"
  have "pr_space (current_process chain_kernel) = Some ?s"
    by (simp add: current_process_def chain_kernel_def sample_kernel_def sample_process_def)
  then obtain r where "copy_to_current_user 0 [1, 2, 3] chain_kernel = (Some r, ?k)"
    by (cases "copy_in_loop ?s 0 [1, 2, 3] 0 (mach chain_kernel)") (simp add: copy_to_current_user_def)
  then have step: "memory_step id False chain_kernel ?k" by (intro memory_step.basic kernel_step.store)
  have slot: "1 < max_processes" "\<not> idle (processes chain_kernel ! 1)"
    "pr_space (processes chain_kernel ! 1) = Some \<lparr>root_physical = 0x6000\<rparr>" "1 \<noteq> current chain_kernel"
    by (simp_all add: max_processes_def chain_kernel_def sample_kernel_def sample_process_def idle_def empty_process_def)
  have here: "mach chain_kernel = chain_machine" "current chain_kernel = 0" "pr_active (processes chain_kernel ! 1)"
    by (simp_all add: chain_kernel_def sample_kernel_def sample_process_def)
  show ?thesis
    using memory_isolation [OF chain_kernel_start memory_run.start step _ _ slot, of 0] chain_translate here step slot(3) by auto
qed

end
