(* ===== verification/Ustar_Archive.thy ===== *)
theory Ustar_Archive
  imports Rust_Str Dfs_Format
begin

text \<open>
  The USTAR archive of the initial root, \<open>Archive\<close> of \<open>kernel/src/fs/ramfs.rs\<close>: a byte list
  that each operation scans header by header. Offsets are \<open>usize\<close> with checked addition; a scan
  ends because every step moves the offset by a whole block inside the archive.
\<close>

section \<open>Headers\<close>

definition block_size :: nat where
  "block_size = 512"

definition header_field :: "u8 list \<Rightarrow> str" where
  "header_field bytes = takeWhile (\<lambda>byte. byte \<noteq> 0) bytes"

fun octal_loop :: "u8 list \<Rightarrow> nat \<Rightarrow> bool \<Rightarrow> nat option" where
  "octal_loop [] v found = (if found then Some v else None)"
| "octal_loop (byte # bytes) v found =
     (if byte = 0 \<or> byte = 32 then (if found then Some v else None)
      else if \<not> (48 \<le> byte \<and> byte \<le> 55) then None
      else (case usize_mul v 8 of
          None \<Rightarrow> None
        | Some v \<Rightarrow> (case usize_add v (unat (byte - 48)) of
            None \<Rightarrow> None
          | Some v \<Rightarrow> octal_loop bytes v True)))"

definition parse_octal :: "u8 list \<Rightarrow> nat option" where
  "parse_octal bytes = octal_loop (dropWhile (\<lambda>byte. byte = 32 \<or> byte = 0) bytes) 0 False"

definition header_at :: "u8 list \<Rightarrow> nat \<Rightarrow> u8 list" where
  "header_at bytes offset = slice offset (offset + block_size) bytes"

definition padded_size :: "nat \<Rightarrow> nat option" where
  "padded_size len = map_option (\<lambda>n. n div block_size * block_size) (usize_add len (block_size - 1))"

definition is_regular :: "u8 list \<Rightarrow> bool" where
  "is_regular header \<longleftrightarrow> header ! 156 = 0 \<or> header ! 156 = 48"

text \<open>The path of an entry, its prefix and name joined in a buffer of 256 bytes.\<close>

definition entry_path :: "u8 list \<Rightarrow> str option" where
  "entry_path header =
     (let name = header_field (take 100 header); pre = header_field (slice 345 500 header) in
      if pre = [] then Some name
      else if 256 < length pre + 1 + length name then None
      else Some (pre @ [slash] @ name))"

definition path_matches :: "u8 list \<Rightarrow> str \<Rightarrow> bool option" where
  "path_matches header wanted =
     (let name = header_field (take 100 header); pre = header_field (slice 345 500 header) in
      if pre = [] then Some (name = wanted)
      else if \<not> utf8_valid pre then None
      else Some (case strip_prefix pre wanted of
          None \<Rightarrow> False
        | Some suffix \<Rightarrow> (case strip_prefix [slash] suffix of None \<Rightarrow> False | Some rest \<Rightarrow> rest = name)))"

lemma padded_sizeD: "padded_size n = Some p \<Longrightarrow> n \<le> p"
proof -
  assume "padded_size n = Some p"
  then have "p = (n + 511) div 512 * 512" by (auto simp: padded_size_def block_size_def usize_add_Some_iff)
  moreover have "(n + 511) div 512 * 512 + (n + 511) mod 512 = n + 511" by (rule div_mult_mod_eq)
  moreover have "(n + 511) mod 512 < 512" by simp
  ultimately show "n \<le> p" by linarith
qed

section \<open>Scanning\<close>

function find_loop :: "u8 list \<Rightarrow> str \<Rightarrow> nat \<Rightarrow> u8 list option" where
  "find_loop bytes wanted offset = (case usize_add offset block_size of
     None \<Rightarrow> None
   | Some data_start \<Rightarrow>
       if length bytes < data_start then None
       else
         let header = header_at bytes offset in
         if list_all (\<lambda>byte. byte = 0) header then None
         else (case path_matches header wanted of
             None \<Rightarrow> None
           | Some wanted_here \<Rightarrow> (case parse_octal (slice 124 136 header) of
               None \<Rightarrow> None
             | Some len \<Rightarrow> (case usize_add data_start len of
                 None \<Rightarrow> None
               | Some data_end \<Rightarrow>
                   if length bytes < data_end then None
                   else if wanted_here \<and> is_regular header then Some (slice data_start data_end bytes)
                   else (case Option.bind (padded_size len) (usize_add data_start) of
                       None \<Rightarrow> None
                     | Some offset \<Rightarrow> find_loop bytes wanted offset)))))"
  by pat_completeness auto
termination
  by (relation "measure (\<lambda>(bytes, wanted, offset). length bytes - offset)")
    (auto simp: usize_add_Some_iff block_size_def split: Option.bind_splits)

definition archive_find :: "u8 list \<Rightarrow> str \<Rightarrow> u8 list option" where
  "archive_find bytes wanted = find_loop bytes (trim_start slash wanted) 0"

definition header_metadata :: "u8 list \<Rightarrow> nat \<Rightarrow> dfs_metadata" where
  "header_metadata header len =
     (let number = (\<lambda>a b otherwise. case parse_octal (slice a b header) of None \<Rightarrow> otherwise | Some n \<Rightarrow> n) in
      \<lparr>meta_size = word_of_nat len, meta_mode = word_of_nat (number 100 108 420),
       meta_uid = word_of_nat (number 108 116 0), meta_gid = word_of_nat (number 116 124 0),
       meta_is_directory = header ! 156 = 53\<rparr>)"

function metadata_loop :: "u8 list \<Rightarrow> str \<Rightarrow> nat \<Rightarrow> dfs_metadata option" where
  "metadata_loop bytes wanted offset = (case usize_add offset block_size of
     None \<Rightarrow> None
   | Some data_start \<Rightarrow>
       if length bytes < data_start then None
       else
         let header = header_at bytes offset in
         if list_all (\<lambda>byte. byte = 0) header then None
         else (case entry_path header of
             None \<Rightarrow> None
           | Some path \<Rightarrow>
               if trim_finish slash path = wanted then
                 map_option (header_metadata header) (parse_octal (slice 124 136 header))
               else (case parse_octal (slice 124 136 header) of
                   None \<Rightarrow> None
                 | Some len \<Rightarrow> (case Option.bind (padded_size len) (usize_add data_start) of
                     None \<Rightarrow> None
                   | Some offset \<Rightarrow> metadata_loop bytes wanted offset))))"
  by pat_completeness auto
termination
  by (relation "measure (\<lambda>(bytes, wanted, offset). length bytes - offset)")
    (auto simp: usize_add_Some_iff block_size_def split: Option.bind_splits)

definition archive_metadata :: "u8 list \<Rightarrow> str \<Rightarrow> dfs_metadata option" where
  "archive_metadata bytes wanted = metadata_loop bytes (trim_start slash wanted) 0"

definition ends_with :: "'a list \<Rightarrow> 'a list \<Rightarrow> bool" where
  "ends_with suffix xs \<longleftrightarrow> strip_prefix (rev suffix) (rev xs) \<noteq> None"

function find_font_loop :: "u8 list \<Rightarrow> nat \<Rightarrow> u8 list option" where
  "find_font_loop bytes offset = (case usize_add offset block_size of
     None \<Rightarrow> None
   | Some data_start \<Rightarrow>
       if length bytes < data_start then None
       else
         let header = header_at bytes offset in
         if list_all (\<lambda>byte. byte = 0) header then None
         else (case entry_path header of
             None \<Rightarrow> None
           | Some path \<Rightarrow>
               let in_font_directory = strip_prefix (ascii ''system/fonts/'') path \<noteq> None;
                   supported_font = ends_with (ascii ''.psf'') path \<or> ends_with (ascii ''.psf2'') path
               in (case parse_octal (slice 124 136 header) of
                   None \<Rightarrow> None
                 | Some len \<Rightarrow> (case usize_add data_start len of
                     None \<Rightarrow> None
                   | Some data_end \<Rightarrow>
                       if length bytes < data_end then None
                       else if in_font_directory \<and> supported_font \<and> is_regular header
                       then Some (slice data_start data_end bytes)
                       else (case Option.bind (padded_size len) (usize_add data_start) of
                           None \<Rightarrow> None
                         | Some offset \<Rightarrow> find_font_loop bytes offset)))))"
  by pat_completeness auto
termination
  by (relation "measure (\<lambda>(bytes, offset). length bytes - offset)")
    (auto simp: usize_add_Some_iff block_size_def split: Option.bind_splits)

definition archive_find_font :: "u8 list \<Rightarrow> u8 list option" where
  "archive_find_font bytes = find_font_loop bytes 0"

function directory_loop :: "u8 list \<Rightarrow> str \<Rightarrow> nat \<Rightarrow> bool" where
  "directory_loop bytes wanted offset = (case usize_add offset block_size of
     None \<Rightarrow> False
   | Some data_start \<Rightarrow>
       if length bytes < data_start then False
       else
         let header = header_at bytes offset in
         if list_all (\<lambda>byte. byte = 0) header then False
         else (case entry_path header of
             None \<Rightarrow> False
           | Some path \<Rightarrow>
               if path = wanted \<and> header ! 156 = 53 \<or>
                 (case strip_prefix wanted path of None \<Rightarrow> False | Some rest \<Rightarrow> strip_prefix [slash] rest \<noteq> None)
               then True
               else (case parse_octal (slice 124 136 header) of
                   None \<Rightarrow> False
                 | Some len \<Rightarrow> (case Option.bind (padded_size len) (usize_add data_start) of
                     None \<Rightarrow> False
                   | Some offset \<Rightarrow> if length bytes < offset then False else directory_loop bytes wanted offset))))"
  by pat_completeness auto
termination
  by (relation "measure (\<lambda>(bytes, wanted, offset). length bytes - offset)")
    (auto simp: usize_add_Some_iff block_size_def split: Option.bind_splits)

definition archive_is_directory :: "u8 list \<Rightarrow> str \<Rightarrow> bool" where
  "archive_is_directory bytes wanted =
     (let wanted = trim_start slash wanted in wanted = [] \<or> directory_loop bytes wanted 0)"

definition archive_is_file :: "u8 list \<Rightarrow> str \<Rightarrow> bool" where
  "archive_is_file bytes wanted \<longleftrightarrow> archive_find bytes wanted \<noteq> None"

text \<open>
  A listing is the names written so far, each ended by a newline, in a buffer of \<open>capacity\<close>
  bytes; a name that is already listed is not repeated.
\<close>

definition newline :: u8 where
  "newline = 10"

definition append_name :: "nat \<Rightarrow> u8 list \<Rightarrow> str \<Rightarrow> u8 list option" where
  "append_name capacity written name =
     (if name \<in> set (split_on newline written) then Some written
      else if capacity < length written + length name + 1 then None
      else Some (written @ name @ [newline]))"

function archive_list_loop :: "u8 list \<Rightarrow> str \<Rightarrow> nat \<Rightarrow> nat \<Rightarrow> u8 list \<Rightarrow> u8 list option" where
  "archive_list_loop bytes wanted capacity offset written = (case usize_add offset block_size of
     None \<Rightarrow> None
   | Some data_start \<Rightarrow>
       if length bytes < data_start then Some written
       else
         let header = header_at bytes offset in
         if list_all (\<lambda>byte. byte = 0) header then Some written
         else (case entry_path header of
             None \<Rightarrow> None
           | Some path \<Rightarrow>
               let relative = (if wanted = [] then Some path
                     else Option.bind (strip_prefix wanted path) (strip_prefix [slash]));
                   listed = (case relative of
                       None \<Rightarrow> Some written
                     | Some relative \<Rightarrow>
                         let component = hd (split_on slash relative) in
                         if component = [] then Some written else append_name capacity written component)
               in (case listed of
                   None \<Rightarrow> None
                 | Some written \<Rightarrow> (case parse_octal (slice 124 136 header) of
                     None \<Rightarrow> None
                   | Some len \<Rightarrow> (case Option.bind (padded_size len) (usize_add data_start) of
                       None \<Rightarrow> None
                     | Some offset \<Rightarrow> archive_list_loop bytes wanted capacity offset written)))))"
  by pat_completeness auto
termination
  by (relation "measure (\<lambda>(bytes, wanted, capacity, offset, written). length bytes - offset)")
    (auto simp: usize_add_Some_iff block_size_def split: Option.bind_splits)

definition archive_list :: "u8 list \<Rightarrow> str \<Rightarrow> nat \<Rightarrow> u8 list option" where
  "archive_list bytes directory capacity = archive_list_loop bytes (trim_matches slash directory) capacity 0 []"

declare find_loop.simps [simp del] metadata_loop.simps [simp del] find_font_loop.simps [simp del]
  directory_loop.simps [simp del] archive_list_loop.simps [simp del]

end
