(* ===== verification/Ramfs.thy ===== *)
theory Ramfs
  imports Ustar_Archive
begin

text \<open>
  The volatile root of \<open>kernel/src/fs/ramfs.rs\<close>: a read-only archive below an overlay of 128
  nodes whose file contents lie in one buffer of 8 MiB, handed out from the bottom and never
  reclaimed. A path stored in a node is the list of its first \<open>path_length\<close> bytes; the bytes
  come from a \<open>&str\<close>, so reading them back as text succeeds.
\<close>

section \<open>State\<close>

datatype fs_error = FsInvalidPath | FsNotFound | FsNotDirectory | FsIsDirectory | FsAlreadyExists
  | FsDirectoryNotEmpty | FsNoSpace

datatype node_kind = EmptyNode | FileNode | DirectoryNode | OpaqueDirectory | Whiteout

record overlay_node =
  on_path :: str
  on_kind :: node_kind
  on_length :: nat
  on_start :: nat
  on_capacity :: nat
  on_mode :: u16
  on_uid :: u32
  on_gid :: u32

definition empty_overlay_node :: overlay_node where
  "empty_overlay_node = \<lparr>on_path = [], on_kind = EmptyNode, on_length = 0, on_start = 0, on_capacity = 0,
     on_mode = 0, on_uid = 0, on_gid = 0\<rparr>"

definition max_write_file_size :: nat where
  "max_write_file_size = 4096"

definition max_overlay_file_size :: nat where
  "max_overlay_file_size = 4194304"

definition max_overlay_nodes :: nat where
  "max_overlay_nodes = 128"

definition overlay_data_capacity :: nat where
  "overlay_data_capacity = 8388608"

text \<open>\<open>disk_sectors\<close> is the number of sectors of the disk when one is present.\<close>

record ramfs =
  archive :: "u8 list option"
  overlay :: "overlay_node list"
  file_data :: "u8 list"
  file_data_used :: nat
  disk_sectors :: "u64 option"

definition new_ramfs :: ramfs where
  "new_ramfs = \<lparr>archive = None, overlay = replicate max_overlay_nodes empty_overlay_node,
     file_data = replicate overlay_data_capacity 0, file_data_used = 0, disk_sectors = None\<rparr>"

definition mount_ramfs :: "u8 list \<Rightarrow> ramfs \<Rightarrow> ramfs" where
  "mount_ramfs bytes fs = fs\<lparr>archive := Some bytes, overlay := replicate max_overlay_nodes empty_overlay_node,
     file_data_used := 0\<rparr>"

section \<open>Paths\<close>

definition canonical :: "str \<Rightarrow> str option" where
  "canonical path =
     (if path = [] then Some path
      else
        let path = (case strip_prefix [slash] path of Some rest \<Rightarrow> rest | None \<Rightarrow> path) in
        if path = [] then Some path
        else if \<exists>component \<in> set (split_on slash path).
            component = [] \<or> component = ascii ''.'' \<or> component = ascii ''..'' then None
        else Some path)"

definition is_child :: "str \<Rightarrow> str \<Rightarrow> bool" where
  "is_child path parent =
     (if parent = [] then path \<noteq> []
      else (case strip_prefix parent path of None \<Rightarrow> False | Some suffix \<Rightarrow> strip_prefix [slash] suffix \<noteq> None))"

definition dev_path :: str where
  "dev_path = ascii ''dev''"

definition disk_path :: str where
  "disk_path = ascii ''dev/hda''"

definition parent_of :: "str \<Rightarrow> str" where
  "parent_of path = (case rsplit_once slash path of None \<Rightarrow> [] | Some (parent, _) \<Rightarrow> parent)"

section \<open>Looking up\<close>

definition overlay_node_at :: "ramfs \<Rightarrow> str \<Rightarrow> overlay_node option" where
  "overlay_node_at fs path = find (\<lambda>node. on_kind node \<noteq> EmptyNode \<and> on_path node = path) (overlay fs)"

definition is_hidden :: "ramfs \<Rightarrow> str \<Rightarrow> bool" where
  "is_hidden fs path = (case overlay_node_at fs path of
     Some node \<Rightarrow> on_kind node = Whiteout
   | None \<Rightarrow> \<exists>node \<in> set (overlay fs).
       on_kind node = Whiteout \<and> (on_path node = path \<or> is_child path (on_path node)) \<or>
       on_kind node = OpaqueDirectory \<and> is_child path (on_path node))"

definition node_data :: "ramfs \<Rightarrow> overlay_node \<Rightarrow> u8 list" where
  "node_data fs node = slice (on_start node) (on_start node + on_length node) (file_data fs)"

text \<open>What the path stands for below the overlay, used by the three readers.\<close>

definition read_from_overlay :: "ramfs \<Rightarrow> str \<Rightarrow> u8 list option" where
  "read_from_overlay fs path = (case canonical path of
     None \<Rightarrow> None
   | Some path \<Rightarrow>
       if is_hidden fs path then None
       else (case overlay_node_at fs path of
           Some node \<Rightarrow> if on_kind node = FileNode then Some (node_data fs node) else None
         | None \<Rightarrow> Option.bind (archive fs) (\<lambda>a. archive_find a path)))"

definition read_file_into :: "ramfs \<Rightarrow> str \<Rightarrow> nat \<Rightarrow> fs_error + u8 list" where
  "read_file_into fs path capacity = (case canonical path of
     None \<Rightarrow> Inl FsInvalidPath
   | Some path \<Rightarrow>
       if path = [] \<or> is_hidden fs path then Inl FsNotFound
       else (case (case overlay_node_at fs path of
           Some node \<Rightarrow> if on_kind node = FileNode then Some (node_data fs node) else None
         | None \<Rightarrow> Option.bind (archive fs) (\<lambda>a. archive_find a path)) of
           None \<Rightarrow> Inl FsNotFound
         | Some contents \<Rightarrow> if capacity < length contents then Inl FsNoSpace else Inr contents))"

definition file_size_overlay :: "ramfs \<Rightarrow> str \<Rightarrow> nat option" where
  "file_size_overlay fs path = (case canonical path of
     None \<Rightarrow> None
   | Some path \<Rightarrow>
       if is_hidden fs path then None
       else (case overlay_node_at fs path of
           Some node \<Rightarrow> if on_kind node = FileNode then Some (on_length node) else None
         | None \<Rightarrow> map_option length (Option.bind (archive fs) (\<lambda>a. archive_find a path))))"

definition is_directory_overlay :: "ramfs \<Rightarrow> str \<Rightarrow> bool" where
  "is_directory_overlay fs path = (case canonical path of
     None \<Rightarrow> False
   | Some path \<Rightarrow>
       if path = dev_path then True
       else (case overlay_node_at fs path of
           Some node \<Rightarrow> on_kind node \<in> {DirectoryNode, OpaqueDirectory}
         | None \<Rightarrow>
             if is_hidden fs path then False
             else (case archive fs of None \<Rightarrow> False | Some a \<Rightarrow> archive_is_directory a path) \<or>
               (\<exists>node \<in> set (overlay fs). on_kind node \<in> {FileNode, DirectoryNode, OpaqueDirectory} \<and>
                  is_child (on_path node) path)))"

definition is_file_overlay :: "ramfs \<Rightarrow> str \<Rightarrow> bool" where
  "is_file_overlay fs path = (case canonical path of
     None \<Rightarrow> False
   | Some path \<Rightarrow>
       if path = disk_path then disk_sectors fs \<noteq> None
       else if is_hidden fs path then False
       else (case overlay_node_at fs path of
           Some node \<Rightarrow> on_kind node = FileNode
         | None \<Rightarrow> (case archive fs of None \<Rightarrow> False | Some a \<Rightarrow> archive_is_file a path)))"

definition file_len_overlay :: "ramfs \<Rightarrow> str \<Rightarrow> fs_error + nat" where
  "file_len_overlay fs path =
     (if is_directory_overlay fs path then Inl FsIsDirectory
      else (case read_from_overlay fs path of None \<Rightarrow> Inl FsNotFound | Some contents \<Rightarrow> Inr (length contents)))"

definition read_at_overlay :: "ramfs \<Rightarrow> str \<Rightarrow> nat \<Rightarrow> nat \<Rightarrow> fs_error + u8 list" where
  "read_at_overlay fs path offset capacity =
     (if is_directory_overlay fs path then Inl FsIsDirectory
      else (case read_from_overlay fs path of
          None \<Rightarrow> Inl FsNotFound
        | Some contents \<Rightarrow>
            if length contents \<le> offset then Inr []
            else Inr (slice offset (offset + min capacity (length contents - offset)) contents)))"

definition plain_metadata :: "u64 \<Rightarrow> u16 \<Rightarrow> bool \<Rightarrow> dfs_metadata" where
  "plain_metadata len bits directory =
     \<lparr>meta_size = len, meta_mode = bits, meta_uid = 0, meta_gid = 0, meta_is_directory = directory\<rparr>"

definition metadata_overlay :: "ramfs \<Rightarrow> str \<Rightarrow> dfs_metadata option" where
  "metadata_overlay fs path = (case canonical path of
     None \<Rightarrow> None
   | Some path \<Rightarrow> (case overlay_node_at fs path of
       Some node \<Rightarrow> Some \<lparr>meta_size = word_of_nat (on_length node), meta_mode = on_mode node, meta_uid = on_uid node,
         meta_gid = on_gid node, meta_is_directory = on_kind node \<in> {DirectoryNode, OpaqueDirectory}\<rparr>
     | None \<Rightarrow>
         let in_archive = Option.bind (archive fs) (\<lambda>a. archive_metadata a path) in
         if is_directory_overlay fs path then
           (case in_archive of Some md \<Rightarrow> Some md | None \<Rightarrow> Some (plain_metadata 0 493 True))
         else if path = disk_path \<and> disk_sectors fs \<noteq> None then
           Some (plain_metadata (the (disk_sectors fs) * 512) 384 False)
         else (case file_len_overlay fs path of
             Inl _ \<Rightarrow> None
           | Inr len \<Rightarrow> (case in_archive of
               Some md \<Rightarrow> Some md
             | None \<Rightarrow> Some (plain_metadata (word_of_nat len) 420 False)))))"

section \<open>Listing\<close>

text \<open>\<open>join_child\<close> into a buffer of 256 bytes.\<close>

definition join_child :: "str \<Rightarrow> str \<Rightarrow> str option" where
  "join_child parent name =
     (let pre = (if parent = [] then [] else parent @ [slash]) in
      if 256 < length pre + length name then None else Some (pre @ name))"

text \<open>\<open>None\<close> for a path elsewhere, \<open>Some None\<close> for the directory itself.\<close>

definition immediate_component :: "str \<Rightarrow> str \<Rightarrow> str option option" where
  "immediate_component path parent =
     (let component = (\<lambda>relative. if relative = [] then Some None else Some (Some (hd (split_on slash relative)))) in
      if parent = [] then component path
      else if path = parent then Some None
      else Option.bind (Option.bind (strip_prefix parent path) (strip_prefix [slash])) component)"

fun list_archive_names :: "ramfs \<Rightarrow> str \<Rightarrow> bool \<Rightarrow> nat \<Rightarrow> str list \<Rightarrow> u8 list \<Rightarrow> u8 list option" where
  "list_archive_names fs path include_hidden capacity [] written = Some written"
| "list_archive_names fs path include_hidden capacity (name # names) written =
     (if name = [] then list_archive_names fs path include_hidden capacity names written
      else (case join_child path name of
          None \<Rightarrow> None
        | Some child \<Rightarrow>
            if \<not> utf8_valid child then None
            else if \<not> is_hidden fs child \<and> (include_hidden \<or> take 1 (last (split_on slash name)) \<noteq> ascii ''.'')
            then (case append_name capacity written name of
                None \<Rightarrow> None
              | Some written \<Rightarrow> list_archive_names fs path include_hidden capacity names written)
            else list_archive_names fs path include_hidden capacity names written))"

fun list_overlay_names :: "str \<Rightarrow> bool \<Rightarrow> nat \<Rightarrow> overlay_node list \<Rightarrow> u8 list \<Rightarrow> u8 list option" where
  "list_overlay_names path include_hidden capacity [] written = Some written"
| "list_overlay_names path include_hidden capacity (node # nodes) written =
     (if on_kind node \<notin> {FileNode, DirectoryNode, OpaqueDirectory} then list_overlay_names path include_hidden capacity nodes written
      else (case immediate_component (on_path node) path of
          Some (Some name) \<Rightarrow>
            if include_hidden \<or> take 1 name \<noteq> ascii ''.''
            then (case append_name capacity written name of
                None \<Rightarrow> None
              | Some written \<Rightarrow> list_overlay_names path include_hidden capacity nodes written)
            else list_overlay_names path include_hidden capacity nodes written
        | _ \<Rightarrow> list_overlay_names path include_hidden capacity nodes written))"

definition list_directory_overlay :: "ramfs \<Rightarrow> str \<Rightarrow> bool \<Rightarrow> nat \<Rightarrow> u8 list option" where
  "list_directory_overlay fs path include_hidden capacity = (case canonical path of
     None \<Rightarrow> None
   | Some path \<Rightarrow>
       if \<not> is_directory_overlay fs path then None
       else if path = dev_path then
         (if disk_sectors fs \<noteq> None then append_name capacity [] (ascii ''hda'') else Some [])
       else
         let opaque = (case overlay_node_at fs path of None \<Rightarrow> False | Some node \<Rightarrow> on_kind node = OpaqueDirectory);
             names = (case archive fs of
                 Some a \<Rightarrow> if \<not> opaque \<and> archive_is_directory a path then
                     (case archive_list a path 4096 of Some entries \<Rightarrow> split_on newline entries | None \<Rightarrow> [])
                   else []
               | None \<Rightarrow> [])
         in (case list_archive_names fs path include_hidden capacity names [] of
             None \<Rightarrow> None
           | Some written \<Rightarrow> list_overlay_names path include_hidden capacity (overlay fs) written))"

section \<open>Changing the overlay\<close>

type_synonym 'a ramfs_op = "ramfs \<Rightarrow> (fs_error + 'a) \<times> ramfs"

definition insert_overlay_as :: "str \<Rightarrow> node_kind \<Rightarrow> u16 \<Rightarrow> u32 \<Rightarrow> u32 \<Rightarrow> unit ramfs_op" where
  "insert_overlay_as path new_kind bits uid' gid' fs =
     (if 256 < length path then (Inl FsInvalidPath, fs)
      else (case (case position (\<lambda>node. on_kind node \<noteq> EmptyNode \<and> on_path node = path) (overlay fs) of
              Some slot \<Rightarrow> Some slot
            | None \<Rightarrow> position (\<lambda>node. on_kind node = EmptyNode) (overlay fs)) of
          None \<Rightarrow> (Inl FsNoSpace, fs)
        | Some slot \<Rightarrow> (Inr (), fs\<lparr>overlay := (overlay fs)[slot := \<lparr>on_path = path, on_kind = new_kind, on_length = 0,
            on_start = 0, on_capacity = 0, on_mode = bits, on_uid = uid', on_gid = gid'\<rparr>]\<rparr>)))"

definition insert_overlay :: "str \<Rightarrow> node_kind \<Rightarrow> unit ramfs_op" where
  "insert_overlay path new_kind =
     insert_overlay_as path new_kind (if new_kind \<in> {DirectoryNode, OpaqueDirectory} then 493 else 420) 0 0"

definition ensure_parent_directory :: "ramfs \<Rightarrow> str \<Rightarrow> fs_error + unit" where
  "ensure_parent_directory fs path =
     (if is_directory_overlay fs (parent_of path) then Inr () else Inl FsNotDirectory)"

definition create_file_overlay :: "str \<Rightarrow> u16 \<Rightarrow> u32 \<Rightarrow> u32 \<Rightarrow> unit ramfs_op" where
  "create_file_overlay path bits uid' gid' fs = (case canonical path of
     None \<Rightarrow> (Inl FsInvalidPath, fs)
   | Some path \<Rightarrow>
       if path = dev_path \<or> path = disk_path then (Inl FsInvalidPath, fs)
       else if path = [] then (Inl FsIsDirectory, fs)
       else if is_file_overlay fs path then (Inr (), fs)
       else if is_directory_overlay fs path then (Inl FsIsDirectory, fs)
       else (case ensure_parent_directory fs path of
           Inl e \<Rightarrow> (Inl e, fs)
         | Inr _ \<Rightarrow> insert_overlay_as path FileNode (bits AND 511) uid' gid' fs))"

text \<open>The slot of a file, and the room a write of \<open>len\<close> bytes takes in the buffer.\<close>

definition file_slot :: "ramfs \<Rightarrow> str \<Rightarrow> nat option" where
  "file_slot fs path = position (\<lambda>node. on_kind node = FileNode \<and> on_path node = path) (overlay fs)"

definition old_capacity :: "ramfs \<Rightarrow> str \<Rightarrow> nat" where
  "old_capacity fs path = (case file_slot fs path of None \<Rightarrow> 0 | Some slot \<Rightarrow> on_capacity (overlay fs ! slot))"

definition reusable :: "ramfs \<Rightarrow> str \<Rightarrow> nat \<Rightarrow> bool" where
  "reusable fs path len \<longleftrightarrow> file_slot fs path \<noteq> None \<and> len \<le> old_capacity fs path"

definition saturating_mul :: "nat \<Rightarrow> nat \<Rightarrow> nat" where
  "saturating_mul a b = min (a * b) usize_max"

text \<open>The part of \<open>write_file_overlay\<close> that places the bytes, from \<open>existing_slot\<close> on.\<close>

definition store_contents :: "str \<Rightarrow> u8 list \<Rightarrow> u16 \<Rightarrow> u32 \<Rightarrow> u32 \<Rightarrow> unit ramfs_op" where
  "store_contents path bytes bits owner owner_gid fs =
     (let reuse = reusable fs path (length bytes);
          data_capacity = (if reuse then old_capacity fs path
            else if bytes = [] then 0
            else max (max (saturating_mul (old_capacity fs path) 2) (length bytes)) 4096)
      in if overlay_data_capacity - file_data_used fs < data_capacity then (Inl FsNoSpace, fs)
      else
        let data_start = (if reuse then on_start (overlay fs ! the (file_slot fs path)) else file_data_used fs);
            fs = fs\<lparr>file_data := splice data_start bytes (file_data fs),
              file_data_used := if reuse then file_data_used fs else data_start + data_capacity\<rparr>
        in (case insert_overlay_as path FileNode bits owner owner_gid fs of
            (Inl e, fs) \<Rightarrow> (Inl e, fs)
          | (Inr _, fs) \<Rightarrow> (case file_slot fs path of
              None \<Rightarrow> (Inl FsNoSpace, fs)
            | Some slot \<Rightarrow> (Inr (), fs\<lparr>overlay := (overlay fs)[slot := (overlay fs ! slot)
                \<lparr>on_start := data_start, on_length := length bytes, on_capacity := data_capacity\<rparr>]\<rparr>))))"

definition write_file_overlay :: "str \<Rightarrow> u8 list \<Rightarrow> u32 \<Rightarrow> u32 \<Rightarrow> unit ramfs_op" where
  "write_file_overlay path bytes uid' gid' fs =
     (if max_write_file_size < length bytes then (Inl FsNoSpace, fs)
      else (case canonical path of
        None \<Rightarrow> (Inl FsInvalidPath, fs)
      | Some path \<Rightarrow>
          if path = dev_path \<or> path = disk_path then (Inl FsInvalidPath, fs)
          else if path = [] then (Inl FsIsDirectory, fs)
          else if is_directory_overlay fs path then (Inl FsIsDirectory, fs)
          else (case (if is_file_overlay fs path then Inr () else ensure_parent_directory fs path) of
              Inl e \<Rightarrow> (Inl e, fs)
            | Inr _ \<Rightarrow> (case metadata_overlay fs path of
                None \<Rightarrow> store_contents path bytes 420 uid' gid' fs
              | Some md \<Rightarrow> store_contents path bytes (meta_mode md) (meta_uid md) (meta_gid md) fs))))"

text \<open>The same for \<open>write_at_overlay\<close>; \<open>original\<close> is the file before.\<close>

definition store_range :: "str \<Rightarrow> nat \<Rightarrow> u8 list \<Rightarrow> u8 list \<Rightarrow> nat ramfs_op" where
  "store_range path offset input original fs =
     (let finish = offset + length input; new_length = max (length original) finish;
          md = metadata_overlay fs path;
          reuse = reusable fs path new_length;
          data_capacity = (if reuse then old_capacity fs path
            else if new_length = 0 then 0
            else min (max (max (saturating_mul (old_capacity fs path) 2) new_length) 4096) max_overlay_file_size)
      in if data_capacity < new_length \<or> overlay_data_capacity - file_data_used fs < data_capacity
      then (Inl FsNoSpace, fs)
      else
        let data_start = (if reuse then on_start (overlay fs ! the (file_slot fs path)) else file_data_used fs);
            fs' = (if reuse then fs
              else fs\<lparr>file_data := splice data_start original (file_data fs),
                file_data_used := data_start + data_capacity\<rparr>);
            fs' = fs'\<lparr>file_data := splice (data_start + offset) input (file_data fs')\<rparr>
        in (case (case file_slot fs path of
                Some slot \<Rightarrow> Some slot
              | None \<Rightarrow> (case position (\<lambda>node. on_kind node \<noteq> EmptyNode \<and> on_path node = path) (overlay fs) of
                  Some slot \<Rightarrow> Some slot
                | None \<Rightarrow> position (\<lambda>node. on_kind node = EmptyNode) (overlay fs))) of
            None \<Rightarrow> (Inl FsNoSpace, fs')
          | Some slot \<Rightarrow> (Inr (length input), fs'\<lparr>overlay := (overlay fs)[slot :=
              \<lparr>on_path = path, on_kind = FileNode, on_length = new_length, on_start = data_start,
               on_capacity = data_capacity,
               on_mode = (case md of None \<Rightarrow> 420 | Some md \<Rightarrow> meta_mode md),
               on_uid = (case md of None \<Rightarrow> 0 | Some md \<Rightarrow> meta_uid md),
               on_gid = (case md of None \<Rightarrow> 0 | Some md \<Rightarrow> meta_gid md)\<rparr>]\<rparr>)))"

definition write_at_overlay :: "str \<Rightarrow> nat \<Rightarrow> u8 list \<Rightarrow> nat ramfs_op" where
  "write_at_overlay path offset input fs = (case usize_add offset (length input) of
     None \<Rightarrow> (Inl FsNoSpace, fs)
   | Some finish \<Rightarrow>
       if max_overlay_file_size < finish then (Inl FsNoSpace, fs)
       else (case canonical path of
         None \<Rightarrow> (Inl FsInvalidPath, fs)
       | Some path \<Rightarrow>
           if path = [] \<or> is_directory_overlay fs path then (Inl FsIsDirectory, fs)
           else (case read_from_overlay fs path of
             None \<Rightarrow> (Inl FsNotFound, fs)
           | Some original \<Rightarrow>
               if length original < offset then (Inl FsInvalidPath, fs)
               else if max_overlay_file_size < max (length original) finish then (Inl FsNoSpace, fs)
               else (case ensure_parent_directory fs path of
                   Inl e \<Rightarrow> (Inl e, fs)
                 | Inr _ \<Rightarrow> store_range path offset input original fs))))"

definition create_directory_one :: "str \<Rightarrow> u32 \<Rightarrow> u32 \<Rightarrow> unit ramfs_op" where
  "create_directory_one path uid' gid' fs =
     (if is_file_overlay fs path \<or> is_directory_overlay fs path then (Inl FsAlreadyExists, fs)
      else (case ensure_parent_directory fs path of
          Inl e \<Rightarrow> (Inl e, fs)
        | Inr _ \<Rightarrow>
            let hides_archive = (case archive fs of None \<Rightarrow> False | Some a \<Rightarrow> archive_is_directory a path)
            in insert_overlay_as path (if hides_archive then OpaqueDirectory else DirectoryNode) 493 uid' gid' fs))"

text \<open>
  The loop over the components; \<open>None\<close> is the panic of writing the separator past the end of
  the buffer of 256 bytes.
\<close>

fun create_parents :: "str list \<Rightarrow> str \<Rightarrow> u32 \<Rightarrow> u32 \<Rightarrow> ramfs \<Rightarrow> ((fs_error + unit) \<times> ramfs) option" where
  "create_parents [] path uid' gid' fs = Some (Inr (), fs)"
| "create_parents (component # components) path uid' gid' fs =
     (if path \<noteq> [] \<and> 256 \<le> length path then None
      else
        let path = (if path \<noteq> [] then path @ [slash] else path) in
        if 256 < length path + length component then Some (Inl FsInvalidPath, fs)
        else
          let path = path @ component in
          if \<not> utf8_valid path then Some (Inl FsInvalidPath, fs)
          else if is_directory_overlay fs path then create_parents components path uid' gid' fs
          else if is_file_overlay fs path then Some (Inl FsAlreadyExists, fs)
          else (case create_directory_one path uid' gid' fs of
              (Inl e, fs) \<Rightarrow> Some (Inl e, fs)
            | (Inr _, fs) \<Rightarrow> create_parents components path uid' gid' fs))"

definition create_directory_overlay :: "str \<Rightarrow> bool \<Rightarrow> u32 \<Rightarrow> u32 \<Rightarrow> ramfs \<Rightarrow> ((fs_error + unit) \<times> ramfs) option" where
  "create_directory_overlay path parents uid' gid' fs = (case canonical path of
     None \<Rightarrow> Some (Inl FsInvalidPath, fs)
   | Some path \<Rightarrow>
       if path = [] then Some (Inl FsAlreadyExists, fs)
       else if parents then create_parents (split_on slash path) [] uid' gid' fs
       else Some (create_directory_one path uid' gid' fs))"

definition remove_overlay :: "str \<Rightarrow> bool \<Rightarrow> unit ramfs_op" where
  "remove_overlay path recursive fs = (case canonical path of
     None \<Rightarrow> (Inl FsInvalidPath, fs)
   | Some path \<Rightarrow>
       if path = [] \<or> path = dev_path \<or> path = disk_path then (Inl FsInvalidPath, fs)
       else if \<not> is_file_overlay fs path \<and> \<not> is_directory_overlay fs path then (Inl FsNotFound, fs)
       else if is_directory_overlay fs path \<and> \<not> recursive \<and>
           (case list_directory_overlay fs path False 4096 of None \<Rightarrow> False | Some listing \<Rightarrow> listing \<noteq> [])
       then (Inl FsDirectoryNotEmpty, fs)
       else
         let exists_in_archive = (case archive fs of
             None \<Rightarrow> False | Some a \<Rightarrow> archive_is_file a path \<or> archive_is_directory a path)
         in if exists_in_archive then insert_overlay path Whiteout fs
         else (Inr (), fs\<lparr>overlay := map (\<lambda>node.
             if on_kind node \<noteq> EmptyNode \<and> (on_path node = path \<or> is_child (on_path node) path)
             then empty_overlay_node else node) (overlay fs)\<rparr>))"

end
