(* ===== verification/Ramfs_Files.thy ===== *)
theory Ramfs_Files
  imports Ramfs
begin

text \<open>
  The overlay of the volatile root as a map from paths to contents: the buffer regions of the
  files stay disjoint, a write changes the file it names and no other, a failed operation
  changes no file, and a removed path is gone.
\<close>

section \<open>The invariant\<close>

definition apart :: "overlay_node \<Rightarrow> overlay_node \<Rightarrow> bool" where
  "apart m n \<longleftrightarrow> on_start m + on_capacity m \<le> on_start n \<or> on_start n + on_capacity n \<le> on_start m"

definition ramfs_ok :: "ramfs \<Rightarrow> bool" where
  "ramfs_ok fs \<longleftrightarrow> length (overlay fs) = max_overlay_nodes \<and> length (file_data fs) = overlay_data_capacity \<and>
     file_data_used fs \<le> overlay_data_capacity \<and>
     (\<forall>i < max_overlay_nodes. on_kind (overlay fs ! i) = FileNode \<longrightarrow>
        on_length (overlay fs ! i) \<le> on_capacity (overlay fs ! i) \<and>
        on_start (overlay fs ! i) + on_capacity (overlay fs ! i) \<le> file_data_used fs) \<and>
     (\<forall>i < max_overlay_nodes. \<forall>j < max_overlay_nodes. i \<noteq> j \<longrightarrow>
        on_kind (overlay fs ! i) = FileNode \<longrightarrow> on_kind (overlay fs ! j) = FileNode \<longrightarrow>
        apart (overlay fs ! i) (overlay fs ! j)) \<and>
     (\<forall>i < max_overlay_nodes. \<forall>j < max_overlay_nodes. i \<noteq> j \<longrightarrow>
        on_kind (overlay fs ! i) \<noteq> EmptyNode \<longrightarrow> on_kind (overlay fs ! j) \<noteq> EmptyNode \<longrightarrow>
        on_path (overlay fs ! i) \<noteq> on_path (overlay fs ! j)) \<and>
     (\<forall>i < max_overlay_nodes. on_kind (overlay fs ! i) \<noteq> EmptyNode \<longrightarrow> length (on_path (overlay fs ! i)) \<le> 256)"

lemma ramfs_okD:
  assumes "ramfs_ok fs"
  shows "length (overlay fs) = max_overlay_nodes" "length (file_data fs) = overlay_data_capacity"
    "file_data_used fs \<le> overlay_data_capacity"
    "i < max_overlay_nodes \<Longrightarrow> on_kind (overlay fs ! i) = FileNode \<Longrightarrow>
      on_length (overlay fs ! i) \<le> on_capacity (overlay fs ! i) \<and>
      on_start (overlay fs ! i) + on_capacity (overlay fs ! i) \<le> file_data_used fs"
    "i < max_overlay_nodes \<Longrightarrow> j < max_overlay_nodes \<Longrightarrow> i \<noteq> j \<Longrightarrow> on_kind (overlay fs ! i) = FileNode \<Longrightarrow>
      on_kind (overlay fs ! j) = FileNode \<Longrightarrow> apart (overlay fs ! i) (overlay fs ! j)"
    "i < max_overlay_nodes \<Longrightarrow> j < max_overlay_nodes \<Longrightarrow> i \<noteq> j \<Longrightarrow> on_kind (overlay fs ! i) \<noteq> EmptyNode \<Longrightarrow>
      on_kind (overlay fs ! j) \<noteq> EmptyNode \<Longrightarrow> on_path (overlay fs ! i) \<noteq> on_path (overlay fs ! j)"
    "i < max_overlay_nodes \<Longrightarrow> on_kind (overlay fs ! i) \<noteq> EmptyNode \<Longrightarrow> length (on_path (overlay fs ! i)) \<le> 256"
  using assms unfolding ramfs_ok_def by blast+

lemma apart_sym: "apart m n = apart n m"
  by (auto simp: apart_def)

text \<open>The slot an insertion of \<open>path\<close> takes.\<close>

definition slot_for :: "ramfs \<Rightarrow> str \<Rightarrow> nat \<Rightarrow> bool" where
  "slot_for fs path slot \<longleftrightarrow> slot < max_overlay_nodes \<and>
     (on_kind (overlay fs ! slot) \<noteq> EmptyNode \<and> on_path (overlay fs ! slot) = path \<or>
      on_kind (overlay fs ! slot) = EmptyNode \<and> overlay_node_at fs path = None)"

lemma overlay_node_at_None: "overlay_node_at fs path = None \<longleftrightarrow> (\<forall>node \<in> set (overlay fs). on_kind node \<noteq> EmptyNode \<longrightarrow> on_path node \<noteq> path)"
  by (auto simp: overlay_node_at_def find_None_iff)

lemma overlay_node_at_Some:
  assumes ok: "ramfs_ok fs"
  shows "overlay_node_at fs path = Some node \<longleftrightarrow> (\<exists>i < max_overlay_nodes. overlay fs ! i = node \<and> on_kind node \<noteq> EmptyNode \<and> on_path node = path)"
proof
  assume "overlay_node_at fs path = Some node"
  then have "node \<in> set (overlay fs)" "on_kind node \<noteq> EmptyNode" "on_path node = path"
    unfolding overlay_node_at_def by (auto simp: find_Some_iff)
  then show "\<exists>i < max_overlay_nodes. overlay fs ! i = node \<and> on_kind node \<noteq> EmptyNode \<and> on_path node = path"
    using ramfs_okD(1) [OF ok] by (auto simp: in_set_conv_nth)
next
  assume "\<exists>i < max_overlay_nodes. overlay fs ! i = node \<and> on_kind node \<noteq> EmptyNode \<and> on_path node = path"
  then obtain i where i: "i < max_overlay_nodes" "overlay fs ! i = node" "on_kind node \<noteq> EmptyNode" "on_path node = path" by blast
  have "\<not> (on_kind (overlay fs ! j) \<noteq> EmptyNode \<and> on_path (overlay fs ! j) = path)" if "j < i" for j
    using ramfs_okD(6) [OF ok, of j i] that i by auto
  then show "overlay_node_at fs path = Some node"
    unfolding overlay_node_at_def find_Some_iff using i ramfs_okD(1) [OF ok] by auto
qed

lemma file_slot_Some:
  assumes ok: "ramfs_ok fs" and "file_slot fs path = Some slot"
  shows "slot < max_overlay_nodes" "on_kind (overlay fs ! slot) = FileNode" "on_path (overlay fs ! slot) = path"
    "overlay_node_at fs path = Some (overlay fs ! slot)" "slot_for fs path slot"
proof -
  show s: "slot < max_overlay_nodes" "on_kind (overlay fs ! slot) = FileNode" "on_path (overlay fs ! slot) = path"
    using assms(2) ramfs_okD(1) [OF ok] by (auto simp: file_slot_def position_Some_iff)
  then show "overlay_node_at fs path = Some (overlay fs ! slot)" "slot_for fs path slot"
    using overlay_node_at_Some [OF ok] by (auto simp: slot_for_def)
qed

lemma file_slot_node:
  assumes ok: "ramfs_ok fs" and "overlay_node_at fs path = Some node" "on_kind node = FileNode"
  shows "\<exists>slot. file_slot fs path = Some slot \<and> overlay fs ! slot = node"
proof -
  obtain i where i: "i < max_overlay_nodes" "overlay fs ! i = node" "on_path node = path"
    using overlay_node_at_Some [OF ok] assms(2) by blast
  then have "file_slot fs path \<noteq> None"
    using ramfs_okD(1) [OF ok] assms(3) unfolding file_slot_def position_None_iff by (metis nth_mem)
  then obtain slot where s: "file_slot fs path = Some slot" by blast
  then show ?thesis using file_slot_Some(4) [OF ok s] assms(2) by simp
qed

lemma insertion_slot:
  assumes ok: "ramfs_ok fs"
    and s: "(case position (\<lambda>node. on_kind node \<noteq> EmptyNode \<and> on_path node = path) (overlay fs) of
        Some slot \<Rightarrow> Some slot | None \<Rightarrow> position (\<lambda>node. on_kind node = EmptyNode) (overlay fs)) = Some slot"
  shows "slot_for fs path slot"
  using s ramfs_okD(1) [OF ok]
  by (auto simp: slot_for_def overlay_node_at_None position_Some_iff position_None_iff split: option.splits)

section \<open>Replacing one node\<close>

lemma overlay_node_at_update:
  assumes ok: "ramfs_ok fs" and slot: "slot_for fs path slot" and n: "on_path n = path" "on_kind n \<noteq> EmptyNode"
    and ov: "overlay fs' = (overlay fs)[slot := n]"
  shows "overlay_node_at fs' q = (if q = path then Some n else overlay_node_at fs q)"
proof -
  have len: "length (overlay fs) = max_overlay_nodes" by (rule ramfs_okD(1) [OF ok])
  have s: "slot < length (overlay fs)" using slot by (simp add: slot_for_def len)
  have other: "on_kind (overlay fs ! j) = EmptyNode \<or> on_path (overlay fs ! j) \<noteq> path" if "j < max_overlay_nodes" "j \<noteq> slot" for j
    using slot ramfs_okD(6) [OF ok that(1), of slot] that len nth_mem [of j "overlay fs"]
    by (auto simp: slot_for_def overlay_node_at_None)
  have first: "find P (xs[i := y]) = find P xs" if "i < length xs" "\<not> P (xs ! i)" "\<not> P y" for P xs i and y :: overlay_node
    using that by (induction xs arbitrary: i) (auto split: nat.splits simp: nth_Cons)
  show ?thesis
  proof (cases "q = path")
    case True
    have "find (\<lambda>node. on_kind node \<noteq> EmptyNode \<and> on_path node = path) ((overlay fs)[slot := n]) = Some n"
      unfolding find_Some_iff using s n other len by (intro exI [of _ slot]) (auto simp: nth_list_update)
    then show ?thesis using True by (simp add: overlay_node_at_def ov)
  next
    case False
    have "\<not> (on_kind (overlay fs ! slot) \<noteq> EmptyNode \<and> on_path (overlay fs ! slot) = q)"
      using slot False by (auto simp: slot_for_def)
    then show ?thesis using first [OF s] n False by (simp add: overlay_node_at_def ov)
  qed
qed

lemma bex_update:
  assumes "i < length xs" "\<not> P y" "\<not> P (xs ! i)"
  shows "(\<exists>x \<in> set (xs[i := y]). P x) = (\<exists>x \<in> set xs. P x)"
  using assms unfolding Bex_def in_set_conv_nth by (metis length_list_update nth_list_update_eq nth_list_update_neq)

lemma is_hidden_update:
  assumes ok: "ramfs_ok fs" and slot: "slot_for fs path slot" and n: "on_path n = path" "on_kind n \<noteq> EmptyNode"
    and ov: "overlay fs' = (overlay fs)[slot := n]" and q: "q \<noteq> path" "\<not> is_child q path"
  shows "is_hidden fs' q = is_hidden fs q"
proof -
  have len: "length (overlay fs) = max_overlay_nodes" by (rule ramfs_okD(1) [OF ok])
  let ?hides = "\<lambda>node. on_kind node = Whiteout \<and> (on_path node = q \<or> is_child q (on_path node)) \<or>
       on_kind node = OpaqueDirectory \<and> is_child q (on_path node)"
  have no: "\<not> ?hides n" "\<not> ?hides (overlay fs ! slot)" using n q slot by (auto simp: slot_for_def)
  have "(\<exists>node \<in> set (overlay fs'). ?hides node) = (\<exists>node \<in> set (overlay fs). ?hides node)"
    unfolding ov using slot len by (intro bex_update no) (simp add: slot_for_def)
  moreover have "overlay_node_at fs' q = overlay_node_at fs q" using overlay_node_at_update [OF ok slot n ov] q(1) by simp
  ultimately show ?thesis by (simp add: is_hidden_def split: option.split)
qed

text \<open>A region that one node may take: its own, or the next part of the buffer.\<close>

definition region_for :: "ramfs \<Rightarrow> nat \<Rightarrow> nat \<Rightarrow> nat \<Rightarrow> nat \<Rightarrow> bool" where
  "region_for fs slot start capacity used \<longleftrightarrow>
     on_kind (overlay fs ! slot) = FileNode \<and> start = on_start (overlay fs ! slot) \<and>
       capacity = on_capacity (overlay fs ! slot) \<and> used = file_data_used fs \<or>
     start = file_data_used fs \<and> used = start + capacity \<and> used \<le> overlay_data_capacity \<or>
     capacity = 0 \<and> start = 0 \<and> used = file_data_used fs"

lemma region_apart:
  assumes ok: "ramfs_ok fs" and "slot < max_overlay_nodes" "region_for fs slot start capacity used"
    and j: "j < max_overlay_nodes" "j \<noteq> slot" "on_kind (overlay fs ! j) = FileNode"
  shows "on_start (overlay fs ! j) + on_capacity (overlay fs ! j) \<le> start \<or>
    start + capacity \<le> on_start (overlay fs ! j)"
  using assms(2,3) ramfs_okD(4) [OF ok j(1,3)] ramfs_okD(5) [OF ok j(1) assms(2) j(2,3)]
  by (auto simp: region_for_def apart_def)

lemma region_bounds:
  assumes ok: "ramfs_ok fs" and "slot < max_overlay_nodes" "region_for fs slot start capacity used"
  shows "start + capacity \<le> used \<or> capacity = 0" "start + capacity \<le> overlay_data_capacity" "used \<le> overlay_data_capacity"
    "file_data_used fs \<le> used" "start + capacity \<le> used"
  using assms(2,3) ramfs_okD(4) [OF ok assms(2)] ramfs_okD(3) [OF ok] by (auto simp: region_for_def)

lemma ramfs_ok_update:
  assumes ok: "ramfs_ok fs" and slot: "slot_for fs path slot" and n: "on_path n = path" "on_kind n \<noteq> EmptyNode"
    and ov: "overlay fs' = (overlay fs)[slot := n]" and len: "on_length n \<le> on_capacity n"
    and region: "region_for fs slot (on_start n) (on_capacity n) (file_data_used fs')"
    and data: "length (file_data fs') = length (file_data fs)" and short: "length path \<le> 256"
  shows "ramfs_ok fs'"
proof -
  have l: "length (overlay fs) = max_overlay_nodes" by (rule ramfs_okD(1) [OF ok])
  have s: "slot < max_overlay_nodes" using slot by (simp add: slot_for_def)
  have nth: "overlay fs' ! i = (if i = slot then n else overlay fs ! i)" if "i < max_overlay_nodes" for i
    using that l by (simp add: ov nth_list_update)
  note bounds = region_bounds [OF ok s region]
  have other: "on_kind (overlay fs ! j) = EmptyNode \<or> on_path (overlay fs ! j) \<noteq> path" if "j < max_overlay_nodes" "j \<noteq> slot" for j
    using slot ramfs_okD(6) [OF ok that(1) s that(2)] that l nth_mem [of j "overlay fs"]
    by (auto simp: slot_for_def overlay_node_at_None)
  show ?thesis
    unfolding ramfs_ok_def
  proof (intro conjI allI impI)
    fix i j assume ij: "i < max_overlay_nodes" "j < max_overlay_nodes" "i \<noteq> j"
    { assume "on_kind (overlay fs' ! i) = FileNode" "on_kind (overlay fs' ! j) = FileNode"
      then show "apart (overlay fs' ! i) (overlay fs' ! j)"
        using ij ramfs_okD(5) [OF ok ij] region_apart [OF ok s region ij(1)] region_apart [OF ok s region ij(2)]
        by (auto simp: nth apart_def) }
    { assume "on_kind (overlay fs' ! i) \<noteq> EmptyNode" "on_kind (overlay fs' ! j) \<noteq> EmptyNode"
      then show "on_path (overlay fs' ! i) \<noteq> on_path (overlay fs' ! j)"
        using ij ramfs_okD(6) [OF ok ij] other [OF ij(1)] other [OF ij(2)] n by (auto simp: nth split: if_splits) }
  next
    fix i assume "i < max_overlay_nodes" "on_kind (overlay fs' ! i) \<noteq> EmptyNode"
    then show "length (on_path (overlay fs' ! i)) \<le> 256"
      using ramfs_okD(7) [OF ok, of i] short n by (auto simp: nth split: if_splits)
  next
    fix i assume i: "i < max_overlay_nodes" "on_kind (overlay fs' ! i) = FileNode"
    show "on_length (overlay fs' ! i) \<le> on_capacity (overlay fs' ! i)"
      using i ramfs_okD(4) [OF ok i(1)] len by (auto simp: nth split: if_splits)
    show "on_start (overlay fs' ! i) + on_capacity (overlay fs' ! i) \<le> file_data_used fs'"
    proof (cases "i = slot")
      case False
      then show ?thesis using i ramfs_okD(4) [OF ok i(1)] bounds(4) by (auto simp: nth)
    qed (use i bounds(5) in \<open>simp add: nth\<close>)
  next
    show "length (overlay fs') = max_overlay_nodes" by (simp add: ov l)
    show "length (file_data fs') = overlay_data_capacity" using data ramfs_okD(2) [OF ok] by simp
    show "file_data_used fs' \<le> overlay_data_capacity" by (rule bounds(3))
  qed
qed

section \<open>Writing\<close>

lemma canonical_again:
  assumes "canonical path = Some p" shows "canonical p = Some p"
proof (cases "p = []")
  case False
  then have "\<not> (\<exists>component \<in> set (split_on slash p). component = [] \<or> component = ascii ''.'' \<or> component = ascii ''..'')"
    using assms by (auto simp: canonical_def Let_def split: if_splits option.splits)
  moreover from this have "strip_prefix [slash] p = None"
    using False by (cases p) (auto simp: strip_prefix_def split: if_splits)
  ultimately show ?thesis using False by (simp add: canonical_def Let_def)
qed (simp add: canonical_def)

lemma read_canonical: "canonical path = Some p \<Longrightarrow> read_from_overlay fs path = read_from_overlay fs p"
  using canonical_again by (simp add: read_from_overlay_def)

text \<open>The effect of giving a file a new node and new data.\<close>

lemma read_other:
  assumes ok: "ramfs_ok fs" and slot: "slot_for fs path slot" and n: "on_path n = path" "on_kind n \<noteq> EmptyNode"
    and ov: "overlay fs' = (overlay fs)[slot := n]" and arch: "archive fs' = archive fs"
    and region: "region_for fs slot start capacity used"
    and data: "\<And>a b. b \<le> start \<or> start + capacity \<le> a \<Longrightarrow> slice a b (file_data fs') = slice a b (file_data fs)"
    and q: "canonical q = Some q'" "q' \<noteq> path" "\<not> is_child q' path"
  shows "read_from_overlay fs' q = read_from_overlay fs q"
proof -
  have s: "slot < max_overlay_nodes" using slot by (simp add: slot_for_def)
  have same: "overlay_node_at fs' q' = overlay_node_at fs q'" "is_hidden fs' q' = is_hidden fs q'"
    using overlay_node_at_update [OF ok slot n ov] is_hidden_update [OF ok slot n ov] q(2,3) by simp_all
  have "node_data fs' node = node_data fs node" if node: "overlay_node_at fs q' = Some node" "on_kind node = FileNode" for node
  proof -
    obtain i where i: "i < max_overlay_nodes" "overlay fs ! i = node" "on_path node = q'"
      using overlay_node_at_Some [OF ok] node(1) by blast
    have "i \<noteq> slot" using slot q(2) i node(2) by (auto simp: slot_for_def)
    from region_apart [OF ok s region i(1) this] ramfs_okD(4) [OF ok i(1)]
    have "on_start node + on_length node \<le> start \<or> start + capacity \<le> on_start node" using i(2) node(2) by auto
    then show ?thesis unfolding node_data_def by (rule data)
  qed
  then show ?thesis by (simp add: read_from_overlay_def q(1) same arch split: option.split)
qed

lemma read_written:
  assumes ok: "ramfs_ok fs" and slot: "slot_for fs path slot" and n: "on_path n = path" "on_kind n = FileNode"
    and ov: "overlay fs' = (overlay fs)[slot := n]" and path: "canonical path = Some path"
  shows "read_from_overlay fs' path = Some (slice (on_start n) (on_start n + on_length n) (file_data fs'))"
proof -
  have "overlay_node_at fs' path = Some n" using overlay_node_at_update [OF ok slot n(1) _ ov, of path] n(2) by simp
  then show ?thesis using n(2) by (simp add: read_from_overlay_def path is_hidden_def node_data_def)
qed

lemma splice_elsewhere:
  "start + length bs \<le> length xs \<Longrightarrow> length bs \<le> capacity \<Longrightarrow> b \<le> start \<or> start + capacity \<le> a \<Longrightarrow>
   slice a b (splice start bs xs) = slice a b xs"
  by (auto intro: slice_splice_before slice_splice_after)

lemma slice_none: "b \<le> a \<Longrightarrow> slice a b xs = []"
  by (simp add: slice_def)

text \<open>A state that differs only in parts of the buffer no file uses reads alike.\<close>

lemma read_unused:
  assumes ok: "ramfs_ok fs" and "overlay fs' = overlay fs" "archive fs' = archive fs"
    and data: "\<And>a b. b \<le> file_data_used fs \<Longrightarrow> slice a b (file_data fs') = slice a b (file_data fs)"
  shows "read_from_overlay fs' q = read_from_overlay fs q"
proof -
  have same: "overlay_node_at fs' p = overlay_node_at fs p" "is_hidden fs' p = is_hidden fs p" for p
    by (simp_all only: overlay_node_at_def is_hidden_def assms(2))
  have "node_data fs' node = node_data fs node" if node: "overlay_node_at fs p = Some node" "on_kind node = FileNode" for node p
  proof -
    obtain i where i: "i < max_overlay_nodes" "overlay fs ! i = node" using overlay_node_at_Some [OF ok] node(1) by blast
    have "on_start node + on_length node \<le> file_data_used fs" using ramfs_okD(4) [OF ok i(1)] i(2) node(2) by auto
    then show ?thesis unfolding node_data_def by (rule data)
  qed
  then show ?thesis by (simp add: read_from_overlay_def same assms(3) split: option.split)
qed

lemma insert_outcome:
  assumes ok: "ramfs_ok fs" and op: "insert_overlay_as path k bits u g fs = (r, fs')"
  shows "(\<exists>e. r = Inl e) \<and> fs' = fs \<or> length path \<le> 256 \<and> (\<exists>slot. r = Inr () \<and> slot_for fs path slot \<and>
    fs' = fs\<lparr>overlay := (overlay fs)[slot := \<lparr>on_path = path, on_kind = k, on_length = 0,
            on_start = 0, on_capacity = 0, on_mode = bits, on_uid = u, on_gid = g\<rparr>]\<rparr>)"
proof (cases "256 < length path")
  case False
  let ?s = "case position (\<lambda>node. on_kind node \<noteq> EmptyNode \<and> on_path node = path) (overlay fs) of
        Some slot \<Rightarrow> Some slot | None \<Rightarrow> position (\<lambda>node. on_kind node = EmptyNode) (overlay fs)"
  show ?thesis
  proof (cases ?s)
    case None
    then show ?thesis using op False unfolding insert_overlay_as_def None by auto
  next
    case (Some slot)
    then show ?thesis using op False insertion_slot [OF ok Some] unfolding insert_overlay_as_def Some by auto
  qed
qed (use op in \<open>auto simp: insert_overlay_as_def\<close>)

lemma insert_keeps_ok:
  assumes ok: "ramfs_ok fs" and op: "insert_overlay_as path k bits u g fs = (r, fs')" and k: "k \<noteq> EmptyNode"
  shows "ramfs_ok fs'"
  using insert_outcome [OF ok op]
proof (elim disjE exE conjE)
  fix slot assume s: "slot_for fs path slot" and short: "length path \<le> 256"
    and fs': "fs' = fs\<lparr>overlay := (overlay fs)[slot := \<lparr>on_path = path, on_kind = k, on_length = 0,
            on_start = 0, on_capacity = 0, on_mode = bits, on_uid = u, on_gid = g\<rparr>]\<rparr>"
  show ?thesis
    by (rule ramfs_ok_update [OF ok s _ _ _ _ _, of "\<lparr>on_path = path, on_kind = k, on_length = 0,
            on_start = 0, on_capacity = 0, on_mode = bits, on_uid = u, on_gid = g\<rparr>"])
      (simp_all add: fs' k region_for_def short)
qed (use ok in simp)

text \<open>What a write to \<open>p\<close> may do: fail and change no file, or succeed with the contents \<open>bytes\<close>.\<close>

definition changes_file :: "ramfs \<Rightarrow> str \<Rightarrow> u8 list \<Rightarrow> ramfs \<Rightarrow> bool" where
  "changes_file fs p bytes fs' \<longleftrightarrow> ramfs_ok fs' \<and> (\<forall>q q'. canonical q = Some q' \<longrightarrow> \<not> is_child q' p \<longrightarrow>
     read_from_overlay fs' q = (if q' = p then Some bytes else read_from_overlay fs q))"

definition changes_none :: "ramfs \<Rightarrow> ramfs \<Rightarrow> bool" where
  "changes_none fs fs' \<longleftrightarrow> ramfs_ok fs' \<and> (\<forall>q. read_from_overlay fs' q = read_from_overlay fs q)"

lemma changes_none_refl: "ramfs_ok fs \<Longrightarrow> changes_none fs fs"
  by (simp add: changes_none_def)

lemma changes_fileI:
  assumes ok: "ramfs_ok fs" and slot: "slot_for fs p slot" and n: "on_path n = p" "on_kind n = FileNode"
    and ov: "overlay fs' = (overlay fs)[slot := n]" and arch: "archive fs' = archive fs"
    and region: "region_for fs slot (on_start n) (on_capacity n) (file_data_used fs')" and len: "on_length n \<le> on_capacity n"
    and data: "length (file_data fs') = length (file_data fs)"
      "\<And>a b. b \<le> on_start n \<or> on_start n + on_capacity n \<le> a \<Longrightarrow> slice a b (file_data fs') = slice a b (file_data fs)"
    and contents: "slice (on_start n) (on_start n + on_length n) (file_data fs') = bytes"
    and path: "canonical p = Some p" "length p \<le> 256"
  shows "changes_file fs p bytes fs'"
proof -
  have k: "on_kind n \<noteq> EmptyNode" using n(2) by simp
  have "ramfs_ok fs'" by (rule ramfs_ok_update [OF ok slot n(1) k ov len region data(1) path(2)])
  moreover have "read_from_overlay fs' q = Some bytes" if "canonical q = Some p" for q
    using read_written [OF ok slot n ov path(1)] read_canonical [OF that] contents by simp
  moreover have "read_from_overlay fs' q = read_from_overlay fs q" if "canonical q = Some q'" "q' \<noteq> p" "\<not> is_child q' p" for q q'
    by (rule read_other [OF ok slot n(1) k ov arch region data(2) that])
  ultimately show ?thesis unfolding changes_file_def by auto
qed

lemma changes_noneI:
  assumes ok: "ramfs_ok fs" and "overlay fs' = overlay fs" "archive fs' = archive fs"
    and used: "file_data_used fs \<le> file_data_used fs'" "file_data_used fs' \<le> overlay_data_capacity"
    and data: "length (file_data fs') = length (file_data fs)"
      "\<And>a b. b \<le> file_data_used fs \<Longrightarrow> slice a b (file_data fs') = slice a b (file_data fs)"
  shows "changes_none fs fs'"
proof -
  have "ramfs_ok fs'" using ok used data(1) assms(2) unfolding ramfs_ok_def by fastforce
  then show ?thesis using read_unused [OF ok assms(2,3) data(2)] by (simp add: changes_none_def)
qed

lemma reusable_slot:
  assumes ok: "ramfs_ok fs" and "reusable fs p n"
  shows "\<exists>slot. file_slot fs p = Some slot \<and> n \<le> on_capacity (overlay fs ! slot) \<and> old_capacity fs p = on_capacity (overlay fs ! slot)"
  using assms by (auto simp: reusable_def old_capacity_def)

lemma slot_unique:
  assumes ok: "ramfs_ok fs" and "i < max_overlay_nodes" "j < max_overlay_nodes" "on_kind (overlay fs ! i) \<noteq> EmptyNode"
    "on_kind (overlay fs ! j) \<noteq> EmptyNode" "on_path (overlay fs ! i) = on_path (overlay fs ! j)"
  shows "i = j"
  using ramfs_okD(6) [OF ok] assms(2-) by blast

lemma reusable_slot_for:
  assumes ok: "ramfs_ok fs" and reuse: "reusable fs p n" and slot: "slot_for fs p slot"
  shows "file_slot fs p = Some slot"
proof -
  obtain t where t: "file_slot fs p = Some t" using reusable_slot [OF ok reuse] by blast
  note ft = file_slot_Some [OF ok t]
  have "t = slot" using slot ft(1-4) by (intro slot_unique [OF ok]) (auto simp: slot_for_def)
  then show ?thesis using t by simp
qed

lemma store_contents_outcome:
  assumes ok: "ramfs_ok fs" and path: "canonical p = Some p" and op: "store_contents p bytes bits u g fs = (r, fs')"
  shows "(\<exists>e. r = Inl e) \<and> changes_none fs fs' \<or> r = Inr () \<and> changes_file fs p bytes fs'"
proof -
  let ?reuse = "reusable fs p (length bytes)"
  define cap where "cap = (if ?reuse then old_capacity fs p else if bytes = [] then 0
      else max (max (saturating_mul (old_capacity fs p) 2) (length bytes)) 4096)"
  define start where "start = (if ?reuse then on_start (overlay fs ! the (file_slot fs p)) else file_data_used fs)"
  define fs1 where "fs1 = fs\<lparr>file_data := splice start bytes (file_data fs),
      file_data_used := if ?reuse then file_data_used fs else start + cap\<rparr>"
  have len: "length bytes \<le> cap" by (auto simp: cap_def reusable_def)
  show ?thesis
  proof (cases "overlay_data_capacity - file_data_used fs < cap")
    case True
    then show ?thesis
      using op changes_none_refl [OF ok] unfolding store_contents_def cap_def [symmetric] Let_def by auto
  next
    case room: False
    obtain ri fs2 where ins: "insert_overlay_as p FileNode bits u g fs1 = (ri, fs2)" by fastforce
    have region: "region_for fs slot start cap (file_data_used fs1)" if "?reuse \<longrightarrow> file_slot fs p = Some slot" for slot
    proof (cases ?reuse)
      case True
      then show ?thesis using that file_slot_Some(2) [OF ok, of p slot]
        by (auto simp: region_for_def start_def cap_def fs1_def old_capacity_def)
    next
      case False
      then show ?thesis using room ramfs_okD(3) [OF ok] by (auto simp: region_for_def start_def fs1_def)
    qed
    have fit: "start + cap \<le> overlay_data_capacity" "file_data_used fs1 \<le> overlay_data_capacity" "file_data_used fs \<le> file_data_used fs1"
    proof -
      obtain slot where s: "slot < max_overlay_nodes" "?reuse \<longrightarrow> file_slot fs p = Some slot"
      proof (cases ?reuse)
        case True
        then show ?thesis using reusable_slot [OF ok True] file_slot_Some(1) [OF ok] that by blast
      next
        case False
        then show ?thesis using that [of 0] by (simp add: max_overlay_nodes_def)
      qed
      from region_bounds [OF ok s(1) region [OF s(2)]]
      show "start + cap \<le> overlay_data_capacity" "file_data_used fs1 \<le> overlay_data_capacity" "file_data_used fs \<le> file_data_used fs1" by simp_all
    qed
    have data: "length (file_data fs1) = length (file_data fs)"
      "slice start (start + length bytes) (file_data fs1) = bytes"
      "\<And>a b. b \<le> start \<or> start + cap \<le> a \<Longrightarrow> slice a b (file_data fs1) = slice a b (file_data fs)"
      using fit(1) len ramfs_okD(2) [OF ok] splice_elsewhere [OF _ len, of start "file_data fs"] by (simp_all add: fs1_def)
    have ov1: "overlay fs1 = overlay fs" "archive fs1 = archive fs" by (simp_all add: fs1_def)
    have ok1: "ramfs_ok fs1"
      using ok fit data(1) ov1(1) unfolding ramfs_ok_def by fastforce
    note out = insert_outcome [OF ok1 ins]
    show ?thesis
    proof (cases ri)
      case (Inl e)
      then have e: "fs2 = fs1" "fs' = fs1" "r = Inl e"
        using out op room ins unfolding store_contents_def cap_def [symmetric] start_def [symmetric] fs1_def [symmetric] Let_def
        by auto
      have "\<not> ?reuse"
      proof
        assume ?reuse
        then obtain slot where s: "file_slot fs p = Some slot" using reusable_slot [OF ok] by blast
        note fsl = file_slot_Some [OF ok s]
        have "position (\<lambda>node. on_kind node \<noteq> EmptyNode \<and> on_path node = p) (overlay fs1) \<noteq> None"
          using fsl(1-3) ramfs_okD(1) [OF ok] unfolding position_None_iff ov1(1)
          by (metis node_kind.distinct(1) nth_mem)
        then have "256 < length p" using ins Inl by (auto simp: insert_overlay_as_def split: if_splits option.splits)
        then show False using ramfs_okD(7) [OF ok fsl(1)] fsl(2,3) by simp
      qed
      then have "start = file_data_used fs" by (simp add: start_def)
      then have "changes_none fs fs1" using ov1 fit(2,3) data by (intro changes_noneI [OF ok]) simp_all
      then show ?thesis using e by simp
    next
      case (Inr x)
      define n0 where "n0 = \<lparr>on_path = p, on_kind = FileNode, on_length = 0, on_start = 0, on_capacity = 0, on_mode = bits,
        on_uid = u, on_gid = g\<rparr>"
      obtain slot where slot: "slot_for fs1 p slot" "fs2 = fs1\<lparr>overlay := (overlay fs1)[slot := n0]\<rparr>" "length p \<le> 256"
        using out Inr unfolding n0_def [symmetric] by auto
      have ok2: "ramfs_ok fs2" by (rule insert_keeps_ok [OF ok1 ins]) simp
      have l: "length (overlay fs1) = max_overlay_nodes" by (rule ramfs_okD(1) [OF ok1])
      have s: "slot < max_overlay_nodes" using slot(1) by (simp add: slot_for_def)
      have "overlay_node_at fs2 p = Some n0"
        using overlay_node_at_update [OF ok1 slot(1), of n0 fs2 p] slot(2) by (simp add: n0_def)
      then obtain slot' where s': "file_slot fs2 p = Some slot'" using file_slot_node [OF ok2] by (fastforce simp: n0_def)
      have "on_kind (overlay fs2 ! slot) = FileNode" "on_path (overlay fs2 ! slot) = p" using s l by (simp_all add: slot(2) n0_def)
      then have "slot' = slot"
        using file_slot_Some(1-3) [OF ok2 s'] s by (intro slot_unique [OF ok2]) simp_all
      define n where "n = n0\<lparr>on_start := start, on_length := length bytes, on_capacity := cap\<rparr>"
      have fs': "r = Inr ()" "fs' = fs1\<lparr>overlay := (overlay fs)[slot := n]\<rparr>"
        using op room ins Inr s' \<open>slot' = slot\<close> s l
        unfolding store_contents_def cap_def [symmetric] start_def [symmetric] fs1_def [symmetric] Let_def
        by (auto simp: slot(2) n_def ov1)
      have slot0: "slot_for fs p slot" using slot(1) by (simp add: slot_for_def overlay_node_at_def ov1)
      have "file_slot fs p = Some slot" if ?reuse using reusable_slot_for [OF ok that slot0] .
      then have reg: "region_for fs slot start cap (file_data_used fs1)" using region by blast
      have "changes_file fs p bytes fs'"
        by (rule changes_fileI [OF ok slot0, of n])
          (use path slot(3) reg len data ov1 in \<open>simp_all add: fs' n_def n0_def\<close>)
      then show ?thesis using fs'(1) by simp
    qed
  qed
qed

text \<open>A write into a file; the buffer first receives the old contents when the file moves.\<close>

lemma slice_take: "slice a b xs = take (b - a) (drop a xs)"
  by (simp add: slice_def)

lemma spliced_contents:
  assumes "slice start (start + length original) xs = original" "offset \<le> length original"
    "start + max (length original) (offset + length input) \<le> length xs" "start + length original \<le> length xs"
  shows "slice start (start + max (length original) (offset + length input)) (splice (start + offset) input xs) =
    take offset original @ input @ drop (offset + length input) original"
proof -
  obtain A B where xs: "xs = A @ original @ B" "length A = start"
  proof
    have "drop start xs = take (length original) (drop start xs) @ drop (length original) (drop start xs)" by (rule append_take_drop_id [symmetric])
    then have "drop start xs = original @ drop (start + length original) xs"
      using assms(1) by (simp add: slice_take add.commute)
    then show "xs = take start xs @ original @ drop (start + length original) xs" by (metis append_take_drop_id)
    show "length (take start xs) = start" using assms(4) by simp
  qed
  define M where "M = take offset original @ input @ drop (offset + length input) original"
  have "splice (start + offset) input xs = A @ M @ drop (offset + length input - length original) B"
    using assms(2) by (simp add: splice_def xs(1) M_def) (simp add: xs(2) [symmetric])
  moreover have "length M = max (length original) (offset + length input)" using assms(2) by (simp add: M_def)
  ultimately have "slice start (start + max (length original) (offset + length input)) (splice (start + offset) input xs) = M"
    by (simp add: slice_take xs(2))
  then show ?thesis by (simp add: M_def)
qed

lemma store_range_outcome:
  assumes ok: "ramfs_ok fs" and path: "canonical p = Some p" "length p \<le> 256" and old: "read_from_overlay fs p = Some original"
    and offset: "offset \<le> length original" and op: "store_range p offset input original fs = (r, fs')"
  shows "(\<exists>e. r = Inl e) \<and> changes_none fs fs' \<or>
    r = Inr (length input) \<and> changes_file fs p (take offset original @ input @ drop (offset + length input) original) fs'"
proof -
  let ?len = "max (length original) (offset + length input)"
  let ?reuse = "reusable fs p ?len"
  define cap where "cap = (if ?reuse then old_capacity fs p else if ?len = 0 then 0
      else min (max (max (saturating_mul (old_capacity fs p) 2) ?len) 4096) max_overlay_file_size)"
  define start where "start = (if ?reuse then on_start (overlay fs ! the (file_slot fs p)) else file_data_used fs)"
  define fs0 where "fs0 = (if ?reuse then fs else fs\<lparr>file_data := splice start original (file_data fs), file_data_used := start + cap\<rparr>)"
  define fs1 where "fs1 = fs0\<lparr>file_data := splice (start + offset) input (file_data fs0)\<rparr>"
  show ?thesis
  proof (cases "cap < ?len \<or> overlay_data_capacity - file_data_used fs < cap")
    case True
    then show ?thesis
      using op changes_none_refl [OF ok] unfolding store_range_def cap_def [symmetric] Let_def by auto
  next
    case room: False
    then have len: "?len \<le> cap" by (intro leI) simp
    have region: "region_for fs slot start cap (file_data_used fs1)" if "?reuse \<longrightarrow> file_slot fs p = Some slot" for slot
    proof (cases ?reuse)
      case True
      then show ?thesis using that file_slot_Some(2) [OF ok, of p slot]
        by (auto simp: region_for_def start_def cap_def fs1_def fs0_def old_capacity_def)
    next
      case False
      then show ?thesis using room ramfs_okD(3) [OF ok] by (auto simp: region_for_def start_def fs1_def fs0_def)
    qed
    have fit: "start + cap \<le> overlay_data_capacity" "file_data_used fs1 \<le> overlay_data_capacity" "file_data_used fs \<le> file_data_used fs1"
    proof -
      obtain slot where s: "slot < max_overlay_nodes" "?reuse \<longrightarrow> file_slot fs p = Some slot"
      proof (cases ?reuse)
        case True
        then show ?thesis using reusable_slot [OF ok True] file_slot_Some(1) [OF ok] that by blast
      next
        case False
        then show ?thesis using that [of 0] by (simp add: max_overlay_nodes_def)
      qed
      from region_bounds [OF ok s(1) region [OF s(2)]]
      show "start + cap \<le> overlay_data_capacity" "file_data_used fs1 \<le> overlay_data_capacity" "file_data_used fs \<le> file_data_used fs1" by simp_all
    qed
    have buffer: "length (file_data fs) = overlay_data_capacity" by (rule ramfs_okD(2) [OF ok])
    have ov1: "overlay fs1 = overlay fs" "archive fs1 = archive fs" by (simp_all add: fs1_def fs0_def)
    have l0: "length (file_data fs0) = length (file_data fs)" using fit(1) len buffer by (simp add: fs0_def)
    have l1: "length (file_data fs1) = length (file_data fs)" using fit(1) len buffer l0 by (simp add: fs1_def)
    have outside: "slice a b (file_data fs1) = slice a b (file_data fs)" if "b \<le> start \<or> start + cap \<le> a" for a b
    proof -
      have "slice a b (file_data fs0) = slice a b (file_data fs)"
        using splice_elsewhere [of start original "file_data fs" cap b a] that fit(1) len buffer by (simp add: fs0_def)
      moreover have "slice a b (file_data fs1) = slice a b (file_data fs0)"
      proof (cases "b \<le> start")
        case True
        then show ?thesis using fit(1) len buffer l0 by (simp add: fs1_def)
      next
        case False
        then show ?thesis using that fit(1) len buffer l0 by (simp add: fs1_def)
      qed
      ultimately show ?thesis by simp
    qed
    have inside: "slice start (start + length original) (file_data fs0) = original"
    proof (cases ?reuse)
      case True
      then obtain slot where s: "file_slot fs p = Some slot" using reusable_slot [OF ok] by blast
      note fsl = file_slot_Some [OF ok s]
      have "original = node_data fs (overlay fs ! slot)"
        using old fsl by (simp add: read_from_overlay_def path is_hidden_def split: if_splits)
      then show ?thesis
        using True s ramfs_okD(4) [OF ok fsl(1,2)] buffer ramfs_okD(3) [OF ok] by (auto simp: fs0_def start_def node_data_def)
    next
      case False
      then show ?thesis using fit(1) len buffer by (simp add: fs0_def)
    qed
    have contents: "slice start (start + ?len) (file_data fs1) = take offset original @ input @ drop (offset + length input) original"
    proof -
      have "start + ?len \<le> length (file_data fs0)" "start + length original \<le> length (file_data fs0)"
        using fit(1) len buffer l0 by linarith+
      from spliced_contents [OF inside offset this] show ?thesis by (simp add: fs1_def)
    qed
    let ?slots = "case file_slot fs p of Some slot \<Rightarrow> Some slot
              | None \<Rightarrow> (case position (\<lambda>node. on_kind node \<noteq> EmptyNode \<and> on_path node = p) (overlay fs) of
                  Some slot \<Rightarrow> Some slot
                | None \<Rightarrow> position (\<lambda>node. on_kind node = EmptyNode) (overlay fs))"
    show ?thesis
    proof (cases ?slots)
      case None
      then have "\<not> ?reuse" by (auto simp: reusable_def split: option.splits)
      then have "start = file_data_used fs" by (simp add: start_def)
      then have "changes_none fs fs1" using ov1 fit(2,3) l1 outside by (intro changes_noneI [OF ok]) simp_all
      moreover have "r = Inl FsNoSpace \<and> fs' = fs1"
        using op room None
        unfolding store_range_def cap_def [symmetric] start_def [symmetric] fs0_def [symmetric] fs1_def [symmetric] Let_def by auto
      ultimately show ?thesis by simp
    next
      case (Some slot)
      have slot0: "slot_for fs p slot"
      proof (cases "file_slot fs p")
        case None
        then show ?thesis using Some insertion_slot [OF ok] by simp
      qed (use Some file_slot_Some(5) [OF ok] in simp)
      then have reg: "region_for fs slot start cap (file_data_used fs1)" using region reusable_slot_for [OF ok _ slot0] by blast
      define n where "n = (let md = metadata_overlay fs p in
              \<lparr>on_path = p, on_kind = FileNode, on_length = ?len, on_start = start, on_capacity = cap,
               on_mode = (case md of None \<Rightarrow> 420 | Some md \<Rightarrow> meta_mode md),
               on_uid = (case md of None \<Rightarrow> 0 | Some md \<Rightarrow> meta_uid md),
               on_gid = (case md of None \<Rightarrow> 0 | Some md \<Rightarrow> meta_gid md)\<rparr>)"
      have n: "on_path n = p" "on_kind n = FileNode" "on_length n = ?len" "on_start n = start" "on_capacity n = cap"
        by (simp_all add: n_def Let_def)
      have r: "r = Inr (length input)" "fs' = fs1\<lparr>overlay := (overlay fs)[slot := n]\<rparr>"
        using op room Some
        unfolding store_range_def cap_def [symmetric] start_def [symmetric] fs0_def [symmetric] fs1_def [symmetric] n_def Let_def
        by (auto simp: fs1_def fs0_def)
      have "changes_file fs p (take offset original @ input @ drop (offset + length input) original) fs'"
        by (rule changes_fileI [OF ok slot0 n(1,2)]) (use n r reg len l1 outside contents path ov1 in simp_all)
      then show ?thesis using r(1) by simp
    qed
  qed
qed

section \<open>Paths that can be read are short\<close>

lemma length_header_field: "length (header_field xs) \<le> length xs"
  by (simp add: header_field_def length_takeWhile_le)

lemma path_matches_short:
  assumes "path_matches header wanted = Some True" shows "length wanted \<le> 256"
proof -
  have "length (header_field (take 100 header)) \<le> 100" "length (header_field (slice 345 500 header)) \<le> 155"
    using length_header_field [of "take 100 header"] length_header_field [of "slice 345 500 header"] by simp_all
  then show ?thesis
    using assms by (auto simp: path_matches_def Let_def strip_prefix_Some_iff split: if_splits option.splits)
qed

lemma find_loop_short: "find_loop bytes wanted offset = Some d \<Longrightarrow> length wanted \<le> 256"
proof (induction bytes wanted offset rule: find_loop.induct)
  case (1 bytes wanted offset)
  from 1(2) show ?case
    using 1(1) path_matches_short
    by (subst (asm) find_loop.simps) (auto simp: Let_def split: option.split_asm if_split_asm)
qed

lemma canonical_no_slash: "canonical p = Some p \<Longrightarrow> trim_start slash p = p"
  using canonical_again [of p p]
  by (cases p) (auto simp: canonical_def trim_start_def Let_def strip_prefix_def split: if_splits option.splits)

lemma read_short:
  assumes ok: "ramfs_ok fs" and "canonical p = Some p" "read_from_overlay fs p = Some d"
  shows "length p \<le> 256"
proof (cases "overlay_node_at fs p")
  case None
  then obtain a where "archive_find a p = Some d"
    using assms(2,3) by (auto simp: read_from_overlay_def Option.bind_eq_Some_conv split: if_splits)
  then show ?thesis
    using find_loop_short canonical_no_slash [OF assms(2)] by (simp add: archive_find_def)
next
  case (Some node)
  then obtain i where "i < max_overlay_nodes" "overlay fs ! i = node" "on_kind node \<noteq> EmptyNode" "on_path node = p"
    using overlay_node_at_Some [OF ok] by blast
  then show ?thesis using ramfs_okD(7) [OF ok] by blast
qed

section \<open>The operations\<close>

lemma write_file_outcome:
  assumes ok: "ramfs_ok fs" and op: "write_file_overlay path bytes u g fs = (r, fs')"
  shows "(\<exists>e. r = Inl e) \<and> changes_none fs fs' \<or>
    r = Inr () \<and> (\<exists>p. canonical path = Some p \<and> changes_file fs p bytes fs')"
proof (cases "canonical path")
  case None
  then show ?thesis using op changes_none_refl [OF ok] by (auto simp: write_file_overlay_def split: if_splits)
next
  case (Some p)
  note c = canonical_again [OF Some]
  consider e where "r = Inl e" "fs' = fs" | bits u g where "store_contents p bytes bits u g fs = (r, fs')"
    using op Some unfolding write_file_overlay_def
    by (auto dest!: sym [of "Inl _"] split: if_split_asm option.split_asm sum.split_asm)
  then show ?thesis
  proof cases
    case 1
    then show ?thesis using changes_none_refl [OF ok] by simp
  next
    case 2
    then show ?thesis using store_contents_outcome [OF ok c] Some by blast
  qed
qed

lemma write_at_outcome:
  assumes ok: "ramfs_ok fs" and op: "write_at_overlay path offset input fs = (r, fs')"
  shows "(\<exists>e. r = Inl e) \<and> changes_none fs fs' \<or>
    r = Inr (length input) \<and> (\<exists>p original. canonical path = Some p \<and> read_from_overlay fs path = Some original \<and>
      offset \<le> length original \<and> changes_file fs p (take offset original @ input @ drop (offset + length input) original) fs')"
proof (cases "canonical path")
  case None
  then show ?thesis using op changes_none_refl [OF ok] by (auto simp: write_at_overlay_def split: if_splits option.splits)
next
  case (Some p)
  note c = canonical_again [OF Some]
  consider e where "r = Inl e" "fs' = fs"
    | original where "read_from_overlay fs p = Some original" "offset \<le> length original" "store_range p offset input original fs = (r, fs')"
    using op Some unfolding write_at_overlay_def
    by (auto simp: not_less dest!: sym [of "Inl _"] split: if_split_asm option.split_asm sum.split_asm)
  then show ?thesis
  proof cases
    case 1
    then show ?thesis using changes_none_refl [OF ok] by simp
  next
    case 2
    from store_range_outcome [OF ok c read_short [OF ok c 2(1)] 2] show ?thesis
      using Some 2(1,2) read_canonical [OF Some] by auto
  qed
qed

definition keeps_others :: "ramfs \<Rightarrow> str \<Rightarrow> ramfs \<Rightarrow> bool" where
  "keeps_others fs p fs' \<longleftrightarrow> ramfs_ok fs' \<and> (\<forall>q q'. canonical q = Some q' \<longrightarrow> q' \<noteq> p \<longrightarrow> \<not> is_child q' p \<longrightarrow>
     read_from_overlay fs' q = read_from_overlay fs q)"

lemma keeps_others_refl: "ramfs_ok fs \<Longrightarrow> keeps_others fs p fs"
  by (simp add: keeps_others_def)

lemma insert_keeps:
  assumes ok: "ramfs_ok fs" and op: "insert_overlay_as p k bits u g fs = (r, fs')" and k: "k \<noteq> EmptyNode"
  shows "(\<exists>e. r = Inl e) \<and> fs' = fs \<or>
    r = Inr () \<and> keeps_others fs p fs' \<and> archive fs' = archive fs \<and> disk_sectors fs' = disk_sectors fs \<and>
    (\<exists>n. overlay_node_at fs' p = Some n \<and> on_kind n = k \<and> on_length n = 0 \<and> on_start n = 0)"
  using insert_outcome [OF ok op]
proof (elim disjE exE conjE)
  fix slot assume s: "slot_for fs p slot" and r: "r = Inr ()"
    and fs': "fs' = fs\<lparr>overlay := (overlay fs)[slot := \<lparr>on_path = p, on_kind = k, on_length = 0,
            on_start = 0, on_capacity = 0, on_mode = bits, on_uid = u, on_gid = g\<rparr>]\<rparr>"
  define n where "n = \<lparr>on_path = p, on_kind = k, on_length = 0,
            on_start = 0, on_capacity = 0, on_mode = bits, on_uid = u, on_gid = g\<rparr>"
  have ov: "overlay fs' = (overlay fs)[slot := n]" "archive fs' = archive fs" "disk_sectors fs' = disk_sectors fs" by (simp_all add: fs' n_def)
  have n: "on_path n = p" "on_kind n \<noteq> EmptyNode" by (simp_all add: n_def k)
  have "region_for fs slot 0 0 (file_data_used fs)" by (simp add: region_for_def)
  from read_other [OF ok s n ov(1,2) this] have "keeps_others fs p fs'"
    using insert_keeps_ok [OF ok op k] by (simp add: keeps_others_def fs')
  moreover have "overlay_node_at fs' p = Some n" using overlay_node_at_update [OF ok s n ov(1), of p] by simp
  ultimately show ?thesis using r ov by (auto simp: n_def)
qed simp

lemma create_file_outcome:
  assumes ok: "ramfs_ok fs" and op: "create_file_overlay path bits u g fs = (r, fs')"
  shows "((\<exists>e. r = Inl e) \<or> r = Inr () \<and> is_file_overlay fs path) \<and> fs' = fs \<or>
    r = Inr () \<and> (\<exists>p. canonical path = Some p \<and> changes_file fs p [] fs')"
proof (cases "canonical path")
  case None
  then show ?thesis using op by (auto simp: create_file_overlay_def)
next
  case (Some p)
  note c = canonical_again [OF Some]
  define b where "b = bits AND 511"
  have f: "is_file_overlay fs path = is_file_overlay fs p" by (simp add: is_file_overlay_def Some c)
  consider e where "r = Inl e" "fs' = fs" | "r = Inr ()" "is_file_overlay fs p" "fs' = fs"
    | "insert_overlay_as p FileNode b u g fs = (r, fs')"
  proof -
    let ?r = "(r, fs')"
    have op: "(if p = dev_path \<or> p = disk_path then (Inl FsInvalidPath, fs)
       else if p = [] then (Inl FsIsDirectory, fs)
       else if is_file_overlay fs p then (Inr (), fs)
       else if is_directory_overlay fs p then (Inl FsIsDirectory, fs)
       else (case ensure_parent_directory fs p of
           Inl e \<Rightarrow> (Inl e, fs)
         | Inr _ \<Rightarrow> insert_overlay_as p FileNode b u g fs)) = ?r"
      using op unfolding create_file_overlay_def Some option.case b_def [symmetric] .
    show ?thesis
    proof (cases "ensure_parent_directory fs p")
      case (Inl e)
      show ?thesis using op that(1,2) unfolding Inl sum.case by (simp only: split: if_split_asm) blast+
    next
      case (Inr x)
      show ?thesis
      proof (cases "p = dev_path \<or> p = disk_path \<or> p = [] \<or> is_file_overlay fs p \<or> is_directory_overlay fs p")
        case True
        then show ?thesis using op that(1,2) unfolding Inr sum.case by (simp only: split: if_split_asm) blast+
      next
        case False
        then have "insert_overlay_as p FileNode b u g fs = ?r" using op unfolding Inr sum.case by (simp only: de_Morgan_disj if_False simp_thms)
        then show ?thesis by (rule that(3))
      qed
    qed
  qed
  then show ?thesis
  proof cases
    case 3
    have "FileNode \<noteq> EmptyNode" by simp
    from insert_keeps [OF ok 3 this] show ?thesis
    proof (elim disjE conjE exE)
      fix n assume r: "r = Inr ()" and k: "keeps_others fs p fs'"
        and n: "overlay_node_at fs' p = Some n" "on_kind n = FileNode" "on_length n = 0" "on_start n = 0"
      have new: "read_from_overlay fs' q = Some []" if "canonical q = Some p" for q
        using that n by (simp add: read_from_overlay_def is_hidden_def node_data_def slice_none)
      have "changes_file fs p [] fs'"
        unfolding changes_file_def
      proof (intro conjI allI impI)
        show "ramfs_ok fs'" using k by (simp add: keeps_others_def)
        fix q q' assume q: "canonical q = Some q'" "\<not> is_child q' p"
        show "read_from_overlay fs' q = (if q' = p then Some [] else read_from_overlay fs q)"
          using new q k by (cases "q' = p") (simp_all add: keeps_others_def)
      qed
      then show ?thesis using r Some by blast
    qed simp_all
  qed (use f in simp_all)
qed

lemma create_one_outcome:
  assumes ok: "ramfs_ok fs" and op: "create_directory_one p u g fs = (r, fs')"
  shows "(\<exists>e. r = Inl e) \<and> fs' = fs \<or> r = Inr () \<and> ramfs_ok fs' \<and> keeps_others fs p fs' \<and>
    (\<exists>n. overlay_node_at fs' p = Some n \<and> on_kind n \<in> {DirectoryNode, OpaqueDirectory})"
proof -
  consider e where "r = Inl e" "fs' = fs"
    | k where "k \<in> {DirectoryNode, OpaqueDirectory}" "insert_overlay_as p k 493 u g fs = (r, fs')"
    using op unfolding create_directory_one_def Let_def
    by (auto dest!: sym [of "Inl _"] split: if_split_asm sum.split_asm option.split_asm)
  then show ?thesis
  proof cases
    case 2
    then have "k \<noteq> EmptyNode" by auto
    from insert_keeps [OF ok 2(2) this] show ?thesis using 2(1) by (auto simp: keeps_others_def)
  qed simp
qed

lemma create_parents_ok:
  "ramfs_ok fs \<Longrightarrow> create_parents components path u g fs = Some (r, fs') \<Longrightarrow> ramfs_ok fs'"
proof (induction components path u g fs rule: create_parents.induct)
  case (2 component components path u g fs)
  let ?path = "(if path \<noteq> [] then path @ [slash] else path) @ component"
  obtain r1 fs1 where one: "create_directory_one ?path u g fs = (r1, fs1)" by fastforce
  then have ok1: "ramfs_ok fs1" using create_one_outcome [OF 2(3) one] 2(3) by auto
  from 2(4) one show ?case
    using 2(1,2) 2(3) ok1 by (auto simp: Let_def split: if_split_asm sum.split_asm)
qed simp

lemma create_directory_ok:
  assumes ok: "ramfs_ok fs" and op: "create_directory_overlay path parents u g fs = Some (r, fs')"
  shows "ramfs_ok fs'"
  using op create_parents_ok [OF ok] create_one_outcome [OF ok] ok
  unfolding create_directory_overlay_def by (fastforce split: option.split_asm if_split_asm)

section \<open>Removal\<close>

lemma is_child_trans: "is_child a b \<Longrightarrow> is_child b c \<Longrightarrow> is_child a c"
  by (auto simp: is_child_def strip_prefix_Some_iff split: if_splits option.splits)

lemma remove_nodes_ok:
  assumes ok: "ramfs_ok fs" and fs': "fs' = fs\<lparr>overlay := map (\<lambda>node. if P node then empty_overlay_node else node) (overlay fs)\<rparr>"
  shows "ramfs_ok fs'"
proof -
  have l: "length (overlay fs) = max_overlay_nodes" by (rule ramfs_okD(1) [OF ok])
  have nth: "overlay fs' ! i = (if P (overlay fs ! i) then empty_overlay_node else overlay fs ! i)" if "i < max_overlay_nodes" for i
    using that l by (simp add: fs')
  have e: "on_kind empty_overlay_node = EmptyNode" by (simp add: empty_overlay_node_def)
  have kept: "overlay fs' ! i = overlay fs ! i" if "i < max_overlay_nodes" "on_kind (overlay fs' ! i) \<noteq> EmptyNode" for i
    using that nth e by (auto split: if_splits)
  have fields: "length (overlay fs') = max_overlay_nodes" "file_data fs' = file_data fs" "file_data_used fs' = file_data_used fs"
    by (simp_all add: fs' l)
  have nonempty: "on_kind n = FileNode \<Longrightarrow> on_kind n \<noteq> EmptyNode" for n by simp
  have kept_file: "overlay fs' ! i = overlay fs ! i" if "i < max_overlay_nodes" "on_kind (overlay fs' ! i) = FileNode" for i
    using kept that nonempty by blast
  show ?thesis
    unfolding ramfs_ok_def fields
  proof (intro conjI allI impI)
    fix i assume i: "i < max_overlay_nodes" "on_kind (overlay fs' ! i) = FileNode"
    show "on_length (overlay fs' ! i) \<le> on_capacity (overlay fs' ! i)"
      "on_start (overlay fs' ! i) + on_capacity (overlay fs' ! i) \<le> file_data_used fs"
      using kept_file [OF i] ramfs_okD(4) [OF ok i(1)] i(2) by simp_all
  next
    fix i assume i: "i < max_overlay_nodes" "on_kind (overlay fs' ! i) \<noteq> EmptyNode"
    show "length (on_path (overlay fs' ! i)) \<le> 256" using kept [OF i] ramfs_okD(7) [OF ok i(1)] i(2) by simp
  next
    fix i j assume ij: "i < max_overlay_nodes" "j < max_overlay_nodes" "i \<noteq> j"
    { assume k: "on_kind (overlay fs' ! i) = FileNode" "on_kind (overlay fs' ! j) = FileNode"
      show "apart (overlay fs' ! i) (overlay fs' ! j)"
        using kept_file [OF ij(1) k(1)] kept_file [OF ij(2) k(2)] ramfs_okD(5) [OF ok ij] k by simp }
    { assume k: "on_kind (overlay fs' ! i) \<noteq> EmptyNode" "on_kind (overlay fs' ! j) \<noteq> EmptyNode"
      show "on_path (overlay fs' ! i) \<noteq> on_path (overlay fs' ! j)"
        using kept [OF ij(1) k(1)] kept [OF ij(2) k(2)] ramfs_okD(6) [OF ok ij] k by simp }
  qed (use ramfs_okD(2,3) [OF ok] in simp_all)
qed

lemma find_map_removed:
  assumes "\<And>node. node \<in> set xs \<Longrightarrow> P node \<Longrightarrow> \<not> Q node" "\<not> Q e"
  shows "find Q (map (\<lambda>node. if P node then e else node) xs) = find Q xs"
  using assms by (induction xs) auto

lemma remove_nodes_read:
  assumes ok: "ramfs_ok fs"
    and fs': "fs' = fs\<lparr>overlay := map (\<lambda>node. if on_kind node \<noteq> EmptyNode \<and> (on_path node = p \<or> is_child (on_path node) p)
      then empty_overlay_node else node) (overlay fs)\<rparr>"
    and q: "canonical q = Some q'" "q' \<noteq> p" "\<not> is_child q' p"
  shows "read_from_overlay fs' q = read_from_overlay fs q"
proof -
  have e: "on_kind empty_overlay_node = EmptyNode" by (simp add: empty_overlay_node_def)
  have node: "overlay_node_at fs' q' = overlay_node_at fs q'"
  proof -
    have ov: "overlay fs' = map (\<lambda>node. if on_kind node \<noteq> EmptyNode \<and> (on_path node = p \<or> is_child (on_path node) p)
      then empty_overlay_node else node) (overlay fs)" by (simp add: fs')
    show ?thesis unfolding overlay_node_at_def ov by (rule find_map_removed) (use q(2,3) e in auto)
  qed
  have "(\<exists>node \<in> set (overlay fs'). on_kind node = Whiteout \<and> (on_path node = q' \<or> is_child q' (on_path node)) \<or>
       on_kind node = OpaqueDirectory \<and> is_child q' (on_path node)) =
    (\<exists>node \<in> set (overlay fs). on_kind node = Whiteout \<and> (on_path node = q' \<or> is_child q' (on_path node)) \<or>
       on_kind node = OpaqueDirectory \<and> is_child q' (on_path node))"
    unfolding fs' using q(2,3) is_child_trans by (auto simp: e split: if_splits)
  then have "is_hidden fs' q' = is_hidden fs q'" unfolding is_hidden_def node by (simp split: option.split)
  moreover have "node_data fs' = node_data fs" by (simp add: node_data_def fs' fun_eq_iff)
  moreover have "archive fs' = archive fs" by (simp add: fs')
  ultimately show ?thesis by (simp add: read_from_overlay_def q(1) node split: option.split)
qed

text \<open>A removed path is neither a file nor a directory.\<close>

definition gone :: "ramfs \<Rightarrow> str \<Rightarrow> bool" where
  "gone fs path \<longleftrightarrow> read_from_overlay fs path = None \<and> \<not> is_file_overlay fs path \<and> \<not> is_directory_overlay fs path"

lemma remove_outcome:
  assumes ok: "ramfs_ok fs" and op: "remove_overlay path recursive fs = (r, fs')"
  shows "(\<exists>e. r = Inl e) \<and> fs' = fs \<or>
    r = Inr () \<and> (\<exists>p. canonical path = Some p \<and> keeps_others fs p fs' \<and> gone fs' path)"
proof (cases "canonical path")
  case None
  then show ?thesis using op by (auto simp: remove_overlay_def)
next
  case (Some p)
  note c = canonical_again [OF Some]
  let ?a = "case archive fs of None \<Rightarrow> False | Some a \<Rightarrow> archive_is_file a p \<or> archive_is_directory a p"
  let ?gone = "\<lambda>node. on_kind node \<noteq> EmptyNode \<and> (on_path node = p \<or> is_child (on_path node) p)"
  let ?rest = "fs\<lparr>overlay := map (\<lambda>node. if ?gone node then empty_overlay_node else node) (overlay fs)\<rparr>"
  let ?refused = "p = [] \<or> p = dev_path \<or> p = disk_path \<or> \<not> is_file_overlay fs p \<and> \<not> is_directory_overlay fs p \<or>
    is_directory_overlay fs p \<and> \<not> recursive \<and>
      (case list_directory_overlay fs p False 4096 of None \<Rightarrow> False | Some listing \<Rightarrow> listing \<noteq> [])"
  have refused: "\<exists>e. (r, fs') = (Inl e, fs)" if ?refused
    using op that unfolding remove_overlay_def Some option.case by (simp only: Let_def split: if_split_asm) blast+
  have accepted: "(r, fs') = (if ?a then insert_overlay p Whiteout fs else (Inr (), ?rest))" if "\<not> ?refused"
    using op that unfolding remove_overlay_def Some option.case by (simp only: Let_def if_False de_Morgan_disj) simp
  consider e where "r = Inl e" "fs' = fs"
    | "p \<noteq> dev_path" "p \<noteq> disk_path" ?a "insert_overlay p Whiteout fs = (r, fs')"
    | "p \<noteq> dev_path" "p \<noteq> disk_path" "\<not> ?a" "r = Inr ()" "fs' = ?rest"
  proof (cases ?refused)
    case True
    then show ?thesis using refused that(1) by blast
  next
    case False
    then have p: "p \<noteq> dev_path" "p \<noteq> disk_path" by simp_all
    show ?thesis
    proof (cases ?a)
      case True
      then show ?thesis using accepted [OF False] that(2) [OF p] by (simp only: if_True)
    next
      case a: False
      then have "(r, fs') = (Inr (), ?rest)" using accepted [OF False] by (simp only: if_False)
      then show ?thesis using that(3) [OF p a] by simp
    qed
  qed
  then show ?thesis
  proof cases
    case 1
    then show ?thesis by simp
  next
    case 2
    have "insert_overlay_as p Whiteout 420 0 0 fs = (r, fs')" using 2(4) by (simp add: insert_overlay_def)
    have "Whiteout \<noteq> EmptyNode" by simp
    from insert_keeps [OF ok \<open>insert_overlay_as p Whiteout 420 0 0 fs = (r, fs')\<close> this] show ?thesis
    proof (elim disjE conjE exE)
      fix n assume r: "r = Inr ()" and k: "keeps_others fs p fs'" and n: "overlay_node_at fs' p = Some n" "on_kind n = Whiteout"
      have "gone fs' path"
        using 2(1,2) n by (simp add: gone_def read_from_overlay_def is_file_overlay_def is_directory_overlay_def is_hidden_def Some)
      then show ?thesis using r k Some by blast
    qed simp_all
  next
    case 3
    have none: "overlay_node_at fs' p = None" by (auto simp: overlay_node_at_None 3(5) empty_overlay_node_def)
    have arch: "archive fs' = archive fs" "disk_sectors fs' = disk_sectors fs" by (simp_all add: 3(5))
    have nochild: "\<not> (\<exists>node \<in> set (overlay fs'). on_kind node \<in> {FileNode, DirectoryNode, OpaqueDirectory} \<and> is_child (on_path node) p)"
      by (auto simp: 3(5) empty_overlay_node_def)
    have a: "archive fs = Some a \<Longrightarrow> archive_find a p = None \<and> \<not> archive_is_directory a p" for a
      using 3(3) by (simp add: archive_is_file_def)
    have "gone fs' path"
      using 3(1,2) none nochild a
      by (auto simp: gone_def read_from_overlay_def is_file_overlay_def is_directory_overlay_def arch Some archive_is_file_def
        split: option.splits)
    moreover have "keeps_others fs p fs'"
      using remove_nodes_ok [OF ok 3(5)] remove_nodes_read [OF ok 3(5)] by (simp add: keeps_others_def)
    ultimately show ?thesis using Some 3(4) by blast
  qed
qed

section \<open>Runs\<close>

text \<open>
  The states of the mounted root: after the mount, any sequence of calls, successful or not. The
  disk may be announced at any time.
\<close>

inductive ramfs_run :: "ramfs \<Rightarrow> bool" where
  mount: "length (file_data fs) = overlay_data_capacity \<Longrightarrow> ramfs_run (mount_ramfs bytes fs)"
| disk: "ramfs_run fs \<Longrightarrow> ramfs_run (fs\<lparr>disk_sectors := d\<rparr>)"
| create_file: "ramfs_run fs \<Longrightarrow> create_file_overlay path bits u g fs = (r, fs') \<Longrightarrow> ramfs_run fs'"
| write_file: "ramfs_run fs \<Longrightarrow> write_file_overlay path bytes u g fs = (r, fs') \<Longrightarrow> ramfs_run fs'"
| write_at: "ramfs_run fs \<Longrightarrow> write_at_overlay path offset input fs = (n, fs') \<Longrightarrow> ramfs_run fs'"
| create_directory: "ramfs_run fs \<Longrightarrow> create_directory_overlay path parents u g fs = Some (r, fs') \<Longrightarrow> ramfs_run fs'"
| remove: "ramfs_run fs \<Longrightarrow> remove_overlay path recursive fs = (r, fs') \<Longrightarrow> ramfs_run fs'"

lemma ramfs_run_ok: "ramfs_run fs \<Longrightarrow> ramfs_ok fs"
proof (induction rule: ramfs_run.induct)
  case (mount fs bytes)
  then show ?case by (simp add: ramfs_ok_def mount_ramfs_def empty_overlay_node_def)
next
  case (disk fs d)
  then show ?case by (simp add: ramfs_ok_def)
next
  case (create_file fs path bits u g r fs')
  then show ?case using create_file_outcome [OF create_file(3,2)] by (auto simp: changes_file_def)
next
  case (write_file fs path bytes u g r fs')
  then show ?case using write_file_outcome [OF write_file(3,2)] by (auto simp: changes_file_def changes_none_def)
next
  case (write_at fs path offset input n fs')
  then show ?case using write_at_outcome [OF write_at(3,2)] by (auto simp: changes_file_def changes_none_def)
next
  case (create_directory fs path parents u g r fs')
  then show ?case using create_directory_ok by blast
next
  case (remove fs path recursive r fs')
  then show ?case using remove_outcome [OF remove(3,2)] by (auto simp: keeps_others_def)
qed

text \<open>
  C29. The volatile root refines a map from paths to contents. In every state of a run, a whole
  write that succeeds sets the contents of its path and a ranged write replaces the range (at
  most at the end of the file) and reports its length; both leave every other file that is not
  below that path alone, and a write that fails changes no file.
\<close>

theorem ramfs_writes_refine_map:
  assumes "ramfs_run fs"
  shows "(case write_file_overlay path bytes u g fs of
      (Inl e, fs') \<Rightarrow> \<forall>q. read_from_overlay fs' q = read_from_overlay fs q
    | (Inr _, fs') \<Rightarrow> \<exists>p. canonical path = Some p \<and> (\<forall>q q'. canonical q = Some q' \<longrightarrow> \<not> is_child q' p \<longrightarrow>
        read_from_overlay fs' q = (if q' = p then Some bytes else read_from_overlay fs q))) \<and>
    (case write_at_overlay path offset input fs of
      (Inl e, fs') \<Rightarrow> \<forall>q. read_from_overlay fs' q = read_from_overlay fs q
    | (Inr n, fs') \<Rightarrow> n = length input \<and> (\<exists>p old. canonical path = Some p \<and> read_from_overlay fs path = Some old \<and>
        offset \<le> length old \<and> (\<forall>q q'. canonical q = Some q' \<longrightarrow> \<not> is_child q' p \<longrightarrow>
          read_from_overlay fs' q = (if q' = p then Some (take offset old @ input @ drop (offset + length input) old)
            else read_from_overlay fs q))))"
proof -
  note ok = ramfs_run_ok [OF assms]
  obtain r fs' where w: "write_file_overlay path bytes u g fs = (r, fs')" by fastforce
  obtain n fs2 where a: "write_at_overlay path offset input fs = (n, fs2)" by fastforce
  show ?thesis
    using write_file_outcome [OF ok w] write_at_outcome [OF ok a] unfolding w a changes_file_def changes_none_def
    by (cases r; cases n) auto
qed

text \<open>
  C30. In every state of a run of the volatile root, a path whose removal succeeds is gone: it
  reads as missing and is neither a file nor a directory, whether it lay in the archive or in the
  overlay; every file elsewhere is unchanged. A removal that fails changes nothing at all.
\<close>

theorem ramfs_remove_correct:
  assumes "ramfs_run fs"
  shows "case remove_overlay path recursive fs of
      (Inl e, fs') \<Rightarrow> fs' = fs
    | (Inr _, fs') \<Rightarrow> read_from_overlay fs' path = None \<and> \<not> is_file_overlay fs' path \<and> \<not> is_directory_overlay fs' path \<and>
        (\<exists>p. canonical path = Some p \<and> (\<forall>q q'. canonical q = Some q' \<longrightarrow> q' \<noteq> p \<longrightarrow> \<not> is_child q' p \<longrightarrow>
          read_from_overlay fs' q = read_from_overlay fs q))"
proof -
  obtain r fs' where r: "remove_overlay path recursive fs = (r, fs')" by fastforce
  show ?thesis
    using remove_outcome [OF ramfs_run_ok [OF assms] r] unfolding r gone_def keeps_others_def by (cases r) auto
qed

section \<open>Limits of removal and of rewriting\<close>

text \<open>
  A directory of the archive is removed by a whiteout over its own path only: the files the
  overlay holds below it stay readable, and the whiteout still has metadata. And a file whose
  region has room for the new contents is refused when the rest of the buffer is smaller than
  that region, although the write would not take any of it.
\<close>

lemma removed_directory_keeps_files:
  assumes ok: "ramfs_ok fs" and arch: "archive fs = Some a" "archive_is_directory a p" and p: "canonical p = Some p"
    and op: "remove_overlay p recursive fs = (Inr (), fs')"
    and q: "canonical q = Some q" "is_child q p" "overlay_node_at fs q = Some n" "on_kind n = FileNode"
  shows "read_from_overlay fs' q = Some (node_data fs n)"
proof -
  have "p \<noteq> q" using q(2) by (auto simp: is_child_def strip_prefix_def split: if_splits)
  have "insert_overlay_as p Whiteout 420 0 0 fs = (Inr (), fs')"
    using op arch unfolding remove_overlay_def p by (simp add: insert_overlay_def split: if_splits)
  from insert_outcome [OF ok this] obtain slot where s: "slot_for fs p slot"
    "fs' = fs\<lparr>overlay := (overlay fs)[slot := \<lparr>on_path = p, on_kind = Whiteout, on_length = 0,
            on_start = 0, on_capacity = 0, on_mode = 420, on_uid = 0, on_gid = 0\<rparr>]\<rparr>" by auto
  have "overlay_node_at fs' q = Some n"
    using overlay_node_at_update [OF ok s(1), of "\<lparr>on_path = p, on_kind = Whiteout, on_length = 0,
            on_start = 0, on_capacity = 0, on_mode = 420, on_uid = 0, on_gid = 0\<rparr>" fs' q] q(3) \<open>p \<noteq> q\<close> by (simp add: s(2))
  then show ?thesis by (simp add: read_from_overlay_def q is_hidden_def node_data_def s(2))
qed

lemma removed_path_keeps_metadata:
  assumes ok: "ramfs_ok fs" and arch: "archive fs = Some a" "archive_is_file a p \<or> archive_is_directory a p"
    and p: "canonical p = Some p" and op: "remove_overlay p recursive fs = (Inr (), fs')"
  shows "metadata_overlay fs' p \<noteq> None"
proof -
  have "insert_overlay_as p Whiteout 420 0 0 fs = (Inr (), fs')"
    using op arch unfolding remove_overlay_def p by (simp add: insert_overlay_def split: if_splits)
  from insert_keeps [OF ok this] show ?thesis by (auto simp: metadata_overlay_def p)
qed

lemma rewriting_refused:
  assumes "reusable fs p (length bytes)" "overlay_data_capacity - file_data_used fs < old_capacity fs p"
  shows "store_contents p bytes bits u g fs = (Inl FsNoSpace, fs)"
  using assms by (simp add: store_contents_def)

section \<open>Example\<close>

text \<open>An empty archive, and the file \<open>/a\<close> written by root.\<close>

definition empty_root :: ramfs where
  "empty_root = mount_ramfs [] new_ramfs"

definition a_node :: overlay_node where
  "a_node = \<lparr>on_path = [97], on_kind = FileNode, on_length = 2, on_start = 0, on_capacity = 4096, on_mode = 420,
     on_uid = 0, on_gid = 0\<rparr>"

definition a_root :: ramfs where
  "a_root = empty_root\<lparr>overlay := a_node # replicate 127 empty_overlay_node,
     file_data := splice 0 [1, 2] (file_data empty_root), file_data_used := 4096\<rparr>"

lemma overlay_nodes: "replicate max_overlay_nodes empty_overlay_node = empty_overlay_node # replicate 127 empty_overlay_node"
  using replicate_Suc [of 127 empty_overlay_node] by (simp add: max_overlay_nodes_def)

lemma find_none: "\<not> P x \<Longrightarrow> find P (replicate n x) = None"
  by (induction n) auto

lemma position_none: "\<not> P x \<Longrightarrow> position P (replicate n x) = None"
  by (induction n) auto

lemma empty_archive:
  "archive_find [] p = None" "archive_is_directory [] p \<longleftrightarrow> trim_start slash p = []" "archive_metadata [] p = None"
  by (simp_all add: archive_find_def find_loop.simps archive_is_directory_def directory_loop.simps archive_metadata_def
    metadata_loop.simps usize_add_def block_size_def usize_max_def Let_def)

lemma a_path: "canonical [47, 97] = Some [97]" "canonical [97] = Some [97]" "canonical [] = Some []"
  "[97] \<noteq> dev_path" "[97] \<noteq> disk_path" "[] \<noteq> dev_path" "parent_of [97] = []" "trim_start slash [97] = [97]"
  by (simp_all add: canonical_def strip_prefix_def slash_def dev_path_def disk_path_def parent_of_def trim_start_def)

lemma empty_root_run: "ramfs_run empty_root"
  unfolding empty_root_def by (rule ramfs_run.mount) (simp add: new_ramfs_def)

lemma empty_root_lookup:
  "overlay_node_at empty_root p = None" "\<not> is_hidden empty_root p" "archive empty_root = Some []" "disk_sectors empty_root = None"
  "file_slot empty_root p = None" "file_data_used empty_root = 0" "node \<in> set (overlay empty_root) \<Longrightarrow> on_kind node = EmptyNode"
  by (simp_all add: empty_root_def mount_ramfs_def new_ramfs_def overlay_node_at_def is_hidden_def find_none position_none
    empty_overlay_node_def file_slot_def)

lemma write_a: "write_file_overlay [47, 97] [1, 2] 0 0 empty_root = (Inr (), a_root)"
proof -
  have look: "\<not> is_directory_overlay empty_root [97]" "\<not> is_file_overlay empty_root [97]" "is_directory_overlay empty_root []"
    using empty_root_lookup(7)
    by (auto simp: is_directory_overlay_def is_file_overlay_def a_path empty_root_lookup(1-6) empty_archive archive_is_file_def
      trim_start_def slash_def)
  have md: "metadata_overlay empty_root [97] = None"
    by (simp add: metadata_overlay_def a_path empty_root_lookup(1-6) look file_len_overlay_def read_from_overlay_def empty_archive)
  have ov: "overlay empty_root = empty_overlay_node # replicate 127 empty_overlay_node"
    by (simp add: empty_root_def mount_ramfs_def overlay_nodes)
  have "store_contents [97] [1, 2] 420 0 0 empty_root = (Inr (), a_root)"
    by (simp add: store_contents_def reusable_def old_capacity_def empty_root_lookup(1-6) saturating_mul_def overlay_data_capacity_def
      insert_overlay_as_def ov position_none empty_overlay_node_def file_slot_def a_root_def a_node_def Let_def)
  then show ?thesis
    by (simp add: write_file_overlay_def max_write_file_size_def a_path look md ensure_parent_directory_def)
qed

theorem ramfs_writes_refine_map_witness:
  "fst (write_file_overlay [47, 97] [1, 2] 0 0 empty_root) = Inr () \<and>
   read_from_overlay (snd (write_file_overlay [47, 97] [1, 2] 0 0 empty_root)) [97] = Some [1, 2]"
proof -
  have "\<not> is_child [97] [97]" by (simp add: is_child_def strip_prefix_def)
  then show ?thesis
    using ramfs_writes_refine_map [OF empty_root_run, of "[47, 97]" "[1, 2]" 0 0, THEN conjunct1]
    unfolding write_a by (auto simp: a_path)
qed

theorem ramfs_remove_correct_witness:
  "fst (remove_overlay [47, 97] False a_root) = Inr () \<and>
   read_from_overlay (snd (remove_overlay [47, 97] False a_root)) [47, 97] = None"
proof -
  have run: "ramfs_run a_root" by (rule ramfs_run.write_file [OF empty_root_run write_a])
  have node: "overlay_node_at a_root [97] = Some a_node" "archive a_root = Some []"
    by (simp_all add: a_root_def overlay_node_at_def a_node_def empty_root_lookup)
  have look: "is_file_overlay a_root [97]" "\<not> is_directory_overlay a_root [97]"
    using node by (simp_all add: is_file_overlay_def is_directory_overlay_def is_hidden_def a_path a_node_def)
  obtain fs' where r: "remove_overlay [47, 97] False a_root = (Inr (), fs')"
    using look node by (simp add: remove_overlay_def a_path archive_is_file_def empty_archive slash_def trim_start_def)
  show ?thesis using ramfs_remove_correct [OF run, of "[47, 97]" False] unfolding r by simp
qed

end
