(* ===== verification/Vfs.thy ===== *)
theory Vfs
  imports Ramfs_Files Dfs_Files
begin

text \<open>
  The virtual file system \<open>kernel/src/fs/vfs.rs\<close>: the trait \<open>FileSystem\<close> as a record of its
  methods over a state, its implementation \<open>Vfs\<close> that sends each call to the current root, and
  the functions of the same names in \<open>kernel/src/fs/ramfs.rs\<close> the system calls use. The state
  joins the volatile root, the mounted disk file system of \<open>kernel/src/fs/dfs.rs\<close> with its
  device, and the choice between the two. A method that fills a caller's buffer is given its
  length and returns the bytes it writes.
\<close>

section \<open>Errors\<close>

datatype vfs_error = VfsInvalidPath | VfsNotFound | VfsNotDirectory | VfsIsDirectory | VfsAlreadyExists
  | VfsDirectoryNotEmpty | VfsNoSpace | VfsIo

fun vfs_errno :: "vfs_error \<Rightarrow> int" where
  "vfs_errno VfsInvalidPath = -22"
| "vfs_errno VfsNotFound = -2"
| "vfs_errno VfsNotDirectory = -20"
| "vfs_errno VfsIsDirectory = -21"
| "vfs_errno VfsAlreadyExists = -17"
| "vfs_errno VfsDirectoryNotEmpty = -39"
| "vfs_errno VfsNoSpace = -28"
| "vfs_errno VfsIo = -5"

fun vfs_of_fs_error :: "fs_error \<Rightarrow> vfs_error" where
  "vfs_of_fs_error FsInvalidPath = VfsInvalidPath"
| "vfs_of_fs_error FsNotFound = VfsNotFound"
| "vfs_of_fs_error FsNotDirectory = VfsNotDirectory"
| "vfs_of_fs_error FsIsDirectory = VfsIsDirectory"
| "vfs_of_fs_error FsAlreadyExists = VfsAlreadyExists"
| "vfs_of_fs_error FsDirectoryNotEmpty = VfsDirectoryNotEmpty"
| "vfs_of_fs_error FsNoSpace = VfsNoSpace"

fun vfs_of_dfs_error :: "dfs_error \<Rightarrow> vfs_error" where
  "vfs_of_dfs_error InvalidPath = VfsInvalidPath"
| "vfs_of_dfs_error NotFound = VfsNotFound"
| "vfs_of_dfs_error NotDirectory = VfsNotDirectory"
| "vfs_of_dfs_error IsDirectory = VfsIsDirectory"
| "vfs_of_dfs_error AlreadyExists = VfsAlreadyExists"
| "vfs_of_dfs_error DirectoryNotEmpty = VfsDirectoryNotEmpty"
| "vfs_of_dfs_error NoSpace = VfsNoSpace"
| "vfs_of_dfs_error JournalFull = VfsNoSpace"
| "vfs_of_dfs_error (Block e) = VfsIo"
| "vfs_of_dfs_error InvalidFilesystem = VfsIo"
| "vfs_of_dfs_error CorruptMetadata = VfsIo"

fun map_vfs_error :: "vfs_error \<Rightarrow> fs_error" where
  "map_vfs_error VfsInvalidPath = FsInvalidPath"
| "map_vfs_error VfsNotFound = FsNotFound"
| "map_vfs_error VfsNotDirectory = FsNotDirectory"
| "map_vfs_error VfsIsDirectory = FsIsDirectory"
| "map_vfs_error VfsAlreadyExists = FsAlreadyExists"
| "map_vfs_error VfsDirectoryNotEmpty = FsDirectoryNotEmpty"
| "map_vfs_error VfsNoSpace = FsNoSpace"
| "map_vfs_error VfsIo = FsNoSpace"

section \<open>The trait\<close>

text \<open>
  Two methods may not return: creating directories writes a separator without a check, and
  removing a tree from a faulty disk may go on for ever. Their result is then \<open>None\<close>.
\<close>

record 'f file_system =
  op_read_static :: "str \<Rightarrow> 'f \<Rightarrow> u8 list option \<times> 'f"
  op_read_at :: "str \<Rightarrow> nat \<Rightarrow> nat \<Rightarrow> ('f, vfs_error, u8 list) io"
  op_file_len :: "str \<Rightarrow> ('f, vfs_error, nat) io"
  op_metadata :: "str \<Rightarrow> 'f \<Rightarrow> dfs_metadata option \<times> 'f"
  op_is_directory :: "str \<Rightarrow> 'f \<Rightarrow> bool \<times> 'f"
  op_is_file :: "str \<Rightarrow> 'f \<Rightarrow> bool \<times> 'f"
  op_list_directory :: "str \<Rightarrow> bool \<Rightarrow> nat \<Rightarrow> 'f \<Rightarrow> u8 list option \<times> 'f"
  op_write_file_as :: "str \<Rightarrow> u8 list \<Rightarrow> u32 \<Rightarrow> u32 \<Rightarrow> ('f, vfs_error, unit) io"
  op_write_at :: "str \<Rightarrow> nat \<Rightarrow> u8 list \<Rightarrow> ('f, vfs_error, nat) io"
  op_create_file :: "str \<Rightarrow> u16 \<Rightarrow> u32 \<Rightarrow> u32 \<Rightarrow> ('f, vfs_error, unit) io"
  op_create_directory :: "str \<Rightarrow> bool \<Rightarrow> u32 \<Rightarrow> u32 \<Rightarrow> 'f \<Rightarrow> ((vfs_error + unit) \<times> 'f) option"
  op_remove :: "str \<Rightarrow> bool \<Rightarrow> 'f \<Rightarrow> ((vfs_error + unit) \<times> 'f) option"

section \<open>The roots\<close>

datatype backend = DfsRoot | RamRoot

record 'd roots =
  root_backend :: backend
  ram_root :: ramfs
  mounted_dfs :: "dfs option"
  disk_state :: 'd

definition max_executable_size :: nat where
  "max_executable_size = 1048576"

text \<open>The functions of \<open>dfs.rs\<close> on the mounted instance.\<close>

definition with_mounted :: "(dfs \<Rightarrow> ('d, dfs_error, 'a) io) \<Rightarrow> ('d roots, dfs_error, 'a) io" where
  "with_mounted m s = (case mounted_dfs s of
     None \<Rightarrow> (Inl InvalidFilesystem, s)
   | Some fs \<Rightarrow> (case m fs (disk_state s) of (r, d) \<Rightarrow> (r, s\<lparr>disk_state := d\<rparr>)))"

definition dfs_stat :: "'d block_device \<Rightarrow> str \<Rightarrow> ('d roots, dfs_error, dfs_metadata) io" where
  "dfs_stat dev path = with_mounted (\<lambda>fs. stat_file dev fs path)"

definition dfs_read_static :: "'d block_device \<Rightarrow> str \<Rightarrow> 'd roots \<Rightarrow> u8 list option \<times> 'd roots" where
  "dfs_read_static dev path s = (case dfs_stat dev path s of
     (Inl e, s) \<Rightarrow> (None, s)
   | (Inr md, s) \<Rightarrow>
       if meta_is_directory md \<or> max_executable_size < unat (meta_size md) then (None, s)
       else (case with_mounted (\<lambda>fs. read_file dev fs path 0 (replicate (unat (meta_size md)) 0)) s of
           (Inl e, s) \<Rightarrow> (None, s)
         | (Inr (len, out), s) \<Rightarrow> (Some (take len out), s)))"

definition dfs_read_at :: "'d block_device \<Rightarrow> str \<Rightarrow> nat \<Rightarrow> nat \<Rightarrow> ('d roots, dfs_error, u8 list) io" where
  "dfs_read_at dev path offset capacity =
     try_io (with_mounted (\<lambda>fs. read_file dev fs path (word_of_nat offset) (replicate capacity 0)))
       (\<lambda>(len, out). ok_io (take len out))"

definition dfs_file_len :: "'d block_device \<Rightarrow> str \<Rightarrow> ('d roots, dfs_error, nat) io" where
  "dfs_file_len dev path = try_io (dfs_stat dev path) (\<lambda>md.
     if meta_is_directory md then fail_io IsDirectory else ok_io (unat (meta_size md)))"

definition dfs_write_at_as ::
  "'d block_device \<Rightarrow> str \<Rightarrow> nat \<Rightarrow> u8 list \<Rightarrow> bool \<Rightarrow> u16 \<Rightarrow> u32 \<Rightarrow> u32 \<Rightarrow> ('d roots, dfs_error, nat) io" where
  "dfs_write_at_as dev path offset input create m u g =
     with_mounted (\<lambda>fs. write_file dev fs path (word_of_nat offset) input create m u g)"

definition dfs_write_at :: "'d block_device \<Rightarrow> str \<Rightarrow> nat \<Rightarrow> u8 list \<Rightarrow> bool \<Rightarrow> ('d roots, dfs_error, nat) io" where
  "dfs_write_at dev path offset input create = dfs_write_at_as dev path offset input create 420 0 0"

definition dfs_write_file_as ::
  "'d block_device \<Rightarrow> str \<Rightarrow> u8 list \<Rightarrow> u16 \<Rightarrow> u32 \<Rightarrow> u32 \<Rightarrow> ('d roots, dfs_error, unit) io" where
  "dfs_write_file_as dev path bytes m u g =
     match_io (dfs_stat dev path) (\<lambda>r.
     try_io (case r of Inl e \<Rightarrow> ok_io () | Inr md \<Rightarrow> with_mounted (\<lambda>fs. truncate_file dev fs path)) (\<lambda>_.
     try_io (dfs_write_at_as dev path 0 bytes True m u g) (\<lambda>_. ok_io ())))"

definition dfs_create_directory_as ::
  "'d block_device \<Rightarrow> str \<Rightarrow> u16 \<Rightarrow> u32 \<Rightarrow> u32 \<Rightarrow> ('d roots, dfs_error, unit) io" where
  "dfs_create_directory_as dev path m u g = with_mounted (\<lambda>fs. create_directory dev fs path m u g)"

fun dfs_create_parents :: "'d block_device \<Rightarrow> str list \<Rightarrow> str \<Rightarrow> u32 \<Rightarrow> u32 \<Rightarrow> ('d roots, dfs_error, unit) io" where
  "dfs_create_parents dev [] path u g = ok_io ()"
| "dfs_create_parents dev (component # components) path u g =
     (let path = (if path \<noteq> [] then path @ [slash] else path) in
      if max_path < length path + length component then fail_io InvalidPath
      else
        let path = path @ component in
        if \<not> utf8_valid path then fail_io InvalidPath
        else match_io (dfs_stat dev path) (\<lambda>r. case r of
            Inr md \<Rightarrow> if meta_is_directory md then dfs_create_parents dev components path u g else fail_io AlreadyExists
          | Inl e \<Rightarrow> if e = NotFound
              then try_io (dfs_create_directory_as dev path 493 u g) (\<lambda>_. dfs_create_parents dev components path u g)
              else fail_io e))"

definition dfs_create_directory_with_parents_as ::
  "'d block_device \<Rightarrow> str \<Rightarrow> bool \<Rightarrow> u32 \<Rightarrow> u32 \<Rightarrow> ('d roots, dfs_error, unit) io" where
  "dfs_create_directory_with_parents_as dev path parents u g =
     try_io (lift_io (canonical_path path)) (\<lambda>path.
       if \<not> parents then dfs_create_directory_as dev path 493 u g
       else dfs_create_parents dev (split_on slash path) [] u g)"

definition dfs_remove ::
  "nat \<Rightarrow> 'd block_device \<Rightarrow> str \<Rightarrow> bool \<Rightarrow> 'd roots \<Rightarrow> ((dfs_error + unit) \<times> 'd roots) option" where
  "dfs_remove fuel dev path recursive s = (case mounted_dfs s of
     None \<Rightarrow> Some (Inl InvalidFilesystem, s)
   | Some fs \<Rightarrow> map_option (\<lambda>(r, d). (r, s\<lparr>disk_state := d\<rparr>)) (remove_path fuel dev fs path recursive (disk_state s)))"

definition dfs_list_directory ::
  "'d block_device \<Rightarrow> str \<Rightarrow> bool \<Rightarrow> nat \<Rightarrow> ('d roots, dfs_error, u8 list) io" where
  "dfs_list_directory dev path hidden capacity =
     try_io (with_mounted (\<lambda>fs. read_directory dev fs path hidden (replicate capacity 0)))
       (\<lambda>(len, out). ok_io (take len out))"

section \<open>The current root\<close>

text \<open>A computation on the volatile root as one on both, and the \<open>ok()\<close> of a result.\<close>

definition on_ram :: "'a ramfs_op \<Rightarrow> ('d roots, fs_error, 'a) io" where
  "on_ram m s = (case m (ram_root s) of (r, fs) \<Rightarrow> (r, s\<lparr>ram_root := fs\<rparr>))"

definition ok_of :: "('f, 'e, 'a) io \<Rightarrow> 'f \<Rightarrow> 'a option \<times> 'f" where
  "ok_of m s = (case m s of (Inl e, s) \<Rightarrow> (None, s) | (Inr x, s) \<Rightarrow> (Some x, s))"

definition vfs_read_static :: "'d block_device \<Rightarrow> str \<Rightarrow> 'd roots \<Rightarrow> u8 list option \<times> 'd roots" where
  "vfs_read_static dev path s = (case root_backend s of
     DfsRoot \<Rightarrow> dfs_read_static dev path s
   | RamRoot \<Rightarrow> (read_from_overlay (ram_root s) path, s))"

definition vfs_read_at :: "'d block_device \<Rightarrow> str \<Rightarrow> nat \<Rightarrow> nat \<Rightarrow> ('d roots, vfs_error, u8 list) io" where
  "vfs_read_at dev path offset capacity s = (case root_backend s of
     DfsRoot \<Rightarrow> map_err_io vfs_of_dfs_error (dfs_read_at dev path offset capacity) s
   | RamRoot \<Rightarrow> (map_err vfs_of_fs_error (read_at_overlay (ram_root s) path offset capacity), s))"

definition vfs_file_len :: "'d block_device \<Rightarrow> str \<Rightarrow> ('d roots, vfs_error, nat) io" where
  "vfs_file_len dev path s = (case root_backend s of
     DfsRoot \<Rightarrow> map_err_io vfs_of_dfs_error (dfs_file_len dev path) s
   | RamRoot \<Rightarrow> (map_err vfs_of_fs_error (file_len_overlay (ram_root s) path), s))"

definition vfs_metadata :: "'d block_device \<Rightarrow> str \<Rightarrow> 'd roots \<Rightarrow> dfs_metadata option \<times> 'd roots" where
  "vfs_metadata dev path s = (case root_backend s of
     DfsRoot \<Rightarrow> ok_of (dfs_stat dev path) s
   | RamRoot \<Rightarrow> (metadata_overlay (ram_root s) path, s))"

definition vfs_is_directory :: "'d block_device \<Rightarrow> str \<Rightarrow> 'd roots \<Rightarrow> bool \<times> 'd roots" where
  "vfs_is_directory dev path s = (case root_backend s of
     DfsRoot \<Rightarrow> (case dfs_stat dev path s of
         (Inl e, s) \<Rightarrow> (False, s) | (Inr md, s) \<Rightarrow> (meta_is_directory md, s))
   | RamRoot \<Rightarrow> (is_directory_overlay (ram_root s) path, s))"

definition vfs_is_file :: "'d block_device \<Rightarrow> str \<Rightarrow> 'd roots \<Rightarrow> bool \<times> 'd roots" where
  "vfs_is_file dev path s = (case root_backend s of
     DfsRoot \<Rightarrow> (case dfs_stat dev path s of
         (Inl e, s) \<Rightarrow> (False, s) | (Inr md, s) \<Rightarrow> (\<not> meta_is_directory md, s))
   | RamRoot \<Rightarrow> (is_file_overlay (ram_root s) path, s))"

definition vfs_list_directory :: "'d block_device \<Rightarrow> str \<Rightarrow> bool \<Rightarrow> nat \<Rightarrow> 'd roots \<Rightarrow> u8 list option \<times> 'd roots" where
  "vfs_list_directory dev path hidden capacity s = (case root_backend s of
     DfsRoot \<Rightarrow> ok_of (dfs_list_directory dev path hidden capacity) s
   | RamRoot \<Rightarrow> (list_directory_overlay (ram_root s) path hidden capacity, s))"

definition vfs_write_file_as :: "'d block_device \<Rightarrow> str \<Rightarrow> u8 list \<Rightarrow> u32 \<Rightarrow> u32 \<Rightarrow> ('d roots, vfs_error, unit) io" where
  "vfs_write_file_as dev path bytes u g s = (case root_backend s of
     DfsRoot \<Rightarrow> map_err_io vfs_of_dfs_error (dfs_write_file_as dev path bytes 420 u g) s
   | RamRoot \<Rightarrow> map_err_io vfs_of_fs_error (on_ram (write_file_overlay path bytes u g)) s)"

definition vfs_write_at :: "'d block_device \<Rightarrow> str \<Rightarrow> nat \<Rightarrow> u8 list \<Rightarrow> ('d roots, vfs_error, nat) io" where
  "vfs_write_at dev path offset input s = (case root_backend s of
     DfsRoot \<Rightarrow> map_err_io vfs_of_dfs_error (dfs_write_at dev path offset input (offset = 0)) s
   | RamRoot \<Rightarrow> map_err_io vfs_of_fs_error (on_ram (write_at_overlay path offset input)) s)"

definition vfs_create_file :: "'d block_device \<Rightarrow> str \<Rightarrow> u16 \<Rightarrow> u32 \<Rightarrow> u32 \<Rightarrow> ('d roots, vfs_error, unit) io" where
  "vfs_create_file dev path bits u g s = (case root_backend s of
     DfsRoot \<Rightarrow> map_err_io vfs_of_dfs_error
       (try_io (dfs_write_at_as dev path 0 [] True (bits AND 511) u g) (\<lambda>_. ok_io ())) s
   | RamRoot \<Rightarrow> map_err_io vfs_of_fs_error (on_ram (create_file_overlay path bits u g)) s)"

definition vfs_create_directory ::
  "'d block_device \<Rightarrow> str \<Rightarrow> bool \<Rightarrow> u32 \<Rightarrow> u32 \<Rightarrow> 'd roots \<Rightarrow> ((vfs_error + unit) \<times> 'd roots) option" where
  "vfs_create_directory dev path parents u g s = (case root_backend s of
     DfsRoot \<Rightarrow> Some (map_err_io vfs_of_dfs_error (dfs_create_directory_with_parents_as dev path parents u g) s)
   | RamRoot \<Rightarrow> map_option (\<lambda>(r, fs). (map_err vfs_of_fs_error r, s\<lparr>ram_root := fs\<rparr>))
       (create_directory_overlay path parents u g (ram_root s)))"

definition vfs_remove ::
  "nat \<Rightarrow> 'd block_device \<Rightarrow> str \<Rightarrow> bool \<Rightarrow> 'd roots \<Rightarrow> ((vfs_error + unit) \<times> 'd roots) option" where
  "vfs_remove fuel dev path recursive s = (case root_backend s of
     DfsRoot \<Rightarrow> map_option (\<lambda>(r, s). (map_err vfs_of_dfs_error r, s)) (dfs_remove fuel dev path recursive s)
   | RamRoot \<Rightarrow> Some (map_err_io vfs_of_fs_error (on_ram (remove_overlay path recursive)) s))"

definition vfs :: "nat \<Rightarrow> 'd block_device \<Rightarrow> 'd roots file_system" where
  "vfs fuel dev = \<lparr>op_read_static = vfs_read_static dev, op_read_at = vfs_read_at dev,
     op_file_len = vfs_file_len dev, op_metadata = vfs_metadata dev, op_is_directory = vfs_is_directory dev,
     op_is_file = vfs_is_file dev, op_list_directory = vfs_list_directory dev,
     op_write_file_as = vfs_write_file_as dev, op_write_at = vfs_write_at dev,
     op_create_file = vfs_create_file dev, op_create_directory = vfs_create_directory dev,
     op_remove = vfs_remove fuel dev\<rparr>"

text \<open>Moving the root to the mounted disk; the marker it leaves there is written at best effort.\<close>

definition pivot_root_to :: "'d block_device \<Rightarrow> str \<Rightarrow> str \<Rightarrow> ('d roots, vfs_error, unit) io" where
  "pivot_root_to dev new_root put_old s =
     (if new_root \<noteq> [slash] \<and> new_root \<noteq> [] then (Inl VfsInvalidPath, s)
      else if put_old = [] \<or> strip_prefix [slash] put_old = None then (Inl VfsInvalidPath, s)
      else if mounted_dfs s = None then (Inl VfsInvalidPath, s)
      else
        let s = s\<lparr>root_backend := DfsRoot\<rparr>;
            (_, s) = dfs_create_directory_with_parents_as dev (ascii ''/run'') True 0 0 s;
            (_, s) = dfs_write_file_as dev (ascii ''/run/pivoted'') [49, 10] 420 0 0 s
        in (Inr (), s))"

section \<open>The functions the system calls use\<close>

definition fs_error_code :: "fs_error \<Rightarrow> int" where
  "fs_error_code e = vfs_errno (vfs_of_fs_error e)"

definition create_file_with_mode_as :: "'f file_system \<Rightarrow> str \<Rightarrow> u16 \<Rightarrow> u32 \<Rightarrow> u32 \<Rightarrow> ('f, fs_error, unit) io" where
  "create_file_with_mode_as F path bits u g = map_err_io map_vfs_error (op_create_file F path bits u g)"

definition create_file_as :: "'f file_system \<Rightarrow> str \<Rightarrow> u32 \<Rightarrow> u32 \<Rightarrow> ('f, fs_error, unit) io" where
  "create_file_as F path u g = create_file_with_mode_as F path 420 u g"

definition write_file_as :: "'f file_system \<Rightarrow> str \<Rightarrow> u8 list \<Rightarrow> u32 \<Rightarrow> u32 \<Rightarrow> ('f, fs_error, unit) io" where
  "write_file_as F path bytes u g = map_err_io map_vfs_error (op_write_file_as F path bytes u g)"

definition file_len :: "'f file_system \<Rightarrow> str \<Rightarrow> ('f, fs_error, nat) io" where
  "file_len F path = map_err_io map_vfs_error (op_file_len F path)"

definition read_at :: "'f file_system \<Rightarrow> str \<Rightarrow> nat \<Rightarrow> nat \<Rightarrow> ('f, fs_error, u8 list) io" where
  "read_at F path offset capacity = map_err_io map_vfs_error (op_read_at F path offset capacity)"

definition write_at :: "'f file_system \<Rightarrow> str \<Rightarrow> nat \<Rightarrow> u8 list \<Rightarrow> ('f, fs_error, nat) io" where
  "write_at F path offset input = map_err_io map_vfs_error (op_write_at F path offset input)"

definition create_directory_with_parents_as ::
  "'f file_system \<Rightarrow> str \<Rightarrow> bool \<Rightarrow> u32 \<Rightarrow> u32 \<Rightarrow> 'f \<Rightarrow> ((fs_error + unit) \<times> 'f) option" where
  "create_directory_with_parents_as F path parents u g f =
     map_option (\<lambda>(r, f). (map_err map_vfs_error r, f)) (op_create_directory F path parents u g f)"

definition remove_file :: "'f file_system \<Rightarrow> str \<Rightarrow> bool \<Rightarrow> 'f \<Rightarrow> ((fs_error + unit) \<times> 'f) option" where
  "remove_file F path recursive f =
     map_option (\<lambda>(r, f). (map_err map_vfs_error r, f)) (op_remove F path recursive f)"

end
