(* ===== verification/Global_Config.thy ===== *)
theory Global_Config
  imports Rust_Str
begin

text \<open>
  The global configuration, \<open>kernel/src/config.rs\<close>: the parser of its text and the keyboard
  layout it selects. \<open>lines\<close>, \<open>trim\<close> and \<open>split_once\<close> of the standard library are written
  out; \<open>trim\<close> removes the characters of the Unicode class White_Space, given by their UTF-8
  encodings.
\<close>

section \<open>Lines and white space\<close>

definition whitespace :: "str list" where
  "whitespace = [[9], [10], [11], [12], [13], [32], [0xC2, 0x85], [0xC2, 0xA0], [0xE1, 0x9A, 0x80]] @
     map (\<lambda>n. [0xE2, 0x80, 0x80 + word_of_nat n]) [0..<11] @
     [[0xE2, 0x80, 0xA8], [0xE2, 0x80, 0xA9], [0xE2, 0x80, 0xAF], [0xE2, 0x81, 0x9F], [0xE3, 0x80, 0x80]]"

function trim_with :: "str list \<Rightarrow> str \<Rightarrow> str" where
  "trim_with ws s = (case find (\<lambda>w. w \<noteq> [] \<and> strip_prefix w s \<noteq> None) ws of
     None \<Rightarrow> s | Some w \<Rightarrow> trim_with ws (drop (length w) s))"
  by pat_completeness auto
termination
  by (relation "measure (\<lambda>(ws, s). length s)") (auto simp: find_Some_iff strip_prefix_Some_iff)

declare trim_with.simps [simp del]

definition trim :: "str \<Rightarrow> str" where
  "trim s = rev (trim_with (map rev whitespace) (rev (trim_with whitespace s)))"

definition text_lines :: "str \<Rightarrow> str list" where
  "text_lines text = (let pieces = split_on 10 text in
     map (\<lambda>l. if l \<noteq> [] \<and> last l = 13 then butlast l else l) (butlast pieces) @
     (if last pieces = [] then [] else [last pieces]))"

fun split_once :: "'a \<Rightarrow> 'a list \<Rightarrow> ('a list \<times> 'a list) option" where
  "split_once c [] = None"
| "split_once c (x # xs) = (if x = c then Some ([], xs) else map_option (\<lambda>(a, b). (x # a, b)) (split_once c xs))"

section \<open>The configuration\<close>

datatype keyboard_layout = LayoutUs | LayoutAbnt2

definition global_config_path :: str where
  "global_config_path = ascii ''/home/.global/global.conf''"

definition is_global_config_path :: "str \<Rightarrow> bool" where
  "is_global_config_path path \<longleftrightarrow>
     (case strip_prefix [slash] path of Some rest \<Rightarrow> rest | None \<Rightarrow> path) = trim_start slash global_config_path"

fun config_lines :: "str list \<Rightarrow> keyboard_layout \<Rightarrow> keyboard_layout option" where
  "config_lines [] l = Some l"
| "config_lines (line # rest) l =
     (let line = trim line in
      if line = [] \<or> take 1 line = ascii ''#'' then config_lines rest l
      else (case split_once 61 line of
          None \<Rightarrow> None
        | Some (key, v) \<Rightarrow>
            let key = trim key; v = trim v in
            if key = [] \<or> v = [] then None
            else if key = ascii ''charset'' then
              (if v = ascii ''utf-8'' then config_lines rest l else None)
            else if key = ascii ''keyboard'' then
              (if v = ascii ''us'' then config_lines rest LayoutUs
               else if v = ascii ''abnt2'' then config_lines rest LayoutAbnt2
               else None)
            else config_lines rest l))"

definition parse_config :: "u8 list \<Rightarrow> keyboard_layout option" where
  "parse_config bytes = (if utf8_valid bytes then config_lines (text_lines bytes) LayoutUs else None)"

definition load_config :: "u8 list \<Rightarrow> keyboard_layout \<Rightarrow> keyboard_layout" where
  "load_config bytes active = (case parse_config bytes of None \<Rightarrow> active | Some l \<Rightarrow> l)"

end
