(* ===== verification/File_Calls.thy ===== *)
theory File_Calls
  imports Vfs Global_Config Process_Ops Console_Utf8
begin

text \<open>
  The system calls on files, \<open>kernel/src/abi/syscall.rs\<close>: permission checks along a path, opening,
  reading, writing and seeking descriptors, and the calls that name a path. A handler acts on the
  kernel, on the state of any implementation of the trait \<open>FileSystem\<close> and on the keyboard
  layout. \<open>Panicked\<close> is a failed \<open>expect\<close>, an index out of bounds or a removal that does not end.
  The console is given by the two functions of \<open>terminal\<close>.
\<close>

section \<open>Handlers\<close>

record 'f world =
  w_kernel :: kernel
  w_files :: 'f
  w_layout :: keyboard_layout

type_synonym 'f handler = "'f world \<Rightarrow> resume \<times> 'f world"

record terminal =
  read_character :: "kernel \<Rightarrow> u32 \<times> kernel"
  console_write :: "u8 list \<Rightarrow> kernel \<Rightarrow> kernel"

definition answer :: "u64 \<Rightarrow> u64 \<Rightarrow> 'f handler" where
  "answer frame v w = (Resume frame, w\<lparr>w_kernel := set_rax frame v (w_kernel w)\<rparr>)"

definition answer_error :: "u64 \<Rightarrow> int \<Rightarrow> 'f handler" where
  "answer_error frame e = answer frame (word_of_int e)"

definition panic :: "'f handler" where
  "panic w = (Panicked, w)"

text \<open>A question to the file system, and one that may panic or refuse.\<close>

definition ask :: "('f \<Rightarrow> 'a \<times> 'f) \<Rightarrow> ('a \<Rightarrow> 'f handler) \<Rightarrow> 'f handler" where
  "ask m c w = (case m (w_files w) of (x, f) \<Rightarrow> c x (w\<lparr>w_files := f\<rparr>))"

definition ask_result :: "('f, fs_error, 'a) io \<Rightarrow> u64 \<Rightarrow> ('a \<Rightarrow> 'f handler) \<Rightarrow> 'f handler" where
  "ask_result m frame c = ask m (\<lambda>r. case r of Inl e \<Rightarrow> answer_error frame (fs_error_code e) | Inr x \<Rightarrow> c x)"

definition require :: "('f \<Rightarrow> bool option \<times> 'f) \<Rightarrow> u64 \<Rightarrow> 'f handler \<Rightarrow> 'f handler" where
  "require m frame c = ask m (\<lambda>allowed. case allowed of
     None \<Rightarrow> panic | Some False \<Rightarrow> answer_error frame (-13) | Some True \<Rightarrow> c)"

definition deliver :: "u64 \<Rightarrow> u64 \<Rightarrow> u8 list \<Rightarrow> 'f handler \<Rightarrow> 'f handler" where
  "deliver frame address bytes c w = (case copy_to_current_user address bytes (w_kernel w) of
     (None, k) \<Rightarrow> panic (w\<lparr>w_kernel := k\<rparr>)
   | (Some False, k) \<Rightarrow> answer_error frame (-14) (w\<lparr>w_kernel := k\<rparr>)
   | (Some True, k) \<Rightarrow> c (w\<lparr>w_kernel := k\<rparr>))"

definition fetch :: "u64 \<Rightarrow> u64 \<Rightarrow> nat \<Rightarrow> (u8 list \<Rightarrow> 'f handler) \<Rightarrow> 'f handler" where
  "fetch frame address len c w = (case copy_from_current_user address len (w_kernel w) of
     None \<Rightarrow> panic w
   | Some None \<Rightarrow> answer_error frame (-14) w
   | Some (Some bytes) \<Rightarrow> c bytes w)"

definition with_frame :: "u64 \<Rightarrow> (trap_frame \<Rightarrow> 'f handler) \<Rightarrow> 'f handler" where
  "with_frame frame c w = c (trap_frames (w_kernel w) frame) w"

section \<open>Paths from user memory\<close>

definition max_path_query :: nat where
  "max_path_query = 128"

definition max_read_buffer :: nat where
  "max_read_buffer = 4096"

definition copy_user_path :: "u64 \<Rightarrow> u64 \<Rightarrow> u64 \<Rightarrow> (str \<Rightarrow> 'f handler) \<Rightarrow> 'f handler" where
  "copy_user_path frame address len c =
     (if len = 0 \<or> max_mutable_path < unat len then answer_error frame (-22)
      else fetch frame address (unat len) (\<lambda>path.
        if utf8_valid path then c path else answer_error frame (-22)))"

text \<open>The calls with a path of at most 128 bytes also refuse a NUL byte.\<close>

definition query_path :: "u64 \<Rightarrow> u64 \<Rightarrow> u64 \<Rightarrow> (str \<Rightarrow> 'f handler) \<Rightarrow> 'f handler" where
  "query_path frame address len c =
     (if len = 0 \<or> max_path_query < unat len then answer_error frame (-22)
      else fetch frame address (unat len) (\<lambda>path.
        if 0 \<in> set path then answer_error frame (-22)
        else if utf8_valid path then c path else answer_error frame (-22)))"

section \<open>Permissions\<close>

definition mode_allows :: "dfs_metadata \<Rightarrow> u32 \<Rightarrow> u32 \<Rightarrow> u16 \<Rightarrow> bool" where
  "mode_allows md user grp requested = allows (meta_mode md) (meta_uid md) (meta_gid md) user grp requested"

fun search_loop :: "'f file_system \<Rightarrow> u32 \<Rightarrow> u32 \<Rightarrow> str list \<Rightarrow> str \<Rightarrow> 'f \<Rightarrow> bool option \<times> 'f" where
  "search_loop F user grp [] path f = (Some True, f)"
| "search_loop F user grp (component # rest) path f =
     (if path \<noteq> [] \<and> max_mutable_path \<le> length path then (None, f)
      else
        let path = (if path \<noteq> [] then path @ [slash] else path) in
        if max_mutable_path < length path + length component then (Some False, f)
        else
          let path = path @ component; directory = (if utf8_valid path then path else []) in
          (case op_metadata F directory f of
             (None, f) \<Rightarrow> (Some False, f)
           | (Some md, f) \<Rightarrow>
               if \<not> meta_is_directory md \<or> \<not> mode_allows md user grp 1 then (Some False, f)
               else search_loop F user grp rest path f))"

definition ancestors_searchable :: "'f file_system \<Rightarrow> str \<Rightarrow> u32 \<Rightarrow> u32 \<Rightarrow> 'f \<Rightarrow> bool option \<times> 'f" where
  "ancestors_searchable F path user grp =
     search_loop F user grp (takeWhile (\<lambda>part. part \<noteq> []) (split_on slash (trim_matches slash (parent_of path)))) []"

definition access_allowed :: "'f file_system \<Rightarrow> u32 \<Rightarrow> u32 \<Rightarrow> str \<Rightarrow> u16 \<Rightarrow> 'f \<Rightarrow> bool option \<times> 'f" where
  "access_allowed F user grp path requested f =
     (if user = 0 then (Some True, f)
      else (case ancestors_searchable F path user grp f of
          (Some True, f) \<Rightarrow> (case op_metadata F path f of
              (None, f) \<Rightarrow> (Some False, f)
            | (Some md, f) \<Rightarrow> (Some (mode_allows md user grp requested), f))
        | r \<Rightarrow> r))"

definition parent_access_allowed :: "'f file_system \<Rightarrow> u32 \<Rightarrow> u32 \<Rightarrow> str \<Rightarrow> u16 \<Rightarrow> 'f \<Rightarrow> bool option \<times> 'f" where
  "parent_access_allowed F user grp path requested = access_allowed F user grp (parent_of path) requested"

fun parents_loop ::
  "'f file_system \<Rightarrow> u32 \<Rightarrow> u32 \<Rightarrow> u16 \<Rightarrow> str list \<Rightarrow> str \<Rightarrow> dfs_metadata option \<Rightarrow> 'f \<Rightarrow> bool option \<times> 'f" where
  "parents_loop F user grp requested [] path last_existing f =
     (Some (case last_existing of None \<Rightarrow> False | Some md \<Rightarrow> mode_allows md user grp requested), f)"
| "parents_loop F user grp requested (component # rest) path last_existing f =
     (if component = [] then parents_loop F user grp requested rest path last_existing f
      else if path \<noteq> [] \<and> max_mutable_path \<le> length path then (None, f)
      else
        let path = (if path \<noteq> [] then path @ [slash] else path) in
        if max_mutable_path < length path + length component then (Some False, f)
        else
          let path = path @ component; directory = (if utf8_valid path then path else []) in
          (case op_metadata F directory f of
             (None, f) \<Rightarrow> parents_loop F user grp requested [] path last_existing f
           | (Some md, f) \<Rightarrow>
               if \<not> meta_is_directory md \<or> \<not> mode_allows md user grp 1 then (Some False, f)
               else parents_loop F user grp requested rest path (Some md) f))"

definition recursive_parent_access_allowed ::
  "'f file_system \<Rightarrow> u32 \<Rightarrow> u32 \<Rightarrow> str \<Rightarrow> u16 \<Rightarrow> 'f \<Rightarrow> bool option \<times> 'f" where
  "recursive_parent_access_allowed F user grp path requested f =
     (if user = 0 then (Some True, f)
      else (case op_metadata F [] f of (root, f) \<Rightarrow>
        parents_loop F user grp requested (split_on slash (trim_matches slash (parent_of path))) [] root f))"

definition both_allowed :: "('f \<Rightarrow> bool option \<times> 'f) \<Rightarrow> ('f \<Rightarrow> bool option \<times> 'f) \<Rightarrow> 'f \<Rightarrow> bool option \<times> 'f" where
  "both_allowed m n f = (case m f of (Some True, f) \<Rightarrow> n f | r \<Rightarrow> r)"

text \<open>The check of a handler, with the identity of the running process.\<close>

definition as_caller :: "(u32 \<Rightarrow> u32 \<Rightarrow> 'f handler) \<Rightarrow> 'f handler" where
  "as_caller c w = (let (user, grp, admin) = current_credentials (w_kernel w) in c user grp w)"

section \<open>Opening\<close>

definition open_read :: u64 where "open_read = 1"

definition open_write :: u64 where "open_write = 2"

definition open_create :: u64 where "open_create = 4"

definition open_truncate :: u64 where "open_truncate = 8"

definition open_append :: u64 where "open_append = 16"

definition open_exclusive :: u64 where "open_exclusive = 32"

definition has_flag :: "u64 \<Rightarrow> u64 \<Rightarrow> bool" where
  "has_flag flags f \<longleftrightarrow> flags AND f \<noteq> 0"

definition flags_invalid :: "u64 \<Rightarrow> bool" where
  "flags_invalid flags \<longleftrightarrow>
     flags AND NOT (open_read OR open_write OR open_create OR open_truncate OR open_append OR open_exclusive) \<noteq> 0 \<or>
     flags AND (open_read OR open_write) = 0 \<or>
     flags AND (open_truncate OR open_append) \<noteq> 0 \<and> flags AND open_write = 0 \<or>
     has_flag flags open_truncate \<and> has_flag flags open_append \<or>
     has_flag flags open_exclusive \<and> \<not> has_flag flags open_create"

definition open_descriptor :: "'f file_system \<Rightarrow> u64 \<Rightarrow> str \<Rightarrow> u64 \<Rightarrow> nat \<Rightarrow> 'f handler" where
  "open_descriptor F frame path flags offset w =
     (case allocate_descriptor (file_descriptor path flags offset) (w_kernel w) of
        (None, k) \<Rightarrow> answer_error frame (-24) (w\<lparr>w_kernel := k\<rparr>)
      | (Some fd, k) \<Rightarrow> answer frame (word_of_nat fd) (w\<lparr>w_kernel := k\<rparr>))"

text \<open>The end of \<open>open_file\<close>, from \<open>OPEN_TRUNCATE\<close> on.\<close>

definition open_existing :: "'f file_system \<Rightarrow> u32 \<Rightarrow> u32 \<Rightarrow> u64 \<Rightarrow> str \<Rightarrow> u64 \<Rightarrow> 'f handler" where
  "open_existing F user grp frame path flags =
     (if has_flag flags open_truncate
      then ask_result (write_file_as F path [] user grp) frame (\<lambda>_. open_descriptor F frame path flags 0)
      else if has_flag flags open_append
      then ask_result (file_len F path) frame (\<lambda>len. open_descriptor F frame path flags len)
      else open_descriptor F frame path flags 0)"

definition open_permitted :: "'f file_system \<Rightarrow> u32 \<Rightarrow> u32 \<Rightarrow> bool \<Rightarrow> str \<Rightarrow> u64 \<Rightarrow> 'f \<Rightarrow> bool option \<times> 'f" where
  "open_permitted F user grp exists path flags =
     (if exists then
        both_allowed (if has_flag flags open_read then access_allowed F user grp path 4 else Pair (Some True))
          (if has_flag flags open_write then access_allowed F user grp path 2 else Pair (Some True))
      else if has_flag flags open_create then parent_access_allowed F user grp path 3
      else Pair (Some True))"

definition open_file :: "'f file_system \<Rightarrow> u64 \<Rightarrow> 'f handler" where
  "open_file F frame = with_frame frame (\<lambda>tf.
      let flags = tf_rdx tf in
      copy_user_path frame (tf_rdi tf) (tf_rsi tf) (\<lambda>path.
        if flags_invalid flags then answer_error frame (-22)
        else ask (op_is_directory F path) (\<lambda>directory.
          if directory then answer_error frame (-21)
          else ask (op_is_file F path) (\<lambda>exists.
            if exists \<and> has_flag flags open_create \<and> has_flag flags open_exclusive then answer_error frame (-17)
            else as_caller (\<lambda>user grp.
              require (open_permitted F user grp exists path flags) frame
                (ask (op_is_file F path) (\<lambda>exists.
                  if exists then open_existing F user grp frame path flags
                  else if \<not> has_flag flags open_create then answer_error frame (-2)
                  else ask_result (create_file_with_mode_as F path (ucast (tf_r10 tf) AND 511) user grp) frame
                    (\<lambda>_. open_existing F user grp frame path flags))))))))"

section \<open>Descriptors\<close>

definition descriptor_path :: "descriptor \<Rightarrow> str" where
  "descriptor_path d = take (fd_path_length d) (fd_path d)"

definition with_descriptor :: "u64 \<Rightarrow> nat \<Rightarrow> (descriptor \<Rightarrow> 'f handler) \<Rightarrow> 'f handler" where
  "with_descriptor frame fd c w = (case get_descriptor fd (w_kernel w) of
     None \<Rightarrow> answer_error frame (-9) w | Some d \<Rightarrow> c d w)"

definition store_descriptor :: "u64 \<Rightarrow> nat \<Rightarrow> descriptor \<Rightarrow> u64 \<Rightarrow> 'f handler" where
  "store_descriptor frame fd d v w = (case update_descriptor fd d (w_kernel w) of
     (ok, k) \<Rightarrow> (if ok then answer frame v else answer_error frame (-9)) (w\<lparr>w_kernel := k\<rparr>))"

text \<open>The access check of a descriptor of a file; its path was checked when it was opened.\<close>

definition check_descriptor :: "'f file_system \<Rightarrow> u64 \<Rightarrow> descriptor \<Rightarrow> u16 \<Rightarrow> 'f handler \<Rightarrow> 'f handler" where
  "check_descriptor F frame d requested c =
     (if fd_kind d \<noteq> RegularFile then c
      else if \<not> utf8_valid (descriptor_path d) then panic
      else as_caller (\<lambda>user grp. require (access_allowed F user grp (descriptor_path d) requested) frame c))"

definition refill_input :: "terminal \<Rightarrow> descriptor \<Rightarrow> kernel \<Rightarrow> descriptor \<times> kernel" where
  "refill_input T d k =
     (if fd_input_offset d = fd_input_length d then
        let (character, k) = read_character T k;
            v = (case char_from_u32 character of None \<Rightarrow> replacement_char | Some c \<Rightarrow> c);
            bytes = encode_utf8 v
        in (d\<lparr>fd_input := splice 0 bytes (fd_input d), fd_input_length := length bytes, fd_input_offset := 0\<rparr>, k)
      else (d, k))"

definition read_stdin :: "terminal \<Rightarrow> u64 \<Rightarrow> u64 \<Rightarrow> nat \<Rightarrow> nat \<Rightarrow> descriptor \<Rightarrow> 'f handler" where
  "read_stdin T frame address fd capacity d w =
     (let (d, k) = refill_input T d (w_kernel w);
          len = min capacity (fd_input_length d - fd_input_offset d);
          bytes = slice (fd_input_offset d) (fd_input_offset d + len) (fd_input d)
      in deliver frame address bytes
           (store_descriptor frame fd (d\<lparr>fd_input_offset := fd_input_offset d + len\<rparr>) (word_of_nat len))
           (w\<lparr>w_kernel := k\<rparr>))"

definition read_pipe_end :: "u64 \<Rightarrow> u64 \<Rightarrow> nat \<Rightarrow> descriptor \<Rightarrow> 'f handler" where
  "read_pipe_end frame address capacity d w =
     (case read_pipe (fd_pipe d) (replicate capacity 0) (pipes (w_kernel w)) of
        (Inl e, out, ps) \<Rightarrow> answer_error frame (pipe_errno e) (w\<lparr>w_kernel := (w_kernel w)\<lparr>pipes := ps\<rparr>\<rparr>)
      | (Inr len, out, ps) \<Rightarrow> deliver frame address (take len out) (answer frame (word_of_nat len))
          (w\<lparr>w_kernel := (w_kernel w)\<lparr>pipes := ps\<rparr>\<rparr>))"

definition read_fd :: "terminal \<Rightarrow> 'f file_system \<Rightarrow> u64 \<Rightarrow> 'f handler" where
  "read_fd T F frame = with_frame frame (\<lambda>tf.
      let fd = unat (tf_rdi tf); capacity = unat (tf_rdx tf) in
      if max_read_buffer < capacity then answer_error frame (-22)
      else if capacity = 0 then answer frame 0
      else with_descriptor frame fd (\<lambda>d. check_descriptor F frame d 4 (case fd_kind d of
          Stdin \<Rightarrow> read_stdin T frame (tf_rsi tf) fd capacity d
        | RegularFile \<Rightarrow>
            if has_flag (fd_flags d) open_read then
              ask_result (read_at F (descriptor_path d) (fd_offset d) capacity) frame (\<lambda>bytes.
                deliver frame (tf_rsi tf) bytes
                  (store_descriptor frame fd (d\<lparr>fd_offset := fd_offset d + length bytes\<rparr>) (word_of_nat (length bytes))))
            else answer_error frame (-9)
        | PipeRead \<Rightarrow> read_pipe_end frame (tf_rsi tf) capacity d
        | _ \<Rightarrow> answer_error frame (-9))))"

definition write_fd :: "terminal \<Rightarrow> 'f file_system \<Rightarrow> u64 \<Rightarrow> 'f handler" where
  "write_fd T F frame = with_frame frame (\<lambda>tf.
      let fd = unat (tf_rdi tf); len = unat (tf_rdx tf) in
      if max_read_buffer < len then answer_error frame (-22)
      else with_descriptor frame fd (\<lambda>d. check_descriptor F frame d 2
        (fetch frame (tf_rsi tf) len (\<lambda>bytes.
          if fd_kind d = Stdout \<or> fd_kind d = Stderr then
            (\<lambda>w. answer frame (word_of_nat len) (w\<lparr>w_kernel := console_write T bytes (w_kernel w)\<rparr>))
          else if fd_kind d = PipeWrite then
            (\<lambda>w. case write_pipe (fd_pipe d) bytes (pipes (w_kernel w)) of (r, ps) \<Rightarrow>
              (case r of Inl e \<Rightarrow> answer_error frame (pipe_errno e) | Inr written \<Rightarrow> answer frame (word_of_nat written))
                (w\<lparr>w_kernel := (w_kernel w)\<lparr>pipes := ps\<rparr>\<rparr>))
          else if fd_kind d = RegularFile \<and> has_flag (fd_flags d) open_write then
            (let place = (\<lambda>offset. ask_result (write_at F (descriptor_path d) offset bytes) frame (\<lambda>written.
                  store_descriptor frame fd (d\<lparr>fd_offset := offset + written\<rparr>) (word_of_nat written)))
             in if has_flag (fd_flags d) open_append then ask_result (file_len F (descriptor_path d)) frame place
                else place (fd_offset d))
          else answer_error frame (-9)))))"

definition seek_fd :: "'f file_system \<Rightarrow> u64 \<Rightarrow> 'f handler" where
  "seek_fd F frame = with_frame frame (\<lambda>tf.
      let fd = unat (tf_rdi tf) in
      with_descriptor frame fd (\<lambda>d.
        if fd_kind d \<noteq> RegularFile then answer_error frame (-29)
        else
          let place = (\<lambda>base.
                let offset = int base + sint (tf_rsi tf) in
                if offset < 0 \<or> 2 ^ 64 \<le> offset then answer_error frame (-22)
                else store_descriptor frame fd (d\<lparr>fd_offset := nat offset\<rparr>) (word_of_int offset))
          in if tf_rdx tf = 0 then place 0
             else if tf_rdx tf = 1 then place (fd_offset d)
             else if tf_rdx tf = 2 then
               (if \<not> utf8_valid (descriptor_path d) then panic
                else ask_result (file_len F (descriptor_path d)) frame place)
             else answer_error frame (-22)))"

section \<open>Metadata\<close>

definition user_stat :: "dfs_metadata \<Rightarrow> u8 list" where
  "user_stat md = to_le 8 (meta_size md) @ to_le 4 (ucast (meta_mode md) :: u32) @ to_le 4 (meta_uid md) @
     to_le 4 (meta_gid md) @ to_le 4 ((if meta_is_directory md then 1 else 0) :: u32)"

definition deliver_metadata :: "'f file_system \<Rightarrow> u64 \<Rightarrow> str \<Rightarrow> u64 \<Rightarrow> 'f handler" where
  "deliver_metadata F frame path address = ask (op_metadata F path) (\<lambda>found. case found of
     None \<Rightarrow> answer_error frame (-2)
   | Some md \<Rightarrow> deliver frame address (user_stat md) (answer frame 0))"

definition fstat_fd :: "'f file_system \<Rightarrow> u64 \<Rightarrow> 'f handler" where
  "fstat_fd F frame = with_frame frame (\<lambda>tf.
      with_descriptor frame (unat (tf_rdi tf)) (\<lambda>d.
        if fd_kind d \<noteq> RegularFile then answer_error frame (-9)
        else if \<not> utf8_valid (descriptor_path d) then panic
        else deliver_metadata F frame (descriptor_path d) (tf_rsi tf)))"

definition sys_stat :: "'f file_system \<Rightarrow> u64 \<Rightarrow> 'f handler" where
  "sys_stat F frame = with_frame frame (\<lambda>tf.
      query_path frame (tf_rdi tf) (tf_rsi tf) (\<lambda>path. deliver_metadata F frame path (tf_rdx tf)))"

definition sys_is_directory :: "'f file_system \<Rightarrow> u64 \<Rightarrow> 'f handler" where
  "sys_is_directory F frame = with_frame frame (\<lambda>tf.
      query_path frame (tf_rdi tf) (tf_rsi tf) (\<lambda>path. as_caller (\<lambda>user grp.
        require (access_allowed F user grp path 4) frame
          (ask (op_is_directory F path) (\<lambda>r. answer frame (if r then 1 else 0))))))"

definition sys_is_file :: "'f file_system \<Rightarrow> u64 \<Rightarrow> 'f handler" where
  "sys_is_file F frame = with_frame frame (\<lambda>tf.
      query_path frame (tf_rdi tf) (tf_rsi tf) (\<lambda>path. as_caller (\<lambda>user grp.
        require (access_allowed F user grp path 4) frame
          (ask (op_is_file F path) (\<lambda>r. answer frame (if r then 1 else 0))))))"

section \<open>Whole files and directories\<close>

definition sys_read_file :: "'f file_system \<Rightarrow> u64 \<Rightarrow> 'f handler" where
  "sys_read_file F frame = with_frame frame (\<lambda>tf.
      let capacity = unat (tf_r10 tf) in
      if max_read_buffer < capacity then answer_error frame (-22)
      else query_path frame (tf_rdi tf) (tf_rsi tf) (\<lambda>path. as_caller (\<lambda>user grp.
        require (access_allowed F user grp path 4) frame
          (ask (op_is_directory F path) (\<lambda>directory.
            if directory then answer_error frame (-21)
            else ask (op_read_static F path) (\<lambda>found. case found of
                None \<Rightarrow> answer_error frame (-2)
              | Some bytes \<Rightarrow>
                  if capacity < length bytes then answer_error frame (-75)
                  else deliver frame (tf_rdx tf) bytes (answer frame (word_of_nat (length bytes)))))))))"

definition sys_read_directory :: "'f file_system \<Rightarrow> u64 \<Rightarrow> 'f handler" where
  "sys_read_directory F frame = with_frame frame (\<lambda>tf.
      let capacity = unat (tf_r10 tf) in
      if max_read_buffer < capacity then answer_error frame (-22)
      else query_path frame (tf_rdi tf) (tf_rsi tf) (\<lambda>path. as_caller (\<lambda>user grp.
        require (access_allowed F user grp path 5) frame
          (ask (op_is_directory F path) (\<lambda>directory.
            if \<not> directory
            then ask (op_is_file F path) (\<lambda>exists. answer_error frame (if exists then -20 else -2))
            else ask (op_list_directory F path (tf_r9 tf \<noteq> 0) capacity) (\<lambda>listing. case listing of
                None \<Rightarrow> answer_error frame (-75)
              | Some bytes \<Rightarrow> deliver frame (tf_rdx tf) bytes (answer frame (word_of_nat (length bytes)))))))))"

definition sys_write_file :: "'f file_system \<Rightarrow> u64 \<Rightarrow> 'f handler" where
  "sys_write_file F frame = with_frame frame (\<lambda>tf.
      let len = unat (tf_r10 tf) in
      copy_user_path frame (tf_rdi tf) (tf_rsi tf) (\<lambda>path.
        if max_write_file_size < len then answer_error frame (-28)
        else ask (op_is_file F path) (\<lambda>exists. as_caller (\<lambda>user grp.
          require (if exists then access_allowed F user grp path 2 else parent_access_allowed F user grp path 3) frame
            (fetch frame (tf_rdx tf) len (\<lambda>contents.
              if is_global_config_path path \<and> parse_config contents = None then answer_error frame (-22)
              else ask_result (write_file_as F path contents user grp) frame (\<lambda>_ w.
                answer frame (word_of_nat len)
                  (if is_global_config_path path then w\<lparr>w_layout := load_config contents (w_layout w)\<rparr> else w))))))))"

text \<open>\<open>mkdir\<close>, \<open>touch\<close> and \<open>remove\<close> share one handler; \<open>number\<close> is the call.\<close>

datatype tree_call = Mkdir | Touch | Remove

definition tree_result ::
  "u64 \<Rightarrow> ((fs_error + unit) \<times> 'f) option \<Rightarrow> 'f handler" where
  "tree_result frame r w = (case r of
     None \<Rightarrow> panic w
   | Some (Inl e, f) \<Rightarrow> answer_error frame (fs_error_code e) (w\<lparr>w_files := f\<rparr>)
   | Some (Inr _, f) \<Rightarrow> answer frame 0 (w\<lparr>w_files := f\<rparr>))"

definition sys_tree :: "'f file_system \<Rightarrow> tree_call \<Rightarrow> u64 \<Rightarrow> 'f handler" where
  "sys_tree F call frame = with_frame frame (\<lambda>tf.
      let flag = (tf_rdx tf \<noteq> 0) in
      copy_user_path frame (tf_rdi tf) (tf_rsi tf) (\<lambda>path. as_caller (\<lambda>user grp.
        require (if call = Mkdir \<and> flag then recursive_parent_access_allowed F user grp path 3
            else parent_access_allowed F user grp path 3) frame
          (\<lambda>w. tree_result frame (case call of
              Mkdir \<Rightarrow> create_directory_with_parents_as F path flag user grp (w_files w)
            | Touch \<Rightarrow> Some (create_file_as F path user grp (w_files w))
            | Remove \<Rightarrow> remove_file F path flag (w_files w)) w))))"

section \<open>Changing the root\<close>

definition until_nul :: "u8 list \<Rightarrow> str" where
  "until_nul bytes = take (case position (\<lambda>b. b = 0) bytes of None \<Rightarrow> 0 | Some finish \<Rightarrow> finish) bytes"

definition sys_pivot_root :: "'d block_device \<Rightarrow> u64 \<Rightarrow> 'd roots handler" where
  "sys_pivot_root dev frame = with_frame frame (\<lambda>tf.
      fetch frame (tf_rdi tf) max_mutable_path (\<lambda>new_root. fetch frame (tf_rsi tf) max_mutable_path (\<lambda>put_old.
        if \<not> utf8_valid (until_nul new_root) \<or> \<not> utf8_valid (until_nul put_old) then answer_error frame (-22)
        else ask (pivot_root_to dev (until_nul new_root) (until_nul put_old)) (\<lambda>r. case r of
            Inl e \<Rightarrow> answer_error frame (vfs_errno e)
          | Inr _ \<Rightarrow> answer frame 0))))"

end
