(* ===== verification/File_Access.thy ===== *)
theory File_Access
  imports File_Calls
begin

text \<open>
  The system calls on files, where the root is the volatile one. A call of an unprivileged
  process does not change a file when the permission bits of the file and of the directories
  above it refuse that process to write; the check along a path agrees with its reference.
\<close>

section \<open>Where a handler leaves the files\<close>

definition ends :: "'f handler \<Rightarrow> 'f world \<Rightarrow> ('f \<Rightarrow> bool) \<Rightarrow> bool" where
  "ends h w Q \<longleftrightarrow> Q (w_files (snd (h w)))"

lemma ends_simps [simp]:
  "ends (answer frame v) w Q = Q (w_files w)"
  "ends (answer_error frame e) w Q = Q (w_files w)"
  "ends panic w Q = Q (w_files w)"
  "ends (ask m c) w Q = (case m (w_files w) of (x, f) \<Rightarrow> ends (c x) (w\<lparr>w_files := f\<rparr>) Q)"
  "ends (as_caller g) w Q = ends (g (pr_uid (current_process (w_kernel w))) (pr_gid (current_process (w_kernel w)))) w Q"
  "ends (\<lambda>w. if b then h w else h' w) w Q = (if b then ends h w Q else ends h' w Q)"
  by (simp_all add: ends_def answer_error_def answer_def panic_def ask_def as_caller_def current_credentials_def
    split: prod.split)

lemma ends_if [simp]: "ends (if b then h else h') w Q = (if b then ends h w Q else ends h' w Q)"
  by simp

lemma ends_frame [simp]: "ends (with_frame frame c) w Q = ends (c (trap_frames (w_kernel w) frame)) w Q"
  by (simp add: ends_def with_frame_def)

lemma ends_fetch [intro]:
  "Q (w_files w) \<Longrightarrow> (\<And>bytes. ends (c bytes) w Q) \<Longrightarrow> ends (fetch frame a n c) w Q"
  by (auto simp: ends_def fetch_def panic_def answer_error_def answer_def split: option.split)

lemma ends_deliver [intro]:
  "Q (w_files w) \<Longrightarrow> (\<And>k. ends c (w\<lparr>w_kernel := k\<rparr>) Q) \<Longrightarrow> ends (deliver frame a bytes c) w Q"
  by (auto simp: ends_def deliver_def panic_def answer_error_def answer_def split: option.split prod.split bool.split)

lemma ends_store [simp]: "ends (store_descriptor frame fd d v) w Q = Q (w_files w)"
  by (simp add: ends_def store_descriptor_def answer_error_def answer_def split: prod.split)

lemma ends_copy_path [intro]:
  "Q (w_files w) \<Longrightarrow> (\<And>path. ends (c path) w Q) \<Longrightarrow> ends (copy_user_path frame a n c) w Q"
  unfolding copy_user_path_def by (auto intro!: ends_fetch)

lemma ends_query_path [intro]:
  "Q (w_files w) \<Longrightarrow> (\<And>path. ends (c path) w Q) \<Longrightarrow> ends (query_path frame a n c) w Q"
  unfolding query_path_def by (auto intro!: ends_fetch)

lemma ends_with_descriptor [intro]:
  "Q (w_files w) \<Longrightarrow> (\<And>d. ends (c d) w Q) \<Longrightarrow> ends (with_descriptor frame fd c) w Q"
  by (auto simp: ends_def with_descriptor_def answer_error_def answer_def split: option.split)

lemma ends_open_descriptor [simp]: "ends (open_descriptor F frame path flags offset) w Q = Q (w_files w)"
  by (simp add: ends_def open_descriptor_def answer_error_def answer_def split: prod.split option.split)

section \<open>Questions to the volatile root\<close>

lemma vfs_ram [simp]:
  assumes "root_backend s = RamRoot"
  shows "op_metadata (vfs fuel dev) path s = (metadata_overlay (ram_root s) path, s)"
    "op_is_directory (vfs fuel dev) path s = (is_directory_overlay (ram_root s) path, s)"
    "op_is_file (vfs fuel dev) path s = (is_file_overlay (ram_root s) path, s)"
    "op_read_static (vfs fuel dev) path s = (read_from_overlay (ram_root s) path, s)"
    "op_list_directory (vfs fuel dev) path hidden n s = (list_directory_overlay (ram_root s) path hidden n, s)"
    "op_file_len (vfs fuel dev) path s = (map_err vfs_of_fs_error (file_len_overlay (ram_root s) path), s)"
    "op_read_at (vfs fuel dev) path offset n s = (map_err vfs_of_fs_error (read_at_overlay (ram_root s) path offset n), s)"
  using assms by (simp_all add: vfs_def vfs_metadata_def vfs_is_directory_def vfs_is_file_def vfs_read_static_def
    vfs_list_directory_def vfs_file_len_def vfs_read_at_def)

lemma search_loop_same:
  "root_backend s = RamRoot \<Longrightarrow> snd (search_loop (vfs fuel dev) user grp cs path s) = s"
  by (induction cs arbitrary: path) (auto simp: Let_def split: option.split)

lemma parents_loop_same:
  "root_backend s = RamRoot \<Longrightarrow> snd (parents_loop (vfs fuel dev) user grp requested cs path l s) = s"
  by (induction cs arbitrary: path l) (auto simp: Let_def split: option.split)

text \<open>What a granted check tells: the permission bits of the path allow the request.\<close>

definition permits :: "ramfs \<Rightarrow> u32 \<Rightarrow> u32 \<Rightarrow> str \<Rightarrow> u16 \<Rightarrow> bool" where
  "permits fs user grp path requested \<longleftrightarrow>
     (\<exists>md. metadata_overlay fs path = Some md \<and> mode_allows md user grp requested)"

definition checks :: "('f \<Rightarrow> bool option \<times> 'f) \<Rightarrow> 'f \<Rightarrow> bool \<Rightarrow> bool" where
  "checks m s P \<longleftrightarrow> (\<exists>r. m s = (r, s) \<and> (r = Some True \<longrightarrow> P))"

lemma checks_weaken: "checks m s P \<Longrightarrow> (P \<Longrightarrow> P') \<Longrightarrow> checks m s P'"
  by (auto simp: checks_def)

lemma access_outcome:
  assumes "root_backend s = RamRoot" "user \<noteq> 0"
  shows "checks (access_allowed (vfs fuel dev) user grp path requested) s (permits (ram_root s) user grp path requested)"
proof -
  obtain r where r: "ancestors_searchable (vfs fuel dev) path user grp s = (r, s)"
    using search_loop_same [OF assms(1)] unfolding ancestors_searchable_def by (metis prod.collapse)
  consider "r = Some True" | "r = Some False" | "r = None" by (cases r) auto
  then show ?thesis
    by cases (simp_all add: checks_def access_allowed_def r assms permits_def split: option.split)
qed

lemma ends_require:
  assumes "root_backend (w_files w) = RamRoot"
    and "checks m (w_files w) P"
    and "Q (w_files w)" "P \<Longrightarrow> ends c w Q"
  shows "ends (require m frame c) w Q"
proof -
  obtain r where r: "m (w_files w) = (r, w_files w)" "r = Some True \<longrightarrow> P" using assms(2) by (auto simp: checks_def)
  consider "r = None" | "r = Some False" | "r = Some True" by (cases r) auto
  then show ?thesis using r assms(3,4) by cases (auto simp: require_def)
qed

lemma ends_ask_result:
  assumes "\<And>e f. m (w_files w) = (Inl e, f) \<Longrightarrow> Q f"
    and "\<And>x f. m (w_files w) = (Inr x, f) \<Longrightarrow> ends (c x) (w\<lparr>w_files := f\<rparr>) Q"
  shows "ends (ask_result m frame c) w Q"
  using assms by (auto simp: ask_result_def split: prod.split sum.split)

section \<open>Paths\<close>

lemma metadata_canonical: "canonical path = Some p \<Longrightarrow> metadata_overlay fs path = metadata_overlay fs p"
  using canonical_again [of path p] by (simp add: metadata_overlay_def)

lemma split_on_both: "split_on c (a @ c # b) = split_on c a @ split_on c b"
  by (induction a) (auto split: list.splits)

definition bad_parts :: "str \<Rightarrow> bool" where
  "bad_parts p \<longleftrightarrow> (\<exists>component \<in> set (split_on slash p).
     component = [] \<or> component = ascii ''.'' \<or> component = ascii ''..'')"

lemma canonical_bad:
  "canonical path = (if path = [] then Some path else
     let path = (case strip_prefix [slash] path of Some rest \<Rightarrow> rest | None \<Rightarrow> path) in
     if path = [] then Some path else if bad_parts path then None else Some path)"
  unfolding canonical_def bad_parts_def by (rule refl)

lemma bad_parts_start: "bad_parts (slash # p)"
  by (simp add: bad_parts_def)

lemma canonical_iff:
  assumes q: "q \<noteq> []"
  shows "canonical path = Some q \<longleftrightarrow> \<not> bad_parts q \<and> (path = q \<or> path = slash # q)"
proof (cases "strip_prefix [slash] path")
  case None
  then have n: "path \<noteq> slash # q" by (auto simp: strip_prefix_def)
  have "canonical path = (if path = [] then Some path else if bad_parts path then None else Some path)"
    unfolding canonical_bad None Let_def by simp
  then show ?thesis using n q by auto
next
  case (Some rest)
  then have r: "path = slash # rest" by (simp add: strip_prefix_Some_iff)
  have "canonical path = (if rest = [] then Some rest else if bad_parts rest then None else Some rest)"
    unfolding canonical_bad Some Let_def using r by simp
  then have "canonical path = Some q \<longleftrightarrow> rest = q \<and> \<not> bad_parts q" using q by (cases "bad_parts rest") auto
  moreover have "path = q \<longrightarrow> bad_parts q" unfolding r by (metis bad_parts_start)
  moreover have "path = slash # q \<longleftrightarrow> rest = q" using r by simp
  ultimately show ?thesis by blast
qed

lemma bad_parts_prefix: "\<not> bad_parts (a @ slash # b) \<Longrightarrow> \<not> bad_parts a \<and> a \<noteq> []"
  unfolding bad_parts_def split_on_both set_append bex_Un by (cases a) simp_all

lemma parent_canonical:
  assumes c: "canonical path = Some q" and q: "q \<noteq> []"
  shows "canonical (parent_of path) = Some (parent_of q)" "is_child q (parent_of q)"
proof -
  have path: "\<not> bad_parts q" "path = q \<or> path = slash # q" using c canonical_iff [OF q] by auto
  have "canonical (parent_of path) = Some (parent_of q) \<and> is_child q (parent_of q)"
  proof (cases "rsplit_once slash q")
    case None
    then have "parent_of path = []" "parent_of q = []" using path(2) by (auto simp: parent_of_def)
    then show ?thesis using q by (simp add: canonical_def is_child_def)
  next
    case (Some ab)
    obtain a b where ab: "ab = (a, b)" by (cases ab) auto
    then have qab: "q = a @ slash # b" using rsplit_once_Some Some by fastforce
    have a: "\<not> bad_parts a" "a \<noteq> []" using bad_parts_prefix path(1) qab by auto
    have "parent_of q = a" "parent_of path = a \<or> parent_of path = slash # a"
      using path(2) by (auto simp: parent_of_def Some ab)
    then show ?thesis using canonical_iff [OF a(2)] a by (auto simp: is_child_def qab strip_prefix_def)
  qed
  then show "canonical (parent_of path) = Some (parent_of q)" "is_child q (parent_of q)" by auto
qed

section \<open>Shielded files\<close>

definition below :: "str \<Rightarrow> str \<Rightarrow> bool" where
  "below p q \<longleftrightarrow> p = q \<or> is_child p q"

definition shielded :: "ramfs \<Rightarrow> u32 \<Rightarrow> u32 \<Rightarrow> str \<Rightarrow> bool" where
  "shielded fs user grp p \<longleftrightarrow> canonical p = Some p \<and> p \<noteq> [] \<and> (\<forall>q. below p q \<longrightarrow> \<not> permits fs user grp q 2)"

lemma and_part: "s AND r = r \<Longrightarrow> r AND t = t \<Longrightarrow> s AND t = (t :: 'a::len word)"
  by (metis and.assoc)

lemma permits_write: "permits fs user grp q 3 \<Longrightarrow> permits fs user grp q 2"
proof -
  have "(3 :: u16) AND 2 = 2" by simp
  then show "permits fs user grp q 3 \<Longrightarrow> permits fs user grp q 2"
    unfolding permits_def mode_allows_def allows_def Let_def using and_part [of _ 3 2] by (auto split: if_splits)
qed

lemma permits_canonical: "canonical path = Some q \<Longrightarrow> permits fs user grp path r = permits fs user grp q r"
  by (simp add: permits_def metadata_canonical)

lemma below_trans: "below p q \<Longrightarrow> is_child q r \<Longrightarrow> is_child p r"
  using is_child_trans [of p q r] by (auto simp: below_def)

text \<open>A permission that a shielded file excludes.\<close>

lemma shielded_write:
  assumes "shielded fs user grp p" "canonical path = Some q" "permits fs user grp path 2"
  shows "\<not> below p q"
  using assms permits_canonical [OF assms(2)] by (auto simp: shielded_def)

lemma shielded_parent:
  assumes s: "shielded fs user grp p" and c: "canonical path = Some q" and q: "q \<noteq> []"
    and "permits fs user grp (parent_of path) 3"
  shows "\<not> below p q"
proof
  assume "below p q"
  then have "below p (parent_of q)" using below_trans parent_canonical(2) [OF c q] by (auto simp: below_def)
  moreover have "permits fs user grp (parent_of q) 2"
    using permits_write [OF assms(4)] permits_canonical [OF parent_canonical(1) [OF c q]] by simp
  ultimately show False using s by (simp add: shielded_def)
qed

section \<open>What each operation spares\<close>

lemma write_spares:
  assumes ok: "ramfs_ok fs" and op: "write_file_overlay path bytes u g fs = (r, fs')"
    and p: "canonical p = Some p" and c: "\<And>q. canonical path = Some q \<Longrightarrow> q \<noteq> [] \<Longrightarrow> \<not> below p q"
  shows "read_from_overlay fs' p = read_from_overlay fs p"
proof (cases "canonical path")
  case None
  then show ?thesis using op by (auto simp: write_file_overlay_def split: if_splits)
next
  case (Some q)
  show ?thesis
  proof (cases "q = []")
    case True
    then show ?thesis using op Some by (auto simp: write_file_overlay_def dev_path_def disk_path_def split: if_splits)
  next
    case False
    then show ?thesis
      using write_file_outcome [OF ok op] c [OF Some False] p Some by (auto simp: changes_none_def changes_file_def below_def)
  qed
qed

lemma write_at_spares:
  assumes ok: "ramfs_ok fs" and op: "write_at_overlay path offset input fs = (r, fs')"
    and p: "canonical p = Some p" and c: "\<And>q. canonical path = Some q \<Longrightarrow> \<not> below p q"
  shows "read_from_overlay fs' p = read_from_overlay fs p"
  using write_at_outcome [OF ok op] c p by (auto simp: changes_none_def changes_file_def below_def)

lemma create_spares:
  assumes ok: "ramfs_ok fs" and op: "create_file_overlay path bits u g fs = (r, fs')"
    and p: "canonical p = Some p" and c: "\<And>q. canonical path = Some q \<Longrightarrow> q \<noteq> [] \<Longrightarrow> \<not> below p q"
  shows "read_from_overlay fs' p = read_from_overlay fs p"
proof (cases "canonical path")
  case None
  then show ?thesis using op by (auto simp: create_file_overlay_def split: if_splits)
next
  case (Some q)
  show ?thesis
  proof (cases "q = []")
    case True
    then show ?thesis using op Some by (auto simp: create_file_overlay_def dev_path_def disk_path_def split: if_splits)
  next
    case False
    then show ?thesis
      using create_file_outcome [OF ok op] c [OF Some False] p Some by (auto simp: changes_file_def below_def)
  qed
qed

lemma remove_spares:
  assumes ok: "ramfs_ok fs" and op: "remove_overlay path recursive fs = (r, fs')"
    and p: "canonical p = Some p" and c: "\<And>q. canonical path = Some q \<Longrightarrow> q \<noteq> [] \<Longrightarrow> \<not> below p q"
  shows "read_from_overlay fs' p = read_from_overlay fs p"
proof (cases "canonical path = Some []")
  case True
  then show ?thesis using op by (auto simp: remove_overlay_def)
next
  case False
  then show ?thesis using remove_outcome [OF ok op] c p by (auto simp: keeps_others_def below_def)
qed

lemma create_one_spares:
  assumes ok: "ramfs_ok fs" and op: "create_directory_one q u g fs = (r, fs')"
    and p: "canonical p = Some p" and c: "\<not> below p q"
  shows "ramfs_ok fs' \<and> read_from_overlay fs' p = read_from_overlay fs p"
  using create_one_outcome [OF ok op] c p ok by (auto simp: keeps_others_def below_def)

subsection \<open>Directories with their parents\<close>

lemma child_below: "is_child q path \<Longrightarrow> below p q \<Longrightarrow> below p path"
  using below_trans by (auto simp: below_def)

lemma create_one_error: "create_directory_one q u g fs = (Inl e, fs') \<Longrightarrow> fs' = fs"
  by (auto simp: create_directory_one_def insert_overlay_as_def Let_def split: if_splits sum.splits option.splits)

lemma create_parents_cases:
  assumes "create_parents (c # cs) path u g fs = Some (r, fs')"
  obtains "fs' = fs"
    | "is_directory_overlay fs ((if path \<noteq> [] then path @ [slash] else path) @ c)"
      "utf8_valid ((if path \<noteq> [] then path @ [slash] else path) @ c)"
      "create_parents cs ((if path \<noteq> [] then path @ [slash] else path) @ c) u g fs = Some (r, fs')"
    | fs1 where "\<not> is_directory_overlay fs ((if path \<noteq> [] then path @ [slash] else path) @ c)"
      "\<not> is_file_overlay fs ((if path \<noteq> [] then path @ [slash] else path) @ c)"
      "utf8_valid ((if path \<noteq> [] then path @ [slash] else path) @ c)"
      "create_directory_one ((if path \<noteq> [] then path @ [slash] else path) @ c) u g fs = (Inr (), fs1)"
      "create_parents cs ((if path \<noteq> [] then path @ [slash] else path) @ c) u g fs1 = Some (r, fs')"
  using assms create_one_error
  by (auto simp: Let_def split: if_split_asm prod.split_asm sum.split_asm)

lemma joined_child: "path \<noteq> [] \<or> c \<noteq> [] \<Longrightarrow> is_child ((if path \<noteq> [] then path @ [slash] else path) @ c) path"
  by (simp add: is_child_def strip_prefix_def)

lemma create_parents_below:
  assumes p: "canonical p = Some p"
  shows "ramfs_ok fs \<Longrightarrow> path \<noteq> [] \<Longrightarrow> \<not> below p path \<Longrightarrow> create_parents cs path u g fs = Some (r, fs') \<Longrightarrow>
    read_from_overlay fs' p = read_from_overlay fs p"
proof (induction cs arbitrary: path fs)
  case (Cons c cs)
  let ?path = "(if path \<noteq> [] then path @ [slash] else path) @ c"
  have nb: "\<not> below p ?path" "?path \<noteq> []" using Cons.prems(2,3) child_below [OF joined_child [of path c]] by auto
  from Cons.prems(4) show ?case
  proof (cases rule: create_parents_cases)
    case 2
    then show ?thesis using Cons.IH [OF Cons.prems(1) nb(2,1)] by simp
  next
    case (3 fs1)
    note one = create_one_spares [OF Cons.prems(1) 3(4) p nb(1)]
    then show ?thesis using Cons.IH [OF _ nb(2,1) 3(5)] by simp
  qed simp
qed simp

lemma metadata_directory:
  assumes "canonical q = Some q" "q \<noteq> disk_path" "metadata_overlay fs q = Some md" "meta_is_directory md" "\<not> is_directory_overlay fs q"
  shows "is_file_overlay fs q"
  using assms
  by (auto simp: metadata_overlay_def is_file_overlay_def is_directory_overlay_def file_len_overlay_def read_from_overlay_def
    archive_is_file_def split: option.splits if_splits)

definition step_path :: "str \<Rightarrow> str \<Rightarrow> str" where
  "step_path path c = (if path \<noteq> [] then path @ [slash] else path) @ c"

lemma step_path_join: "c \<noteq> [] \<Longrightarrow> step_path path (join slash (c # d # ds)) = step_path (step_path path c) (join slash (d # ds))"
  by (simp add: step_path_def)

lemma step_path_good: "c \<noteq> [] \<Longrightarrow> \<not> bad_parts (step_path path (join slash (c # cs))) \<Longrightarrow> canonical (step_path path c) = Some (step_path path c)"
proof -
  assume c: "c \<noteq> []" and good: "\<not> bad_parts (step_path path (join slash (c # cs)))"
  have "\<not> bad_parts (step_path path c)"
  proof (cases cs)
    case (Cons d ds)
    have "step_path path (join slash (c # cs)) = step_path path c @ slash # join slash cs"
      using c Cons by (simp add: step_path_def)
    then show ?thesis using good bad_parts_prefix by metis
  qed (use good in simp)
  moreover have "step_path path c \<noteq> []" using c by (simp add: step_path_def)
  ultimately show "canonical (step_path path c) = Some (step_path path c)" using canonical_iff by blast
qed

lemma parents_loop_step:
  assumes "root_backend s = RamRoot" "c \<noteq> []"
    and "parents_loop (vfs fuel dev) user grp 3 (c # cs) path l s = (Some True, s)" "utf8_valid (step_path path c)"
  shows "metadata_overlay (ram_root s) (step_path path c) = None \<and>
      (\<exists>md. l = Some md \<and> mode_allows md user grp 3) \<or>
    (\<exists>md. metadata_overlay (ram_root s) (step_path path c) = Some md \<and> meta_is_directory md \<and>
      parents_loop (vfs fuel dev) user grp 3 cs (step_path path c) (Some md) s = (Some True, s))"
  using assms by (auto simp: Let_def step_path_def split: if_split_asm option.split_asm)

lemma parents_shielded:
  assumes p: "canonical p = Some p" and nodisk: "\<not> below p disk_path" and root: "root_backend s = RamRoot"
    and shield: "\<And>q. below p q \<Longrightarrow> \<not> permits (ram_root s) user grp q 2"
    and ok: "ramfs_ok (ram_root s)"
  shows "\<forall>c \<in> set cs. c \<noteq> [] \<Longrightarrow> cs \<noteq> [] \<Longrightarrow> \<not> bad_parts (step_path path (join slash cs)) \<Longrightarrow>
    parents_loop (vfs fuel dev) user grp 3 (butlast cs) path (metadata_overlay (ram_root s) path) s = (Some True, s) \<Longrightarrow>
    create_parents cs path u g (ram_root s) = Some (r, fs') \<Longrightarrow>
    read_from_overlay fs' p = read_from_overlay (ram_root s) p"
proof (induction cs arbitrary: path)
  case (Cons c cs)
  let ?path = "step_path path c" and ?fs = "ram_root s"
  have c: "c \<noteq> []" and ne: "?path \<noteq> []" using Cons.prems(1) by (auto simp: step_path_def)
  have child: "is_child ?path path" using joined_child [of path c] c by (simp add: step_path_def)
  have can: "canonical ?path = Some ?path" using step_path_good [OF c Cons.prems(3)] .
  have free: "\<not> below p ?path" if "\<exists>md. metadata_overlay ?fs path = Some md \<and> mode_allows md user grp 3"
    using that shield child_below [OF child] permits_write [of ?fs user grp path] by (auto simp: permits_def)
  have spare: ?case if nb: "\<not> below p ?path"
    using Cons.prems(5)
  proof (cases rule: create_parents_cases)
    case 2
    then show ?thesis using create_parents_below [OF p ok ne nb, of cs u g r fs'] by (simp add: step_path_def)
  next
    case (3 fs1)
    note one = create_one_spares [OF ok 3(4) [folded step_path_def] p nb]
    then show ?thesis using create_parents_below [OF p _ ne nb, of fs1 cs u g r fs'] 3(5) by (simp add: step_path_def)
  qed simp
  show ?case
  proof (cases cs)
    case Nil
    then show ?thesis using Cons.prems(4) free spare by (auto split: option.split_asm)
  next
    case rest: (Cons d ds)
    have loop: "parents_loop (vfs fuel dev) user grp 3 (c # butlast cs) path (metadata_overlay ?fs path) s = (Some True, s)"
      using Cons.prems(4) rest by simp
    from Cons.prems(5) show ?thesis
    proof (cases rule: create_parents_cases)
      case 2
      have valid: "utf8_valid ?path" using 2(2) by (simp add: step_path_def)
      show ?thesis
      proof (cases "fs' = ?fs")
        case False
        have "metadata_overlay ?fs ?path \<noteq> None"
          using 2(1) can by (auto simp: metadata_overlay_def step_path_def split: option.split)
        then obtain md where "metadata_overlay ?fs ?path = Some md"
            "parents_loop (vfs fuel dev) user grp 3 (butlast cs) ?path (metadata_overlay ?fs ?path) s = (Some True, s)"
          using parents_loop_step [OF root c loop valid] by auto
        moreover have "\<not> bad_parts (step_path ?path (join slash cs))"
          using Cons.prems(3) step_path_join [OF c, of path d ds] rest by simp
        ultimately show ?thesis
          using Cons.IH [of ?path] Cons.prems(1) rest 2(3) by (simp add: step_path_def)
      qed simp
    next
      case (3 fs1)
      have valid: "utf8_valid ?path" using 3(3) by (simp add: step_path_def)
      consider "\<not> below p ?path" | md where "below p ?path" "metadata_overlay ?fs ?path = Some md" "meta_is_directory md"
        using parents_loop_step [OF root c loop valid] free by blast
      then show ?thesis
      proof cases
        case 2
        then have "?path \<noteq> disk_path" using nodisk by auto
        then show ?thesis using metadata_directory [OF can _ 2(2,3)] 3(1,2) by (simp add: step_path_def)
      qed (rule spare)
    qed simp
  qed
qed simp


section \<open>The handlers\<close>

lemma vfs_writes:
  assumes "root_backend s = RamRoot"
  shows "write_file_as (vfs fuel dev) path bytes u g s = (r, s') \<Longrightarrow>
      \<exists>r0 fs'. write_file_overlay path bytes u g (ram_root s) = (r0, fs') \<and> s' = s\<lparr>ram_root := fs'\<rparr>"
    "write_at (vfs fuel dev) path offset bytes s = (n, s') \<Longrightarrow>
      \<exists>r0 fs'. write_at_overlay path offset bytes (ram_root s) = (r0, fs') \<and> s' = s\<lparr>ram_root := fs'\<rparr>"
    "create_file_with_mode_as (vfs fuel dev) path bits u g s = (r, s') \<Longrightarrow>
      \<exists>r0 fs'. create_file_overlay path bits u g (ram_root s) = (r0, fs') \<and> s' = s\<lparr>ram_root := fs'\<rparr>"
    "remove_file (vfs fuel dev) path recursive s = Some (r, s') \<Longrightarrow>
      \<exists>r0 fs'. remove_overlay path recursive (ram_root s) = (r0, fs') \<and> s' = s\<lparr>ram_root := fs'\<rparr>"
    "create_directory_with_parents_as (vfs fuel dev) path parents u g s = Some (r, s') \<Longrightarrow>
      \<exists>r0 fs'. create_directory_overlay path parents u g (ram_root s) = Some (r0, fs') \<and> s' = s\<lparr>ram_root := fs'\<rparr>"
  using assms
  by (auto simp: write_file_as_def write_at_def create_file_with_mode_as_def remove_file_def create_directory_with_parents_as_def
    vfs_def vfs_write_file_as_def vfs_write_at_def vfs_create_file_def vfs_remove_def vfs_create_directory_def on_ram_def
    map_err_io_def split: prod.splits)

datatype file_call = Open | ReadFd | WriteFd | SeekFd | Fstat | Stat | IsDir | IsFile | ReadFile | ReadDir | WriteFile
  | TreeCall tree_call

fun run_call :: "terminal \<Rightarrow> 'f file_system \<Rightarrow> file_call \<Rightarrow> u64 \<Rightarrow> 'f handler" where
  "run_call T F Open frame = open_file F frame"
| "run_call T F ReadFd frame = read_fd T F frame"
| "run_call T F WriteFd frame = write_fd T F frame"
| "run_call T F SeekFd frame = seek_fd F frame"
| "run_call T F Fstat frame = fstat_fd F frame"
| "run_call T F Stat frame = sys_stat F frame"
| "run_call T F IsDir frame = sys_is_directory F frame"
| "run_call T F IsFile frame = sys_is_file F frame"
| "run_call T F ReadFile frame = sys_read_file F frame"
| "run_call T F ReadDir frame = sys_read_directory F frame"
| "run_call T F WriteFile frame = sys_write_file F frame"
| "run_call T F (TreeCall call) frame = sys_tree F call frame"


text \<open>The situation of the property, and its conclusion.\<close>

definition guarded :: "str \<Rightarrow> 'd roots world \<Rightarrow> bool" where
  "guarded p w \<longleftrightarrow> ramfs_ok (ram_root (w_files w)) \<and> root_backend (w_files w) = RamRoot \<and>
     pr_uid (current_process (w_kernel w)) \<noteq> 0 \<and> \<not> below p disk_path \<and>
     shielded (ram_root (w_files w)) (pr_uid (current_process (w_kernel w))) (pr_gid (current_process (w_kernel w))) p"

definition unchanged :: "str \<Rightarrow> 'd roots world \<Rightarrow> 'd roots \<Rightarrow> bool" where
  "unchanged p w f \<longleftrightarrow> read_from_overlay (ram_root f) p = read_from_overlay (ram_root (w_files w)) p"

lemma unchanged_refl [simp]: "unchanged p w (w_files w)"
  by (simp add: unchanged_def)

lemma guardedD:
  assumes "guarded p w"
  shows "ramfs_ok (ram_root (w_files w))" "root_backend (w_files w) = RamRoot" "pr_uid (current_process (w_kernel w)) \<noteq> 0"
    "canonical p = Some p" "\<not> below p disk_path"
    "shielded (ram_root (w_files w)) (pr_uid (current_process (w_kernel w))) (pr_gid (current_process (w_kernel w))) p"
  using assms by (auto simp: guarded_def shielded_def)

text \<open>A path whose permission a shielded file excludes is not above it.\<close>

definition clear_of :: "str \<Rightarrow> str \<Rightarrow> bool" where
  "clear_of p path \<longleftrightarrow> (\<forall>q. canonical path = Some q \<longrightarrow> q \<noteq> [] \<longrightarrow> \<not> below p q)"

lemma clear_write: "shielded fs user grp p \<Longrightarrow> permits fs user grp path 2 \<Longrightarrow> clear_of p path"
  using shielded_write by (auto simp: clear_of_def)

lemma clear_parent: "shielded fs user grp p \<Longrightarrow> permits fs user grp (parent_of path) 3 \<Longrightarrow> clear_of p path"
  using shielded_parent by (auto simp: clear_of_def)

lemma open_permitted_outcome:
  assumes "root_backend s = RamRoot" "user \<noteq> 0"
  shows "checks (open_permitted (vfs fuel dev) user grp exists path flags) s (
    (exists \<longrightarrow> has_flag flags open_write \<longrightarrow> permits (ram_root s) user grp path 2) \<and>
    (\<not> exists \<longrightarrow> has_flag flags open_create \<longrightarrow> permits (ram_root s) user grp (parent_of path) 3))"
proof -
  obtain r4 where r4: "access_allowed (vfs fuel dev) user grp path 4 s = (r4, s)" using access_outcome [OF assms] unfolding checks_def by blast
  obtain r2 where r2: "access_allowed (vfs fuel dev) user grp path 2 s = (r2, s)"
    "r2 = Some True \<longrightarrow> permits (ram_root s) user grp path 2" using access_outcome [OF assms] unfolding checks_def by blast
  obtain r3 where r3: "access_allowed (vfs fuel dev) user grp (parent_of path) 3 s = (r3, s)"
    "r3 = Some True \<longrightarrow> permits (ram_root s) user grp (parent_of path) 3" using access_outcome [OF assms] unfolding checks_def by blast
  consider "r4 = Some True" | "r4 = Some False" | "r4 = None" by (cases r4) auto
  then show ?thesis using r2 r3
    by cases (auto simp: checks_def open_permitted_def both_allowed_def parent_access_allowed_def r4)
qed

lemma open_existing_unchanged:
  assumes "root_backend (w_files w) = RamRoot" "ramfs_ok (ram_root (w_files w))" "canonical p = Some p"
    and "unchanged p w0 (w_files w)" "has_flag flags open_truncate \<Longrightarrow> clear_of p path"
  shows "ends (open_existing (vfs fuel dev) user grp frame path flags) w (unchanged p w0)"
proof (cases "has_flag flags open_truncate")
  case True
  have "unchanged p w0 s'" if wr: "write_file_as (vfs fuel dev) path [] user grp (w_files w) = (r, s')" for r s'
  proof -
    obtain r0 fs' where w: "write_file_overlay path [] user grp (ram_root (w_files w)) = (r0, fs')" "s' = (w_files w)\<lparr>ram_root := fs'\<rparr>"
      using vfs_writes(1) [OF assms(1) wr] by blast
    show ?thesis
      using write_spares [OF assms(2) w(1) assms(3)] assms(4,5) True by (auto simp: clear_of_def unchanged_def w(2))
  qed
  then show ?thesis using True by (auto simp: open_existing_def intro!: ends_ask_result)
next
  case False
  then show ?thesis using assms(1,4) by (auto simp: open_existing_def file_len_def map_err_io_def intro!: ends_ask_result)
qed

lemma open_unchanged:
  assumes g: "guarded p w" shows "ends (open_file (vfs fuel dev) frame) w (unchanged p w)"
proof -
  note gd = guardedD [OF g]
  let ?flags = "tf_rdx (trap_frames (w_kernel w) frame)" and ?bits = "ucast (tf_r10 (trap_frames (w_kernel w) frame)) AND 511 :: u16"
  let ?u = "pr_uid (current_process (w_kernel w))" and ?g = "pr_gid (current_process (w_kernel w))"
  have "ends (require (open_permitted (vfs fuel dev) ?u ?g exists path ?flags) frame
      (ask (op_is_file (vfs fuel dev) path) (\<lambda>exists.
        if exists then open_existing (vfs fuel dev) ?u ?g frame path ?flags
        else if \<not> has_flag ?flags open_create then answer_error frame (-2)
        else ask_result (create_file_with_mode_as (vfs fuel dev) path ?bits ?u ?g) frame
          (\<lambda>_. open_existing (vfs fuel dev) ?u ?g frame path ?flags)))) w (unchanged p w)"
    if valid: "\<not> flags_invalid ?flags" and ex: "exists = is_file_overlay (ram_root (w_files w)) path" for path exists
  proof (rule ends_require [OF gd(2) open_permitted_outcome [OF gd(2,3)]])
    assume P: "(exists \<longrightarrow> has_flag ?flags open_write \<longrightarrow> permits (ram_root (w_files w)) ?u ?g path 2) \<and>
      (\<not> exists \<longrightarrow> has_flag ?flags open_create \<longrightarrow> permits (ram_root (w_files w)) ?u ?g (parent_of path) 3)"
    have tw: "has_flag ?flags open_truncate \<Longrightarrow> has_flag ?flags open_write"
      using valid unfolding flags_invalid_def has_flag_def
      by (metis bit.conj_disj_distrib or_eq_0_iff)
    have c1: "exists \<Longrightarrow> has_flag ?flags open_truncate \<Longrightarrow> clear_of p path"
      using P tw clear_write [OF gd(6)] by blast
    have c2: "\<not> exists \<Longrightarrow> has_flag ?flags open_create \<Longrightarrow> clear_of p path"
      using P clear_parent [OF gd(6)] by blast
    have create: "ends (ask_result (create_file_with_mode_as (vfs fuel dev) path ?bits ?u ?g) frame
          (\<lambda>_. open_existing (vfs fuel dev) ?u ?g frame path ?flags)) w (unchanged p w)"
      if new: "\<not> exists" "has_flag ?flags open_create"
    proof (rule ends_ask_result)
      fix e f assume "create_file_with_mode_as (vfs fuel dev) path ?bits ?u ?g (w_files w) = (Inl e, f)"
      then obtain r0 fs' where c: "create_file_overlay path ?bits ?u ?g (ram_root (w_files w)) = (r0, fs')"
          "f = (w_files w)\<lparr>ram_root := fs'\<rparr>" using vfs_writes(3) [OF gd(2)] by blast
      then show "unchanged p w f" using create_spares [OF gd(1) c(1) gd(4)] c2 [OF new] by (simp add: unchanged_def clear_of_def)
    next
      fix x f assume "create_file_with_mode_as (vfs fuel dev) path ?bits ?u ?g (w_files w) = (Inr x, f)"
      then obtain r0 fs' where c: "create_file_overlay path ?bits ?u ?g (ram_root (w_files w)) = (r0, fs')"
          "f = (w_files w)\<lparr>ram_root := fs'\<rparr>" using vfs_writes(3) [OF gd(2)] by blast
      have "unchanged p w f" using create_spares [OF gd(1) c(1) gd(4)] c2 [OF new] c(2) by (simp add: unchanged_def clear_of_def)
      moreover have "ramfs_ok fs'" using create_file_outcome [OF gd(1) c(1)] gd(1) by (auto simp: changes_file_def)
      ultimately show "ends (open_existing (vfs fuel dev) ?u ?g frame path ?flags) (w\<lparr>w_files := f\<rparr>) (unchanged p w)"
        using c2 [OF new] gd(2,4) by (intro open_existing_unchanged) (simp_all add: c(2))
    qed
    show "ends (ask (op_is_file (vfs fuel dev) path) (\<lambda>exists.
        if exists then open_existing (vfs fuel dev) ?u ?g frame path ?flags
        else if \<not> has_flag ?flags open_create then answer_error frame (-2)
        else ask_result (create_file_with_mode_as (vfs fuel dev) path ?bits ?u ?g) frame
          (\<lambda>_. open_existing (vfs fuel dev) ?u ?g frame path ?flags))) w (unchanged p w)"
      using create open_existing_unchanged [OF gd(2,1,4), of w ?flags path] c1 by (simp add: gd(2) ex [symmetric])
  qed simp
  then show ?thesis unfolding open_file_def Let_def by (auto simp: gd(2) intro!: ends_copy_path)
qed


lemma ends_check_descriptor:
  assumes "guarded p w" "Q (w_files w)"
    and "(fd_kind d = RegularFile \<Longrightarrow> permits (ram_root (w_files w)) (pr_uid (current_process (w_kernel w)))
      (pr_gid (current_process (w_kernel w))) (descriptor_path d) requested) \<Longrightarrow> ends c w Q"
  shows "ends (check_descriptor (vfs fuel dev) frame d requested c) w Q"
proof -
  note gd = guardedD [OF assms(1)]
  have "ends (require (access_allowed (vfs fuel dev) (pr_uid (current_process (w_kernel w)))
      (pr_gid (current_process (w_kernel w))) (descriptor_path d) requested) frame c) w Q" if "fd_kind d = RegularFile"
    by (rule ends_require [OF gd(2) access_outcome [OF gd(2,3)] assms(2) assms(3)])
  then show ?thesis using assms(2,3) by (auto simp: check_descriptor_def)
qed

lemma read_unchanged:
  assumes g: "guarded p w" shows "ends (read_fd T (vfs fuel dev) frame) w (unchanged p w)"
proof -
  note gd = guardedD [OF g]
  have stdin: "ends (read_stdin T frame a fd n d) w (unchanged p w)" for a fd n d
    unfolding ends_def read_stdin_def Let_def by (simp split: prod.split) 
      (auto simp: ends_def [symmetric] intro!: ends_deliver)
  have pipe: "ends (read_pipe_end frame a n d) w (unchanged p w)" for a n d
    unfolding ends_def read_pipe_end_def
    by (auto simp: ends_def [symmetric] intro!: ends_deliver split: prod.split sum.split)
  have reg: "ends (ask_result (read_at (vfs fuel dev) path offset n) frame (\<lambda>bytes. deliver frame a bytes
      (store_descriptor frame fd (d' bytes) (v bytes)))) w (unchanged p w)" for path offset n a fd d' v
    by (rule ends_ask_result) (auto simp: read_at_def map_err_io_def gd(2) intro!: ends_deliver)
  show ?thesis
    unfolding read_fd_def Let_def
    by (auto simp: stdin pipe reg intro!: ends_with_descriptor ends_check_descriptor [OF g] split: descriptor_kind.split)
qed

lemma write_unchanged:
  assumes g: "guarded p w" shows "ends (write_fd T (vfs fuel dev) frame) w (unchanged p w)"
proof -
  note gd = guardedD [OF g]
  have out: "ends (\<lambda>w. answer frame v (w\<lparr>w_kernel := console_write T bytes (w_kernel w)\<rparr>)) w (unchanged p w)" for v bytes
    by (simp add: ends_def answer_def)
  have pipe: "ends (\<lambda>w. case write_pipe i bytes (pipes (w_kernel w)) of (r, ps) \<Rightarrow>
        (case r of Inl e \<Rightarrow> answer_error frame (pipe_errno e) | Inr written \<Rightarrow> answer frame (word_of_nat written))
          (w\<lparr>w_kernel := (w_kernel w)\<lparr>pipes := ps\<rparr>\<rparr>)) w (unchanged p w)" for i bytes
    by (simp add: ends_def answer_def answer_error_def split: prod.split sum.split)
  have place: "ends (ask_result (write_at (vfs fuel dev) path offset bytes) frame (\<lambda>written.
        store_descriptor frame fd (d' written) (v written))) w (unchanged p w)"
    if per: "permits (ram_root (w_files w)) (pr_uid (current_process (w_kernel w))) (pr_gid (current_process (w_kernel w))) path 2"
    for path offset bytes fd d' v
  proof -
    have "unchanged p w f" if wr: "write_at (vfs fuel dev) path offset bytes (w_files w) = (r, f)" for r f
    proof -
      obtain r0 fs' where c: "write_at_overlay path offset bytes (ram_root (w_files w)) = (r0, fs')"
          "f = (w_files w)\<lparr>ram_root := fs'\<rparr>" using vfs_writes(2) [OF gd(2) wr] by blast
      show ?thesis using write_at_spares [OF gd(1) c(1) gd(4) shielded_write [OF gd(6) _ per]] c(2) by (simp add: unchanged_def)
    qed
    then show ?thesis by (auto intro!: ends_ask_result)
  qed
  have append: "ends (ask_result (file_len (vfs fuel dev) path) frame (\<lambda>offset. ask_result (write_at (vfs fuel dev) path offset bytes)
        frame (\<lambda>written. store_descriptor frame fd (d' offset written) (v written)))) w (unchanged p w)"
    if per: "permits (ram_root (w_files w)) (pr_uid (current_process (w_kernel w))) (pr_gid (current_process (w_kernel w))) path 2"
    for path bytes fd d' v
    by (rule ends_ask_result) (auto simp: file_len_def map_err_io_def gd(2) intro!: place [OF per])
  show ?thesis
    unfolding write_fd_def Let_def
    by (auto simp: out pipe intro!: ends_with_descriptor ends_check_descriptor [OF g] ends_fetch place append)
qed


lemma seek_unchanged: "guarded p w \<Longrightarrow> ends (seek_fd (vfs fuel dev) frame) w (unchanged p w)"
  unfolding seek_fd_def Let_def
  by (auto simp: file_len_def map_err_io_def guardedD(2) intro!: ends_with_descriptor ends_ask_result)

lemma metadata_unchanged: "guarded p w \<Longrightarrow> ends (deliver_metadata (vfs fuel dev) frame path a) w (unchanged p w)"
  unfolding deliver_metadata_def by (auto simp: guardedD(2) intro!: ends_deliver split: option.split)

lemma stat_unchanged:
  "guarded p w \<Longrightarrow> ends (fstat_fd (vfs fuel dev) frame) w (unchanged p w)"
  "guarded p w \<Longrightarrow> ends (sys_stat (vfs fuel dev) frame) w (unchanged p w)"
  unfolding fstat_fd_def sys_stat_def by (auto intro!: ends_with_descriptor ends_query_path metadata_unchanged)

lemma ends_access:
  assumes "guarded p w" "Q (w_files w)"
    and "permits (ram_root (w_files w)) (pr_uid (current_process (w_kernel w))) (pr_gid (current_process (w_kernel w))) path requested \<Longrightarrow>
      ends c w Q"
  shows "ends (require (access_allowed (vfs fuel dev) (pr_uid (current_process (w_kernel w)))
    (pr_gid (current_process (w_kernel w))) path requested) frame c) w Q"
  by (rule ends_require [OF guardedD(2) [OF assms(1)] access_outcome [OF guardedD(2,3) [OF assms(1)]] assms(2,3)])

lemma query_unchanged:
  "guarded p w \<Longrightarrow> ends (sys_is_directory (vfs fuel dev) frame) w (unchanged p w)"
  "guarded p w \<Longrightarrow> ends (sys_is_file (vfs fuel dev) frame) w (unchanged p w)"
  "guarded p w \<Longrightarrow> ends (sys_read_file (vfs fuel dev) frame) w (unchanged p w)"
  "guarded p w \<Longrightarrow> ends (sys_read_directory (vfs fuel dev) frame) w (unchanged p w)"
  unfolding sys_is_directory_def sys_is_file_def sys_read_file_def sys_read_directory_def Let_def
  by (auto simp: guardedD(2) intro!: ends_query_path ends_access ends_deliver split: option.split)

lemma write_file_unchanged:
  assumes g: "guarded p w" shows "ends (sys_write_file (vfs fuel dev) frame) w (unchanged p w)"
proof -
  note gd = guardedD [OF g]
  let ?u = "pr_uid (current_process (w_kernel w))" and ?g = "pr_gid (current_process (w_kernel w))"
  have store: "ends (ask_result (write_file_as (vfs fuel dev) path contents ?u ?g) frame (\<lambda>_ w. answer frame v (h w))) w (unchanged p w)"
    if clear: "clear_of p path" and h: "\<And>w. w_files (h w) = w_files w" for path contents v and h :: "'a roots world \<Rightarrow> 'a roots world"
  proof -
    have "unchanged p w f" if wr: "write_file_as (vfs fuel dev) path contents ?u ?g (w_files w) = (r, f)" for r f
    proof -
      obtain r0 fs' where c: "write_file_overlay path contents ?u ?g (ram_root (w_files w)) = (r0, fs')"
          "f = (w_files w)\<lparr>ram_root := fs'\<rparr>" using vfs_writes(1) [OF gd(2) wr] by blast
      show ?thesis using write_spares [OF gd(1) c(1) gd(4)] clear c(2) by (simp add: unchanged_def clear_of_def)
    qed
    moreover have "ends (\<lambda>w. answer frame v (h w)) w' Q = Q (w_files w')" for w' :: "'a roots world" and Q
      using h by (simp add: ends_def answer_def)
    ultimately show ?thesis by (auto intro!: ends_ask_result)
  qed
  show ?thesis
    unfolding sys_write_file_def Let_def parent_access_allowed_def
    by (auto simp: gd(2) intro!: ends_copy_path ends_access [OF g] ends_fetch store)
      (blast intro: clear_write [OF gd(6)] clear_parent [OF gd(6)])+
qed


lemma trim_good:
  assumes "\<not> bad_parts a" "a \<noteq> []"
  shows "trim_matches slash a = a" "trim_matches slash (slash # a) = a"
proof -
  have start: "trim_start slash a = a"
    using assms bad_parts_start by (cases a) (auto simp: trim_start_def)
  have "trim_finish slash a = a"
  proof (cases a rule: rev_cases)
    case (snoc b x)
    have "bad_parts (b @ slash # [])" unfolding bad_parts_def split_on_both by simp
    then have "x \<noteq> slash" using assms(1) snoc by auto
    then show ?thesis by (simp add: snoc trim_finish_def)
  qed (use assms in simp)
  then show "trim_matches slash a = a" "trim_matches slash (slash # a) = a"
    using start by (simp_all add: trim_matches_def) (simp add: trim_start_def)
qed

lemma parents_split:
  assumes c: "canonical path = Some q" and q: "q \<noteq> []"
  shows "parents_loop F user grp r (split_on slash (trim_matches slash (parent_of path))) [] l s =
    parents_loop F user grp r (butlast (split_on slash q)) [] l s"
proof -
  have path: "\<not> bad_parts q" "path = q \<or> path = slash # q" using c canonical_iff [OF q] by auto
  show ?thesis
  proof (cases "rsplit_once slash q")
    case None
    then have "parent_of path = []" "split_on slash q = [q]"
      using path(2) split_on_no_sep [of slash q] None rsplit_once_None [of slash q] by (auto simp: parent_of_def)
    then show ?thesis by (simp add: trim_matches_def trim_finish_def trim_start_def)
  next
    case (Some ab)
    obtain a b where ab: "ab = (a, b)" by (cases ab) auto
    then have qab: "q = a @ slash # b" "slash \<notin> set b" using rsplit_once_Some Some by fastforce+
    have a: "\<not> bad_parts a" "a \<noteq> []" using bad_parts_prefix path(1) qab by auto
    have "parent_of path = a \<or> parent_of path = slash # a" using path(2) by (auto simp: parent_of_def Some ab)
    then have "trim_matches slash (parent_of path) = a" using trim_good [OF a] by auto
    moreover have "butlast (split_on slash q) = split_on slash a"
      unfolding qab split_on_both using split_on_no_sep [OF qab(2)] by simp
    ultimately show ?thesis by simp
  qed
qed

lemma recursive_outcome:
  assumes "root_backend s = RamRoot" "user \<noteq> 0"
  shows "checks (recursive_parent_access_allowed (vfs fuel dev) user grp path 3) s
    (\<forall>q. canonical path = Some q \<longrightarrow> q \<noteq> [] \<longrightarrow>
      parents_loop (vfs fuel dev) user grp 3 (butlast (split_on slash q)) [] (metadata_overlay (ram_root s) []) s = (Some True, s))"
proof -
  obtain r where r: "parents_loop (vfs fuel dev) user grp 3 (split_on slash (trim_matches slash (parent_of path))) []
      (metadata_overlay (ram_root s) []) s = (r, s)"
    using parents_loop_same [OF assms(1)] by (metis prod.collapse)
  have "parents_loop (vfs fuel dev) user grp 3 (butlast (split_on slash q)) [] (metadata_overlay (ram_root s) []) s = (r, s)"
    if "canonical path = Some q" "q \<noteq> []" for q
    using parents_split [OF that, where F = "vfs fuel dev" and user = user and grp = grp and r = 3 and
      l = "metadata_overlay (ram_root s) []" and s = s] r by simp
  then show ?thesis
    using assms r by (auto simp: checks_def recursive_parent_access_allowed_def)
qed

lemma mkdir_unchanged:
  assumes g: "guarded p w" and op: "create_directory_overlay path parents u g' (ram_root (w_files w)) = Some (r, fs')"
    and one: "\<not> parents \<Longrightarrow> clear_of p path"
    and all: "\<And>q. parents \<Longrightarrow> canonical path = Some q \<Longrightarrow> q \<noteq> [] \<Longrightarrow>
      parents_loop (vfs fuel dev) (pr_uid (current_process (w_kernel w))) (pr_gid (current_process (w_kernel w))) 3
        (butlast (split_on slash q)) [] (metadata_overlay (ram_root (w_files w)) []) (w_files w) = (Some True, w_files w)"
  shows "read_from_overlay fs' p = read_from_overlay (ram_root (w_files w)) p"
proof (cases "canonical path")
  case None
  then show ?thesis using op by (simp add: create_directory_overlay_def)
next
  case (Some q)
  note gd = guardedD [OF g]
  show ?thesis
  proof (cases "q = []")
    case True
    then show ?thesis using op Some by (simp add: create_directory_overlay_def)
  next
    case q: False
    have good: "\<not> bad_parts q" using Some canonical_iff [OF q] by simp
    show ?thesis
    proof (cases parents)
      case True
      have parts: "\<forall>c \<in> set (split_on slash q). c \<noteq> []" using good by (auto simp: bad_parts_def)
      have shield: "\<And>q. below p q \<Longrightarrow> \<not> permits (ram_root (w_files w)) (pr_uid (current_process (w_kernel w)))
          (pr_gid (current_process (w_kernel w))) q 2"
        using gd(6) by (simp add: shielded_def)
      have "create_parents (split_on slash q) [] u g' (ram_root (w_files w)) = Some (r, fs')"
        using op Some q True by (simp add: create_directory_overlay_def)
      moreover have "\<not> bad_parts (step_path [] (join slash (split_on slash q)))"
        using good by (simp add: step_path_def join_split_on)
      moreover have "split_on slash q \<noteq> []" by simp
      ultimately show ?thesis
        using parents_shielded [OF gd(4,5,2) shield gd(1) parts _ _ all [OF True Some q]] by blast
    next
      case False
      then have "create_directory_one q u g' (ram_root (w_files w)) = (r, fs')" "\<not> below p q"
        using op Some q one by (auto simp: create_directory_overlay_def clear_of_def)
      then show ?thesis using create_one_spares [OF gd(1) _ gd(4)] by blast
    qed
  qed
qed

lemma tree_unchanged:
  assumes g: "guarded p w" shows "ends (sys_tree (vfs fuel dev) call frame) w (unchanged p w)"
proof -
  note gd = guardedD [OF g]
  let ?u = "pr_uid (current_process (w_kernel w))" and ?g = "pr_gid (current_process (w_kernel w))"
  have result: "ends (tree_result frame r) w' Q" if "\<And>x f. r = Some (x, f) \<Longrightarrow> Q f" "Q (w_files w')" for r Q and w' :: "'a roots world"
    using that unfolding ends_def tree_result_def
    by (auto simp: panic_def answer_def answer_error_def split: option.split sum.split)
  have op: "unchanged p w f"
    if o: "(case call of Mkdir \<Rightarrow> create_directory_with_parents_as (vfs fuel dev) path flag ?u ?g (w_files w)
          | Touch \<Rightarrow> Some (create_file_as (vfs fuel dev) path ?u ?g (w_files w))
          | Remove \<Rightarrow> remove_file (vfs fuel dev) path flag (w_files w)) = Some (x, f)"
      and one: "\<not> (call = Mkdir \<and> flag) \<Longrightarrow> clear_of p path"
      and all: "call = Mkdir \<and> flag \<Longrightarrow> (\<forall>q. canonical path = Some q \<longrightarrow> q \<noteq> [] \<longrightarrow>
        parents_loop (vfs fuel dev) ?u ?g 3 (butlast (split_on slash q)) [] (metadata_overlay (ram_root (w_files w)) []) (w_files w) =
          (Some True, w_files w))"
    for path flag x f
  proof (cases call)
    case Mkdir
    then have "create_directory_with_parents_as (vfs fuel dev) path flag ?u ?g (w_files w) = Some (x, f)" using o by simp
    then obtain r0 fs' where c: "create_directory_overlay path flag ?u ?g (ram_root (w_files w)) = Some (r0, fs')"
        "f = (w_files w)\<lparr>ram_root := fs'\<rparr>" using vfs_writes(5) [OF gd(2)] by blast
    have "read_from_overlay fs' p = read_from_overlay (ram_root (w_files w)) p"
      by (rule mkdir_unchanged [OF g c(1)]) (use one all Mkdir in simp_all)
    then show ?thesis by (simp add: unchanged_def c(2))
  next
    case Touch
    then have "create_file_with_mode_as (vfs fuel dev) path 420 ?u ?g (w_files w) = (x, f)" using o by (simp add: create_file_as_def)
    then obtain r0 fs' where c: "create_file_overlay path 420 ?u ?g (ram_root (w_files w)) = (r0, fs')"
        "f = (w_files w)\<lparr>ram_root := fs'\<rparr>" using vfs_writes(3) [OF gd(2)] by blast
    show ?thesis
      using create_spares [OF gd(1) c(1) gd(4)] one Touch c(2) by (simp add: unchanged_def clear_of_def)
  next
    case Remove
    then have "remove_file (vfs fuel dev) path flag (w_files w) = Some (x, f)" using o by simp
    then obtain r0 fs' where c: "remove_overlay path flag (ram_root (w_files w)) = (r0, fs')"
        "f = (w_files w)\<lparr>ram_root := fs'\<rparr>" using vfs_writes(4) [OF gd(2)] by blast
    show ?thesis
      using remove_spares [OF gd(1) c(1) gd(4)] one Remove c(2) by (simp add: unchanged_def clear_of_def)
  qed
  have "ends (require (if call = Mkdir \<and> flag then recursive_parent_access_allowed (vfs fuel dev) ?u ?g path 3
            else parent_access_allowed (vfs fuel dev) ?u ?g path 3) frame
          (\<lambda>w. tree_result frame (case call of
              Mkdir \<Rightarrow> create_directory_with_parents_as (vfs fuel dev) path flag ?u ?g (w_files w)
            | Touch \<Rightarrow> Some (create_file_as (vfs fuel dev) path ?u ?g (w_files w))
            | Remove \<Rightarrow> remove_file (vfs fuel dev) path flag (w_files w)) w)) w (unchanged p w)" for path flag
  proof -
    let ?P = "if call = Mkdir \<and> flag then (\<forall>q. canonical path = Some q \<longrightarrow> q \<noteq> [] \<longrightarrow>
        parents_loop (vfs fuel dev) ?u ?g 3 (butlast (split_on slash q)) [] (metadata_overlay (ram_root (w_files w)) []) (w_files w) =
          (Some True, w_files w)) else permits (ram_root (w_files w)) ?u ?g (parent_of path) 3"
    have "checks (if call = Mkdir \<and> flag then recursive_parent_access_allowed (vfs fuel dev) ?u ?g path 3
            else parent_access_allowed (vfs fuel dev) ?u ?g path 3) (w_files w) ?P"
      using recursive_outcome [OF gd(2,3)] access_outcome [OF gd(2,3)] by (simp add: parent_access_allowed_def)
    then show ?thesis
    proof (rule ends_require [OF gd(2)])
      assume P: ?P
      have "ends (\<lambda>w. tree_result frame (m (w_files w)) w) w Q = ends (tree_result frame (m (w_files w))) w Q" for m Q
        by (simp add: ends_def)
      moreover have "ends (tree_result frame (case call of
              Mkdir \<Rightarrow> create_directory_with_parents_as (vfs fuel dev) path flag ?u ?g (w_files w)
            | Touch \<Rightarrow> Some (create_file_as (vfs fuel dev) path ?u ?g (w_files w))
            | Remove \<Rightarrow> remove_file (vfs fuel dev) path flag (w_files w))) w (unchanged p w)"
      proof (rule result)
        fix x f assume o: "(case call of Mkdir \<Rightarrow> create_directory_with_parents_as (vfs fuel dev) path flag ?u ?g (w_files w)
          | Touch \<Rightarrow> Some (create_file_as (vfs fuel dev) path ?u ?g (w_files w))
          | Remove \<Rightarrow> remove_file (vfs fuel dev) path flag (w_files w)) = Some (x, f)"
        show "unchanged p w f"
        proof (rule op [OF o])
          show "clear_of p path" if "\<not> (call = Mkdir \<and> flag)" using P that clear_parent [OF gd(6)] by (metis (no_types, lifting))
          show "\<forall>q. canonical path = Some q \<longrightarrow> q \<noteq> [] \<longrightarrow>
            parents_loop (vfs fuel dev) ?u ?g 3 (butlast (split_on slash q)) [] (metadata_overlay (ram_root (w_files w)) []) (w_files w) =
            (Some True, w_files w)" if "call = Mkdir \<and> flag" by (rule P [unfolded if_P [OF that]])
        qed
      qed simp
      ultimately show "ends (\<lambda>w. tree_result frame (case call of
              Mkdir \<Rightarrow> create_directory_with_parents_as (vfs fuel dev) path flag ?u ?g (w_files w)
            | Touch \<Rightarrow> Some (create_file_as (vfs fuel dev) path ?u ?g (w_files w))
            | Remove \<Rightarrow> remove_file (vfs fuel dev) path flag (w_files w)) w) w (unchanged p w)"
        by (simp add: ends_def)
    qed simp
  qed
  then show ?thesis unfolding sys_tree_def Let_def by (auto intro!: ends_copy_path)
qed

end
