(* ===== verification/Path_Permissions.thy ===== *)
theory Path_Permissions
  imports File_Access Kernel_Runs
begin


section \<open>The directories above a path\<close>





lemma child_of_iff: "d \<noteq> [] \<Longrightarrow> is_child q d \<longleftrightarrow> (\<exists>e. q = d @ slash # e)"
  by (auto simp: is_child_def strip_prefix_Some_iff split: option.splits list.splits if_splits)



section \<open>Paths are text\<close>



section \<open>The check\<close>



section \<open>Protected files\<close>

text \<open>
  C15. Files are protected by their permissions. In every state of a run of the volatile root, no
  system call on files (open, read, write, seek, the queries, whole writes, mkdir, touch, rm) of a
  process that is not root changes the contents of a file when the permission bits refuse that
  process to write to the file and to every directory above it; the alias of the installation
  disk below \<open>dev\<close> is not a file of the root and is left out.
\<close>

theorem protected_files_unchanged:
  assumes "ramfs_run (ram_root (w_files w))" "root_backend (w_files w) = RamRoot"
    and "pr_uid (current_process (w_kernel w)) \<noteq> 0" "p \<noteq> disk_path" "\<not> is_child p disk_path"
    and "canonical p = Some p" "p \<noteq> []"
    and "\<forall>q. q = p \<or> is_child p q \<longrightarrow> \<not> permits (ram_root (w_files w)) (pr_uid (current_process (w_kernel w)))
      (pr_gid (current_process (w_kernel w))) q 2"
    and "run_call T (vfs fuel dev) call frame w = (r, w')"
  shows "read_from_overlay (ram_root (w_files w')) p = read_from_overlay (ram_root (w_files w)) p"
proof -
  have g: "guarded p w"
    using assms(1-8) ramfs_run_ok by (auto simp: guarded_def shielded_def below_def)
  have "ends (run_call T (vfs fuel dev) call frame) w (unchanged p w)"
    by (cases call) (simp_all add: open_unchanged [OF g] read_unchanged [OF g] write_unchanged [OF g] seek_unchanged [OF g]
      stat_unchanged [OF g] query_unchanged [OF g] write_file_unchanged [OF g] tree_unchanged [OF g])
  then show ?thesis using assms(9) by (simp add: ends_def unchanged_def)
qed

section \<open>Examples\<close>

text \<open>The file \<open>/a\<close> of root, mode 0644, and a process of user 1000.\<close>

definition guest_kernel :: kernel where
  "guest_kernel = sample_kernel\<lparr>processes := sample_process\<lparr>pr_uid := 1000, pr_gid := 1000\<rparr> # replicate 15 empty_process\<rparr>"

definition a_world :: "sector list roots world" where
  "a_world = \<lparr>w_kernel = guest_kernel, w_files = \<lparr>root_backend = RamRoot, ram_root = a_root, mounted_dfs = None, disk_state = []\<rparr>,
     w_layout = LayoutUs\<rparr>"

definition dumb_terminal :: terminal where
  "dumb_terminal = \<lparr>read_character = (\<lambda>k. (0, k)), console_write = (\<lambda>bytes k. k)\<rparr>"

lemma a_root_facts:
  "ramfs_run a_root" "overlay_node_at a_root [97] = Some a_node" "overlay_node_at a_root [] = None" "archive a_root = Some []"
  "read_from_overlay a_root [97] = Some [1, 2]"
proof -
  show "ramfs_run a_root" by (rule ramfs_run.write_file [OF empty_root_run write_a])
  show node: "overlay_node_at a_root [97] = Some a_node" "overlay_node_at a_root [] = None" "archive a_root = Some []"
    by (simp_all add: a_root_def overlay_node_at_def a_node_def empty_root_lookup find_none empty_overlay_node_def)
  have "\<not> is_hidden a_root [97]" using node by (simp add: is_hidden_def a_node_def)
  then show "read_from_overlay a_root [97] = Some [1, 2]"
    using node by (simp add: read_from_overlay_def a_path node_data_def a_node_def a_root_def slice_def splice_def)
qed

lemma a_root_permits:
  "permits a_root 1000 1000 [97] r = (420 AND r = r)" "permits a_root 1000 1000 [] r = (493 AND r = r)"
proof -
  show "permits a_root 1000 1000 [97] r = (420 AND r = r)"
    using a_root_facts(2) by (simp add: permits_def metadata_overlay_def a_path a_node_def mode_allows_def allows_def Let_def)
  have "on_kind node \<in> {FileNode, EmptyNode}" if "node \<in> set (overlay a_root)" for node
    using that by (auto simp: a_root_def a_node_def empty_overlay_node_def)
  then have "is_directory_overlay a_root []" "archive_metadata [] [] = None"
    using a_root_facts by (fastforce simp: is_directory_overlay_def is_hidden_def empty_archive a_path trim_start_def)+
  then show "permits a_root 1000 1000 [] r = (493 AND r = r)"
    using a_root_facts by (simp add: permits_def metadata_overlay_def a_path plain_metadata_def mode_allows_def allows_def Let_def)
qed


theorem protected_files_unchanged_witness:
  "read_from_overlay (ram_root (w_files (snd (run_call dumb_terminal (vfs 1 memory_disk) (TreeCall Remove) 8 a_world)))) [97] = Some [1, 2]"
proof -
  obtain r w' where r: "run_call dumb_terminal (vfs 1 memory_disk) (TreeCall Remove) 8 a_world = (r, w')" by fastforce
  have user: "pr_uid (current_process (w_kernel a_world)) = 1000" "pr_gid (current_process (w_kernel a_world)) = 1000"
    by (simp_all add: a_world_def guest_kernel_def sample_kernel_def sample_process_def current_process_def)
  have files: "ram_root (w_files a_world) = a_root" "root_backend (w_files a_world) = RamRoot" by (simp_all add: a_world_def)
  have path: "[97] \<noteq> disk_path" "\<not> is_child [97] disk_path" by (auto simp: disk_path_def child_of_iff)
  have "q = [97] \<or> q = []" if "q = [97] \<or> is_child [97] q" for q :: str
    using that by (cases "q = []") (auto simp: child_of_iff Cons_eq_append_conv)
  then have shield: "\<forall>q. q = [97] \<or> is_child [97] q \<longrightarrow> \<not> permits a_root 1000 1000 q 2" using a_root_permits by fastforce
  have "read_from_overlay (ram_root (w_files w')) [97] = read_from_overlay (ram_root (w_files a_world)) [97]"
    by (rule protected_files_unchanged [OF _ _ _ path _ _ _ r]) (use shield in \<open>simp_all add: files user a_root_facts(1) a_path\<close>)
  then show ?thesis using a_root_facts(5) unfolding r files by simp
qed

end
