(* ===== verification/Spec2Isabelle.thy ===== *)
theory Spec2Isabelle
  imports Crypto_Standard Kernel_Log Console_Utf8 Dfs_Mount Boot_Memory Dzimage Memory_Isolation Path_Permissions
begin

text \<open>
  A verification development for ImagineOS, a small operating system for x86-64 written in Rust:
  a bootstrap that unpacks and enters the kernel, a kernel with processes, pipes, signals, two
  file systems and a display registry, and a user land. The development models the bootstrap's
  memory management and image format (\<open>bootstrap/\<close>, \<open>tools/dzpack.rs\<close>) and the kernel
  (\<open>kernel/src/\<close>) with the constants of its interface (\<open>shared/abi/src/lib.rs\<close>).

  \<^bold>\<open>How the parts fit together.\<close> The bootstrap reserves memory, unpacks the kernel image and hands
  the memory map to the kernel, whose frame allocator serves page tables and user pages. The
  process manager owns 16 slots with a trap frame, an address space, signals and an identity
  each, and 16 descriptor tables. Descriptors name pipe ends, whose pipes count their readers
  and writers, or paths. System calls run to completion on the process that made them; they end
  in the frame to resume, which is another one after a context switch. Paths go through the
  virtual file system to the volatile root (an archive below an overlay) or, after
  \<open>pivot_root\<close>, to the journaled file system on disk. Display clients and the display server
  share surfaces and event queues.

  \<^bold>\<open>How code becomes definitions.\<close> A struct is a record and an enum a datatype, with the
  source's fields; machine integers are words, except lengths and indices that cannot wrap, which
  are naturals. An operation is a function from the state to its result and the new state;
  \<open>Result\<close> is a sum with the error on the left, \<open>Option\<close> is \<open>option\<close>, and every early
  return is a branch. A loop is a recursive function of its own, named after its function. What
  the code takes from outside is an argument: the block device, the state of the
  floating-point unit after \<open>fninit\<close>, the contents of \<open>/etc/users.db\<close>, the values of
  \<open>rdrand\<close>, the description of the framebuffer, the console.

  \<^bold>\<open>Shared theories.\<close>
    \<^item> \<open>Prelude\<close>: words, checked and saturating arithmetic, slices, little-endian fields, the
      collection \<open>abi_simps\<close> of numeric constants.
    \<^item> \<open>Io\<close>: computations over a state that stop at the first error, as \<open>?\<close> does.
    \<^item> \<open>Rust_Str\<close>: string slices as byte lists, UTF-8 validity, splitting and trimming.
    \<^item> \<open>Ring_Buffer\<close>: fixed arrays used as rings, and the contracts they are used under, the
      locales \<open>stream_fifo\<close>, \<open>lossy_fifo\<close>, \<open>event_queue\<close> and \<open>evicting_queue\<close>.

  \<^bold>\<open>Boot and images.\<close>
    \<^item> \<open>Frame_Allocator\<close> (\<open>kernel/src/mm/memory.rs\<close>, \<open>bootstrap/boot_info.rs\<close>): regions made of
      the memory map minus the reserved ranges, frames handed out in order; the locale
      \<open>frame_source\<close> is what page tables ask of it.
    \<^item> \<open>Boot_Memory\<close> (\<open>bootstrap/bootstrap.rs\<close>): the contiguous allocator, the pool of page
      tables, sorting and merging the reservations. No frame the kernel hands out lies in
      memory that was in use at boot.
    \<^item> \<open>Dzimage\<close> (\<open>bootstrap/dzimage.rs\<close>, \<open>tools/dzpack.rs\<close>): the LZ4 packer and unpacker of the
      kernel image, their round trip and the reports of progress.
    \<^item> \<open>Elf\<close> (\<open>kernel/src/exec/elf.rs\<close>): the reader of programs; what it accepts is inside the file
      and inside user space.

  \<^bold>\<open>Memory.\<close>
    \<^item> \<open>Paging\<close> (\<open>kernel/src/arch/x86_64/paging.rs\<close>): four-level tables over a byte-addressed
      memory; the machine is the allocator, the memory and CR3.
    \<^item> \<open>User_Memory\<close> (\<open>kernel/src/exec/process.rs\<close>): copies to and from user memory and the loading
      of a program.
    \<^item> \<open>Address_Spaces\<close>, \<open>Space_Operations\<close>: a ghost map from table pages to their owners, and the
      proof that every operation on tables keeps the owners apart.
    \<^item> \<open>Memory_Isolation\<close>: no step of a process changes what another one can read, and no
      byte is reachable from two live processes. Its runs have every call, but no call of
      \<open>SYS_FB_MAP\<close>, \<open>SYS_SURFACE_CREATE\<close> and \<open>SYS_SURFACE_SNAPSHOT\<close>: those share memory by design
      (the framebuffer, and a client's pixels with the display server), and \<open>surface_create\<close> also
      takes one frame for a buffer of 250 KiB.

  \<^bold>\<open>Processes.\<close>
    \<^item> \<open>Pipes\<close> (\<open>kernel/src/ipc.rs\<close>): the pipe table; a pipe is a lossless queue of bytes, the
      tables stay well-formed, and end of file means no writer.
    \<^item> \<open>Process_State\<close>, \<open>Scheduler\<close>, \<open>Process_Ops\<close> (\<open>kernel/src/exec/process.rs\<close>): descriptors and
      slots; context switches, the timer and signals; spawn, execve, fork, waitpid and exit.
    \<^item> \<open>Pipe_References\<close>, \<open>Process_Invariants\<close>, \<open>Kernel_Runs\<close>: the step relation \<open>kernel_step\<close>
      with one rule per operation, runs from boot, and the invariant of the processes. The
      locale \<open>counted_references\<close> ties the counts of a pipe to the descriptors that name it.
    \<^item> \<open>Isolation\<close>: a step changes no other live process but by waking it or by a permitted signal.
    \<^item> \<open>Scheduling\<close>: the round robin is fair, the timer preempts, KILL and STOP cannot be caught, the
      delivery of signals ends. The source's \<open>loop\<close> is \<open>deliver_loop\<close> with eight turns: each turn
      that goes on clears one of the seven valid pending bits, so eight are enough in every run. The
      timer preempts at the tenth tick (\<open>TIMER_QUANTUM_TICKS\<close>); four documents still call
      the scheduler cooperative, which the manifest lists as divergences.
    \<^item> \<open>Display_Calls\<close> (\<open>kernel/src/abi/syscall.rs\<close>): the display calls with their effect on memory.

  \<^bold>\<open>Files.\<close>
    \<^item> \<open>Block_Device\<close> (\<open>kernel/src/drivers/block.rs\<close>): the trait of block devices; the locale
      \<open>working_device\<close> is its contract, interpreted for a memory disk and for a disk with a cache
      whose power may be cut at any write.
    \<^item> \<open>Dfs_Format\<close>, \<open>Dfs_Journal\<close>, \<open>Dfs_Files\<close>, \<open>Dfs_Mount\<close> (\<open>kernel/src/fs/dfs.rs\<close>): sectors of
      inodes and of the superblock with their checksums, the journal, every operation on
      files, formatting and mounting. A commit survives a power cut at any point, with any number of
      interrupted recoveries. Removing a tree has fuel, since a faulty disk can make it
      go on for ever; the value \<open>None\<close> is a removal that did not end and no property assumes it away.
    \<^item> \<open>Ustar_Archive\<close>, \<open>Ramfs\<close>, \<open>Ramfs_Files\<close> (\<open>kernel/src/fs/ramfs.rs\<close>): the archive, the overlay
      above it, and the overlay as a map from paths to contents.
    \<^item> \<open>Vfs\<close> (\<open>kernel/src/fs/vfs.rs\<close> and the functions of \<open>dfs.rs\<close> and \<open>ramfs.rs\<close> around their
      state): the trait \<open>FileSystem\<close>, the choice of the root and \<open>pivot_root\<close>.
    \<^item> \<open>Global_Config\<close> (\<open>kernel/src/config.rs\<close>): the configuration text.
    \<^item> \<open>File_Calls\<close> (\<open>kernel/src/abi/syscall.rs\<close>): every system call on files and descriptors, with the
      permission checks; \<open>File_Access\<close>, \<open>Path_Permissions\<close>: the check is the one of POSIX, and files
      are protected by their permission bits.

  \<^bold>\<open>Devices, accounts, log.\<close>
    \<^item> \<open>Input_Queue\<close> (\<open>kernel/src/input.rs\<close>), \<open>Surfaces\<close> (\<open>kernel/src/surface.rs\<close>), \<open>Kernel_Log\<close>
      (\<open>kernel/src/kernel_log.rs\<close>): the rings of events and of output as bounded queues.
    \<^item> \<open>Console_Utf8\<close> (\<open>kernel/src/console/utf8.rs\<close>): the decoder of the serial port reads every text
      back and recovers after anything else.
    \<^item> \<open>Crypto\<close> (\<open>kernel/src/crypto.rs\<close>) against \<open>Crypto_Standard\<close>, the standards written from their
      texts without a definition of the model; \<open>Accounts\<close> (\<open>kernel/src/accounts.rs\<close>): records of
      users and the login.

  \<^bold>\<open>What is not modelled.\<close> Code in assembly and port I/O (interrupt entry, the drivers of
  keyboard, mouse and disk, serial port, power), the pixels of the console, the installer and
  the partition table, the calls that only report a device's state, and all of the user land,
  which reaches the kernel through the calls modelled here. The manifest lists each part with its
  reason. Interrupts are off while the kernel runs, so an operation is one step; the translation
  cache has no model, every lookup walks the tables.
\<close>

end
